(* ===== verification/Prelude.thy ===== *)
theory Prelude
  imports Main "HOL-Library.Word"
begin

text \<open>
  Shared vocabulary of the development: C++ machine integers over \<^typ>\<open>int\<close> with the wrap-around
  written out, raw memory as a total map from addresses to bytes with the little-endian accessors
  that the \<open>reinterpret_cast\<close> expressions of the sources perform, and the codec interface that the
  serialisation code of the store implements.
\<close>

named_theorems wrap_simps \<open>machine integers that are in range\<close>
named_theorems mem_simps \<open>reads over writes\<close>

section \<open>Machine integers\<close>

text \<open>\<open>s32\<close> is the value a 32-bit two's complement \<open>int\<close> has after an assignment of \<open>x\<close>; the
  unsigned wraps are those of \<open>unsigned int\<close>, \<open>unsigned short\<close> and \<open>unsigned char\<close>.\<close>

definition s32 :: "int \<Rightarrow> int" where
  "s32 x = (x + 2147483648) mod 4294967296 - 2147483648"

definition u32 :: "int \<Rightarrow> int" where
  "u32 x = x mod 4294967296"

definition u16 :: "int \<Rightarrow> int" where
  "u16 x = x mod 65536"

definition u8 :: "int \<Rightarrow> int" where
  "u8 x = x mod 256"

lemma s32_id [wrap_simps]: "-2147483648 \<le> x \<Longrightarrow> x < 2147483648 \<Longrightarrow> s32 x = x"
  by (simp add: s32_def)

lemma u32_id [wrap_simps]: "0 \<le> x \<Longrightarrow> x < 4294967296 \<Longrightarrow> u32 x = x"
  by (simp add: u32_def)

lemma u16_id [wrap_simps]: "0 \<le> x \<Longrightarrow> x < 65536 \<Longrightarrow> u16 x = x"
  by (simp add: u16_def)

lemma u8_id [wrap_simps]: "0 \<le> x \<Longrightarrow> x < 256 \<Longrightarrow> u8 x = x"
  by (simp add: u8_def)

lemma s32_bounds: "-2147483648 \<le> s32 x" "s32 x < 2147483648"
  by (simp_all add: s32_def)

lemma u32_bounds: "0 \<le> u32 x" "u32 x < 4294967296"
  by (simp_all add: u32_def)

lemma u16_bounds: "0 \<le> u16 x" "u16 x < 65536"
  by (simp_all add: u16_def)

lemma s32_mod [simp]: "s32 (x mod 4294967296) = s32 x"
  by (simp add: s32_def mod_simps)

lemma u32_1 [simp]: "u32 1 = 1"
  by (simp add: u32_def)

lemma s32_u32 [simp]: "s32 (u32 x) = s32 x"
  by (simp add: u32_def)

lemma u32_s32 [simp]: "u32 (s32 x) = u32 x"
  by (simp add: u32_def s32_def mod_simps)

lemma s32_s32 [simp]: "s32 (s32 x) = s32 x"
  by (simp add: s32_id s32_bounds)

section \<open>Faults\<close>

text \<open>
  What ends a C++ call other than by returning: \<open>exit\<close>, a dereferenced null pointer, a dereferenced
  end iterator, a read of a variable never written, a \<open>std::length_error\<close>, a failed \<open>assert\<close>.
  \<open>OutOfFuel\<close> stands for a loop that has not ended within the fuel it was given. A fault is the left
  value of a sum.
\<close>

datatype fault = ProcessExit int | NullDereference | EndIteratorDereference | IndeterminateRead
  | LengthError | AssertionFailure | OutOfFuel

section \<open>Bytes and little-endian integers\<close>

type_synonym byte = "8 word"

primrec le_bytes :: "nat \<Rightarrow> int \<Rightarrow> byte list" where
  "le_bytes 0 v = []"
| "le_bytes (Suc n) v = word_of_int v # le_bytes n (v div 256)"

primrec le_int :: "byte list \<Rightarrow> int" where
  "le_int [] = 0"
| "le_int (b # bs) = uint b + 256 * le_int bs"

lemma le_bytes_numeral:
  "le_bytes (numeral k) v = word_of_int v # le_bytes (pred_numeral k) (v div 256)"
  by (simp add: numeral_eq_Suc)

lemma length_le_bytes [simp]: "length (le_bytes n v) = n"
  by (induction n arbitrary: v) auto

lemma le_int_le_bytes: "le_int (le_bytes n v) = v mod 256 ^ n"
proof (induction n arbitrary: v)
  case 0
  then show ?case by simp
next
  case (Suc n)
  have "v mod (256 * 256 ^ n) = 256 * (v div 256 mod 256 ^ n) + v mod 256"
    by (rule zmod_zmult2_eq) simp
  with Suc show ?case
    by (simp add: unsigned_of_int take_bit_eq_mod)
qed

lemma le_int_bounds: "0 \<le> le_int bs \<and> le_int bs < 256 ^ length bs"
proof (induction bs)
  case Nil
  then show ?case by simp
next
  case (Cons b bs)
  have "uint b < 256"
    using uint_bounded [of b] by simp
  then have "uint b \<le> 255"
    by simp
  moreover from Cons have "le_int bs \<le> 256 ^ length bs - 1"
    by simp
  ultimately have "uint b + 256 * le_int bs \<le> 255 + 256 * (256 ^ length bs - 1)"
    by (intro add_mono mult_left_mono) auto
  with Cons show ?case
    by simp
qed

text \<open>A \<open>char\<close> of a \<open>std::string\<close> and the byte that holds it.\<close>

definition byte_of_char :: "char \<Rightarrow> byte" where
  "byte_of_char c = word_of_int (of_char c)"

definition char_of_byte :: "byte \<Rightarrow> char" where
  "char_of_byte b = char_of (uint b)"

lemma char_of_byte_of_char [simp]: "char_of_byte (byte_of_char c) = c"
proof -
  have "(of_char c :: int) mod 256 = of_char c"
    by (simp add: of_char_mod_256)
  then show ?thesis
    by (simp add: byte_of_char_def char_of_byte_def unsigned_of_int take_bit_eq_mod)
qed

lemma chars_of_bytes_of_chars [simp]: "map (char_of_byte \<circ> byte_of_char) s = s"
  by (induction s) auto

section \<open>Raw memory\<close>

text \<open>
  An address is an \<^typ>\<open>int\<close>, so that an address computed below the start of an array stays visible
  as a negative address instead of being clipped.
\<close>

type_synonym mem = "int \<Rightarrow> byte"

definition getbytes :: "mem \<Rightarrow> int \<Rightarrow> nat \<Rightarrow> byte list" where
  "getbytes m a n = map (\<lambda>i. m (a + int i)) [0..<n]"

definition putbytes :: "mem \<Rightarrow> int \<Rightarrow> byte list \<Rightarrow> mem" where
  "putbytes m a bs = (\<lambda>x. if a \<le> x \<and> x < a + int (length bs) then bs ! nat (x - a) else m x)"

definition memset :: "mem \<Rightarrow> int \<Rightarrow> byte \<Rightarrow> int \<Rightarrow> mem" where
  "memset m a v n = (\<lambda>x. if a \<le> x \<and> x < a + n then v else m x)"

definition memmove :: "mem \<Rightarrow> int \<Rightarrow> int \<Rightarrow> int \<Rightarrow> mem" where
  "memmove m dst src n = (\<lambda>x. if dst \<le> x \<and> x < dst + n then m (src + (x - dst)) else m x)"

definition get_u32 :: "mem \<Rightarrow> int \<Rightarrow> int" where
  "get_u32 m a = le_int (getbytes m a 4)"

definition get_s32 :: "mem \<Rightarrow> int \<Rightarrow> int" where
  "get_s32 m a = s32 (le_int (getbytes m a 4))"

definition get_u16 :: "mem \<Rightarrow> int \<Rightarrow> int" where
  "get_u16 m a = le_int (getbytes m a 2)"

definition put_32 :: "mem \<Rightarrow> int \<Rightarrow> int \<Rightarrow> mem" where
  "put_32 m a v = putbytes m a (le_bytes 4 v)"

definition put_16 :: "mem \<Rightarrow> int \<Rightarrow> int \<Rightarrow> mem" where
  "put_16 m a v = putbytes m a (le_bytes 2 v)"

text \<open>\<open>holds m a bs\<close>: the bytes \<open>bs\<close> lie in memory at address \<open>a\<close>.\<close>

definition holds :: "mem \<Rightarrow> int \<Rightarrow> byte list \<Rightarrow> bool" where
  "holds m a bs \<longleftrightarrow> getbytes m a (length bs) = bs"

lemma length_getbytes [simp]: "length (getbytes m a n) = n"
  by (simp add: getbytes_def)

lemma nth_getbytes [simp]: "i < n \<Longrightarrow> getbytes m a n ! i = m (a + int i)"
  by (simp add: getbytes_def)

lemma getbytes_0 [simp]: "getbytes m a 0 = []"
  by (simp add: getbytes_def)

lemma getbytes_eq_iff:
  "getbytes m a n = getbytes m' b n \<longleftrightarrow> (\<forall>i<n. m (a + int i) = m' (b + int i))"
  by (auto simp: list_eq_iff_nth_eq)

lemma getbytes_add: "getbytes m a (n + k) = getbytes m a n @ getbytes m (a + int n) k"
  by (rule nth_equalityI) (auto simp: nth_append algebra_simps)

lemma getbytes_cong:
  "(\<And>x. a \<le> x \<Longrightarrow> x < a + int n \<Longrightarrow> m x = m' x) \<Longrightarrow> getbytes m a n = getbytes m' a n"
  by (simp add: getbytes_eq_iff)

lemma getbytes_Suc: "getbytes m a (Suc n) = m a # getbytes m (a + 1) n"
  by (rule nth_equalityI) (auto simp: nth_Cons algebra_simps split: nat.splits)

lemma putbytes_Nil [simp]: "putbytes m a [] = m"
  by (rule ext) (auto simp: putbytes_def)

lemma putbytes_apply_out [mem_simps]:
  "x < a \<or> a + int (length bs) \<le> x \<Longrightarrow> putbytes m a bs x = m x"
  by (auto simp: putbytes_def)

lemma getbytes_putbytes_same [mem_simps]: "n = length bs \<Longrightarrow> getbytes (putbytes m a bs) a n = bs"
  by (rule nth_equalityI) (auto simp: putbytes_def)

lemma getbytes_putbytes_disj [mem_simps]:
  "a + int (length bs) \<le> b \<or> b + int n \<le> a \<Longrightarrow> getbytes (putbytes m a bs) b n = getbytes m b n"
  by (rule getbytes_cong) (auto simp: putbytes_def)

lemma getbytes_memset_disj [mem_simps]:
  "a + n \<le> b \<or> b + int k \<le> a \<Longrightarrow> getbytes (memset m a v n) b k = getbytes m b k"
  by (rule getbytes_cong) (auto simp: memset_def)

lemma getbytes_memmove_disj [mem_simps]:
  "dst + n \<le> b \<or> b + int k \<le> dst \<Longrightarrow> getbytes (memmove m dst src n) b k = getbytes m b k"
  by (rule getbytes_cong) (auto simp: memmove_def)

lemma getbytes_memmove_same [mem_simps]:
  "n = int k \<Longrightarrow> getbytes (memmove m dst src n) dst k = getbytes m src k"
  by (rule nth_equalityI) (auto simp: memmove_def)

lemma put_32_apply_out [mem_simps]: "x < a \<or> a + 4 \<le> x \<Longrightarrow> put_32 m a v x = m x"
  by (simp add: put_32_def mem_simps)

lemma put_16_apply_out [mem_simps]: "x < a \<or> a + 2 \<le> x \<Longrightarrow> put_16 m a v x = m x"
  by (simp add: put_16_def mem_simps)

lemma getbytes_put_32_disj [mem_simps]:
  "a + 4 \<le> b \<or> b + int n \<le> a \<Longrightarrow> getbytes (put_32 m a v) b n = getbytes m b n"
  by (simp add: put_32_def mem_simps)

lemma getbytes_put_16_disj [mem_simps]:
  "a + 2 \<le> b \<or> b + int n \<le> a \<Longrightarrow> getbytes (put_16 m a v) b n = getbytes m b n"
  by (simp add: put_16_def mem_simps)

lemma get_u32_put_32 [mem_simps]: "get_u32 (put_32 m a v) a = u32 v"
  by (simp add: get_u32_def put_32_def getbytes_putbytes_same le_int_le_bytes u32_def)

lemma get_s32_put_32 [mem_simps]: "get_s32 (put_32 m a v) a = s32 v"
  by (simp add: get_s32_def put_32_def getbytes_putbytes_same le_int_le_bytes)

lemma get_u16_put_16 [mem_simps]: "get_u16 (put_16 m a v) a = u16 v"
  by (simp add: get_u16_def put_16_def getbytes_putbytes_same le_int_le_bytes u16_def)

lemma get_s32_put_32_disj [mem_simps]:
  "a + 4 \<le> b \<or> b + 4 \<le> a \<Longrightarrow> get_s32 (put_32 m a v) b = get_s32 m b"
  by (simp add: get_s32_def getbytes_put_32_disj)

lemma get_u32_put_32_disj [mem_simps]:
  "a + 4 \<le> b \<or> b + 4 \<le> a \<Longrightarrow> get_u32 (put_32 m a v) b = get_u32 m b"
  by (simp add: get_u32_def getbytes_put_32_disj)

lemma get_s32_putbytes_disj [mem_simps]:
  "a + int (length bs) \<le> b \<or> b + 4 \<le> a \<Longrightarrow> get_s32 (putbytes m a bs) b = get_s32 m b"
  by (simp add: get_s32_def getbytes_putbytes_disj)

lemma get_u32_putbytes_disj [mem_simps]:
  "a + int (length bs) \<le> b \<or> b + 4 \<le> a \<Longrightarrow> get_u32 (putbytes m a bs) b = get_u32 m b"
  by (simp add: get_u32_def getbytes_putbytes_disj)

lemma get_s32_memmove_disj [mem_simps]:
  "dst + n \<le> b \<or> b + 4 \<le> dst \<Longrightarrow> get_s32 (memmove m dst src n) b = get_s32 m b"
  by (simp add: get_s32_def getbytes_memmove_disj)

lemma get_s32_memset_disj [mem_simps]:
  "a + n \<le> b \<or> b + 4 \<le> a \<Longrightarrow> get_s32 (memset m a v n) b = get_s32 m b"
  by (simp add: get_s32_def getbytes_memset_disj)

lemma get_u32_memset_disj [mem_simps]:
  "a + n \<le> b \<or> b + 4 \<le> a \<Longrightarrow> get_u32 (memset m a v n) b = get_u32 m b"
  by (simp add: get_u32_def getbytes_memset_disj)

lemma get_put_16_disj [mem_simps]:
  "a + 2 \<le> b \<or> b + 4 \<le> a \<Longrightarrow> get_s32 (put_16 m a v) b = get_s32 m b"
  "a + 2 \<le> b \<or> b + 4 \<le> a \<Longrightarrow> get_u32 (put_16 m a v) b = get_u32 m b"
  by (simp_all add: get_s32_def get_u32_def getbytes_put_16_disj)

lemma get_u32_bounds: "0 \<le> get_u32 m a" "get_u32 m a < 4294967296"
  using le_int_bounds [of "getbytes m a 4"] by (simp_all add: get_u32_def)

lemma get_s32_bounds: "-2147483648 \<le> get_s32 m a" "get_s32 m a < 2147483648"
  by (simp_all add: get_s32_def s32_bounds)

lemma holds_Nil [simp]: "holds m a []"
  by (simp add: holds_def)

lemma holds_append: "holds m a (xs @ ys) \<longleftrightarrow> holds m a xs \<and> holds m (a + int (length xs)) ys"
  by (auto simp: holds_def getbytes_add)

lemma holds_cons: "holds m a (x # xs) \<longleftrightarrow> m a = x \<and> holds m (a + 1) xs"
  by (auto simp: holds_def getbytes_Suc)

lemma holds_nth: "holds m a xs \<Longrightarrow> i < length xs \<Longrightarrow> m (a + int i) = xs ! i"
  by (metis holds_def nth_getbytes)

lemma holds_putbytes [simp]: "holds (putbytes m a bs) a bs"
  by (simp add: holds_def getbytes_putbytes_same)

lemma holds_u32: "holds m a (le_bytes 4 v) \<Longrightarrow> get_u32 m a = u32 v"
  by (simp add: holds_def get_u32_def le_int_le_bytes u32_def)

lemma holds_s32: "holds m a (le_bytes 4 v) \<Longrightarrow> get_s32 m a = s32 v"
  by (simp add: holds_def get_s32_def le_int_le_bytes)

lemma holds_u16: "holds m a (le_bytes 2 v) \<Longrightarrow> get_u16 m a = u16 v"
  by (simp add: holds_def get_u16_def le_int_le_bytes u16_def)

section \<open>Codecs\<close>

text \<open>
  The contract between a serialiser that appends bytes and a deserialiser that reads them back from
  raw memory without knowing where they end: from memory that holds the encoding of a well-formed
  value, the decoder returns that value (up to the normal form \<open>nf\<close> the decoder rebuilds) and the
  number of bytes to advance.
\<close>

locale codec =
  fixes ok :: "'a \<Rightarrow> bool"
    and enc :: "'a \<Rightarrow> byte list"
    and dec :: "mem \<Rightarrow> int \<Rightarrow> 'b \<times> int"
    and nf :: "'a \<Rightarrow> 'b"
  assumes decode: "ok x \<Longrightarrow> holds m p (enc x) \<Longrightarrow> dec m p = (nf x, int (length (enc x)))"
begin

text \<open>Reading \<open>n\<close> consecutive values, as the loops over vectors and sets do.\<close>

primrec dec_n :: "nat \<Rightarrow> mem \<Rightarrow> int \<Rightarrow> 'b list \<times> int" where
  "dec_n 0 m p = ([], p)"
| "dec_n (Suc n) m p =
     (let (x, used) = dec m p; (xs, q) = dec_n n m (p + used) in (x # xs, q))"

lemma dec_n_concat:
  assumes "\<forall>x\<in>set xs. ok x" and "holds m p (concat (map enc xs))"
  shows "dec_n (length xs) m p = (map nf xs, p + int (length (concat (map enc xs))))"
  using assms
proof (induction xs arbitrary: p)
  case Nil
  then show ?case by simp
next
  case (Cons x xs)
  then have "holds m p (enc x)" and rest: "holds m (p + int (length (enc x))) (concat (map enc xs))"
    by (simp_all add: holds_append)
  with Cons.prems have "dec m p = (nf x, int (length (enc x)))"
    by (intro decode) auto
  moreover have "dec_n (length xs) m (p + int (length (enc x)))
      = (map nf xs, p + int (length (enc x)) + int (length (concat (map enc xs))))"
    using Cons.prems by (intro Cons.IH rest) auto
  ultimately show ?case
    by simp
qed

text \<open>Two well-formed values with the same encoding have the same normal form.\<close>

lemma enc_injective: "ok x \<Longrightarrow> ok y \<Longrightarrow> enc x = enc y \<Longrightarrow> nf x = nf y"
  using decode [of x "putbytes (\<lambda>_. 0) 0 (enc x)" 0] decode [of y "putbytes (\<lambda>_. 0) 0 (enc x)" 0]
  by simp

end

end
