(* ===== verification/StoreTypes.thy ===== *)
theory StoreTypes
  imports Prelude
begin

text \<open>
  The data the store is made of (Store/Struct.h, Store/Store.h): page constants and physical
  identifiers, the \<open>Serialized\<close> byte buffer (Store/Misc.cpp), logical identifiers
  (Store/DBLogicalID.cpp), physical identifiers (Store/DBPhysicalID.cpp) and the hash set of
  logical identifiers. The lemmas show that \<open>Serialized\<close> appends, whatever its spare capacity, and
  that a logical identifier survives serialisation.
\<close>

section \<open>Constants and physical identifiers\<close>

definition STORE_PAGESIZE :: int where "STORE_PAGESIZE = 16384"

definition STORE_FILE_DEFAULT :: int where "STORE_FILE_DEFAULT = 1"
definition STORE_FILE_MAP :: int where "STORE_FILE_MAP = 65296"
definition STORE_FILE_ROOTS :: int where "STORE_FILE_ROOTS = 65312"
definition STORE_FILE_VIEWS :: int where "STORE_FILE_VIEWS = 65328"
definition STORE_FILE_CLASSES :: int where "STORE_FILE_CLASSES = 65344"
definition STORE_FILE_INTERFACES :: int where "STORE_FILE_INTERFACES = 65360"
definition STORE_FILE_SCHEMAS :: int where "STORE_FILE_SCHEMAS = 65376"

definition STORE_PAGE_DATAHEADER :: int where "STORE_PAGE_DATAHEADER = 1"
definition STORE_PAGE_DATAPAGE :: int where "STORE_PAGE_DATAPAGE = 2"
definition STORE_PAGE_MAPHEADER :: int where "STORE_PAGE_MAPHEADER = 4097"
definition STORE_PAGE_MAPPAGE :: int where "STORE_PAGE_MAPPAGE = 4098"
definition STORE_PAGE_ROOTSHEADER :: int where "STORE_PAGE_ROOTSHEADER = 8193"
definition STORE_PAGE_ROOTSPAGE :: int where "STORE_PAGE_ROOTSPAGE = 8194"
definition STORE_PAGE_VIEWSHEADER :: int where "STORE_PAGE_VIEWSHEADER = 12289"
definition STORE_PAGE_VIEWSPAGE :: int where "STORE_PAGE_VIEWSPAGE = 12290"
definition STORE_PAGE_CLASSESHEADER :: int where "STORE_PAGE_CLASSESHEADER = 16385"
definition STORE_PAGE_CLASSESPAGE :: int where "STORE_PAGE_CLASSESPAGE = 16386"
definition STORE_PAGE_INTERFACESHEADER :: int where "STORE_PAGE_INTERFACESHEADER = 20481"
definition STORE_PAGE_INTERFACESPAGE :: int where "STORE_PAGE_INTERFACESPAGE = 20482"
definition STORE_PAGE_SCHEMASHEADER :: int where "STORE_PAGE_SCHEMASHEADER = 24577"
definition STORE_PAGE_SCHEMASPAGE :: int where "STORE_PAGE_SCHEMASPAGE = 24578"

lemmas store_consts = STORE_PAGESIZE_def STORE_FILE_DEFAULT_def STORE_FILE_MAP_def
  STORE_FILE_ROOTS_def STORE_FILE_VIEWS_def STORE_FILE_CLASSES_def STORE_FILE_INTERFACES_def
  STORE_FILE_SCHEMAS_def STORE_PAGE_DATAHEADER_def STORE_PAGE_DATAPAGE_def
  STORE_PAGE_MAPHEADER_def STORE_PAGE_MAPPAGE_def
  STORE_PAGE_ROOTSHEADER_def STORE_PAGE_ROOTSPAGE_def
  STORE_PAGE_VIEWSHEADER_def STORE_PAGE_VIEWSPAGE_def
  STORE_PAGE_CLASSESHEADER_def STORE_PAGE_CLASSESPAGE_def
  STORE_PAGE_INTERFACESHEADER_def STORE_PAGE_INTERFACESPAGE_def
  STORE_PAGE_SCHEMASHEADER_def STORE_PAGE_SCHEMASPAGE_def

record physical_id =
  page_id :: int
  file_id :: int
  offset :: int

text \<open>The eight bytes of a \<open>physical_id\<close> as they lie in a map page.\<close>

definition pid_bytes :: "physical_id \<Rightarrow> byte list" where
  "pid_bytes p = le_bytes 4 (page_id p) @ le_bytes 2 (file_id p) @ le_bytes 2 (offset p)"

definition pid_read :: "mem \<Rightarrow> int \<Rightarrow> physical_id" where
  "pid_read m a = \<lparr>page_id = get_u32 m a, file_id = get_u16 m (a + 4), offset = get_u16 m (a + 6)\<rparr>"

definition pid_wf :: "physical_id \<Rightarrow> bool" where
  "pid_wf p \<longleftrightarrow> 0 \<le> page_id p \<and> page_id p < 4294967296 \<and> 0 \<le> file_id p \<and> file_id p < 65536
     \<and> 0 \<le> offset p \<and> offset p < 65536"

text \<open>\<open>Map::RIP\<close>: the bit pattern of a deleted object, \<open>memset(RIP, 0xFF, sizeof(physical_id))\<close>.\<close>

definition RIP :: physical_id where
  "RIP = \<lparr>page_id = 4294967295, file_id = 65535, offset = 65535\<rparr>"

text \<open>\<open>class DBPhysicalID\<close>: its fields are those of the \<open>physical_id\<close> it is built from.\<close>

definition getLockAddress :: "physical_id \<Rightarrow> int" where
  "getLockAddress p = page_id p * 4294967296 + file_id p * 65536 + 0"

lemma length_pid_bytes [simp]: "length (pid_bytes p) = 8"
  by (simp add: pid_bytes_def)

lemma pid_read_holds: "pid_wf p \<Longrightarrow> holds m a (pid_bytes p) \<Longrightarrow> pid_read m a = p"
proof -
  assume "pid_wf p" and h: "holds m a (pid_bytes p)"
  from h have "get_u32 m a = u32 (page_id p)" "get_u16 m (a + 4) = u16 (file_id p)"
    "get_u16 m (a + 6) = u16 (offset p)"
    by (simp_all add: pid_bytes_def holds_append holds_u32 holds_u16 add.commute [of 6])
  with \<open>pid_wf p\<close> show ?thesis
    by (simp add: pid_read_def pid_wf_def wrap_simps)
qed

lemma pid_wf_RIP [simp]: "pid_wf RIP"
  by (simp add: pid_wf_def RIP_def)

lemma RIP_bytes: "pid_bytes RIP = [-1, -1, -1, -1, -1, -1, -1, -1]"
  by (simp add: pid_bytes_def RIP_def le_bytes_numeral)

lemma pid_read_wf [simp]: "pid_wf (pid_read m a)"
  using le_int_bounds [of "getbytes m a 4"] le_int_bounds [of "getbytes m (a + 4) 2"]
    le_int_bounds [of "getbytes m (a + 6) 2"]
  by (simp add: pid_wf_def pid_read_def get_u32_def get_u16_def)

section \<open>Serialized\<close>

text \<open>
  \<open>bytes\<close> is an array of \<open>ser_realsize\<close> cells of which the first \<open>size\<close> are in use; \<^const>\<open>None\<close> is a cell
  that \<open>new unsigned char[]\<close> left indeterminate. A null \<open>bytes\<close> is the array without cells.
\<close>

record serialized =
  cells :: "byte option list"
  ser_size :: nat
  ser_realsize :: nat

definition copy_cells :: "'a list \<Rightarrow> nat \<Rightarrow> 'a list \<Rightarrow> nat \<Rightarrow> 'a list" where
  "copy_cells dst off src n = fold (\<lambda>i d. d[off + i := src ! i]) [0..<n] dst"

definition ser_empty :: serialized where
  "ser_empty = \<lparr>cells = [], ser_size = 0, ser_realsize = 0\<rparr>"

definition ser_new :: "nat \<Rightarrow> serialized" where
  "ser_new psize = \<lparr>cells = replicate psize None, ser_size = psize, ser_realsize = psize\<rparr>"

definition ser_copy :: "serialized \<Rightarrow> serialized" where
  "ser_copy s = \<lparr>cells = copy_cells (replicate (ser_size s) None) 0 (cells s) (ser_size s),
                 ser_size = ser_size s, ser_realsize = ser_size s\<rparr>"

definition ser_append :: "serialized \<Rightarrow> serialized \<Rightarrow> serialized" where
  "ser_append s t =
     (if ser_size t > 0 then
        (let s' = (if ser_realsize s - ser_size s < ser_size t
                   then let rs = (ser_size s + ser_size t) * 2;
                            newbin = copy_cells (replicate rs None) 0 (cells s) (ser_size s);
                            newbin = copy_cells newbin (ser_size s) (cells t) (ser_size t)
                        in s\<lparr>cells := newbin, ser_realsize := rs\<rparr>
                   else s\<lparr>cells := copy_cells (cells s) (ser_size s) (cells t) (ser_size t)\<rparr>)
         in s'\<lparr>ser_size := ser_size s' + ser_size t\<rparr>)
      else s)"

definition ser_of_bytes :: "byte list \<Rightarrow> serialized" where
  "ser_of_bytes bs = (ser_new (length bs))\<lparr>cells := map Some bs\<rparr>"

definition ser_add_int :: "serialized \<Rightarrow> int \<Rightarrow> serialized" where
  "ser_add_int s v = ser_append s (ser_of_bytes (le_bytes 4 v))"

definition ser_add_double :: "serialized \<Rightarrow> 64 word \<Rightarrow> serialized" where
  "ser_add_double s v = ser_append s (ser_of_bytes (le_bytes 8 (uint v)))"

definition ser_add_string :: "serialized \<Rightarrow> string \<Rightarrow> serialized" where
  "ser_add_string s str =
     (let slen = length str;
          z = ser_new (4 + slen);
          z = z\<lparr>cells := copy_cells (cells z) 0 (map Some (le_bytes 4 (int slen))) 4\<rparr>;
          z = z\<lparr>cells := copy_cells (cells z) 4 (map (Some \<circ> byte_of_char) str) slen\<rparr>
      in ser_append s z)"

definition ser_inv :: "serialized \<Rightarrow> bool" where
  "ser_inv s \<longleftrightarrow> length (cells s) = ser_realsize s \<and> ser_size s \<le> ser_realsize s
     \<and> (\<forall>i < ser_size s. cells s ! i \<noteq> None)"

definition ser_content :: "serialized \<Rightarrow> byte list" where
  "ser_content s = map the (take (ser_size s) (cells s))"

lemma copy_cells_Suc:
  "copy_cells dst off src (Suc n) = (copy_cells dst off src n)[off + n := src ! n]"
  by (simp add: copy_cells_def)

lemma length_copy_cells [simp]: "length (copy_cells dst off src n) = length dst"
  by (induction n) (simp_all add: copy_cells_Suc, simp add: copy_cells_def)

lemma copy_cells_eq:
  assumes "off + n \<le> length dst" "n \<le> length src"
  shows "copy_cells dst off src n = take off dst @ take n src @ drop (off + n) dst"
  using assms
proof (induction n)
  case 0
  then show ?case by (simp add: copy_cells_def)
next
  case (Suc n)
  then have "copy_cells dst off src (Suc n)
      = (take off dst @ take n src @ drop (off + n) dst)[off + n := src ! n]"
    by (simp add: copy_cells_Suc)
  also have "\<dots> = take off dst @ take n src @ (drop (off + n) dst)[0 := src ! n]"
    using Suc.prems by (simp add: list_update_append min_def)
  also have "(drop (off + n) dst)[0 := src ! n] = src ! n # drop (Suc (off + n)) dst"
    using Suc.prems by (subst Cons_nth_drop_Suc [symmetric]) simp_all
  finally show ?case
    using Suc.prems by (simp add: take_Suc_conv_app_nth)
qed

text \<open>
  What the serialisers of the store rely on: appending buffers appends contents. The law is proved
  once for a list of pieces.
\<close>

locale appender =
  fixes inv :: "'s \<Rightarrow> bool"
    and content :: "'s \<Rightarrow> 'b list"
    and append_to :: "'s \<Rightarrow> 's \<Rightarrow> 's"
  assumes inv_append: "inv s \<Longrightarrow> inv t \<Longrightarrow> inv (append_to s t)"
    and content_append: "inv s \<Longrightarrow> inv t \<Longrightarrow> content (append_to s t) = content s @ content t"
begin

lemma fold_append:
  assumes "inv s" "\<And>x. x \<in> set xs \<Longrightarrow> inv (f x)"
  shows "inv (fold (\<lambda>x a. append_to a (f x)) xs s)
    \<and> content (fold (\<lambda>x a. append_to a (f x)) xs s) = content s @ concat (map (content \<circ> f) xs)"
  using assms
proof (induction xs arbitrary: s)
  case (Cons x xs)
  then have "inv (append_to s (f x))" "content (append_to s (f x)) = content s @ content (f x)"
    by (auto intro: inv_append simp: content_append)
  with Cons show ?case by simp
qed simp

end

lemma ser_inv_take: "ser_inv s \<Longrightarrow> take (ser_size s) (cells s) = map Some (ser_content s)"
  by (rule nth_equalityI) (auto simp: ser_inv_def ser_content_def)

lemma ser_append_eq:
  assumes "ser_inv s" "ser_inv t"
  shows "ser_inv (ser_append s t) \<and> ser_content (ser_append s t) = ser_content s @ ser_content t"
proof (cases "ser_size t = 0")
  case True
  with assms show ?thesis
    by (simp add: ser_append_def ser_content_def)
next
  case False
  let ?u = "ser_append s t"
  from assms have len: "ser_size s \<le> length (cells s)" "ser_size t \<le> length (cells t)"
    by (auto simp: ser_inv_def)
  have pre: "take (ser_size s + ser_size t) (cells ?u) = take (ser_size s) (cells s) @ take (ser_size t) (cells t)"
    and sz: "ser_size ?u = ser_size s + ser_size t"
    and bounds: "length (cells ?u) = ser_realsize ?u" "ser_size ?u \<le> ser_realsize ?u"
    using False assms len
    by (auto simp: ser_append_def Let_def copy_cells_eq ser_inv_def min_def)
  have all_some: "take (ser_size ?u) (cells ?u) = map Some (ser_content s @ ser_content t)"
    using pre sz assms by (simp add: ser_inv_take)
  have "\<forall>i < ser_size ?u. cells ?u ! i \<noteq> None"
  proof (intro allI impI)
    fix i assume i: "i < ser_size ?u"
    have "cells ?u ! i = take (ser_size ?u) (cells ?u) ! i"
      using i by simp
    also have "\<dots> = Some ((ser_content s @ ser_content t) ! i)"
      unfolding all_some using i bounds(1,2) arg_cong [OF all_some, of length] by (simp del: map_append)
    finally show "cells ?u ! i \<noteq> None" by simp
  qed
  moreover have "ser_content ?u = ser_content s @ ser_content t"
    using all_some by (simp add: ser_content_def)
  ultimately show ?thesis
    using bounds by (simp add: ser_inv_def)
qed

interpretation ser: appender ser_inv ser_content ser_append
  by unfold_locales (simp_all add: ser_append_eq)

lemma ser_empty_simps [simp]: "ser_inv ser_empty" "ser_content ser_empty = []"
  by (simp_all add: ser_inv_def ser_content_def ser_empty_def)

lemma ser_of_bytes_simps [simp]:
  "ser_inv (ser_of_bytes bs)" "ser_content (ser_of_bytes bs) = bs"
  by (simp_all add: ser_inv_def ser_content_def ser_of_bytes_def ser_new_def comp_def)

lemma ser_copy_simps [simp]:
  "ser_inv s \<Longrightarrow> ser_inv (ser_copy s)" "ser_inv s \<Longrightarrow> ser_content (ser_copy s) = ser_content s"
  by (auto simp: ser_inv_def ser_copy_def copy_cells_eq ser_content_def)

definition string_bytes :: "string \<Rightarrow> byte list" where
  "string_bytes str = le_bytes 4 (int (length str)) @ map byte_of_char str"

lemma ser_add_simps [simp]:
  "ser_inv s \<Longrightarrow> ser_inv (ser_add_int s v)"
  "ser_inv s \<Longrightarrow> ser_content (ser_add_int s v) = ser_content s @ le_bytes 4 v"
  "ser_inv s \<Longrightarrow> ser_inv (ser_add_double s d)"
  "ser_inv s \<Longrightarrow> ser_content (ser_add_double s d) = ser_content s @ le_bytes 8 (uint d)"
  by (simp_all add: ser_add_int_def ser_add_double_def ser_append_eq)

lemma ser_add_string_eq:
  "ser_add_string s str = ser_append s (ser_of_bytes (string_bytes str))"
  by (simp add: ser_add_string_def ser_of_bytes_def ser_new_def string_bytes_def copy_cells_eq Let_def)

lemma ser_add_string_simps [simp]:
  "ser_inv s \<Longrightarrow> ser_inv (ser_add_string s str)"
  "ser_inv s \<Longrightarrow> ser_content (ser_add_string s str) = ser_content s @ string_bytes str"
  by (simp_all add: ser_add_string_eq ser_append_eq)

end
