(* ===== verification/LogicalIDs.thy ===== *)
theory LogicalIDs
  imports StoreTypes
begin

text \<open>
  Logical identifiers (Store/DBLogicalID.cpp) and sets of them (Store/Store.h, \<open>SetOfLids\<close>): the
  constructors, the clone, assignment and comparison, and the four-byte serialisation. The codec
  interface of the prelude is interpreted here for logical identifiers.
\<close>

section \<open>DBLogicalID\<close>

text \<open>
  \<open>port\<close> is never initialised by a constructor, hence an option. The pointers \<open>remoteID\<close> and
  \<open>directParentID\<close> are modelled by what they point to, a null pointer by \<^const>\<open>None\<close>.
\<close>

datatype lid = DBLogicalID
  (server: string) (port: "int option") (lvalue: int)
  (remoteID: "lid option") (directParentID: "lid option") (parentRoot: string)

definition lid_new0 :: lid where
  "lid_new0 = DBLogicalID '''' None 0 None None ''''"

definition lid_new :: "int \<Rightarrow> lid" where
  "lid_new v = DBLogicalID '''' None (u32 v) None None ''''"

fun lid_copy :: "lid \<Rightarrow> lid" where
  "lid_copy (DBLogicalID s p v r d pr) = DBLogicalID s None v (map_option lid_copy r) d ''''"

definition lid_clone :: "lid \<Rightarrow> lid" where
  "lid_clone l = lid_copy l"

definition lid_toInteger :: "lid \<Rightarrow> int" where
  "lid_toInteger l = lvalue l"

definition lid_setServer :: "lid \<Rightarrow> string \<Rightarrow> lid" where
  "lid_setServer l s = DBLogicalID s (port l) (lvalue l) (remoteID l) (directParentID l) (parentRoot l)"

definition lid_setPort :: "lid \<Rightarrow> int \<Rightarrow> lid" where
  "lid_setPort l p = DBLogicalID (server l) (Some p) (lvalue l) (remoteID l) (directParentID l) (parentRoot l)"

definition lid_setRemoteID :: "lid \<Rightarrow> lid option \<Rightarrow> lid" where
  "lid_setRemoteID l r = DBLogicalID (server l) (port l) (lvalue l) r (directParentID l) (parentRoot l)"

definition lid_setDirectParent :: "lid \<Rightarrow> lid option \<Rightarrow> lid" where
  "lid_setDirectParent l d = DBLogicalID (server l) (port l) (lvalue l) (remoteID l) d (parentRoot l)"

definition lid_setParentRoot :: "lid \<Rightarrow> string \<Rightarrow> lid" where
  "lid_setParentRoot l r = DBLogicalID (server l) (port l) (lvalue l) (remoteID l) (directParentID l) r"

definition lid_eq :: "lid \<Rightarrow> lid \<Rightarrow> bool" where
  "lid_eq a b \<longleftrightarrow> lid_toInteger a = lid_toInteger b \<and> server a = server b"

definition lid_assign :: "lid \<Rightarrow> lid \<Rightarrow> lid" where
  "lid_assign this l =
     DBLogicalID (server l) (port this) (lid_toInteger l) (remoteID this) (directParentID this) (parentRoot this)"

definition lid_serialize :: "lid \<Rightarrow> serialized" where
  "lid_serialize l = ser_of_bytes (le_bytes 4 (lvalue l))"

definition lid_deserialize :: "mem \<Rightarrow> int \<Rightarrow> lid \<times> int" where
  "lid_deserialize m p = (lid_new (get_u32 m p), 4)"

definition ser_add_lid :: "serialized \<Rightarrow> lid \<Rightarrow> serialized" where
  "ser_add_lid s l = ser_append s (lid_serialize l)"

text \<open>The value field is an \<open>unsigned int\<close>.\<close>

definition lid_wf :: "lid \<Rightarrow> bool" where
  "lid_wf l \<longleftrightarrow> 0 \<le> lvalue l \<and> lvalue l < 4294967296"

definition lid_bytes :: "lid \<Rightarrow> byte list" where
  "lid_bytes l = le_bytes 4 (lvalue l)"

lemma length_lid_bytes [simp]: "length (lid_bytes l) = 4"
  by (simp add: lid_bytes_def)

lemma lid_new_simps [simp]:
  "lid_wf (lid_new v)" "lid_copy (lid_new v) = lid_new v" "lvalue (lid_new v) = u32 v"
  "lvalue (lid_copy l) = lvalue l" "server (lid_copy l) = server l"
  by (cases l, simp_all add: lid_new_def lid_wf_def u32_bounds)+

lemma lid_copy_eq: "lid_eq (lid_clone l) l"
  by (simp add: lid_eq_def lid_clone_def lid_toInteger_def)

lemma lid_assign_eq: "lid_eq (lid_assign this l) l"
  by (simp add: lid_eq_def lid_assign_def lid_toInteger_def)

lemma ser_add_lid_simps [simp]:
  "ser_inv s \<Longrightarrow> ser_inv (ser_add_lid s l)"
  "ser_inv s \<Longrightarrow> ser_content (ser_add_lid s l) = ser_content s @ lid_bytes l"
  by (simp_all add: ser_add_lid_def lid_serialize_def lid_bytes_def ser_append_eq)

definition lid_nf :: "lid \<Rightarrow> lid" where
  "lid_nf l = lid_new (lvalue l)"

lemma lid_nf_simps [simp]: "lvalue (lid_nf l) = u32 (lvalue l)" "lid_wf (lid_nf l)"
  "lid_copy (lid_nf l) = lid_nf l" "lid_nf (lid_new v) = lid_new v"
  by (simp_all add: lid_nf_def lid_new_def u32_def lid_wf_def)

interpretation lidc: codec lid_wf lid_bytes lid_deserialize lid_nf
  by unfold_locales
    (simp add: lid_bytes_def lid_deserialize_def holds_u32 lid_nf_def lid_wf_def wrap_simps)

section \<open>SetOfLids\<close>

text \<open>
  A \<open>hash_set\<close> keyed by \<open>toInteger\<close> (\<open>hashLogicalID\<close>, \<open>eqLogicalID\<close>), as the list of its elements in
  iteration order. A new element goes to the end: the order of iteration is not determined by the
  sources, and no property below depends on it.
\<close>

type_synonym set_of_lids = "lid list"

definition lids_find :: "set_of_lids \<Rightarrow> lid \<Rightarrow> bool" where
  "lids_find s l \<longleftrightarrow> (\<exists>x\<in>set s. lid_toInteger x = lid_toInteger l)"

definition lids_insert :: "set_of_lids \<Rightarrow> lid \<Rightarrow> set_of_lids" where
  "lids_insert s l = (if lids_find s l then s else s @ [l])"

definition lids_erase :: "set_of_lids \<Rightarrow> lid \<Rightarrow> set_of_lids" where
  "lids_erase s l = filter (\<lambda>x. lid_toInteger x \<noteq> lid_toInteger l) s"

definition lids_vals :: "set_of_lids \<Rightarrow> int set" where
  "lids_vals s = lvalue ` set s"

definition lids_inv :: "set_of_lids \<Rightarrow> bool" where
  "lids_inv s \<longleftrightarrow> distinct (map lvalue s) \<and> (\<forall>x\<in>set s. lid_wf x)"

text \<open>The set contract the class-mark operations of a data value rely on.\<close>

locale lid_set =
  fixes sinv :: "'s \<Rightarrow> bool"
    and vals :: "'s \<Rightarrow> 'k set"
    and key :: "'e \<Rightarrow> 'k"
    and good :: "'e \<Rightarrow> bool"
    and ins :: "'s \<Rightarrow> 'e \<Rightarrow> 's"
    and del :: "'s \<Rightarrow> 'e \<Rightarrow> 's"
  assumes ins_inv: "sinv s \<Longrightarrow> good x \<Longrightarrow> sinv (ins s x)"
    and del_inv: "sinv s \<Longrightarrow> sinv (del s x)"
    and vals_ins: "sinv s \<Longrightarrow> good x \<Longrightarrow> vals (ins s x) = insert (key x) (vals s)"
    and vals_del: "sinv s \<Longrightarrow> vals (del s x) = vals s - {key x}"
begin

lemma foldl_ins:
  assumes "sinv s" "\<forall>x\<in>set xs. good x"
  shows "sinv (foldl ins s xs) \<and> vals (foldl ins s xs) = vals s \<union> key ` set xs"
  using assms by (induction xs arbitrary: s) (auto simp: ins_inv vals_ins)

lemma foldl_del:
  assumes "sinv s"
  shows "sinv (foldl del s xs) \<and> vals (foldl del s xs) = vals s - key ` set xs"
  using assms by (induction xs arbitrary: s) (auto simp: del_inv vals_del)

end

interpretation lids: lid_set lids_inv lids_vals lvalue lid_wf lids_insert lids_erase
  by unfold_locales
    (auto simp: lids_inv_def lids_vals_def lids_insert_def lids_erase_def lids_find_def
      lid_toInteger_def distinct_map_filter image_iff, metis)

lemma foldl_lids_insert_distinct:
  "distinct (map lvalue (s @ xs)) \<Longrightarrow> foldl lids_insert s xs = s @ xs"
proof (induction xs arbitrary: s)
  case (Cons x xs)
  then have "\<not> lids_find s x"
    by (auto simp: lids_find_def lid_toInteger_def image_iff)
  with Cons show ?case
    by (simp add: lids_insert_def)
qed simp

text \<open>\<open>Serialized::operator+=(SetOfLids*)\<close>, with the null pointer as \<^const>\<open>None\<close>.\<close>

definition ser_add_lids :: "serialized \<Rightarrow> set_of_lids option \<Rightarrow> serialized" where
  "ser_add_lids s ls =
     (case ls of
        None \<Rightarrow> ser_add_int s 0
      | Some l \<Rightarrow> if length l = 0 then ser_add_int s 0
                 else foldl ser_add_lid (ser_add_int s (int (length l))) l)"

definition lids_bytes :: "set_of_lids option \<Rightarrow> byte list" where
  "lids_bytes ls = (case ls of None \<Rightarrow> le_bytes 4 0
     | Some l \<Rightarrow> le_bytes 4 (int (length l)) @ concat (map lid_bytes l))"

lemma foldl_ser_add_lid:
  "ser_inv s \<Longrightarrow> ser_inv (foldl ser_add_lid s l)
     \<and> ser_content (foldl ser_add_lid s l) = ser_content s @ concat (map lid_bytes l)"
  by (induction l arbitrary: s) auto

lemma ser_add_lids_simps [simp]:
  "ser_inv s \<Longrightarrow> ser_inv (ser_add_lids s ls)"
  "ser_inv s \<Longrightarrow> ser_content (ser_add_lids s ls) = ser_content s @ lids_bytes ls"
  by (auto simp: ser_add_lids_def lids_bytes_def foldl_ser_add_lid split: option.splits)

text \<open>\<open>DBDataValue::deserializeSetOfLids\<close>: the loop body and the loop.\<close>

primrec deserialize_lids_loop :: "nat \<Rightarrow> mem \<Rightarrow> int \<Rightarrow> set_of_lids \<Rightarrow> set_of_lids \<times> int" where
  "deserialize_lids_loop 0 m p s = (s, p)"
| "deserialize_lids_loop (Suc n) m p s =
     (let (l, used) = lid_deserialize m p
      in deserialize_lids_loop n m (p + used) (lids_insert s l))"

definition deserializeSetOfLids :: "mem \<Rightarrow> int \<Rightarrow> set_of_lids \<times> int" where
  "deserializeSetOfLids m p = deserialize_lids_loop (nat (get_u32 m p)) m (p + 4) []"

lemma deserialize_lids_loop_eq:
  "deserialize_lids_loop n m p s
     = (let (xs, q) = lidc.dec_n n m p in (foldl lids_insert s xs, q))"
  by (induction n arbitrary: p s) (auto simp: Let_def split: prod.splits)

lemma deserializeSetOfLids_bytes:
  assumes "lids_inv l" "length l < 4294967296" "holds m p (lids_bytes (Some l))"
  shows "deserializeSetOfLids m p = (map lid_nf l, p + int (length (lids_bytes (Some l))))"
proof -
  have n: "get_u32 m p = int (length l)"
    and rest: "holds m (p + 4) (concat (map lid_bytes l))"
    using assms(2,3) by (auto simp: lids_bytes_def holds_append u32_def dest!: holds_u32)
  have "distinct (map lvalue (map lid_nf l))"
    using assms(1)
    by (auto simp: lids_inv_def distinct_map lid_wf_def wrap_simps inj_on_def comp_def)
  then have "foldl lids_insert [] (map lid_nf l) = map lid_nf l"
    using foldl_lids_insert_distinct [of "[]" "map lid_nf l"] by simp
  moreover have "lidc.dec_n (length l) m (p + 4)
      = (map lid_nf l, p + 4 + int (length (concat (map lid_bytes l))))"
    using assms(1) by (intro lidc.dec_n_concat rest) (auto simp: lids_inv_def)
  ultimately show ?thesis
    by (simp add: deserializeSetOfLids_def n deserialize_lids_loop_eq lids_bytes_def)
qed

end
