(* ===== verification/DataValues.thy ===== *)
theory DataValues
  imports LogicalIDs
begin

text \<open>
  Data values (Store/DBDataValue.cpp): the tagged union with its subtype, class marks and
  subclasses, every constructor, accessor and mutator, and the byte format. The main results are
  the round trip through the byte format, with or without removal of dead references, and the
  set semantics of the class-mark operations.
\<close>

section \<open>The value\<close>

datatype DataType = Integer | Double | String | Pointer | Vector

text \<open>\<open>ExtOther\<close> is an enumeration value outside the enumerators, which a cast of a stored \<open>int\<close> can
  produce.\<close>

datatype ExtendedType = NoneType | Link | Class | Procedure | View | Interface | StoreSchema | ExtOther int

text \<open>The union \<open>complex_value\<close> together with the \<open>type\<close> field that says which member is active; every
  member function writes the two together. A \<open>double\<close> is its 64-bit pattern.\<close>

datatype complex_value =
    int_value int | double_value "64 word" | string_value string
  | pointer_value lid | vector_value "lid list"

record DBDataValue =
  subtype :: ExtendedType
  classMarks :: "set_of_lids option"
  subclasses :: "set_of_lids option"
  dvalue :: complex_value

primrec type_code :: "DataType \<Rightarrow> int" where
  "type_code Integer = 1"
| "type_code Double = 2"
| "type_code String = 3"
| "type_code Pointer = 224"
| "type_code Vector = 240"

definition type_of_code :: "int \<Rightarrow> DataType option" where
  "type_of_code c = (if c = 1 then Some Integer else if c = 2 then Some Double
     else if c = 3 then Some String else if c = 224 then Some Pointer
     else if c = 240 then Some Vector else None)"

primrec ext_code :: "ExtendedType \<Rightarrow> int" where
  "ext_code NoneType = 0"
| "ext_code Link = 1"
| "ext_code Class = 2"
| "ext_code Procedure = 3"
| "ext_code View = 4"
| "ext_code Interface = 5"
| "ext_code StoreSchema = 6"
| "ext_code (ExtOther c) = c"

definition ext_of_code :: "int \<Rightarrow> ExtendedType" where
  "ext_of_code c = (if c = 0 then NoneType else if c = 1 then Link else if c = 2 then Class
     else if c = 3 then Procedure else if c = 4 then View else if c = 5 then Interface
     else if c = 6 then StoreSchema else ExtOther c)"

lemma type_of_code_type_code [simp]: "type_of_code (type_code t) = Some t"
  by (cases t) (simp_all add: type_of_code_def)

section \<open>Constructors, accessors and mutators\<close>

definition dv_getType :: "DBDataValue \<Rightarrow> DataType" where
  "dv_getType d = (case dvalue d of int_value _ \<Rightarrow> Integer | double_value _ \<Rightarrow> Double
     | string_value _ \<Rightarrow> String | pointer_value _ \<Rightarrow> Pointer | vector_value _ \<Rightarrow> Vector)"

definition p_init :: DBDataValue where
  "p_init = \<lparr>subtype = NoneType, classMarks = None, subclasses = None, dvalue = int_value 0\<rparr>"

definition dv_setInt :: "DBDataValue \<Rightarrow> int \<Rightarrow> DBDataValue" where
  "dv_setInt d v = d\<lparr>dvalue := int_value (s32 v)\<rparr>"

definition dv_setDouble :: "DBDataValue \<Rightarrow> 64 word \<Rightarrow> DBDataValue" where
  "dv_setDouble d v = d\<lparr>dvalue := double_value v\<rparr>"

definition dv_setString :: "DBDataValue \<Rightarrow> string \<Rightarrow> DBDataValue" where
  "dv_setString d v = d\<lparr>dvalue := string_value v\<rparr>"

definition dv_setPointer :: "DBDataValue \<Rightarrow> lid \<Rightarrow> DBDataValue" where
  "dv_setPointer d v = d\<lparr>dvalue := pointer_value (lid_clone v)\<rparr>"

definition dv_setVector :: "DBDataValue \<Rightarrow> lid list \<Rightarrow> DBDataValue" where
  "dv_setVector d v = d\<lparr>dvalue := vector_value (map lid_clone v)\<rparr>"

definition dv_setSubtype :: "DBDataValue \<Rightarrow> ExtendedType \<Rightarrow> DBDataValue" where
  "dv_setSubtype d t = d\<lparr>subtype := t\<rparr>"

definition dv_setClassMarks :: "DBDataValue \<Rightarrow> set_of_lids option \<Rightarrow> DBDataValue" where
  "dv_setClassMarks d s = d\<lparr>classMarks := s\<rparr>"

definition dv_setSubclasses :: "DBDataValue \<Rightarrow> set_of_lids option \<Rightarrow> DBDataValue" where
  "dv_setSubclasses d s = d\<lparr>subclasses := s\<rparr>"

definition dv_new_int :: "int \<Rightarrow> DBDataValue" where
  "dv_new_int v = p_init\<lparr>dvalue := int_value (s32 v)\<rparr>"

definition dv_new_double :: "64 word \<Rightarrow> DBDataValue" where
  "dv_new_double v = p_init\<lparr>dvalue := double_value v\<rparr>"

definition dv_new_string :: "string \<Rightarrow> DBDataValue" where
  "dv_new_string v = p_init\<lparr>dvalue := string_value v\<rparr>"

text \<open>The pointer constructor assigns to a fresh \<open>DBLogicalID()\<close>, which keeps its null \<open>remoteID\<close>.\<close>

definition dv_new_pointer :: "lid \<Rightarrow> DBDataValue" where
  "dv_new_pointer v = p_init\<lparr>dvalue := pointer_value (lid_assign lid_new0 v)\<rparr>"

definition dv_new_vector :: "lid list \<Rightarrow> DBDataValue" where
  "dv_new_vector v = p_init\<lparr>dvalue := vector_value (map lid_clone v)\<rparr>"

definition dv_getInt :: "DBDataValue \<Rightarrow> int" where
  "dv_getInt d = (case dvalue d of int_value v \<Rightarrow> v | _ \<Rightarrow> 0)"

definition dv_getDouble :: "DBDataValue \<Rightarrow> 64 word" where
  "dv_getDouble d = (case dvalue d of double_value v \<Rightarrow> v | _ \<Rightarrow> 0)"

definition dv_getString :: "DBDataValue \<Rightarrow> string" where
  "dv_getString d = (case dvalue d of string_value v \<Rightarrow> v | _ \<Rightarrow> '''')"

definition dv_getPointer :: "DBDataValue \<Rightarrow> lid option" where
  "dv_getPointer d = (case dvalue d of pointer_value v \<Rightarrow> Some v | _ \<Rightarrow> None)"

definition dv_getVector :: "DBDataValue \<Rightarrow> lid list option" where
  "dv_getVector d = (case dvalue d of vector_value v \<Rightarrow> Some v | _ \<Rightarrow> None)"

definition cloneSetOfLid :: "set_of_lids option \<Rightarrow> set_of_lids option" where
  "cloneSetOfLid s = (case s of None \<Rightarrow> None
     | Some l \<Rightarrow> Some (foldl (\<lambda>acc x. lids_insert acc (lid_clone x)) [] l))"

text \<open>The copy constructor: subtype, both sets, then the value through the setters.\<close>

definition dv_copy :: "DBDataValue \<Rightarrow> DBDataValue" where
  "dv_copy dv =
     (let d = dv_setSubtype p_init (subtype dv);
          d = d\<lparr>subclasses := cloneSetOfLid (subclasses dv)\<rparr>;
          d = d\<lparr>classMarks := cloneSetOfLid (classMarks dv)\<rparr>
      in case dvalue dv of
           int_value v \<Rightarrow> dv_setInt d v
         | double_value v \<Rightarrow> dv_setDouble d v
         | string_value v \<Rightarrow> dv_setString d v
         | pointer_value v \<Rightarrow> dv_setPointer d v
         | vector_value v \<Rightarrow> dv_setVector d v)"

definition dv_clone :: "DBDataValue \<Rightarrow> DBDataValue" where
  "dv_clone d = dv_copy d"

definition addClassMark :: "DBDataValue \<Rightarrow> lid \<Rightarrow> DBDataValue" where
  "addClassMark d m =
     (let s = (case classMarks d of None \<Rightarrow> [] | Some s \<Rightarrow> s)
      in d\<lparr>classMarks := Some (if lids_find s m then s else lids_insert s (lid_clone m))\<rparr>)"

definition addSubclass :: "DBDataValue \<Rightarrow> lid \<Rightarrow> DBDataValue" where
  "addSubclass d m =
     (let s = (case subclasses d of None \<Rightarrow> [] | Some s \<Rightarrow> s)
      in d\<lparr>subclasses := Some (if lids_find s m then s else lids_insert s (lid_clone m))\<rparr>)"

definition addClassMarks :: "DBDataValue \<Rightarrow> set_of_lids option \<Rightarrow> DBDataValue" where
  "addClassMarks d toAdd = (case toAdd of None \<Rightarrow> d | Some s \<Rightarrow> foldl addClassMark d s)"

definition addSubclasses :: "DBDataValue \<Rightarrow> set_of_lids option \<Rightarrow> DBDataValue" where
  "addSubclasses d toAdd = (case toAdd of None \<Rightarrow> d | Some s \<Rightarrow> foldl addSubclass d s)"

definition removeSubclass :: "DBDataValue \<Rightarrow> lid option \<Rightarrow> DBDataValue" where
  "removeSubclass d l = (case (subclasses d, l) of
     (Some s, Some x) \<Rightarrow> d\<lparr>subclasses := Some (lids_erase s x)\<rparr> | _ \<Rightarrow> d)"

definition removeClassMark :: "DBDataValue \<Rightarrow> lid option \<Rightarrow> DBDataValue" where
  "removeClassMark d l = (case (l, classMarks d) of
     (Some x, Some s) \<Rightarrow> d\<lparr>classMarks := Some (lids_erase s x)\<rparr> | _ \<Rightarrow> d)"

definition removeClassMarks :: "DBDataValue \<Rightarrow> set_of_lids option \<Rightarrow> DBDataValue" where
  "removeClassMarks d toDel = (case (toDel, classMarks d) of
     (Some xs, Some s) \<Rightarrow> d\<lparr>classMarks := Some (foldl lids_erase s xs)\<rparr> | _ \<Rightarrow> d)"

text \<open>\<open>operator==\<close>. For pointers and vectors the code compares the addresses of the two heap objects,
  which are equal only when both sides are the same \<open>DataValue\<close> object (\<open>same\<close>).\<close>

definition double_is_nan :: "64 word \<Rightarrow> bool" where
  "double_is_nan d \<longleftrightarrow> uint d div 2 ^ 52 mod 2 ^ 11 = 2047 \<and> uint d mod 2 ^ 52 \<noteq> 0"

definition double_eq :: "64 word \<Rightarrow> 64 word \<Rightarrow> bool" where
  "double_eq a b \<longleftrightarrow> \<not> double_is_nan a \<and> \<not> double_is_nan b
     \<and> (a = b \<or> uint a mod 2 ^ 63 = 0 \<and> uint b mod 2 ^ 63 = 0)"

definition dv_equal :: "bool \<Rightarrow> DBDataValue \<Rightarrow> DBDataValue \<Rightarrow> bool" where
  "dv_equal same a b =
     (if dv_getType a \<noteq> dv_getType b then False
      else case dv_getType a of
             Integer \<Rightarrow> dv_getInt a = dv_getInt b
           | Double \<Rightarrow> double_eq (dv_getDouble a) (dv_getDouble b)
           | String \<Rightarrow> dv_getString a = dv_getString b
           | Pointer \<Rightarrow> same
           | Vector \<Rightarrow> same)"

text \<open>The assignment operators. In \<open>operator=(const vector&)\<close> the loop has an empty body, and the
  statement after it clones through the end iterator.\<close>

definition dv_assign_int :: "DBDataValue \<Rightarrow> int \<Rightarrow> DBDataValue" where
  "dv_assign_int d v = d\<lparr>dvalue := int_value (s32 v)\<rparr>"

definition dv_assign_double :: "DBDataValue \<Rightarrow> 64 word \<Rightarrow> DBDataValue" where
  "dv_assign_double d v = d\<lparr>dvalue := double_value v\<rparr>"

definition dv_assign_string :: "DBDataValue \<Rightarrow> string \<Rightarrow> DBDataValue" where
  "dv_assign_string d v = d\<lparr>dvalue := string_value v\<rparr>"

definition dv_assign_pointer :: "DBDataValue \<Rightarrow> lid \<Rightarrow> DBDataValue" where
  "dv_assign_pointer d v = d\<lparr>dvalue := pointer_value (lid_clone v)\<rparr>"

definition dv_assign_vector :: "DBDataValue \<Rightarrow> lid list \<Rightarrow> fault + DBDataValue" where
  "dv_assign_vector d v =
     (let oi = length v
      in if oi < length v then Inr (d\<lparr>dvalue := vector_value [lid_clone (v ! oi)]\<rparr>)
         else Inl EndIteratorDereference)"

section \<open>The byte format\<close>

definition dv_serialize :: "DBDataValue \<Rightarrow> serialized" where
  "dv_serialize d =
     (let s = ser_add_int ser_empty (type_code (dv_getType d));
          s = ser_add_int s (ext_code (subtype d));
          s = ser_add_lids s (classMarks d);
          s = (if subtype d = Class then ser_add_lids s (subclasses d) else s)
      in case dvalue d of
           int_value v \<Rightarrow> ser_add_int s v
         | double_value v \<Rightarrow> ser_add_double s v
         | string_value v \<Rightarrow> ser_add_string s v
         | pointer_value v \<Rightarrow> ser_add_lid s v
         | vector_value v \<Rightarrow> foldl ser_add_lid (ser_add_int s (int (length v))) v)"

definition ser_add_dv :: "serialized \<Rightarrow> DBDataValue \<Rightarrow> serialized" where
  "ser_add_dv s d = ser_append s (dv_serialize d)"

text \<open>
  The vector loop of \<open>deserialize\<close>. With \<open>AutoRemove\<close> each identifier is looked up in the identifier
  map; an identifier the map does not know ends the process, a dead one is left out. The lookup
  goes through the buffer, so it is an argument that threads a state: it returns the code of
  \<open>Map::getPhysicalID\<close> and the physical identifier.
\<close>

type_synonym 's pid_lookup = "'s \<Rightarrow> int \<Rightarrow> 's \<times> int \<times> physical_id option"

primrec deserialize_vector_loop ::
  "'s pid_lookup \<Rightarrow> bool \<Rightarrow> nat \<Rightarrow> mem \<Rightarrow> int \<Rightarrow> lid list \<Rightarrow> 's \<Rightarrow> 's \<times> (fault + lid list \<times> int)" where
  "deserialize_vector_loop phys AutoRemove 0 m p v s = (s, Inr (v, p))"
| "deserialize_vector_loop phys AutoRemove (Suc n) m p v s =
     (let (l, ub) = lid_deserialize m p
      in if AutoRemove then
           (let (s', rval, p_id) = phys s (lid_toInteger l)
            in if rval > 0 then (s', Inl (ProcessExit 1))
               else (case p_id of
                       None \<Rightarrow> (s', Inl NullDereference)
                     | Some q \<Rightarrow> deserialize_vector_loop phys AutoRemove n m (p + ub)
                                  (if q \<noteq> RIP then v @ [l] else v) s'))
         else deserialize_vector_loop phys AutoRemove n m (p + ub) (v @ [l]) s)"

definition read_string :: "mem \<Rightarrow> int \<Rightarrow> nat \<Rightarrow> string" where
  "read_string m p n = map char_of_byte (getbytes m p n)"

definition dv_deserialize ::
  "'s pid_lookup \<Rightarrow> 's \<Rightarrow> mem \<Rightarrow> int \<Rightarrow> bool \<Rightarrow> 's \<times> (fault + int \<times> DBDataValue option)" where
  "dv_deserialize phys s m bytes AutoRemove =
     (let type = type_of_code (get_s32 m bytes);
          sub = ext_of_code (get_s32 m (bytes + 4));
          (marks, curpos) = deserializeSetOfLids m (bytes + 8);
          (subs, curpos) = (if sub = Class
                            then (let (x, c) = deserializeSetOfLids m curpos in (Some x, c))
                            else (None, curpos));
          value = dv_setSubclasses (dv_setClassMarks (dv_setSubtype p_init sub) (Some marks)) subs
      in case type of
           Some Integer \<Rightarrow> (s, Inr (curpos - bytes + 4, Some (dv_setInt value (get_s32 m curpos))))
         | Some Double \<Rightarrow>
             (s, Inr (curpos - bytes + 8,
                      Some (dv_setDouble value (word_of_int (le_int (getbytes m curpos 8))))))
         | Some String \<Rightarrow>
             (let slen = nat (get_s32 m curpos); curpos = curpos + 4
              in (s, Inr (curpos + int slen - bytes,
                          Some (dv_setString value (read_string m curpos slen)))))
         | Some Pointer \<Rightarrow>
             (let (l, ub) = lid_deserialize m curpos
              in (s, Inr (curpos - bytes + ub, Some (dv_setPointer value l))))
         | Some Vector \<Rightarrow>
             (let vlen = nat (get_s32 m curpos);
                  (s', r) = deserialize_vector_loop phys AutoRemove vlen m (curpos + 4) [] s
              in case r of
                   Inl e \<Rightarrow> (s', Inl e)
                 | Inr (v, q) \<Rightarrow> (s', Inr (q - bytes, Some (dv_setVector value v))))
         | None \<Rightarrow> (s, Inr (-1, None)))"

section \<open>What the serialiser writes\<close>

definition value_bytes :: "complex_value \<Rightarrow> byte list" where
  "value_bytes v = (case v of
       int_value i \<Rightarrow> le_bytes 4 i
     | double_value d \<Rightarrow> le_bytes 8 (uint d)
     | string_value str \<Rightarrow> string_bytes str
     | pointer_value l \<Rightarrow> lid_bytes l
     | vector_value ls \<Rightarrow> le_bytes 4 (int (length ls)) @ concat (map lid_bytes ls))"

definition dv_bytes :: "DBDataValue \<Rightarrow> byte list" where
  "dv_bytes d = le_bytes 4 (type_code (dv_getType d)) @ le_bytes 4 (ext_code (subtype d))
     @ lids_bytes (classMarks d) @ (if subtype d = Class then lids_bytes (subclasses d) else [])
     @ value_bytes (dvalue d)"

lemma dv_serialize_bytes: "ser_inv (dv_serialize d)" "ser_content (dv_serialize d) = dv_bytes d"
  by (auto simp: dv_serialize_def dv_bytes_def value_bytes_def Let_def foldl_ser_add_lid
      split: complex_value.splits)

lemma ser_add_dv_simps [simp]:
  "ser_inv s \<Longrightarrow> ser_inv (ser_add_dv s d)"
  "ser_inv s \<Longrightarrow> ser_content (ser_add_dv s d) = ser_content s @ dv_bytes d"
  by (simp_all add: ser_add_dv_def ser_append_eq dv_serialize_bytes)

section \<open>The round trip\<close>

definition lids_opt_ok :: "set_of_lids option \<Rightarrow> bool" where
  "lids_opt_ok ls \<longleftrightarrow> (case ls of None \<Rightarrow> True | Some l \<Rightarrow> lids_inv l \<and> length l < 2147483648)"

definition value_ok :: "complex_value \<Rightarrow> bool" where
  "value_ok v \<longleftrightarrow> (case v of
       int_value i \<Rightarrow> -2147483648 \<le> i \<and> i < 2147483648
     | double_value d \<Rightarrow> True
     | string_value str \<Rightarrow> length str < 2147483648
     | pointer_value l \<Rightarrow> lid_wf l
     | vector_value ls \<Rightarrow> length ls < 2147483648 \<and> (\<forall>l\<in>set ls. lid_wf l))"

text \<open>A data value as the program can build it: every field in the range of its C++ type.\<close>

definition dv_ok :: "DBDataValue \<Rightarrow> bool" where
  "dv_ok d \<longleftrightarrow> (\<forall>c. subtype d \<noteq> ExtOther c) \<and> lids_opt_ok (classMarks d)
     \<and> lids_opt_ok (subclasses d) \<and> value_ok (dvalue d)"

definition lids_opt_nf :: "set_of_lids option \<Rightarrow> set_of_lids" where
  "lids_opt_nf ls = (case ls of None \<Rightarrow> [] | Some l \<Rightarrow> map lid_nf l)"

definition value_nf :: "(int \<Rightarrow> bool) \<Rightarrow> complex_value \<Rightarrow> complex_value" where
  "value_nf live v = (case v of pointer_value l \<Rightarrow> pointer_value (lid_nf l)
     | vector_value ls \<Rightarrow> vector_value (map lid_nf (filter (\<lambda>l. live (lvalue l)) ls)) | _ \<Rightarrow> v)"

text \<open>
  What reading rebuilds: the same subtype and value, references reduced to their number, dead
  references of a vector left out, an absent set of class marks turned into an empty one, and
  subclasses only for a class.
\<close>

definition dv_nf :: "(int \<Rightarrow> bool) \<Rightarrow> DBDataValue \<Rightarrow> DBDataValue" where
  "dv_nf live d = \<lparr>subtype = subtype d, classMarks = Some (lids_opt_nf (classMarks d)),
     subclasses = (if subtype d = Class then Some (lids_opt_nf (subclasses d)) else None),
     dvalue = value_nf live (dvalue d)\<rparr>"

text \<open>The contract of the identifier lookup: under \<open>I\<close> it succeeds, keeps \<open>I\<close>, and says whether the
  object is alive.\<close>

locale pid_source =
  fixes phys :: "'s pid_lookup"
    and I :: "'s \<Rightarrow> bool"
    and known :: "int \<Rightarrow> bool"
    and live :: "int \<Rightarrow> bool"
  assumes lookup: "I s \<Longrightarrow> known i \<Longrightarrow>
    \<exists>s' q. phys s i = (s', 0, Some q) \<and> I s' \<and> (q \<noteq> RIP \<longleftrightarrow> live i)"
begin

lemma vector_loop:
  assumes "I s" "\<forall>l\<in>set ls. lid_wf l \<and> known (lvalue l)" "holds m p (concat (map lid_bytes ls))"
  shows "\<exists>s'. I s' \<and> deserialize_vector_loop phys True (length ls) m p v s
      = (s', Inr (v @ map lid_nf (filter (\<lambda>l. live (lvalue l)) ls), p + 4 * int (length ls)))"
  using assms
proof (induction ls arbitrary: p v s)
  case Nil
  then show ?case by auto
next
  case (Cons l ls)
  then have d: "lid_deserialize m p = (lid_nf l, 4)"
    and rest: "holds m (p + 4) (concat (map lid_bytes ls))"
    by (auto simp: holds_append lidc.decode)
  have wf: "lid_toInteger (lid_nf l) = lvalue l"
    using Cons.prems(2) by (simp add: lid_toInteger_def lid_wf_def wrap_simps)
  obtain s1 q where q: "phys s (lvalue l) = (s1, 0, Some q)" "I s1" "q \<noteq> RIP \<longleftrightarrow> live (lvalue l)"
    using lookup [OF Cons.prems(1)] Cons.prems(2) by force
  obtain s2 where "I s2" "deserialize_vector_loop phys True (length ls) m (p + 4)
      (if live (lvalue l) then v @ [lid_nf l] else v) s1
      = (s2, Inr ((if live (lvalue l) then v @ [lid_nf l] else v)
              @ map lid_nf (filter (\<lambda>l. live (lvalue l)) ls), p + 4 + 4 * int (length ls)))"
    using Cons.IH [OF q(2) _ rest, of "if live (lvalue l) then v @ [lid_nf l] else v"] Cons.prems(2)
    by auto
  then show ?case
    using q d wf by (auto simp: algebra_simps)
qed

end

lemma vector_loop_keep:
  assumes "\<forall>l\<in>set ls. lid_wf l" "holds m p (concat (map lid_bytes ls))"
  shows "deserialize_vector_loop phys False (length ls) m p v s
      = (s, Inr (v @ map lid_nf ls, p + 4 * int (length ls)))"
  using assms
proof (induction ls arbitrary: p v)
  case Nil
  then show ?case by simp
next
  case (Cons l ls)
  then have "lid_deserialize m p = (lid_nf l, 4)"
    and rest: "holds m (p + 4) (concat (map lid_bytes ls))"
    by (auto simp: holds_append lidc.decode)
  with Cons.IH [OF _ rest] Cons.prems(1) show ?case
    by (simp add: algebra_simps)
qed

lemma string_bytes_read:
  assumes "length str < 2147483648" "holds m p (string_bytes str)"
  shows "get_s32 m p = int (length str)" "read_string m (p + 4) (length str) = str"
proof -
  from assms(2) have "get_s32 m p = s32 (int (length str))"
    and "getbytes m (p + 4) (length str) = map byte_of_char str"
    by (auto simp: string_bytes_def holds_append holds_def [of m "p + 4"] dest: holds_s32)
  with assms(1) show "get_s32 m p = int (length str)" "read_string m (p + 4) (length str) = str"
    by (simp_all add: s32_def read_string_def)
qed

lemma lids_bytes_read:
  assumes "lids_opt_ok ls" "holds m p (lids_bytes ls)"
  shows "deserializeSetOfLids m p = (lids_opt_nf ls, p + int (length (lids_bytes ls)))"
proof (cases ls)
  case None
  with assms(2) have "get_u32 m p = 0"
    by (simp add: lids_bytes_def holds_u32 u32_def)
  with None show ?thesis
    by (simp add: deserializeSetOfLids_def lids_opt_nf_def lids_bytes_def)
next
  case (Some l)
  with assms show ?thesis
    by (simp add: lids_opt_ok_def deserializeSetOfLids_bytes lids_opt_nf_def)
qed

text \<open>The common prefix of the format: tag, subtype and the two sets.\<close>

definition prefix_bytes :: "DBDataValue \<Rightarrow> byte list" where
  "prefix_bytes d = le_bytes 4 (type_code (dv_getType d)) @ le_bytes 4 (ext_code (subtype d))
     @ lids_bytes (classMarks d) @ (if subtype d = Class then lids_bytes (subclasses d) else [])"

lemma dv_bytes_prefix: "dv_bytes d = prefix_bytes d @ value_bytes (dvalue d)"
  by (simp add: dv_bytes_def prefix_bytes_def)

lemma type_code_s32 [simp]: "s32 (type_code t) = type_code t"
  by (cases t) (simp_all add: s32_def)

lemma ext_of_code_ext_code: "(\<forall>c. t \<noteq> ExtOther c) \<Longrightarrow> ext_of_code (s32 (ext_code t)) = t"
  by (cases t) (simp_all add: s32_def ext_of_code_def)

text \<open>The value that \<open>deserialize\<close> has built when it reaches the \<open>switch\<close>.\<close>

definition dv_shell :: "DBDataValue \<Rightarrow> DBDataValue" where
  "dv_shell d = (dv_nf (\<lambda>_. True) d)\<lparr>dvalue := int_value 0\<rparr>"

lemma dv_deserialize_prefix:
  assumes "dv_ok d" "holds m p (prefix_bytes d)"
  shows "dv_deserialize phys s m p a =
    (let value = dv_shell d; curpos = p + int (length (prefix_bytes d))
     in case dv_getType d of
           Integer \<Rightarrow> (s, Inr (curpos - p + 4, Some (dv_setInt value (get_s32 m curpos))))
         | Double \<Rightarrow>
             (s, Inr (curpos - p + 8,
                      Some (dv_setDouble value (word_of_int (le_int (getbytes m curpos 8))))))
         | String \<Rightarrow>
             (let slen = nat (get_s32 m curpos); curpos = curpos + 4
              in (s, Inr (curpos + int slen - p,
                          Some (dv_setString value (read_string m curpos slen)))))
         | Pointer \<Rightarrow>
             (let (l, ub) = lid_deserialize m curpos
              in (s, Inr (curpos - p + ub, Some (dv_setPointer value l))))
         | Vector \<Rightarrow>
             (let vlen = nat (get_s32 m curpos);
                  (s', r) = deserialize_vector_loop phys a vlen m (curpos + 4) [] s
              in case r of
                   Inl e \<Rightarrow> (s', Inl e)
                 | Inr (v, q) \<Rightarrow> (s', Inr (q - p, Some (dv_setVector value v)))))"
proof -
  have t: "get_s32 m p = type_code (dv_getType d)"
    and e: "get_s32 m (p + 4) = s32 (ext_code (subtype d))"
    and c: "deserializeSetOfLids m (p + 8)
        = (lids_opt_nf (classMarks d), p + 8 + int (length (lids_bytes (classMarks d))))"
    using assms
    by (auto simp: prefix_bytes_def holds_append holds_s32 dv_ok_def add.commute [of 8] intro!: lids_bytes_read)
  have sc: "subtype d = Class \<Longrightarrow>
      deserializeSetOfLids m (p + 8 + int (length (lids_bytes (classMarks d))))
        = (lids_opt_nf (subclasses d),
           p + 8 + int (length (lids_bytes (classMarks d))) + int (length (lids_bytes (subclasses d))))"
    using assms
    by (auto simp: prefix_bytes_def holds_append dv_ok_def add.commute [of 8] intro!: lids_bytes_read)
  have tag: "type_of_code (get_s32 m p) = Some (dv_getType d)"
    and sub: "ext_of_code (get_s32 m (p + 4)) = subtype d"
    using assms(1) by (simp_all add: t e ext_of_code_ext_code dv_ok_def)
  have pl: "p + int (length (prefix_bytes d)) = p + 8 + int (length (lids_bytes (classMarks d)))
      + (if subtype d = Class then int (length (lids_bytes (subclasses d))) else 0)"
    by (simp add: prefix_bytes_def)
  show ?thesis
    unfolding pl
    by (cases "subtype d = Class"; cases "dv_getType d")
      (simp_all add: dv_deserialize_def tag sub c sc dv_shell_def dv_nf_def Let_def p_init_def
        dv_setSubtype_def dv_setClassMarks_def dv_setSubclasses_def)
qed

lemma map_clone_nf [simp]: "map (lid_clone \<circ> lid_nf) ls = map lid_nf ls"
  by (simp add: lid_clone_def)

lemmas dv_set_defs = dv_setInt_def dv_setDouble_def dv_setString_def dv_setPointer_def dv_setVector_def

lemma dv_deserialize_simple:
  assumes "dv_ok d" "holds m p (dv_bytes d)" "\<not> (\<exists>v. dvalue d = vector_value v) \<or> \<not> a"
  shows "dv_deserialize phys s m p a = (s, Inr (int (length (dv_bytes d)), Some (dv_nf (\<lambda>_. True) d)))"
proof -
  let ?q = "p + int (length (prefix_bytes d))"
  from assms(2) have pre: "holds m p (prefix_bytes d)" and val: "holds m ?q (value_bytes (dvalue d))"
    by (simp_all add: dv_bytes_prefix holds_append)
  note pref = dv_deserialize_prefix [OF assms(1) pre, of phys s a]
  have vok: "value_ok (dvalue d)"
    using assms(1) by (simp add: dv_ok_def)
  show ?thesis
  proof (cases "dvalue d")
    case (int_value i)
    with val vok have "get_s32 m ?q = i"
      by (simp add: value_bytes_def holds_s32 value_ok_def wrap_simps)
    with int_value vok show ?thesis
      by (simp add: pref dv_getType_def dv_set_defs dv_shell_def dv_nf_def dv_bytes_prefix
          value_bytes_def value_nf_def value_ok_def wrap_simps)
  next
    case (double_value w)
    with val have "getbytes m ?q 8 = le_bytes 8 (uint w)"
      by (simp add: value_bytes_def holds_def)
    then have "le_int (getbytes m ?q 8) = uint w mod 256 ^ 8"
      by (simp only: le_int_le_bytes)
    also have "\<dots> = uint w"
      using uint_bounded [of w] by (intro mod_pos_pos_trivial) auto
    finally have "le_int (getbytes m ?q 8) = uint w" .
    with double_value show ?thesis
      by (simp add: pref dv_getType_def dv_set_defs dv_shell_def dv_nf_def dv_bytes_prefix
          value_bytes_def value_nf_def)
  next
    case (string_value str)
    with val vok have "get_s32 m ?q = int (length str) \<and> read_string m (?q + 4) (length str) = str"
      by (intro conjI string_bytes_read) (simp_all add: value_bytes_def value_ok_def)
    with string_value show ?thesis
      by (simp add: pref dv_getType_def dv_set_defs dv_shell_def dv_nf_def dv_bytes_prefix
          value_bytes_def value_nf_def string_bytes_def Let_def)
  next
    case (pointer_value l)
    with val vok have "lid_deserialize m ?q = (lid_nf l, 4)"
      by (simp add: value_bytes_def value_ok_def lidc.decode)
    with pointer_value show ?thesis
      by (simp add: pref dv_getType_def dv_set_defs dv_shell_def dv_nf_def dv_bytes_prefix
          value_bytes_def value_nf_def lid_clone_def)
  next
    case (vector_value ls)
    with val vok have n: "get_s32 m ?q = int (length ls)"
      and rest: "holds m (?q + 4) (concat (map lid_bytes ls))"
      by (auto simp: value_bytes_def value_ok_def holds_append holds_s32 s32_def)
    have "deserialize_vector_loop phys False (length ls) m (?q + 4) [] s
        = (s, Inr ([] @ map lid_nf ls, ?q + 4 + 4 * int (length ls)))"
      using vector_value vok by (intro vector_loop_keep rest) (simp add: value_ok_def)
    moreover have "length (concat (map lid_bytes ls)) = 4 * length ls"
      by (simp add: length_concat comp_def sum_list_triv)
    ultimately show ?thesis
      using vector_value n assms(3) pref
      by (auto simp: dv_getType_def dv_set_defs dv_shell_def dv_nf_def dv_bytes_prefix
          value_bytes_def value_nf_def Let_def)
  qed
qed

context pid_source
begin

lemma deserialize_autoremove:
  assumes "I s" "dv_ok d" "holds m p (dv_bytes d)"
    and "\<And>ls l. dvalue d = vector_value ls \<Longrightarrow> l \<in> set ls \<Longrightarrow> known (lvalue l)"
  shows "\<exists>s'. I s' \<and> dv_deserialize phys s m p True
      = (s', Inr (int (length (dv_bytes d)), Some (dv_nf live d)))"
proof (cases "\<exists>ls. dvalue d = vector_value ls")
  case False
  then have "dv_nf live d = dv_nf (\<lambda>_. True) d"
    by (auto simp: dv_nf_def value_nf_def split: complex_value.splits)
  with False assms(1) dv_deserialize_simple [OF assms(2,3), of True phys s] show ?thesis
    by auto
next
  case True
  then obtain ls where ls: "dvalue d = vector_value ls" ..
  let ?q = "p + int (length (prefix_bytes d))"
  from assms(3) have pre: "holds m p (prefix_bytes d)" and val: "holds m ?q (value_bytes (dvalue d))"
    by (simp_all add: dv_bytes_prefix holds_append)
  have vok: "value_ok (vector_value ls)"
    using assms(2) ls by (simp add: dv_ok_def)
  with val ls have n: "get_s32 m ?q = int (length ls)"
    and rest: "holds m (?q + 4) (concat (map lid_bytes ls))"
    by (auto simp: value_bytes_def value_ok_def holds_append holds_s32 s32_def)
  have len: "length (concat (map lid_bytes ls)) = 4 * length ls"
    by (simp add: length_concat comp_def sum_list_triv)
  obtain s' where "I s'" "deserialize_vector_loop phys True (length ls) m (?q + 4) [] s
      = (s', Inr ([] @ map lid_nf (filter (\<lambda>l. live (lvalue l)) ls), ?q + 4 + 4 * int (length ls)))"
    using vector_loop [OF assms(1) _ rest, of "[]"] vok assms(4) [OF ls] by (auto simp: value_ok_def)
  then show ?thesis
    using ls n len dv_deserialize_prefix [OF assms(2) pre, of phys s True]
    by (simp add: dv_getType_def dv_set_defs dv_shell_def dv_nf_def dv_bytes_prefix
        value_bytes_def value_nf_def Let_def)
qed

end

section \<open>Copies\<close>

lemma lid_clone_simps [simp]:
  "lvalue (lid_clone l) = lvalue l" "lid_wf (lid_clone l) = lid_wf l"
  "lid_bytes (lid_clone l) = lid_bytes l" "lid_nf (lid_clone l) = lid_nf l"
  by (simp_all add: lid_clone_def lid_wf_def lid_bytes_def lid_nf_def)

lemma cloneSetOfLid_eq: "lids_opt_ok s \<Longrightarrow> cloneSetOfLid s = map_option (map lid_clone) s"
proof -
  have "foldl (\<lambda>acc x. lids_insert acc (lid_clone x)) [] l = map lid_clone l" if "lids_inv l" for l
  proof -
    have "foldl (\<lambda>acc x. lids_insert acc (lid_clone x)) [] l = foldl lids_insert [] (map lid_clone l)"
      by (simp add: foldl_map)
    also have "\<dots> = map lid_clone l"
      using that foldl_lids_insert_distinct [of "[]" "map lid_clone l"]
      by (simp add: lids_inv_def comp_def)
    finally show ?thesis .
  qed
  then show "lids_opt_ok s \<Longrightarrow> ?thesis"
    by (auto simp: cloneSetOfLid_def lids_opt_ok_def split: option.splits)
qed

lemma lids_clone_simps [simp]:
  "lids_bytes (map_option (map lid_clone) s) = lids_bytes s"
  "lids_opt_ok (map_option (map lid_clone) s) = lids_opt_ok s"
  "lids_opt_nf (map_option (map lid_clone) s) = lids_opt_nf s"
  by (auto simp: lids_bytes_def lids_opt_ok_def lids_inv_def lids_opt_nf_def comp_def
      split: option.splits)

definition value_clone :: "complex_value \<Rightarrow> complex_value" where
  "value_clone v = (case v of pointer_value l \<Rightarrow> pointer_value (lid_clone l)
     | vector_value ls \<Rightarrow> vector_value (map lid_clone ls) | _ \<Rightarrow> v)"

lemma dv_copy_eq:
  assumes "dv_ok d"
  shows "dv_copy d = \<lparr>subtype = subtype d, classMarks = map_option (map lid_clone) (classMarks d),
    subclasses = map_option (map lid_clone) (subclasses d), dvalue = value_clone (dvalue d)\<rparr>"
  using assms
  by (simp add: dv_copy_def dv_ok_def value_ok_def cloneSetOfLid_eq p_init_def dv_setSubtype_def
      dv_set_defs Let_def value_clone_def wrap_simps split: complex_value.splits)

text \<open>A copy is well formed, is written with the same bytes and reads back to the same value.\<close>

lemma dv_copy_same:
  assumes "dv_ok d"
  shows "dv_ok (dv_copy d)" "dv_bytes (dv_copy d) = dv_bytes d" "dv_nf live (dv_copy d) = dv_nf live d"
proof -
  show "dv_ok (dv_copy d)"
    using assms unfolding dv_copy_eq [OF assms]
    by (auto simp: dv_ok_def value_ok_def value_clone_def split: complex_value.splits)
  show "dv_bytes (dv_copy d) = dv_bytes d"
    unfolding dv_copy_eq [OF assms]
    by (simp add: dv_bytes_def dv_getType_def value_bytes_def value_clone_def comp_def
        split: complex_value.splits)
  show "dv_nf live (dv_copy d) = dv_nf live d"
    unfolding dv_copy_eq [OF assms]
    by (simp add: dv_nf_def value_nf_def value_clone_def filter_map comp_def
        split: complex_value.splits)
qed

section \<open>Class marks\<close>

definition marks :: "DBDataValue \<Rightarrow> int set" where
  "marks d = (case classMarks d of None \<Rightarrow> {} | Some s \<Rightarrow> lids_vals s)"

definition marks_inv :: "DBDataValue \<Rightarrow> bool" where
  "marks_inv d \<longleftrightarrow> (case classMarks d of None \<Rightarrow> True | Some s \<Rightarrow> lids_inv s)"

lemma addClassMark_insert:
  "addClassMark d l = d\<lparr>classMarks :=
     Some (lids_insert (case classMarks d of None \<Rightarrow> [] | Some s \<Rightarrow> s) (lid_clone l))\<rparr>"
  by (simp add: addClassMark_def lids_insert_def lids_find_def lid_toInteger_def Let_def)

lemma lids_empty [simp]: "lids_inv []" "lids_vals [] = {}"
  by (simp_all add: lids_inv_def lids_vals_def)

lemma addClassMark_marks:
  assumes "marks_inv d" "lid_wf l"
  shows "marks_inv (addClassMark d l)" "marks (addClassMark d l) = insert (lvalue l) (marks d)"
  using assms lids.ins_inv [of _ "lid_clone l"] lids.vals_ins [of _ "lid_clone l"]
  by (auto simp: addClassMark_insert marks_def marks_inv_def split: option.splits)

lemma addClassMarks_marks:
  assumes "marks_inv d" "\<forall>l\<in>set s. lid_wf l"
  shows "marks_inv (addClassMarks d (Some s)) \<and> marks (addClassMarks d (Some s)) = marks d \<union> lids_vals s"
  using assms
  by (induction s arbitrary: d) (auto simp: addClassMarks_def addClassMark_marks lids_vals_def)

lemma removeClassMarks_marks:
  assumes "marks_inv d"
  shows "marks_inv (removeClassMarks d (Some s)) \<and> marks (removeClassMarks d (Some s)) = marks d - lids_vals s"
  using assms lids.foldl_del
  by (auto simp: removeClassMarks_def marks_inv_def marks_def lids_vals_def split: option.splits)

section \<open>Properties\<close>

text \<open>(C18) Reading a data value back from its serialised bytes, wherever they lie in memory, consumes exactly
  these bytes and returns the value in normal form: the same subtype, value and sets, with references
  reduced to their numbers. Without the removal of dead references the identifier map is not consulted.\<close>

theorem data_value_roundtrip:
  assumes "dv_ok d" "holds m p (ser_content (dv_serialize d))"
  shows "dv_deserialize phys s m p False
    = (s, Inr (int (length (ser_content (dv_serialize d))), Some (dv_nf (\<lambda>_. True) d)))"
  using dv_deserialize_simple [OF assms(1), of m p False phys s] assms(2) by (simp add: dv_serialize_bytes)

theorem data_value_roundtrip_witness:
  "\<exists>k. dv_deserialize (\<lambda>s i. (s, 0, None)) () (putbytes (\<lambda>_. 0) 40 (ser_content (dv_serialize (dv_new_int 5)))) 40
     False = ((), Inr (k, Some (dv_nf (\<lambda>_. True) (dv_new_int 5))))"
  using data_value_roundtrip [of "dv_new_int 5"
      "putbytes (\<lambda>_. 0) 40 (ser_content (dv_serialize (dv_new_int 5)))" 40 "\<lambda>s i. (s, 0, None)" "()"]
  by (simp add: dv_ok_def dv_new_int_def dv_setInt_def p_init_def lids_opt_ok_def value_ok_def s32_def holds_def
      mem_simps)

text \<open>A copy of a data value is written with the same bytes and reads back to the same value.\<close>

lemma data_value_copy:
  assumes "dv_ok d"
  shows "ser_content (dv_serialize (dv_clone d)) = ser_content (dv_serialize d)
    \<and> dv_nf live (dv_clone d) = dv_nf live d"
  using dv_copy_same [OF assms] by (simp_all add: dv_serialize_bytes dv_clone_def)

text \<open>Class marks form a set: adding marks is union and removing marks is difference, and no mark is
  stored twice.\<close>

lemma class_marks_set:
  assumes "marks_inv d" "\<forall>l\<in>set s. lid_wf l"
  shows "marks (addClassMarks d (Some s)) = marks d \<union> lids_vals s
    \<and> marks (removeClassMarks d (Some s)) = marks d - lids_vals s
    \<and> marks_inv (addClassMarks d (Some s)) \<and> marks_inv (removeClassMarks d (Some s))"
  using addClassMarks_marks [OF assms] removeClassMarks_marks [OF assms(1)] by simp_all

text \<open>The assignment of a vector of references to a data value never succeeds: whatever the value and the
  vector, the past-the-end iterator is dereferenced.\<close>

lemma assign_vector_faults: "dv_assign_vector d v = Inl EndIteratorDereference"
  by (simp add: dv_assign_vector_def)

end
