(* ===== verification/ObjectPointers.thy ===== *)
theory ObjectPointers
  imports DataValues
begin

text \<open>
  Object pointers (Store/DBObjectPointer.cpp): the triple of logical identifier, name and value that
  a page stores, with its byte format. The constructors leave \<open>isRoot\<close> unset, hence an option; a
  null identifier or value makes \<open>serialize\<close> dereference a null pointer.
\<close>

record DBObjectPointer =
  lid_of :: "lid option"
  name :: string
  val :: "DBDataValue option"
  isRoot :: "bool option"
  opParentRoot :: string

definition op_new0 :: DBObjectPointer where
  "op_new0 = \<lparr>lid_of = None, name = ''NoName'', val = None, isRoot = None, opParentRoot = ''''\<rparr>"

definition op_new_lid :: "lid \<Rightarrow> DBObjectPointer" where
  "op_new_lid l = \<lparr>lid_of = Some (lid_clone l), name = ''NoName'', val = None, isRoot = None, opParentRoot = ''''\<rparr>"

definition op_new_nv :: "string \<Rightarrow> DBDataValue \<Rightarrow> DBObjectPointer" where
  "op_new_nv n dv = \<lparr>lid_of = None, name = n, val = Some (dv_clone dv), isRoot = None, opParentRoot = ''''\<rparr>"

definition op_new :: "string \<Rightarrow> DBDataValue \<Rightarrow> lid \<Rightarrow> DBObjectPointer" where
  "op_new n dv l = \<lparr>lid_of = Some (lid_clone l), name = n, val = Some (dv_clone dv), isRoot = None, opParentRoot = ''''\<rparr>"

definition op_setIsRoot :: "DBObjectPointer \<Rightarrow> bool \<Rightarrow> DBObjectPointer" where
  "op_setIsRoot ob b = ob\<lparr>isRoot := Some b\<rparr>"

definition op_setParentRoot :: "DBObjectPointer \<Rightarrow> string \<Rightarrow> DBObjectPointer" where
  "op_setParentRoot ob r = ob\<lparr>opParentRoot := r\<rparr>"

text \<open>\<open>setIndexMarker\<close>: the identifiers in the vector of a root get its name; other objects take over the name from the
  identifier under which they are read.\<close>

definition setIndexMarker :: "lid \<Rightarrow> DBObjectPointer \<Rightarrow> DBObjectPointer" where
  "setIndexMarker l ob =
     (case (isRoot ob, val ob) of
        (Some True, Some v) \<Rightarrow>
          (case dvalue v of
             vector_value vec \<Rightarrow> ob\<lparr>val := Some (v\<lparr>dvalue := vector_value (map (\<lambda>x. lid_setParentRoot x (name ob)) vec)\<rparr>)\<rparr>
           | _ \<Rightarrow> if parentRoot l \<noteq> [] then op_setParentRoot ob (parentRoot l) else ob)
      | _ \<Rightarrow> if parentRoot l \<noteq> [] then op_setParentRoot ob (parentRoot l) else ob)"

lemma setIndexMarker_sel [simp]:
  "name (setIndexMarker l ob) = name ob" "isRoot (setIndexMarker l ob) = isRoot ob" "lid_of (setIndexMarker l ob) = lid_of ob"
  by (simp_all add: setIndexMarker_def op_setParentRoot_def split: option.splits bool.splits complex_value.splits)

lemma setIndexMarker_marks:
  assumes "isRoot ob = Some r" "val ob = Some v" "opParentRoot ob = []"
  shows "r \<and> map_option dvalue (val (setIndexMarker l ob)) = Some (vector_value ls) \<Longrightarrow>
      opParentRoot (setIndexMarker l ob) = [] \<and> (\<forall>x\<in>set ls. parentRoot x = name ob)"
    "\<nexists>ls. r \<and> map_option dvalue (val (setIndexMarker l ob)) = Some (vector_value ls) \<Longrightarrow>
      opParentRoot (setIndexMarker l ob) = parentRoot l"
  using assms by (cases r; cases "dvalue v"; auto simp: setIndexMarker_def op_setParentRoot_def lid_setParentRoot_def split: if_splits)+

text \<open>\<open>serialize\<close>: identifier, root flag, the constant \<open>0x78563412\<close>, name, value.\<close>

definition op_serialize :: "DBObjectPointer \<Rightarrow> fault + serialized" where
  "op_serialize ob =
     (case (lid_of ob, isRoot ob, val ob) of
        (Some l, Some r, Some v) \<Rightarrow>
          (let s = ser_add_lid ser_empty l;
               s = ser_add_int s (if r then 1 else 0);
               s = ser_add_int s 2018915346;
               s = ser_add_string s (name ob);
               s = ser_add_dv s v
           in Inr s)
      | (None, _, _) \<Rightarrow> Inl NullDereference
      | (Some l, None, _) \<Rightarrow> Inl IndeterminateRead
      | (Some l, Some r, None) \<Rightarrow> Inl NullDereference)"

definition op_bytes :: "lid \<Rightarrow> bool \<Rightarrow> string \<Rightarrow> DBDataValue \<Rightarrow> byte list" where
  "op_bytes l r n v = lid_bytes l @ le_bytes 4 (if r then 1 else 0) @ le_bytes 4 2018915346
     @ string_bytes n @ dv_bytes v"

lemma op_serialize_bytes:
  assumes "lid_of ob = Some l" "isRoot ob = Some r" "val ob = Some v"
  shows "\<exists>s. op_serialize ob = Inr s \<and> ser_inv s \<and> ser_content s = op_bytes l r (name ob) v"
  using assms by (simp add: op_serialize_def op_bytes_def Let_def)

lemma op_bytes_nonempty: "16 \<le> length (op_bytes l r n v)"
  by (simp add: op_bytes_def string_bytes_def)

lemma op_bytes_clone [simp]: "op_bytes (lid_clone l) r n v = op_bytes l r n v"
  by (simp add: op_bytes_def)

text \<open>The reader of the format is \<open>PageManager::deserialize\<close>; the part after the address of the object
  is computed. \<open>osize\<close> is the room the offset table gives the object.\<close>

definition op_deserialize ::
  "'s pid_lookup \<Rightarrow> 's \<Rightarrow> mem \<Rightarrow> int \<Rightarrow> int \<Rightarrow> 's \<times> (fault + int \<times> DBObjectPointer option)" where
  "op_deserialize phys s m startpos osize =
     (let (l, usedbytes) = lid_deserialize m startpos
      in if usedbytes \<le> 0 then (s, Inr (-1, None))
         else
           (let curpos = startpos + usedbytes;
                root = get_s32 m curpos;
                curpos = curpos + 4 + 4;
                slen = get_s32 m curpos;
                curpos = curpos + 4
            in if slen < 0 then (s, Inl LengthError) else
           (let nm = read_string m curpos (nat slen);
                curpos = curpos + slen;
                (s', r) = dv_deserialize phys s m curpos True
            in case r of
                 Inl e \<Rightarrow> (s', Inl e)
               | Inr (used, v) \<Rightarrow>
                   if used \<le> 0 then (s', Inr (-1, None))
                   else if curpos + used - startpos > osize then (s', Inr (-1, None))
                   else (case v of
                           None \<Rightarrow> (s', Inl NullDereference)
                         | Some d \<Rightarrow>
                             (s', Inr (0, Some (op_setIsRoot (op_new nm d l) (root = 1))))))))"

definition op_ok :: "lid \<Rightarrow> string \<Rightarrow> DBDataValue \<Rightarrow> bool" where
  "op_ok l n v \<longleftrightarrow> lid_wf l \<and> length n < 2147483648 \<and> dv_ok v"

text \<open>The object that reading rebuilds.\<close>

definition op_nf :: "(int \<Rightarrow> bool) \<Rightarrow> lid \<Rightarrow> bool \<Rightarrow> string \<Rightarrow> DBDataValue \<Rightarrow> DBObjectPointer" where
  "op_nf live l r n v = op_setIsRoot (op_new n (dv_nf live v) (lid_nf l)) r"

lemma dv_bytes_pos: "0 < length (dv_bytes d)"
  by (simp add: dv_bytes_def)

context pid_source
begin

lemma op_deserialize_bytes:
  assumes "I s" "op_ok l n v" "holds m p (op_bytes l r n v)" "int (length (op_bytes l r n v)) \<le> osize"
    and "\<And>ls x. dvalue v = vector_value ls \<Longrightarrow> x \<in> set ls \<Longrightarrow> known (lvalue x)"
  shows "\<exists>s'. I s' \<and> op_deserialize phys s m p osize = (s', Inr (0, Some (op_nf live l r n v)))"
proof -
  have l: "lid_deserialize m p = (lid_nf l, 4)"
    and root: "get_s32 m (p + 4) = (if r then 1 else 0)"
    and nm: "holds m (p + 12) (string_bytes n)"
    and dv: "holds m (p + 12 + int (length (string_bytes n))) (dv_bytes v)"
    using assms(2,3)
    by (auto simp: op_bytes_def holds_append op_ok_def lidc.decode holds_s32 s32_def
        add.commute [of 12] split: if_splits)
  have slen: "get_s32 m (p + 12) = int (length n)" "read_string m (p + 12 + 4) (length n) = n"
    using string_bytes_read [OF _ nm] assms(2) by (simp_all add: op_ok_def)
  have len: "int (length (op_bytes l r n v)) = 16 + int (length n) + int (length (dv_bytes v))"
    by (simp add: op_bytes_def string_bytes_def)
  have "p + 12 + int (length (string_bytes n)) = p + 12 + 4 + int (length n)"
    by (simp add: string_bytes_def)
  with dv obtain s' where "I s'" "dv_deserialize phys s m (p + 12 + 4 + int (length n)) True
      = (s', Inr (int (length (dv_bytes v)), Some (dv_nf live v)))"
    using deserialize_autoremove [OF assms(1), of v m "p + 12 + 4 + int (length n)"] assms(2,5)
    by (auto simp: op_ok_def)
  then show ?thesis
    using l root slen dv_bytes_pos [of v] assms(4) len
    by (simp add: op_deserialize_def op_nf_def Let_def add.assoc)
qed

end

end
