(* ===== verification/SlottedPages.thy ===== *)
theory SlottedPages
  imports ObjectPointers
begin

text \<open>
  Data pages at the level of their bytes (Store/PageManager.cpp, the page surgery of
  DBStoreManager::deleteObject, Store/Struct.h). A page is 16384 bytes: a 20-byte header with the
  number of slots and the free space, a table of 32-bit offsets growing upwards, and the objects
  packed downwards from the end of the page; slot \<open>i\<close> reaches from its offset to the offset of slot
  \<open>i - 1\<close>, and an empty slot has the offset of its predecessor.

  \<open>page_repr m xs\<close> relates the bytes to the list of the slots' contents. Insertion and deletion are
  shown to refine the corresponding list operations, which makes the offset table, the free-space
  counter and every other object correct after each operation, and no byte outside the page is
  touched.
\<close>

section \<open>Layout\<close>

definition page_hdr_page_id :: "mem \<Rightarrow> int" where "page_hdr_page_id m = get_u32 m 0"
definition page_timestamp :: "mem \<Rightarrow> int" where "page_timestamp m = get_s32 m 8"
definition object_count :: "mem \<Rightarrow> int" where "object_count m = get_s32 m 12"
definition free_space :: "mem \<Rightarrow> int" where "free_space m = get_s32 m 16"
definition object_offset :: "mem \<Rightarrow> int \<Rightarrow> int" where "object_offset m i = get_s32 m (20 + 4 * i)"

definition set_timestamp :: "mem \<Rightarrow> int \<Rightarrow> mem" where "set_timestamp m v = put_32 m 8 v"
definition set_object_count :: "mem \<Rightarrow> int \<Rightarrow> mem" where "set_object_count m v = put_32 m 12 v"
definition set_free_space :: "mem \<Rightarrow> int \<Rightarrow> mem" where "set_free_space m v = put_32 m 16 v"
definition set_object_offset :: "mem \<Rightarrow> int \<Rightarrow> int \<Rightarrow> mem" where
  "set_object_offset m i v = put_32 m (20 + 4 * i) v"

lemmas page_acc_defs = page_timestamp_def object_count_def free_space_def object_offset_def
  set_timestamp_def set_object_count_def set_free_space_def set_object_offset_def
  page_hdr_page_id_def

definition MAX_FREE_SPACE :: int where "MAX_FREE_SPACE = STORE_PAGESIZE - 20"
definition MAX_OBJECT_COUNT :: int where "MAX_OBJECT_COUNT = MAX_FREE_SPACE div 4"

lemma max_consts [simp]: "MAX_FREE_SPACE = 16364" "MAX_OBJECT_COUNT = 4091" "STORE_PAGESIZE = 16384"
  by (simp_all add: MAX_FREE_SPACE_def MAX_OBJECT_COUNT_def STORE_PAGESIZE_def)

section \<open>Operations\<close>

text \<open>\<open>PageManager::initializePage\<close>: every \<open>MAX_OBJECT_COUNT + 1\<close>-th page is a free map.\<close>

definition pm_initializePage :: "int \<Rightarrow> mem \<Rightarrow> mem" where
  "pm_initializePage page_num page =
     (let isFreeMapPage = (page_num mod (MAX_OBJECT_COUNT + 1) = 0);
          m = memset page 0 0 STORE_PAGESIZE;
          m = put_16 m 4 STORE_FILE_DEFAULT;
          m = put_32 m 0 page_num;
          m = set_timestamp m 0;
          m = set_object_count m 0
      in if isFreeMapPage
         then set_free_space (put_16 m 6 STORE_PAGE_DATAHEADER) MAX_OBJECT_COUNT
         else set_free_space (put_16 m 6 STORE_PAGE_DATAPAGE) MAX_FREE_SPACE)"

text \<open>\<open>PageManager::insertObject\<close>. The search for an empty slot after slot 0: \<^const>\<open>Inl\<close> is the early
  return for corrupted offsets.\<close>

function scan_empty :: "mem \<Rightarrow> int \<Rightarrow> int + int" where
  "scan_empty m i =
     (if i < object_count m - 1 then
        (if object_offset m i \<le> object_offset m (i + 1) then
           (if object_offset m i < object_offset m (i + 1) then Inl (-11) else Inr (i + 1))
         else scan_empty m (i + 1))
      else Inr (-1))"
  by pat_completeness auto
termination
  by (relation "measure (\<lambda>(m, i). nat (object_count m - i))") auto

text \<open>The move of the objects below the empty slot. The bound \<open>object_offset[roffset]\<close> is read again in
  every round, as the code does.\<close>

function shift_loop :: "mem \<Rightarrow> int \<Rightarrow> int \<Rightarrow> int \<Rightarrow> mem \<times> int" where
  "shift_loop m i sz roffset =
     (if i < object_offset m roffset
      then shift_loop (m(i - sz := m i)) (i + 1) sz roffset
      else (m, i))"
  by pat_completeness auto
termination
proof (relation "measure (\<lambda>(m, i, sz, r). nat (2147483648 - i))")
  fix m i sz r
  assume "i < object_offset m r"
  moreover have "object_offset m r < 2147483648"
    by (simp add: object_offset_def get_s32_bounds)
  ultimately show "((m(i - sz := m i), i + 1, sz, r), (m, i, sz, r))
      \<in> measure (\<lambda>(m, i, sz, r). nat (2147483648 - i))"
    by simp
qed simp

function add_offsets :: "mem \<Rightarrow> int \<Rightarrow> int \<Rightarrow> mem" where
  "add_offsets m i d =
     (if i < object_count m
      then add_offsets (set_object_offset m i (object_offset m i + d)) (i + 1) d
      else m)"
  by pat_completeness auto
termination
proof (relation "measure (\<lambda>(m, i, d). nat (2147483648 - i))")
  fix m i d
  assume "i < object_count m"
  moreover have "object_count m < 2147483648"
    by (simp add: object_count_def get_s32_bounds)
  ultimately show "((set_object_offset m i (object_offset m i + d), i + 1, d), (m, i, d))
      \<in> measure (\<lambda>(m, i, d). nat (2147483648 - i))"
    by simp
qed simp

declare scan_empty.simps [simp del] shift_loop.simps [simp del] add_offsets.simps [simp del]

text \<open>The two ways to place the object: a new slot at the end of the table, or the empty slot found.\<close>

definition insert_new_slot :: "mem \<Rightarrow> byte list \<Rightarrow> int \<Rightarrow> int \<times> mem \<times> int option" where
  "insert_new_slot m obj log_id =
     (let sz = int (length obj);
          lastoffset = (if object_count m > 0 then object_offset m (object_count m - 1)
                        else STORE_PAGESIZE);
          m = set_free_space m (free_space m - (sz + 4));
          newoffset = lastoffset - sz;
          m = set_object_offset m (object_count m) newoffset;
          pidoffset = object_count m;
          m = putbytes m newoffset obj;
          m = set_object_count m (object_count m + 1);
          m = set_timestamp m log_id
      in (0, m, Some pidoffset))"

definition insert_empty_slot :: "mem \<Rightarrow> int \<Rightarrow> byte list \<Rightarrow> int \<Rightarrow> int \<times> mem \<times> int option" where
  "insert_empty_slot m roffset obj log_id =
     (let sz = int (length obj);
          (m, i) = shift_loop m (object_offset m (object_count m - 1)) sz roffset;
          m = putbytes m (i - sz) obj;
          m = add_offsets m roffset (- sz);
          m = set_free_space m (free_space m - sz);
          m = set_timestamp m log_id
      in (0, m, Some roffset))"

definition insertObject :: "mem \<Rightarrow> byte list \<Rightarrow> int \<Rightarrow> int \<times> mem \<times> int option" where
  "insertObject m obj log_id =
     (let sz = int (length obj)
      in if free_space m < sz then (-1, m, None)
         else
           (let found = (if object_count m > 0
                         then (if object_offset m 0 = STORE_PAGESIZE then Inr 0 else scan_empty m 0)
                         else Inr (-1))
            in case found of
                 Inl err \<Rightarrow> (err, m, None)
               | Inr roffset \<Rightarrow>
                   if free_space m < s32 (sz + 4) \<and> roffset = -1 then (-2, m, None)
                   else if roffset = -1 then insert_new_slot m obj log_id
                   else insert_empty_slot m roffset obj log_id))"

text \<open>\<open>PageManager::deserialize\<close>: the place of slot \<open>objindex\<close>, then the object format.\<close>

definition page_deserialize ::
  "'s pid_lookup \<Rightarrow> 's \<Rightarrow> mem \<Rightarrow> int \<Rightarrow> 's \<times> (fault + int \<times> DBObjectPointer option)" where
  "page_deserialize phys s m objindex =
     (let osize = (if objindex > 0 then object_offset m (objindex - 1) - object_offset m objindex
                   else STORE_PAGESIZE - object_offset m objindex)
      in op_deserialize phys s m (object_offset m objindex) osize)"

text \<open>The page surgery of \<open>DBStoreManager::deleteObject\<close>: move the objects of the later slots up, slot
  by slot, through the buffer \<open>pom\<close>.\<close>

function move_loop :: "mem \<Rightarrow> int \<Rightarrow> int \<Rightarrow> mem" where
  "move_loop m i object_size =
     (if i \<le> object_count m - 1 then
        (let sz = object_offset m (i - 1) - object_offset m i;
             start = object_offset m i;
             m = memmove m (start + object_size) start sz
         in move_loop m (i + 1) object_size)
      else m)"
  by pat_completeness auto
termination
proof (relation "measure (\<lambda>(m, i, d). nat (2147483648 - i))", goal_cases)
  case (2 m i d sz start m')
  moreover have "object_count m < 2147483648"
    by (simp add: object_count_def get_s32_bounds)
  ultimately show ?case by simp
qed simp

text \<open>The loop that drops empty slots at the end of the table.\<close>

function trim_loop :: "mem \<Rightarrow> int \<Rightarrow> mem" where
  "trim_loop m i =
     (if i > 0 then
        (if object_offset m i \<ge> object_offset m (i - 1) then
           (if object_offset m i > object_offset m (i - 1) then m
            else trim_loop (set_free_space (set_object_count m (object_count m - 1))
                              (free_space m + 4)) (i - 1))
         else m)
      else m)"
  by pat_completeness auto
termination
  by (relation "measure (\<lambda>(m, i). nat i)") auto

declare move_loop.simps [simp del] trim_loop.simps [simp del]

text \<open>The surgery has two halves, with the update of the identifier map between them.\<close>

definition page_delete_move :: "mem \<Rightarrow> int \<Rightarrow> int \<Rightarrow> mem \<times> int" where
  "page_delete_move m pos_table log_id =
     (let m = set_timestamp m log_id;
          end_of_object = (if pos_table = 0 then STORE_PAGESIZE else object_offset m (pos_table - 1));
          object_size = end_of_object - object_offset m pos_table;
          m = move_loop m (pos_table + 1) object_size;
          m = add_offsets m (pos_table + 1) object_size;
          m = set_object_offset m pos_table (object_offset m pos_table + object_size)
      in (m, object_size))"

definition page_delete_finish :: "mem \<Rightarrow> int \<Rightarrow> int \<Rightarrow> mem" where
  "page_delete_finish m ooff object_size =
     (let m = (if object_count m - 1 = ooff
               then (let m = set_object_count m (object_count m - 1)
                     in set_free_space m (free_space m + object_size + 4))
               else set_free_space m (free_space m + object_size));
          m = trim_loop m (object_count m - 1);
          m = (if object_count m = 1 \<and> object_offset m 0 = STORE_PAGESIZE
               then (let m = set_object_count m (object_count m - 1)
                     in set_free_space m (free_space m + 4))
               else m);
          from = 20 + 4 * object_count m;
          upto = (if object_count m \<le> 0 then STORE_PAGESIZE
                  else object_offset m (object_count m - 1))
      in memset m from 0 (upto - from))"

definition page_delete :: "mem \<Rightarrow> int \<Rightarrow> int \<Rightarrow> mem" where
  "page_delete m pos_table log_id =
     (let (m, object_size) = page_delete_move m pos_table log_id
      in page_delete_finish m pos_table object_size)"

section \<open>Pages as lists of slots\<close>

definition tot :: "byte list list \<Rightarrow> int" where
  "tot xs = int (length (concat xs))"

definition page_repr :: "mem \<Rightarrow> byte list list \<Rightarrow> bool" where
  "page_repr m xs \<longleftrightarrow>
     object_count m = int (length xs)
     \<and> free_space m = MAX_FREE_SPACE - 4 * int (length xs) - tot xs \<and> 0 \<le> free_space m
     \<and> (\<forall>i < length xs. object_offset m (int i) = STORE_PAGESIZE - tot (take (Suc i) xs))
     \<and> holds m (STORE_PAGESIZE - tot xs) (concat (rev xs))"

text \<open>Equality outside the page and on the first eight bytes, the page's number, file and type: no
  operation may touch these or the neighbouring memory.\<close>

definition same_outside :: "mem \<Rightarrow> mem \<Rightarrow> bool" where
  "same_outside m m' \<longleftrightarrow> (\<forall>x. x < 8 \<or> STORE_PAGESIZE \<le> x \<longrightarrow> m' x = m x)"

lemma tot_simps [simp]:
  "tot [] = 0" "tot (x # xs) = int (length x) + tot xs" "tot (xs @ ys) = tot xs + tot ys"
  by (simp_all add: tot_def)

lemma tot_nonneg: "0 \<le> tot xs"
  by (simp add: tot_def)

lemma length_concat_rev: "int (length (concat (rev xs))) = tot xs"
  by (simp add: tot_def length_concat rev_map [symmetric] sum_list_rev)

lemma int_length_concat [simp]: "int (length (concat xs)) = tot xs"
  by (simp add: tot_def)

lemma tot_take_le: "tot (take k xs) \<le> tot xs"
  using tot_simps(3) [of "take k xs" "drop k xs"] tot_nonneg [of "drop k xs"] by (simp del: tot_simps(3))

lemma page_reprD:
  assumes "page_repr m xs"
  shows "object_count m = int (length xs)"
    "free_space m = 16364 - 4 * int (length xs) - tot xs"
    "4 * int (length xs) + tot xs \<le> 16364"
    "i < length xs \<Longrightarrow> object_offset m (int i) = 16384 - tot (take (Suc i) xs)"
    "holds m (16384 - tot xs) (concat (rev xs))"
  using assms by (auto simp: page_repr_def)

lemma page_repr_last:
  "page_repr m xs \<Longrightarrow> xs \<noteq> [] \<Longrightarrow> object_offset m (int (length xs) - 1) = 16384 - tot xs"
  using page_reprD(4) [of m xs "length xs - 1"] by (simp add: of_nat_diff Suc_leI)

lemma page_repr_prev:
  "page_repr m xs \<Longrightarrow> i < length xs \<Longrightarrow> 0 < i \<Longrightarrow>
     object_offset m (int i - 1) - object_offset m (int i) = int (length (xs ! i))"
  using page_reprD(4) [of m xs i] page_reprD(4) [of m xs "i - 1"]
  by (simp add: of_nat_diff Suc_leI take_Suc_conv_app_nth)

text \<open>The contents of slot \<open>i\<close>, as \<open>PageManager::deserialize\<close> locates them.\<close>

lemma page_repr_slot:
  assumes "page_repr m xs" "i < length xs"
  shows "holds m (object_offset m (int i)) (xs ! i)"
    "(if int i > 0 then object_offset m (int i - 1) - object_offset m (int i)
      else STORE_PAGESIZE - object_offset m (int i)) = int (length (xs ! i))"
proof -
  have "xs = take i xs @ xs ! i # drop (Suc i) xs"
    using assms(2) by (simp add: id_take_nth_drop)
  then have split: "concat (rev xs) = concat (rev (drop (Suc i) xs)) @ xs ! i @ concat (rev (take i xs))"
    by (metis append.assoc concat.simps(1,2) concat_append rev.simps(2) rev_append append.right_neutral)
  have "tot xs = tot (take (Suc i) xs) + tot (drop (Suc i) xs)"
    by (metis append_take_drop_id tot_simps(3))
  then have "16384 - tot xs + int (length (concat (rev (drop (Suc i) xs)))) = object_offset m (int i)"
    using page_reprD(4) [OF assms] by (simp only: length_concat_rev)
  with page_reprD(5) [OF assms(1)] show "holds m (object_offset m (int i)) (xs ! i)"
    by (simp add: split holds_append)
  show "(if int i > 0 then object_offset m (int i - 1) - object_offset m (int i)
      else STORE_PAGESIZE - object_offset m (int i)) = int (length (xs ! i))"
    using page_repr_prev [OF assms] page_reprD(4) [OF assms] take_Suc_conv_app_nth [OF assms(2)]
    by (cases "i = 0") simp_all
qed

section \<open>Insertion\<close>

fun first_empty :: "byte list list \<Rightarrow> nat option" where
  "first_empty [] = None"
| "first_empty (x # xs) = (if x = [] then Some 0 else map_option Suc (first_empty xs))"

lemma first_empty_Some:
  "first_empty xs = Some r \<Longrightarrow> r < length xs \<and> xs ! r = [] \<and> (\<forall>i < r. xs ! i \<noteq> [])"
proof (induction xs arbitrary: r)
  case (Cons x xs)
  then show ?case
    by (auto simp: nth_Cons split: if_splits nat.splits)
qed simp

lemma first_empty_None: "first_empty xs = None \<Longrightarrow> \<forall>i < length xs. xs ! i \<noteq> []"
  by (induction xs) (auto simp: nth_Cons split: if_splits nat.splits)

lemma scan_empty_repr:
  assumes "page_repr m xs" "i < length xs" "\<forall>j \<le> i. xs ! j \<noteq> []"
  shows "scan_empty m (int i)
     = Inr (case first_empty xs of None \<Rightarrow> -1 | Some r \<Rightarrow> int r)"
  using assms(2,3)
proof (induction "length xs - i" arbitrary: i)
  case 0
  then show ?case by simp
next
  case (Suc k)
  show ?case
  proof (cases "Suc i < length xs")
    case False
    have "first_empty xs = None"
    proof (cases "first_empty xs")
      case (Some r)
      with False have "r \<le> i" "xs ! r = []"
        using first_empty_Some [OF Some] by auto
      with Suc.prems show ?thesis by simp
    qed
    with False show ?thesis
      using page_reprD(1) [OF assms(1)] by (simp add: scan_empty.simps)
  next
    case True
    have d: "object_offset m (int i) - object_offset m (int i + 1) = int (length (xs ! Suc i))"
      using page_repr_prev [OF assms(1) True] by (simp add: add.commute)
    have c: "int i < object_count m - 1"
      using True page_reprD(1) [OF assms(1)] by simp
    show ?thesis
    proof (cases "xs ! Suc i = []")
      case True
      have "first_empty xs = Some (Suc i)"
      proof (cases "first_empty xs")
        case None
        with True \<open>Suc i < length xs\<close> show ?thesis
          using first_empty_None by blast
      next
        case (Some r)
        with Suc.prems True have "\<not> r \<le> i" "\<not> Suc i < r"
          using first_empty_Some [OF Some] by auto
        with Some show ?thesis by simp
      qed
      with True d c show ?thesis
        by (simp add: scan_empty.simps)
    next
      case False
      then have "scan_empty m (int (Suc i)) = Inr (case first_empty xs of None \<Rightarrow> -1 | Some r \<Rightarrow> int r)"
        using Suc.prems Suc.hyps(2) True
        by (intro Suc.hyps(1)) (auto simp: le_Suc_eq)
      moreover have "object_offset m (int i + 1) < object_offset m (int i)"
        using False d by (cases "xs ! Suc i") simp_all
      ultimately show ?thesis
        using c by (subst scan_empty.simps) (simp add: add.commute)
    qed
  qed
qed

text \<open>What the search of \<open>insertObject\<close> yields on a well-formed page.\<close>

lemma find_slot_repr:
  assumes "page_repr m xs"
  shows "(if object_count m > 0
          then (if object_offset m 0 = STORE_PAGESIZE then Inr 0 else scan_empty m 0)
          else Inr (-1)) = Inr (case first_empty xs of None \<Rightarrow> -1 | Some r \<Rightarrow> int r)"
proof (cases xs)
  case Nil
  then show ?thesis
    using page_reprD(1) [OF assms] by simp
next
  case (Cons x ys)
  then have o0: "object_offset m 0 = 16384 - int (length x)"
    using page_reprD(4) [OF assms, of 0] by simp
  show ?thesis
  proof (cases "x = []")
    case True
    with Cons o0 show ?thesis
      using page_reprD(1) [OF assms] by simp
  next
    case False
    with Cons o0 show ?thesis
      using page_reprD(1) [OF assms] scan_empty_repr [OF assms, of 0] by simp
  qed
qed

text \<open>The byte-by-byte move is one \<open>memmove\<close> as long as the table entry it reads lies below.\<close>

lemma shift_loop_memmove:
  assumes "object_offset m r = hi" "lo \<le> hi" "0 \<le> sz" "0 \<le> r" "24 + 4 * r \<le> lo - sz"
  shows "shift_loop m lo sz r = (memmove m (lo - sz) lo (hi - lo), hi)"
  using assms
proof (induction "nat (hi - lo)" arbitrary: m lo)
  case 0
  then have "lo = hi" by simp
  with 0 show ?case
    by (auto simp: shift_loop.simps memmove_def fun_eq_iff)
next
  case (Suc k)
  let ?m = "m(lo - sz := m lo)"
  have "getbytes ?m (20 + 4 * r) 4 = getbytes m (20 + 4 * r) 4"
    using Suc.prems by (intro getbytes_cong) auto
  then have o: "object_offset ?m r = hi"
    using Suc.prems(1) by (simp add: object_offset_def get_s32_def)
  have "shift_loop ?m (lo + 1) sz r = (memmove ?m (lo + 1 - sz) (lo + 1) (hi - (lo + 1)), hi)"
    using Suc by (intro Suc.hyps(1) o) auto
  moreover have "memmove ?m (lo + 1 - sz) (lo + 1) (hi - (lo + 1)) = memmove m (lo - sz) lo (hi - lo)"
    using Suc.prems Suc.hyps(2) by (auto simp: memmove_def fun_eq_iff)
  moreover have "lo < hi"
    using Suc.hyps(2) by simp
  ultimately show ?case
    using Suc.prems(1) by (simp add: shift_loop.simps [of m])
qed

text \<open>Adding \<open>d\<close> to the table entries from \<open>i\<close> on changes these entries and nothing else.\<close>

lemma add_offsets_spec:
  assumes "0 \<le> i" "i \<le> object_count m"
    and "\<forall>j. i \<le> j \<and> j < object_count m \<longrightarrow>
      -2147483648 \<le> object_offset m j + d \<and> object_offset m j + d < 2147483648"
  shows "(\<forall>x. x < 20 + 4 * i \<or> 20 + 4 * object_count m \<le> x \<longrightarrow> add_offsets m i d x = m x)
    \<and> (\<forall>j. i \<le> j \<and> j < object_count m \<longrightarrow>
         object_offset (add_offsets m i d) j = object_offset m j + d)"
  using assms
proof (induction "nat (object_count m - i)" arbitrary: m i)
  case 0
  then show ?case
    by (simp add: add_offsets.simps)
next
  case (Suc k)
  then have lt: "i < object_count m" by simp
  let ?m = "set_object_offset m i (object_offset m i + d)"
  have cnt: "object_count ?m = object_count m"
    using Suc.prems by (simp add: page_acc_defs mem_simps)
  have oth: "j \<noteq> i \<Longrightarrow> object_offset ?m j = object_offset m j" for j
    by (cases "j < i") (simp_all add: page_acc_defs mem_simps)
  have upd: "object_offset ?m i = object_offset m i + d"
    using Suc.prems(1,3) lt by (simp add: page_acc_defs mem_simps s32_id)
  have unf: "add_offsets m i d = add_offsets ?m (i + 1) d"
    using lt by (subst add_offsets.simps) simp
  have IH: "(\<forall>x. x < 20 + 4 * (i + 1) \<or> 20 + 4 * object_count ?m \<le> x \<longrightarrow>
        add_offsets ?m (i + 1) d x = ?m x)
    \<and> (\<forall>j. i + 1 \<le> j \<and> j < object_count ?m \<longrightarrow>
         object_offset (add_offsets ?m (i + 1) d) j = object_offset ?m j + d)"
    using Suc.prems Suc.hyps(2) lt by (intro Suc.hyps(1)) (simp_all add: cnt oth)
  have "object_offset (add_offsets ?m (i + 1) d) i = object_offset ?m i"
    using IH by (auto simp: object_offset_def get_s32_def intro!: arg_cong [of _ _ s32]
        arg_cong [of _ _ le_int] getbytes_cong)
  moreover have "x < 20 + 4 * i \<or> 20 + 4 * object_count m \<le> x \<Longrightarrow> ?m x = m x" for x
    using lt by (auto simp: page_acc_defs intro!: put_32_apply_out)
  ultimately show ?case
    unfolding unf cnt
  proof (intro conjI allI impI)
    fix x assume "x < 20 + 4 * i \<or> 20 + 4 * object_count m \<le> x"
    with IH lt show "add_offsets ?m (i + 1) d x = m x"
      using \<open>\<And>x. x < 20 + 4 * i \<or> 20 + 4 * object_count m \<le> x \<Longrightarrow> ?m x = m x\<close> cnt by auto
  next
    fix j assume "i \<le> j \<and> j < object_count m"
    with IH upd oth cnt show "object_offset (add_offsets ?m (i + 1) d) j = object_offset m j + d"
      using \<open>object_offset (add_offsets ?m (i + 1) d) i = object_offset ?m i\<close>
      by (cases "j = i") auto
  qed
qed

text \<open>Reading a field depends only on its four bytes.\<close>

lemma get_s32_cong: "(\<And>x. a \<le> x \<Longrightarrow> x < a + 4 \<Longrightarrow> m x = m' x) \<Longrightarrow> get_s32 m a = get_s32 m' a"
  by (simp add: get_s32_def getbytes_cong [of a 4 m m'])

lemma page_reprI:
  assumes "object_count m = int (length xs)" "free_space m = 16364 - 4 * int (length xs) - tot xs"
    "4 * int (length xs) + tot xs \<le> 16364"
    "\<And>i. i < length xs \<Longrightarrow> object_offset m (int i) = 16384 - tot (take (Suc i) xs)"
    "holds m (16384 - tot xs) (concat (rev xs))"
  shows "page_repr m xs"
  using assms by (simp add: page_repr_def)

lemma insert_new_slot_repr:
  assumes r: "page_repr m xs" and fits: "4 * int (length xs) + tot xs + int (length obj) + 4 \<le> 16364"
  shows "\<exists>m'. insert_new_slot m obj log_id = (0, m', Some (int (length xs)))
    \<and> page_repr m' (xs @ [obj]) \<and> same_outside m m'"
proof -
  note d = page_reprD [OF r]
  let ?n = "int (length xs)" and ?sz = "int (length obj)"
  let ?new = "16384 - tot xs - ?sz"
  have n_le: "?n \<le> 4090"
    using fits tot_nonneg [of xs] by linarith
  have last: "(if object_count m > 0 then object_offset m (object_count m - 1) else STORE_PAGESIZE)
      = 16384 - tot xs"
    using page_repr_last [OF r] d(1) by auto
  define m1 where "m1 = set_free_space m (free_space m - (?sz + 4))"
  define m2 where "m2 = set_object_offset m1 ?n ?new"
  define m3 where "m3 = putbytes m2 ?new obj"
  define m4 where "m4 = set_object_count m3 (?n + 1)"
  define m5 where "m5 = set_timestamp m4 log_id"
  note steps = m1_def m2_def m3_def m4_def m5_def page_acc_defs
  have c: "object_count m1 = ?n" "object_count m2 = ?n" "object_count m3 = ?n"
    using d(1) fits by (simp_all add: steps mem_simps)
  have eq: "insert_new_slot m obj log_id = (0, m5, Some ?n)"
    by (simp add: insert_new_slot_def last Let_def m1_def [symmetric] c m2_def [symmetric]
        m3_def [symmetric] m4_def [symmetric] m5_def [symmetric])
  have low: "20 + 4 * ?n \<le> x \<Longrightarrow> x < ?new \<Longrightarrow> 24 + 4 * ?n \<le> x \<Longrightarrow> m5 x = m x"
    and high: "16384 - tot xs \<le> x \<Longrightarrow> m5 x = m x"
    and tab: "20 \<le> x \<Longrightarrow> x < 20 + 4 * ?n \<Longrightarrow> m5 x = m x" for x
    using fits tot_nonneg [of xs] by (simp_all add: steps mem_simps)
  have "page_repr m5 (xs @ [obj])"
  proof (rule page_reprI)
    show "object_count m5 = int (length (xs @ [obj]))"
      using fits n_le by (simp add: steps mem_simps wrap_simps)
    show "free_space m5 = 16364 - 4 * int (length (xs @ [obj])) - tot (xs @ [obj])"
      using fits d(2) tot_nonneg [of xs] by (simp add: steps mem_simps wrap_simps)
    show "4 * int (length (xs @ [obj])) + tot (xs @ [obj]) \<le> 16364"
      using fits by simp
    show "object_offset m5 (int i) = 16384 - tot (take (Suc i) (xs @ [obj]))"
      if "i < length (xs @ [obj])" for i
    proof (cases "i = length xs")
      case True
      have "object_offset m5 ?n = ?new"
        using fits tot_nonneg [of xs] by (simp add: steps mem_simps wrap_simps)
      with True show ?thesis by simp
    next
      case False
      with that have i: "i < length xs" by simp
      have "object_offset m5 (int i) = object_offset m (int i)"
        unfolding object_offset_def using i by (intro get_s32_cong tab) auto
      with i d(4) show ?thesis by simp
    qed
    have "holds m5 ?new obj"
      using fits by (simp add: steps holds_def mem_simps)
    moreover have "holds m5 (16384 - tot xs) (concat (rev xs))"
      using d(5) getbytes_cong [of "16384 - tot xs" _ m5 m] high by (simp add: holds_def)
    ultimately show "holds m5 (16384 - tot (xs @ [obj])) (concat (rev (xs @ [obj])))"
      by (simp add: holds_append algebra_simps)
  qed
  moreover have "same_outside m m5"
    using fits n_le tot_nonneg [of xs] by (simp add: same_outside_def steps mem_simps)
  ultimately show ?thesis
    using eq by blast
qed

lemma tot_update:
  "r < length ys \<Longrightarrow> tot (ys[r := v]) = tot ys - int (length (ys ! r)) + int (length v)"
proof -
  assume r: "r < length ys"
  have "tot ys = tot (take r ys) + int (length (ys ! r)) + tot (drop (Suc r) ys)"
    by (subst id_take_nth_drop [OF r]) simp
  with r show ?thesis
    by (simp add: upd_conv_take_nth_drop)
qed

lemma tot_take_update:
  assumes "r < length xs" "xs ! r = []"
  shows "tot (take (Suc i) (xs[r := v]))
    = tot (take (Suc i) xs) + (if r \<le> i then int (length v) else 0)"
proof (cases "r \<le> i")
  case True
  with assms have "r < length (take (Suc i) xs)" "take (Suc i) xs ! r = []"
    by simp_all
  with True show ?thesis
    by (simp add: take_update_swap tot_update)
qed simp

lemma concat_rev_update:
  "r < length xs \<Longrightarrow> concat (rev (xs[r := v]))
     = concat (rev (drop (Suc r) xs)) @ v @ concat (rev (take r xs))"
  by (simp add: upd_conv_take_nth_drop)

lemma concat_rev_split:
  "r < length xs \<Longrightarrow> concat (rev xs)
     = concat (rev (drop (Suc r) xs)) @ xs ! r @ concat (rev (take r xs))"
  using concat_rev_update [of r xs "xs ! r"] by simp

lemma tot_split: "r < length xs \<Longrightarrow> tot xs = tot (take r xs) + int (length (xs ! r)) + tot (drop (Suc r) xs)"
  by (subst id_take_nth_drop [of r xs]) simp_all

lemma insert_empty_slot_repr:
  assumes rp: "page_repr m xs" and r: "r < length xs" "xs ! r = []"
    and fits: "4 * int (length xs) + tot xs + int (length obj) \<le> 16364"
  shows "\<exists>m'. insert_empty_slot m (int r) obj log_id = (0, m', Some (int r))
    \<and> page_repr m' (xs[r := obj]) \<and> same_outside m m'"
proof -
  note d = page_reprD [OF rp]
  let ?n = "int (length xs)" and ?sz = "int (length obj)"
  let ?Z = "drop (Suc r) xs" and ?Y = "take r xs"
  let ?L = "16384 - tot xs" and ?H = "16384 - tot ?Y"
  have T: "tot xs = tot ?Y + tot ?Z"
    using tot_split [OF r(1)] r(2) by simp
  have n_le: "int r + 1 \<le> ?n" "?n \<le> 4091" "0 \<le> tot ?Y" "0 \<le> tot ?Z"
    using fits r tot_nonneg [of xs] tot_nonneg by (simp_all, linarith)
  have last: "object_offset m (object_count m - 1) = ?L"
    using page_repr_last [OF rp] d(1) r by (cases xs) auto
  have hole: "object_offset m (int r) = ?H"
    using d(4) [OF r(1)] r by (simp add: take_Suc_conv_app_nth)
  define m1 where "m1 = memmove m (?L - ?sz) ?L (?H - ?L)"
  define m2 where "m2 = putbytes m1 (?H - ?sz) obj"
  define m3 where "m3 = add_offsets m2 (int r) (- ?sz)"
  define m4 where "m4 = set_free_space m3 (free_space m3 - ?sz)"
  define m5 where "m5 = set_timestamp m4 log_id"
  have "shift_loop m ?L ?sz (int r) = (m1, ?H)"
    unfolding m1_def using hole T fits n_le by (intro shift_loop_memmove) linarith+
  then have eq: "insert_empty_slot m (int r) obj log_id = (0, m5, Some (int r))"
    by (simp add: insert_empty_slot_def last Let_def m2_def m3_def m4_def m5_def)
  have m12: "x < ?L - ?sz \<Longrightarrow> m2 x = m x" "?H \<le> x \<Longrightarrow> m2 x = m x" for x
    using T fits n_le by (simp_all add: m2_def m1_def mem_simps memmove_def)
  have cnt2: "object_count m2 = ?n"
    using d(1) fits n_le unfolding object_count_def by (subst get_s32_cong [of 12 m2 m]) (auto simp: m12)
  have off2: "object_offset m2 (int j) = 16384 - tot (take (Suc j) xs)" if "j < length xs" for j
    using d(4) [OF that] that fits n_le unfolding object_offset_def
    by (subst get_s32_cong [of _ m2 m]) (auto simp: m12)
  have rng: "-2147483648 \<le> object_offset m2 j + - ?sz \<and> object_offset m2 j + - ?sz < 2147483648"
    if "int r \<le> j \<and> j < object_count m2" for j
  proof -
    from that cnt2 have "nat j < length xs" "int (nat j) = j"
      by auto
    then show ?thesis
      using off2 [of "nat j"] tot_take_le [of "Suc (nat j)" xs]
        tot_nonneg [of "take (Suc (nat j)) xs"] fits n_le by simp
  qed
  note ao = add_offsets_spec [of "int r" m2 "- ?sz", folded m3_def]
  have m3x: "x < 20 + 4 * int r \<or> 20 + 4 * ?n \<le> x \<Longrightarrow> m3 x = m2 x" for x
    using ao rng r cnt2 by auto
  have m3o: "object_offset m3 (int j) = 16384 - tot (take (Suc j) xs) - ?sz"
    if "r \<le> j" "j < length xs" for j
    using ao rng r cnt2 off2 [OF that(2)] that by auto
  have m5x: "x < 8 \<or> 12 \<le> x \<and> x < 16 \<or> 20 \<le> x \<Longrightarrow> m5 x = m3 x" for x
    by (auto simp: m5_def m4_def page_acc_defs mem_simps)
  have m5o: "object_offset m5 (int j) = object_offset m3 (int j)" for j
    unfolding object_offset_def by (rule get_s32_cong) (simp add: m5x)
  have "page_repr m5 (xs[r := obj])"
  proof (rule page_reprI)
    have "object_count m5 = object_count m2"
      unfolding object_count_def by (rule get_s32_cong) (simp add: m5x m3x)
    then show "object_count m5 = int (length (xs[r := obj]))"
      using cnt2 by simp
    have "free_space m3 = free_space m"
      unfolding free_space_def using fits n_le T by (intro get_s32_cong) (simp add: m3x m12)
    then show "free_space m5 = 16364 - 4 * int (length (xs[r := obj])) - tot (xs[r := obj])"
      using d(2) fits r T n_le by (simp add: m5_def m4_def page_acc_defs mem_simps wrap_simps tot_update)
    show "4 * int (length (xs[r := obj])) + tot (xs[r := obj]) \<le> 16364"
      using fits r by (simp add: tot_update)
    show "object_offset m5 (int i) = 16384 - tot (take (Suc i) (xs[r := obj]))"
      if "i < length (xs[r := obj])" for i
    proof (cases "r \<le> i")
      case True
      with that r m3o show ?thesis
        by (simp add: m5o tot_take_update)
    next
      case False
      then have "object_offset m3 (int i) = object_offset m2 (int i)"
        unfolding object_offset_def by (intro get_s32_cong) (simp add: m3x)
      with False that r off2 show ?thesis
        by (simp add: m5o tot_take_update)
    qed
    have old: "holds m ?L (concat (rev ?Z))" "holds m ?H (concat (rev ?Y))"
      using d(5) T r by (simp_all add: concat_rev_split [OF r(1)] holds_append length_concat_rev)
    have top: "20 + 4 * ?n \<le> x \<Longrightarrow> m5 x = m2 x" for x
      by (simp add: m5x m3x)
    have "getbytes m5 (?L - ?sz) (length (concat (rev ?Z))) = getbytes m ?L (length (concat (rev ?Z)))"
      using fits n_le T length_concat_rev [of ?Z]
      by (subst getbytes_cong [of _ _ m5 m2]) (simp_all add: top m2_def m1_def mem_simps)
    then have "holds m5 (?L - ?sz) (concat (rev ?Z))"
      using old by (simp add: holds_def)
    moreover have "holds m5 (?H - ?sz) obj"
      using fits n_le T getbytes_cong [of "?H - ?sz" "length obj" m5 m2]
      by (simp add: holds_def top) (simp add: m2_def mem_simps)
    moreover have "holds m5 ?H (concat (rev ?Y))"
      using fits n_le T old getbytes_cong [of ?H _ m5 m] by (simp add: holds_def top m12)
    ultimately show "holds m5 (16384 - tot (xs[r := obj])) (concat (rev (xs[r := obj])))"
      using r T by (simp add: concat_rev_update holds_append tot_update length_concat_rev)
        (simp add: algebra_simps)
  qed
  moreover have "same_outside m m5"
    using fits n_le T by (auto simp: same_outside_def m5x m3x m12)
  ultimately show ?thesis
    using eq by blast
qed

text \<open>The list operation that insertion refines: return code, slots and slot number.\<close>

definition slots_insert :: "byte list list \<Rightarrow> byte list \<Rightarrow> int \<times> byte list list \<times> int option" where
  "slots_insert xs obj =
     (let free = MAX_FREE_SPACE - 4 * int (length xs) - tot xs; sz = int (length obj)
      in if free < sz then (-1, xs, None)
         else case first_empty xs of
                Some r \<Rightarrow> (0, xs[r := obj], Some (int r))
              | None \<Rightarrow> if free < sz + 4 then (-2, xs, None)
                        else (0, xs @ [obj], Some (int (length xs))))"

lemma insertObject_repr:
  assumes "page_repr m xs" "slots_insert xs obj = (rc, ys, pid)"
  shows "\<exists>m'. insertObject m obj log_id = (rc, m', pid) \<and> page_repr m' ys \<and> same_outside m m'
    \<and> (rc \<noteq> 0 \<longrightarrow> m' = m)"
proof (cases "free_space m < int (length obj)")
  case True
  with assms show ?thesis
    by (auto simp: insertObject_def slots_insert_def page_repr_def same_outside_def)
next
  case False
  note d = page_reprD [OF assms(1)]
  have small: "s32 (int (length obj) + 4) = int (length obj) + 4"
    using False d(2,3) tot_nonneg [of xs] by (intro s32_id) auto
  show ?thesis
  proof (cases "first_empty xs")
    case None
    show ?thesis
    proof (cases "free_space m < int (length obj) + 4")
      case True
      with None False assms(2) d(2) show ?thesis
        using assms(1)
        by (simp add: insertObject_def find_slot_repr [OF assms(1)] small slots_insert_def
            same_outside_def Let_def)
    next
      case no: False
      then have "4 * int (length xs) + tot xs + int (length obj) + 4 \<le> 16364"
        using d(2) by simp
      from insert_new_slot_repr [OF assms(1) this, of log_id] None False no assms(2) d(2)
      show ?thesis
        by (auto simp: insertObject_def find_slot_repr [OF assms(1)] small slots_insert_def Let_def)
    qed
  next
    case (Some r)
    have "4 * int (length xs) + tot xs + int (length obj) \<le> 16364"
      using False d(2) by simp
    from insert_empty_slot_repr [OF assms(1) _ _ this, of r log_id] first_empty_Some [OF Some]
      Some False assms(2) d(2)
    show ?thesis
      by (auto simp: insertObject_def find_slot_repr [OF assms(1)] slots_insert_def Let_def)
  qed
qed

section \<open>Deletion\<close>

definition rstrip :: "byte list list \<Rightarrow> byte list list" where
  "rstrip xs = rev (dropWhile (\<lambda>x. x = []) (rev xs))"

definition slots_delete :: "byte list list \<Rightarrow> nat \<Rightarrow> byte list list" where
  "slots_delete xs i = rstrip (xs[i := []])"

lemma rstrip_snoc [simp]: "rstrip (xs @ [x]) = (if x = [] then rstrip xs else xs @ [x])"
  by (simp add: rstrip_def)

lemma rstrip_Nil [simp]: "rstrip [] = []"
  by (simp add: rstrip_def)

text \<open>The part of the representation that lies above the header.\<close>

definition slots_at :: "mem \<Rightarrow> byte list list \<Rightarrow> bool" where
  "slots_at m xs \<longleftrightarrow> (\<forall>i < length xs. object_offset m (int i) = 16384 - tot (take (Suc i) xs))
     \<and> holds m (16384 - tot xs) (concat (rev xs))"

lemma page_repr_slots_at:
  "page_repr m xs \<longleftrightarrow> object_count m = int (length xs)
     \<and> free_space m = 16364 - 4 * int (length xs) - tot xs \<and> 0 \<le> free_space m \<and> slots_at m xs"
  by (auto simp: page_repr_def slots_at_def)

lemma slots_at_cong:
  assumes "slots_at m xs" "\<And>x. 20 \<le> x \<Longrightarrow> x < 20 + 4 * int (length xs) \<Longrightarrow> m' x = m x"
    "\<And>x. 16384 - tot xs \<le> x \<Longrightarrow> m' x = m x"
  shows "slots_at m' xs"
proof -
  have "object_offset m' (int i) = object_offset m (int i)" if "i < length xs" for i
    unfolding object_offset_def using that by (intro get_s32_cong assms(2)) auto
  moreover have "getbytes m' (16384 - tot xs) k = getbytes m (16384 - tot xs) k" for k
    by (intro getbytes_cong assms(3)) auto
  ultimately show ?thesis
    using assms(1) by (simp add: slots_at_def holds_def)
qed

lemma slots_at_butlast: "slots_at m (xs @ [[]]) \<Longrightarrow> slots_at m xs"
  by (auto simp: slots_at_def)

lemma slots_at_field:
  "slots_at m xs \<Longrightarrow> 4 * int (length xs) + tot xs \<le> 16364 \<Longrightarrow> a \<le> 16 \<Longrightarrow> slots_at (put_32 m a v) xs"
  by (rule slots_at_cong) (auto simp: mem_simps)

text \<open>The moves of the later slots add up to one \<open>memmove\<close>.\<close>

lemma move_loop_memmove:
  assumes "object_count m = n" "0 < i" "i \<le> n" "0 \<le> d" "20 + 4 * n \<le> object_offset m (n - 1)"
    and "\<And>j. 0 < j \<Longrightarrow> j < n \<Longrightarrow> object_offset m j \<le> object_offset m (j - 1)"
    and "\<And>j. 0 \<le> j \<Longrightarrow> j < n \<Longrightarrow> object_offset m (n - 1) \<le> object_offset m j"
  shows "move_loop m i d = memmove m (object_offset m (n - 1) + d) (object_offset m (n - 1))
     (object_offset m (i - 1) - object_offset m (n - 1))"
  using assms
proof (induction "nat (n - i)" arbitrary: m i)
  case 0
  then have "i = n" by simp
  with 0 show ?case
    by (auto simp: move_loop.simps memmove_def fun_eq_iff)
next
  case (Suc k)
  let ?o = "object_offset m"
  define m1 where "m1 = memmove m (?o i + d) (?o i) (?o (i - 1) - ?o i)"
  have i: "i < n" using Suc.hyps(2) by simp
  have keep: "x < 20 + 4 * n \<Longrightarrow> m1 x = m x" for x
    using Suc.prems(2,4,5) Suc.prems(7) [of i] i by (auto simp: m1_def memmove_def)
  have cnt: "object_count m1 = n"
    using Suc.prems(1,2,3) keep unfolding object_count_def
    by (subst get_s32_cong [of 12 m1 m]) auto
  have off: "object_offset m1 j = ?o j" if "0 \<le> j" "j < n" for j
    unfolding object_offset_def using that by (intro get_s32_cong keep) auto
  have "move_loop m1 (i + 1) d = memmove m1 (object_offset m1 (n - 1) + d) (object_offset m1 (n - 1))
      (object_offset m1 (i + 1 - 1) - object_offset m1 (n - 1))"
    using Suc.prems Suc.hyps(2) i by (intro Suc.hyps(1)) (auto simp: cnt off)
  also have "\<dots> = memmove m1 (?o (n - 1) + d) (?o (n - 1)) (?o i - ?o (n - 1))"
    using Suc.prems(2,3) i by (simp add: off)
  also have "\<dots> = memmove m (?o (n - 1) + d) (?o (n - 1)) (?o (i - 1) - ?o (n - 1))"
    using Suc.prems(2,4) Suc.prems(6) [of i] Suc.prems(7) [of i] i
    by (auto simp: m1_def memmove_def fun_eq_iff)
  finally show ?case
    using i Suc.prems(1) by (subst move_loop.simps) (simp add: Let_def m1_def)
qed

lemma tot_take_clear:
  assumes "r < length xs"
  shows "tot (take (Suc i) (xs[r := []]))
    = tot (take (Suc i) xs) - (if r \<le> i then int (length (xs ! r)) else 0)"
proof (cases "r \<le> i")
  case True
  with assms have "r < length (take (Suc i) xs)" "take (Suc i) xs ! r = xs ! r"
    by simp_all
  with True show ?thesis
    by (simp add: take_update_swap tot_update)
qed simp

text \<open>Emptying slot \<open>r\<close>: the objects below it move up and the offsets from \<open>r\<close> on grow.\<close>

definition clear_slot :: "mem \<Rightarrow> int \<Rightarrow> int \<Rightarrow> mem" where
  "clear_slot m r d = (let m = add_offsets (move_loop m (r + 1) d) (r + 1) d
     in set_object_offset m r (object_offset m r + d))"

lemma move_loop_repr:
  assumes rp: "page_repr m xs" and r: "r < length xs" and that: "0 \<le> d"
  shows "move_loop m (int r + 1) d = memmove m (16384 - tot xs + d) (16384 - tot xs)
     (tot (drop (Suc r) xs))"
proof -
  note d = page_reprD [OF rp]
  have ne: "xs \<noteq> []" using r by auto
  have last: "object_offset m (int (length xs) - 1) = 16384 - tot xs"
    using page_repr_last [OF rp ne] .
  have desc: "object_offset m j \<le> object_offset m (j - 1)" if "0 < j" "j < int (length xs)" for j
    using page_repr_prev [OF rp, of "nat j"] that by (simp add: nat_less_iff)
  have low: "16384 - tot xs \<le> object_offset m j" if "0 \<le> j" "j < int (length xs)" for j
    using d(4) [of "nat j"] that tot_take_le [of "Suc (nat j)" xs] by (simp add: nat_less_iff)
  have "tot xs = tot (take (Suc r) xs) + tot (drop (Suc r) xs)"
    by (metis append_take_drop_id tot_simps(3))
  then have "object_offset m (int r) - (16384 - tot xs) = tot (drop (Suc r) xs)"
    using d(4) [OF r] by simp
  moreover have "move_loop m (int r + 1) d = memmove m (object_offset m (int (length xs) - 1) + d)
      (object_offset m (int (length xs) - 1))
      (object_offset m (int r + 1 - 1) - object_offset m (int (length xs) - 1))"
    using d(1,3) that r desc low last by (intro move_loop_memmove) simp_all
  ultimately show ?thesis
    by (simp add: last)
qed

lemma clear_slot_repr:
  assumes rp: "page_repr m xs" and r: "r < length xs" and len: "d = int (length (xs ! r))"
  shows "slots_at (clear_slot m (int r) d) (xs[r := []])"
    "\<And>x. x < 20 \<or> 16384 \<le> x \<Longrightarrow> clear_slot m (int r) d x = m x"
proof -
  note p = page_reprD [OF rp]
  let ?n = "int (length xs)" and ?Y = "take r xs" and ?Z = "drop (Suc r) xs"
  let ?L = "16384 - tot xs"
  have T: "tot xs = tot ?Y + d + tot ?Z"
    using tot_split [OF r] len by simp
  have pos: "0 \<le> d" "0 \<le> tot ?Y" "0 \<le> tot ?Z" "int r + 1 \<le> ?n"
    using r len tot_nonneg by simp_all
  define m1 where "m1 = memmove m (?L + d) ?L (tot ?Z)"
  define m2 where "m2 = add_offsets m1 (int r + 1) d"
  define m3 where "m3 = set_object_offset m2 (int r) (object_offset m2 (int r) + d)"
  have eq: "clear_slot m (int r) d = m3"
    by (simp add: clear_slot_def move_loop_repr [OF rp r pos(1)] m1_def m2_def m3_def Let_def)
  have m1x: "x < ?L + d \<or> 16384 - tot ?Y \<le> x \<Longrightarrow> m1 x = m x" for x
    using T pos by (auto simp: m1_def memmove_def)
  have cnt: "object_count m1 = ?n"
    using p(1,3) pos unfolding object_count_def by (subst get_s32_cong [of 12 m1 m]) (auto simp: m1x)
  have off: "object_offset m1 (int j) = 16384 - tot (take (Suc j) xs)" if "j < length xs" for j
    using p(3) p(4) [OF that] that pos unfolding object_offset_def
    by (subst get_s32_cong [of _ m1 m]) (auto simp: m1x)
  have bnd: "?L \<le> object_offset m1 (int j)" "object_offset m1 (int j) \<le> 16384" if "j < length xs" for j
    using off [OF that] tot_take_le [of "Suc j" xs] tot_nonneg [of "take (Suc j) xs"] by simp_all
  have rng: "-2147483648 \<le> object_offset m1 j + d \<and> object_offset m1 j + d < 2147483648"
    if "int r + 1 \<le> j \<and> j < object_count m1" for j
    using bnd [of "nat j"] that cnt p(3) T pos by (simp add: nat_less_iff)
  note ao = add_offsets_spec [of "int r + 1" m1 d, folded m2_def]
  have m2x: "x < 20 + 4 * (int r + 1) \<or> 20 + 4 * ?n \<le> x \<Longrightarrow> m2 x = m1 x" for x
    using ao rng cnt pos by auto
  have m2o: "object_offset m2 (int j) = object_offset m1 (int j) + (if r < j then d else 0)"
    if "j < length xs" for j
  proof (cases "r < j")
    case True
    with ao rng cnt that pos show ?thesis by auto
  next
    case False
    then have "object_offset m2 (int j) = object_offset m1 (int j)"
      unfolding object_offset_def by (intro get_s32_cong m2x) auto
    with False show ?thesis by simp
  qed
  have m3x: "x < 20 + 4 * int r \<or> 20 + 4 * ?n \<le> x \<Longrightarrow> m3 x = m1 x" for x
    using pos m2x [of x] by (auto simp: m3_def set_object_offset_def mem_simps)
  have m3o: "object_offset m3 (int j) = object_offset m1 (int j) + (if r \<le> j then d else 0)"
    if "j < length xs" for j
  proof (cases "j = r")
    case True
    with m2o [OF r] bnd [OF r] p(3) T pos show ?thesis
      by (simp add: m3_def page_acc_defs mem_simps s32_id)
  next
    case False
    then have "object_offset m3 (int j) = object_offset m2 (int j)"
      by (cases "j < r") (simp_all add: m3_def page_acc_defs mem_simps)
    with False m2o [OF that] show ?thesis by simp
  qed
  have old: "holds m ?L (concat (rev ?Z))" "holds m (16384 - tot ?Y) (concat (rev ?Y))"
    using p(5) T len by (simp_all add: concat_rev_split [OF r] holds_append length_concat_rev)
  have "getbytes m3 (?L + d) (length (concat (rev ?Z))) = getbytes m ?L (length (concat (rev ?Z)))"
    using p(3) pos T length_concat_rev [of ?Z]
    by (subst getbytes_cong [of _ _ m3 m1]) (simp_all add: m3x m1_def mem_simps)
  then have "holds m3 (?L + d) (concat (rev ?Z))"
    using old by (simp add: holds_def)
  moreover have "holds m3 (16384 - tot ?Y) (concat (rev ?Y))"
    using p(3) T pos old getbytes_cong [of "16384 - tot ?Y" _ m3 m]
    by (simp add: holds_def m3x m1x)
  ultimately have "holds m3 (16384 - tot (xs[r := []])) (concat (rev (xs[r := []])))"
    using r T len by (simp add: concat_rev_update holds_append tot_update length_concat_rev)
      (simp add: algebra_simps)
  then show "slots_at (clear_slot m (int r) d) (xs[r := []])"
    unfolding eq slots_at_def using m3o off len by (simp add: tot_take_clear [OF r])
  show "clear_slot m (int r) d x = m x" if "x < 20 \<or> 16384 \<le> x" for x
    unfolding eq using that p(3) T pos by (auto simp: m3x m1x)
qed

text \<open>Dropping the empty slots at the end; the loop of the code leaves slot 0 for the test after it.\<close>

lemma page_repr_drop:
  assumes "page_repr m (xs @ [[]])"
  shows "page_repr (set_free_space (set_object_count m (object_count m - 1))
    (free_space (set_object_count m (object_count m - 1)) + 4)) xs"
proof -
  note d = page_reprD [OF assms]
  have "slots_at m xs"
    using assms by (simp add: page_repr_slots_at slots_at_butlast)
  moreover have "4 * int (length xs) + tot xs \<le> 16364" "0 \<le> tot xs"
    using d(3) tot_nonneg by simp_all
  ultimately show ?thesis
    using d(1,2) unfolding page_repr_slots_at
    by (simp add: slots_at_field page_acc_defs mem_simps s32_id)
qed

lemma trim_loop_repr:
  assumes "page_repr m xs"
  shows "\<exists>ys. page_repr (trim_loop m (int (length xs) - 1)) ys \<and> rstrip ys = rstrip xs
    \<and> (length ys \<le> 1 \<or> last ys \<noteq> [])
    \<and> (\<forall>x. x < 12 \<or> 20 \<le> x \<longrightarrow> trim_loop m (int (length xs) - 1) x = m x)"
  using assms
proof (induction xs arbitrary: m rule: rev_induct)
  case Nil
  then show ?case
    by (intro exI [of _ "[]"]) (simp add: trim_loop.simps)
next
  case (snoc x xs)
  show ?case
  proof (cases "xs = [] \<or> x \<noteq> []")
    case True
    have "trim_loop m (int (length xs)) = m"
      using True page_repr_prev [OF snoc.prems, of "length xs"]
      by (subst trim_loop.simps) (auto simp: neq_Nil_conv)
    with snoc.prems True show ?thesis
      by (intro exI [of _ "xs @ [x]"]) auto
  next
    case False
    let ?m = "set_free_space (set_object_count m (object_count m - 1))
      (free_space (set_object_count m (object_count m - 1)) + 4)"
    have "trim_loop m (int (length xs)) = trim_loop ?m (int (length xs) - 1)"
      using False page_repr_prev [OF snoc.prems, of "length xs"]
      by (subst trim_loop.simps) (simp add: page_acc_defs mem_simps)
    moreover have "page_repr ?m xs"
      using snoc.prems False by (intro page_repr_drop) simp
    from snoc.IH [OF this] obtain ys where "page_repr (trim_loop ?m (int (length xs) - 1)) ys"
      "rstrip ys = rstrip xs" "length ys \<le> 1 \<or> last ys \<noteq> []"
      "\<forall>x. x < 12 \<or> 20 \<le> x \<longrightarrow> trim_loop ?m (int (length xs) - 1) x = ?m x"
      by blast
    moreover have "x < 12 \<or> 20 \<le> x \<Longrightarrow> ?m x = m x" for x
      by (auto simp: page_acc_defs mem_simps)
    ultimately show ?thesis
      using False by (intro exI [of _ ys]) simp
  qed
qed

text \<open>The tail of the deletion: the empty slots at the end, a last empty slot 0, the cleared gap.\<close>

definition finish_delete :: "mem \<Rightarrow> mem" where
  "finish_delete m =
     (let m = trim_loop m (object_count m - 1);
          m = (if object_count m = 1 \<and> object_offset m 0 = STORE_PAGESIZE
               then (let m = set_object_count m (object_count m - 1)
                     in set_free_space m (free_space m + 4))
               else m);
          from = 20 + 4 * object_count m;
          upto = (if object_count m \<le> 0 then STORE_PAGESIZE
                  else object_offset m (object_count m - 1))
      in memset m from 0 (upto - from))"

lemma page_repr_memset_gap:
  assumes "page_repr m xs"
  shows "page_repr (memset m (20 + 4 * int (length xs)) 0 (16384 - tot xs - (20 + 4 * int (length xs)))) xs"
    (is "page_repr ?m xs")
proof -
  note d = page_reprD [OF assms]
  have "slots_at m xs"
    using assms by (simp add: page_repr_slots_at)
  then have "slots_at ?m xs"
    by (rule slots_at_cong) (auto simp: memset_def)
  then show ?thesis
    using d(1-3) unfolding page_repr_slots_at by (simp add: page_acc_defs mem_simps)
qed

lemma finish_delete_repr:
  assumes "page_repr m xs"
  shows "page_repr (finish_delete m) (rstrip xs) \<and> same_outside m (finish_delete m)"
proof -
  define m1 where "m1 = trim_loop m (object_count m - 1)"
  have c: "object_count m = int (length xs)"
    using assms by (rule page_reprD)
  obtain ys where ys: "page_repr m1 ys" "rstrip ys = rstrip xs" "length ys \<le> 1 \<or> last ys \<noteq> []"
    and out1: "\<And>x. x < 12 \<or> 20 \<le> x \<Longrightarrow> m1 x = m x"
    using trim_loop_repr [OF assms] unfolding m1_def c by blast
  let ?t = "object_count m1 = 1 \<and> object_offset m1 0 = STORE_PAGESIZE"
  define m2 where "m2 = (if ?t then set_free_space (set_object_count m1 (object_count m1 - 1))
      (free_space (set_object_count m1 (object_count m1 - 1)) + 4) else m1)"
  have t: "?t \<longleftrightarrow> ys = [[]]"
    using page_reprD(1) [OF ys(1)] page_reprD(4) [OF ys(1), of 0] by (cases ys) auto
  have m2: "page_repr m2 (rstrip xs)"
  proof (cases "ys = [[]]")
    case True
    then have "rstrip xs = []"
      using ys(2) by (simp add: rstrip_def)
    with True show ?thesis
      using t ys(1) page_repr_drop [of m1 "[]"] by (simp add: m2_def)
  next
    case False
    then have "rstrip ys = ys"
      using ys(3) by (cases ys rule: rev_cases) (auto simp: le_Suc_eq)
    with False t ys show ?thesis
      by (auto simp: m2_def)
  qed
  have out2: "x < 8 \<or> 16384 \<le> x \<Longrightarrow> m2 x = m x" for x
    using out1 by (auto simp: m2_def page_acc_defs mem_simps)
  let ?zs = "rstrip xs"
  have up: "(if object_count m2 \<le> 0 then STORE_PAGESIZE else object_offset m2 (object_count m2 - 1))
      = 16384 - tot ?zs" "object_count m2 = int (length ?zs)"
    using page_reprD(1) [OF m2] page_repr_last [OF m2] by (cases "?zs = []"; simp)+
  have eq: "finish_delete m
      = memset m2 (20 + 4 * int (length ?zs)) 0 (16384 - tot ?zs - (20 + 4 * int (length ?zs)))"
    unfolding finish_delete_def Let_def m1_def [symmetric] m2_def [symmetric] up(1)
    unfolding up(2) ..
  show ?thesis
    using page_repr_memset_gap [OF m2] out2 tot_nonneg [of ?zs]
    by (auto simp: eq same_outside_def memset_def)
qed

lemma page_repr_timestamp: "page_repr m xs \<Longrightarrow> page_repr (set_timestamp m v) xs"
  unfolding page_repr_slots_at set_timestamp_def
  using tot_nonneg [of xs] by (auto simp: page_acc_defs mem_simps intro!: slots_at_field)

text \<open>Between the two halves: the slot is empty and the header not yet updated.\<close>

definition mid_delete :: "mem \<Rightarrow> byte list list \<Rightarrow> nat \<Rightarrow> bool" where
  "mid_delete m xs r \<longleftrightarrow> object_count m = int (length xs)
     \<and> free_space m = 16364 - 4 * int (length xs) - tot xs \<and> 4 * int (length xs) + tot xs \<le> 16364
     \<and> slots_at m (xs[r := []])"

lemma page_delete_move_repr:
  assumes rp: "page_repr m xs" and r: "r < length xs"
  shows "\<exists>m'. page_delete_move m (int r) log_id = (m', int (length (xs ! r))) \<and> mid_delete m' xs r
    \<and> same_outside m m'"
proof -
  define m0 where "m0 = set_timestamp m log_id"
  have rp0: "page_repr m0 xs"
    unfolding m0_def by (rule page_repr_timestamp [OF rp])
  let ?d = "int (length (xs ! r))"
  have d: "(if int r = 0 then STORE_PAGESIZE else object_offset m0 (int r - 1))
      - object_offset m0 (int r) = ?d"
    using page_repr_slot(2) [OF rp0 r] by (cases r) simp_all
  define m1 where "m1 = clear_slot m0 (int r) ?d"
  note p = page_reprD [OF rp0]
  note cs = clear_slot_repr [OF rp0 r refl, folded m1_def]
  have "object_count m1 = int (length xs)" "free_space m1 = 16364 - 4 * int (length xs) - tot xs"
    using p(1,2) cs(2) get_s32_cong [of _ m1 m0] by (simp_all add: object_count_def free_space_def)
  then have "mid_delete m1 xs r"
    using p(3) cs(1) by (simp add: mid_delete_def)
  moreover have "page_delete_move m (int r) log_id = (m1, ?d)"
    unfolding page_delete_move_def Let_def m0_def [symmetric] d m1_def clear_slot_def ..
  moreover have "same_outside m m1"
    using cs(2) by (auto simp: same_outside_def m0_def page_acc_defs mem_simps)
  ultimately show ?thesis by blast
qed

lemma page_delete_finish_repr:
  assumes mid: "mid_delete m1 xs r" and r: "r < length xs" and d: "d = int (length (xs ! r))"
  shows "page_repr (page_delete_finish m1 (int r) d) (slots_delete xs r)
    \<and> same_outside m1 (page_delete_finish m1 (int r) d)"
proof -
  note p = mid [unfolded mid_delete_def]
  let ?ys = "xs[r := []]"
  have bnd: "4 * int (length ?ys) + tot ?ys \<le> 16364" "tot ?ys = tot xs - d" "0 \<le> tot ?ys" "d \<le> tot xs"
    using p r tot_nonneg [of ?ys] d by (simp_all add: tot_update)
  define m2 where "m2 = (if object_count m1 - 1 = int r
      then set_free_space (set_object_count m1 (object_count m1 - 1))
             (free_space (set_object_count m1 (object_count m1 - 1)) + d + 4)
      else set_free_space m1 (free_space m1 + d))"
  have eq: "page_delete_finish m1 (int r) d = finish_delete m2"
    unfolding page_delete_finish_def finish_delete_def Let_def m2_def ..
  have "\<exists>zs. page_repr m2 zs \<and> rstrip zs = rstrip ?ys"
  proof (cases "Suc r = length xs")
    case True
    then have ys: "?ys = take r xs @ [[]]"
      using r by (simp add: upd_conv_take_nth_drop)
    then have "slots_at m1 (take r xs)"
      using p slots_at_butlast by simp
    moreover have "tot (take r xs) = tot xs - d" "int (length (take r xs)) = int (length xs) - 1"
      using bnd(2) ys True by auto
    ultimately have "page_repr m2 (take r xs)"
      using True p bnd unfolding page_repr_slots_at m2_def
      by (simp add: page_acc_defs mem_simps s32_id slots_at_field)
    then show ?thesis
      using ys by (intro exI [of _ "take r xs"]) simp
  next
    case False
    then have "page_repr m2 ?ys"
      using p bnd unfolding page_repr_slots_at m2_def
      by (auto simp: page_acc_defs mem_simps s32_id intro!: slots_at_field)
    then show ?thesis by blast
  qed
  then have "page_repr (finish_delete m2) (rstrip ?ys) \<and> same_outside m2 (finish_delete m2)"
    using finish_delete_repr by metis
  moreover have "x < 8 \<or> 16384 \<le> x \<Longrightarrow> m2 x = m1 x" for x
    by (auto simp: m2_def page_acc_defs mem_simps)
  ultimately show ?thesis
    by (auto simp: eq slots_delete_def same_outside_def)
qed

lemma page_delete_repr:
  assumes "page_repr m xs" "r < length xs"
  shows "page_repr (page_delete m (int r) log_id) (slots_delete xs r)
    \<and> same_outside m (page_delete m (int r) log_id)"
proof -
  obtain m' where "page_delete_move m (int r) log_id = (m', int (length (xs ! r)))" "mid_delete m' xs r"
    "same_outside m m'"
    using page_delete_move_repr [OF assms] by blast
  with page_delete_finish_repr [OF this(2) assms(2) refl] show ?thesis
    by (simp add: page_delete_def same_outside_def)
qed

section \<open>New pages\<close>

lemma initialize_page_repr:
  assumes "p mod 4092 \<noteq> 0" "0 \<le> p" "p < 65536"
  shows "page_repr (pm_initializePage p m) []" "page_hdr_page_id (pm_initializePage p m) = p"
proof -
  show "page_repr (pm_initializePage p m) []"
    using assms by (intro page_reprI)
      (simp_all add: pm_initializePage_def Let_def page_acc_defs mem_simps s32_def holds_def)
  show "page_hdr_page_id (pm_initializePage p m) = p"
    using assms by (simp add: pm_initializePage_def Let_def page_acc_defs mem_simps u32_def)
qed

section \<open>Properties\<close>

text \<open>(C13) Insertion into a page refines insertion into the list of slots: the return code and slot number are
  those of the list operation (-1 and -2 when the object or its table entry does not fit, the first
  empty slot, else a new one), the offset table, the free-space counter and every object are right
  afterwards, and nothing outside the page, nor its number, file and type, is touched. A refused
  insertion changes nothing.\<close>

theorem insertObject_refines:
  assumes "page_repr m xs" "slots_insert xs obj = (rc, ys, pid)"
  shows "\<exists>m'. insertObject m obj log_id = (rc, m', pid) \<and> page_repr m' ys \<and> same_outside m m'
    \<and> (rc \<noteq> 0 \<longrightarrow> m' = m)"
  by (rule insertObject_repr [OF assms])

theorem insertObject_refines_witness:
  "\<exists>m'. insertObject (pm_initializePage 1 (\<lambda>_. 0)) [1, 2, 3] 9 = (0, m', Some 0) \<and> page_repr m' [[1, 2, 3]]"
  using insertObject_refines [OF initialize_page_repr(1), of 1 "[1, 2, 3]" 0 "[[1, 2, 3]]" "Some 0" "\<lambda>_. 0" 9]
  by (auto simp: slots_insert_def)

text \<open>(C14) Deletion from a page refines emptying the slot and dropping the empty slots at the end: the objects
  of all other slots stay readable under their slot numbers, and the space is given back.\<close>

theorem page_delete_refines:
  assumes "page_repr m xs" "r < length xs"
  shows "page_repr (page_delete m (int r) log_id) (slots_delete xs r)
    \<and> same_outside m (page_delete m (int r) log_id)"
  by (rule page_delete_repr [OF assms])

theorem page_delete_refines_witness:
  "\<exists>m. page_repr m [[1, 2], [3]] \<and> page_repr (page_delete m 0 9) [[], [3]]
    \<and> page_repr (page_delete (page_delete m 0 9) 1 9) []"
proof -
  obtain m1 where "page_repr m1 [[1, 2]]"
    using insertObject_repr [OF initialize_page_repr(1) [of 1], of "[1, 2]" 0 "[[1, 2]]" "Some 0"]
    by (auto simp: slots_insert_def)
  from insertObject_repr [OF this, of "[3]" 0 "[[1, 2], [3]]" "Some 1"] obtain m where "page_repr m [[1, 2], [3]]"
    by (auto simp: slots_insert_def)
  with page_delete_refines [of m "[[1, 2], [3]]" 0 9]
    page_delete_refines [of "page_delete m 0 9" "[[], [3]]" 1 9]
  show ?thesis
    by (auto simp: slots_delete_def rstrip_def)
qed

end
