(* ===== verification/BufferPool.thy ===== *)
theory BufferPool
  imports SlottedPages
begin

text \<open>
  The page cache: Store/File.cpp, Store/Buffer.cpp and Store/PagePointer.cpp.

  The disk is a byte array with a length per file. The cache is the \<open>std::map\<close> from (file, page) to
  \<open>buffer_page\<close>, kept in key order; its keys are pairs of \<open>unsigned short\<close>, so page numbers are taken
  modulo 65536 in the cache, and modulo \<open>2 ^ 18\<close> (32-bit byte offsets) on the disk. A page pointer
  remembers the array it was created for. The arrays never move, since nothing leaves the cache and
  \<open>haspage\<close> is 1 from the insertion on; the tests of \<open>haspage\<close> are therefore left out. All operations
  hold the mutex of the writer thread, so each is one step. Statistics are left out, \<open>CommitWindow\<close> adds the checkpoint records
  that \<open>dbWriterWrite\<close> sends to the log, and system calls on open files succeed.

  The main result is transparency: behind the laws of the locale \<open>page_cache\<close>, the cache and the disk
  together are one array of pages, which only writes through a page pointer change.
\<close>

section \<open>Files\<close>

definition file_ids :: "int list" where
  "file_ids = [STORE_FILE_DEFAULT, STORE_FILE_MAP, STORE_FILE_ROOTS, STORE_FILE_VIEWS,
     STORE_FILE_CLASSES, STORE_FILE_INTERFACES, STORE_FILE_SCHEMAS]"

record buffer_page =
  bp_dirty :: bool
  bp_lock :: int
  bp_page :: mem

type_synonym buffer_hash_t = "((int \<times> int) \<times> buffer_page) list"

text \<open>\<open>junk\<close> is what \<open>new char[STORE_PAGESIZE]\<close> happens to hold.\<close>

record bufpool =
  started :: bool
  buffer_hash :: buffer_hash_t
  dirty_pages :: int
  max_dirty :: int
  disk :: "int \<Rightarrow> mem"
  disk_len :: "int \<Rightarrow> int"
  junk :: "int \<Rightarrow> int \<Rightarrow> mem"

text \<open>The 16384 bytes of a page; nothing else belongs to its array.\<close>

definition clip :: "mem \<Rightarrow> mem" where
  "clip m = (\<lambda>x. if 0 \<le> x \<and> x < STORE_PAGESIZE then m x else 0)"

definition getStream :: "int \<Rightarrow> int" where
  "getStream fileID = (if fileID \<in> set file_ids then 0 else 1)"

definition file_fread :: "'a bufpool_scheme \<Rightarrow> int \<Rightarrow> int \<Rightarrow> int \<Rightarrow> mem \<Rightarrow> int \<times> mem" where
  "file_fread b fileID off len buf =
     (if getStream fileID \<noteq> 0 then (getStream fileID, buf)
      else (0, \<lambda>x. if 0 \<le> x \<and> x < len \<and> off + x < disk_len b fileID
                   then disk b fileID (off + x) else buf x))"

definition file_readPage :: "'a bufpool_scheme \<Rightarrow> int \<Rightarrow> int \<Rightarrow> mem \<Rightarrow> int \<times> mem" where
  "file_readPage b fileID pageOffset buf =
     file_fread b fileID (u32 (pageOffset * STORE_PAGESIZE)) STORE_PAGESIZE buf"

text \<open>A write past the end of a file fills the gap with zeros.\<close>

definition file_fwrite ::
  "'a bufpool_scheme \<Rightarrow> int \<Rightarrow> int \<Rightarrow> int \<Rightarrow> mem \<Rightarrow> 'a bufpool_scheme \<times> int" where
  "file_fwrite b fileID off len buf =
     (if getStream fileID \<noteq> 0 then (b, getStream fileID)
      else (b\<lparr>disk := (disk b)(fileID := (\<lambda>x. if off \<le> x \<and> x < off + len then buf (x - off)
                          else if disk_len b fileID \<le> x then 0 else disk b fileID x)),
              disk_len := (disk_len b)(fileID := max (disk_len b fileID) (off + len))\<rparr>, 0))"

definition file_writePage ::
  "'a bufpool_scheme \<Rightarrow> int \<Rightarrow> int \<Rightarrow> mem \<Rightarrow> 'a bufpool_scheme \<times> int" where
  "file_writePage b fileID pageOffset buf =
     file_fwrite b fileID (u32 (pageOffset * STORE_PAGESIZE)) STORE_PAGESIZE buf"

definition file_hasPage :: "'a bufpool_scheme \<Rightarrow> int \<Rightarrow> int" where
  "file_hasPage b fileID =
     (if getStream fileID \<noteq> 0 then getStream fileID else u32 (disk_len b fileID div STORE_PAGESIZE))"

section \<open>New pages\<close>

text \<open>\<open>Map::initializePage\<close> does nothing: the page keeps the bytes of the allocation.\<close>

definition map_initializePage :: "int \<Rightarrow> mem \<Rightarrow> mem" where
  "map_initializePage pageID page = page"

text \<open>\<open>NamedItems::initializePage\<close> and \<open>Views::initializePage\<close>; an entry page is a page header, the
  free space at 12 and the number of entries at 16.\<close>

definition ni_initializePage :: "int \<Rightarrow> int \<Rightarrow> int \<Rightarrow> mem \<Rightarrow> mem" where
  "ni_initializePage file page_type pageID buf =
     (let m = memset buf 0 0 STORE_PAGESIZE;
          m = put_16 m 4 file;
          m = put_16 m 6 page_type;
          m = put_32 m 8 (-1);
          m = put_32 m 0 pageID
      in put_32 m 12 (STORE_PAGESIZE - 20))"

definition views_initializePage :: "int \<Rightarrow> mem \<Rightarrow> mem" where
  "views_initializePage pageID buf =
     (let m = memset buf 0 0 STORE_PAGESIZE;
          m = put_16 m 4 STORE_FILE_VIEWS;
          m = put_16 m 6 STORE_PAGE_VIEWSPAGE;
          m = put_32 m 8 (-1);
          m = put_32 m 0 pageID
      in put_32 m 12 (STORE_PAGESIZE - 20))"

text \<open>The dispatch on the file in \<open>Buffer::getPagePointer\<close>.\<close>

definition buf_initializePage :: "int \<Rightarrow> int \<Rightarrow> mem \<Rightarrow> mem" where
  "buf_initializePage fileID i page =
     (if fileID = STORE_FILE_DEFAULT then pm_initializePage i page
      else if fileID = STORE_FILE_MAP then map_initializePage i page
      else if fileID = STORE_FILE_ROOTS then ni_initializePage STORE_FILE_ROOTS STORE_PAGE_ROOTSPAGE i page
      else if fileID = STORE_FILE_VIEWS then views_initializePage i page
      else if fileID = STORE_FILE_CLASSES
      then ni_initializePage STORE_FILE_CLASSES STORE_PAGE_CLASSESPAGE i page
      else if fileID = STORE_FILE_INTERFACES
      then ni_initializePage STORE_FILE_INTERFACES STORE_PAGE_INTERFACESPAGE i page
      else if fileID = STORE_FILE_SCHEMAS
      then ni_initializePage STORE_FILE_SCHEMAS STORE_PAGE_SCHEMASPAGE i page
      else page)"

section \<open>The cache\<close>

definition key_less :: "int \<times> int \<Rightarrow> int \<times> int \<Rightarrow> bool" where
  "key_less k l \<longleftrightarrow> fst k < fst l \<or> fst k = fst l \<and> snd k < snd l"

text \<open>\<open>std::map::insert\<close>, which does not replace.\<close>

fun bh_insert :: "int \<times> int \<Rightarrow> buffer_page \<Rightarrow> buffer_hash_t \<Rightarrow> buffer_hash_t" where
  "bh_insert k v [] = [(k, v)]"
| "bh_insert k v ((l, w) # xs) =
     (if k = l then (l, w) # xs
      else if key_less k l then (k, v) # (l, w) # xs
      else (l, w) # bh_insert k v xs)"

definition bh_update ::
  "int \<times> int \<Rightarrow> (buffer_page \<Rightarrow> buffer_page) \<Rightarrow> buffer_hash_t \<Rightarrow> buffer_hash_t" where
  "bh_update k g xs = map (\<lambda>(l, v). (l, if l = k then g v else v)) xs"

record PagePointer =
  pp_file :: int
  pp_page :: int
  pp_arr :: "int \<times> int"

definition buf_readPage :: "'a bufpool_scheme \<Rightarrow> int \<Rightarrow> int \<Rightarrow> int \<times> buffer_page" where
  "buf_readPage b fileID pageID =
     (let (rc, m) = file_readPage b fileID pageID (clip (junk b fileID pageID))
      in (rc, \<lparr>bp_dirty = False, bp_lock = 0, bp_page = m\<rparr>))"

text \<open>The loop that creates the pages from the end of the file up to the one asked for; \<open>n_arr\<close> is the
  array of \<open>n_page\<close>.\<close>

function create_pages ::
  "'a bufpool_scheme \<Rightarrow> int \<Rightarrow> int \<Rightarrow> int \<Rightarrow> (int \<times> int) option
     \<Rightarrow> 'a bufpool_scheme \<times> (int \<times> int) option" where
  "create_pages b fileID i pageID n_arr =
     (if i \<le> pageID then
        (let k = (fileID, u16 i)
         in case map_of (buffer_hash b) k of
              Some _ \<Rightarrow> create_pages b fileID (i + 1) pageID n_arr
            | None \<Rightarrow>
                create_pages
                  (b\<lparr>buffer_hash := bh_insert k
                       \<lparr>bp_dirty = True, bp_lock = 0,
                        bp_page = clip (buf_initializePage fileID i (clip (junk b fileID i)))\<rparr>
                       (buffer_hash b),
                     dirty_pages := dirty_pages b + 1\<rparr>)
                  fileID (i + 1) pageID (Some k))
      else (b, n_arr))"
  by pat_completeness auto
termination
  by (relation "measure (\<lambda>(b, f, i, p, l). nat (p + 1 - i))") auto

declare create_pages.simps [simp del]

text \<open>An error code of \<open>readPage\<close> is positive and so passes the test \<open>< 0\<close>; the freed page is used.\<close>

definition getPagePointer ::
  "'a bufpool_scheme \<Rightarrow> int \<Rightarrow> int \<Rightarrow> 'a bufpool_scheme \<times> (fault + PagePointer option)" where
  "getPagePointer b fileID pageID =
     (if \<not> started b then (b, Inr None)
      else
        let k = (fileID, u16 pageID);
            pp = (\<lambda>arr. \<lparr>pp_file = fileID, pp_page = pageID, pp_arr = arr\<rparr>)
        in case map_of (buffer_hash b) k of
             Some _ \<Rightarrow> (b, Inr (Some (pp k)))
           | None \<Rightarrow>
               let pnum = file_hasPage b fileID
               in if pnum > pageID then
                    (let (rc, n_page) = buf_readPage b fileID pageID
                     in if rc \<noteq> 0 then (b, Inl IndeterminateRead)
                        else (b\<lparr>buffer_hash := bh_insert k n_page (buffer_hash b)\<rparr>,
                              Inr (Some (pp k))))
                  else
                    (let (b', n_arr) = create_pages b fileID pnum pageID None
                     in case n_arr of
                          None \<Rightarrow> (b', Inl IndeterminateRead)
                        | Some arr \<Rightarrow> (b', Inr (Some (pp arr)))))"

definition pp_key :: "PagePointer \<Rightarrow> int \<times> int" where
  "pp_key pp = (pp_file pp, u16 (pp_page pp))"

definition acquirePage :: "'a bufpool_scheme \<Rightarrow> PagePointer \<Rightarrow> 'a bufpool_scheme \<times> int" where
  "acquirePage b pp =
     (if \<not> started b then (b, -1)
      else case map_of (buffer_hash b) (pp_key pp) of
             Some _ \<Rightarrow>
               (b\<lparr>buffer_hash := bh_update (pp_key pp) (\<lambda>p. p\<lparr>bp_lock := u8 (bp_lock p + 1)\<rparr>)
                    (buffer_hash b)\<rparr>, 0)
           | None \<Rightarrow> (b, -1))"

definition acquirePageRead :: "PagePointer \<Rightarrow> int" where
  "acquirePageRead pp = -1"

definition releasePage :: "'a bufpool_scheme \<Rightarrow> PagePointer \<Rightarrow> 'a bufpool_scheme \<times> int" where
  "releasePage b pp =
     (if \<not> started b then (b, -1)
      else case map_of (buffer_hash b) (pp_key pp) of
             Some p \<Rightarrow>
               (b\<lparr>buffer_hash := bh_update (pp_key pp)
                    (\<lambda>p. p\<lparr>bp_lock := u8 (bp_lock p - 1), bp_dirty := True\<rparr>) (buffer_hash b),
                  dirty_pages := (if bp_dirty p then dirty_pages b else dirty_pages b + 1)\<rparr>, 0)
           | None \<Rightarrow> (b, -1))"

definition releasePageSync :: "'a bufpool_scheme \<Rightarrow> PagePointer \<Rightarrow> 'a bufpool_scheme \<times> int" where
  "releasePageSync b pp =
     (if \<not> started b then (b, -1)
      else case map_of (buffer_hash b) (pp_key pp) of
             Some p \<Rightarrow>
               (let b = fst (file_writePage b (fst (pp_key pp)) (snd (pp_key pp)) (bp_page p))
                in (b\<lparr>buffer_hash := bh_update (pp_key pp) (\<lambda>p. p\<lparr>bp_dirty := False\<rparr>) (buffer_hash b),
                      dirty_pages := dirty_pages b - 1\<rparr>, 0))
           | None \<Rightarrow> (b, -1))"

text \<open>\<open>PagePointer\<close>: the copy \<open>pageOriginal\<close> is only ever freed and the flag \<open>dirty\<close> has no effect.\<close>

definition pp_aquire :: "'a bufpool_scheme \<Rightarrow> PagePointer \<Rightarrow> 'a bufpool_scheme \<times> int" where
  "pp_aquire b pp = acquirePage b pp"

definition pp_release :: "'a bufpool_scheme \<Rightarrow> PagePointer \<Rightarrow> int \<Rightarrow> 'a bufpool_scheme \<times> int" where
  "pp_release b pp dirty = releasePage b pp"

definition pp_releaseSync :: "'a bufpool_scheme \<Rightarrow> PagePointer \<Rightarrow> int \<Rightarrow> 'a bufpool_scheme \<times> int" where
  "pp_releaseSync b pp dirty = releasePageSync b pp"

text \<open>Reading and writing the array behind a page pointer.\<close>

definition pp_getPage :: "'a bufpool_scheme \<Rightarrow> PagePointer \<Rightarrow> mem" where
  "pp_getPage b pp = (case map_of (buffer_hash b) (pp_arr pp) of Some p \<Rightarrow> bp_page p | None \<Rightarrow> \<lambda>_. 0)"

definition pp_write :: "'a bufpool_scheme \<Rightarrow> PagePointer \<Rightarrow> mem \<Rightarrow> 'a bufpool_scheme" where
  "pp_write b pp m =
     b\<lparr>buffer_hash := bh_update (pp_arr pp) (\<lambda>p. p\<lparr>bp_page := clip m\<rparr>) (buffer_hash b)\<rparr>"

text \<open>The writer: every unlocked dirty page, in key order.\<close>

fun write_entries ::
  "'a bufpool_scheme \<Rightarrow> buffer_hash_t \<Rightarrow> 'a bufpool_scheme \<times> buffer_hash_t" where
  "write_entries b [] = (b, [])"
| "write_entries b ((k, p) # xs) =
     (if bp_lock p = 0 \<and> bp_dirty p
      then let b = fst (file_writePage b (fst k) (snd k) (bp_page p));
               (b, ys) = write_entries (b\<lparr>dirty_pages := dirty_pages b - 1\<rparr>) xs
           in (b, (k, p\<lparr>bp_dirty := False\<rparr>) # ys)
      else let (b, ys) = write_entries b xs in (b, (k, p) # ys))"

definition dbWriterWrite :: "'a bufpool_scheme \<Rightarrow> 'a bufpool_scheme" where
  "dbWriterWrite b =
     (let (b', ys) = write_entries b (buffer_hash b) in b'\<lparr>buffer_hash := ys\<rparr>)"

text \<open>One round of \<open>dbWriterMain\<close> and \<open>Buffer::stop\<close>.\<close>

definition dbWriterMain :: "'a bufpool_scheme \<Rightarrow> 'a bufpool_scheme" where
  "dbWriterMain b = (if dirty_pages b < max_dirty b then b
     else if started b then dbWriterWrite b else b)"

definition buf_stop :: "'a bufpool_scheme \<Rightarrow> 'a bufpool_scheme \<times> int" where
  "buf_stop b = (if \<not> started b then (b, 0) else ((dbWriterWrite b)\<lparr>started := False\<rparr>, 0))"

section \<open>The pages the cache stands for\<close>

definition valid_page :: "int \<Rightarrow> int \<Rightarrow> bool" where
  "valid_page f p \<longleftrightarrow> f \<in> set file_ids \<and> 0 \<le> p \<and> p < 65536"

definition disk_pages :: "'a bufpool_scheme \<Rightarrow> int \<Rightarrow> int" where
  "disk_pages b f = disk_len b f div STORE_PAGESIZE"

definition disk_page :: "'a bufpool_scheme \<Rightarrow> int \<Rightarrow> int \<Rightarrow> mem" where
  "disk_page b f p = clip (\<lambda>x. disk b f (p * STORE_PAGESIZE + x))"

definition page_view :: "'a bufpool_scheme \<Rightarrow> int \<Rightarrow> int \<Rightarrow> mem" where
  "page_view b f p =
     (case map_of (buffer_hash b) (f, p) of
        Some bp \<Rightarrow> bp_page bp
      | None \<Rightarrow> if p < disk_pages b f then disk_page b f p
                else clip (buf_initializePage f p (clip (junk b f p))))"

text \<open>The invariant: the keys are in order and in range, and a page beyond the end of its file has all
  the pages between in the cache, so a write to it leaves no hole.\<close>

definition pool_inv :: "'a bufpool_scheme \<Rightarrow> bool" where
  "pool_inv b \<longleftrightarrow> started b
     \<and> sorted_wrt key_less (map fst (buffer_hash b))
     \<and> (\<forall>f p bp. map_of (buffer_hash b) (f, p) = Some bp \<longrightarrow>
          valid_page f p \<and> clip (bp_page bp) = bp_page bp
          \<and> (\<forall>q. disk_pages b f \<le> q \<and> q < p \<longrightarrow> map_of (buffer_hash b) (f, q) \<noteq> None))
     \<and> (\<forall>f. 0 \<le> disk_len b f \<and> disk_len b f \<le> 1073741824)"

definition points :: "'a bufpool_scheme \<Rightarrow> PagePointer \<Rightarrow> int \<Rightarrow> int \<Rightarrow> bool" where
  "points b pp f p \<longleftrightarrow> pp_file pp = f \<and> pp_page pp = p \<and> pp_arr pp = (f, p)
     \<and> map_of (buffer_hash b) (f, p) \<noteq> None"

lemma clip_clip [simp]: "clip (clip m) = clip m"
  by (simp add: clip_def fun_eq_iff)

lemma clip_apply: "0 \<le> x \<Longrightarrow> x < 16384 \<Longrightarrow> clip m x = m x"
  by (simp add: clip_def STORE_PAGESIZE_def)

lemma getbytes_clip [simp]:
  "0 \<le> a \<Longrightarrow> a + int n \<le> 16384 \<Longrightarrow> getbytes (clip m) a n = getbytes m a n"
  by (rule getbytes_cong) (simp add: clip_apply)

lemma get_clip [simp]:
  "0 \<le> a \<Longrightarrow> a \<le> 16380 \<Longrightarrow> get_s32 (clip m) a = get_s32 m a"
  "0 \<le> a \<Longrightarrow> a \<le> 16380 \<Longrightarrow> get_u32 (clip m) a = get_u32 m a"
  by (simp_all add: get_s32_def get_u32_def)

lemma key_less_irrefl [simp]: "\<not> key_less k k"
  by (simp add: key_less_def)

lemma key_less_trans: "key_less a b \<Longrightarrow> key_less b c \<Longrightarrow> key_less a c"
  by (auto simp: key_less_def)

lemma key_less_linear: "k \<noteq> l \<Longrightarrow> \<not> key_less k l \<Longrightarrow> key_less l k"
  by (auto simp: key_less_def prod_eq_iff)

lemma map_of_bh_update:
  "map_of (bh_update k g xs) l = (if l = k then map_option g (map_of xs k) else map_of xs l)"
  by (induction xs) (auto simp: bh_update_def)

lemma keys_bh_update [simp]: "map fst (bh_update k g xs) = map fst xs"
  by (auto simp: bh_update_def)

lemma key_less_not_in:
  "sorted_wrt key_less (map fst xs) \<Longrightarrow> (\<And>l. l \<in> fst ` set xs \<Longrightarrow> key_less k l) \<Longrightarrow> map_of xs k = None"
  by (metis key_less_irrefl map_of_eq_None_iff)

lemma map_of_bh_insert:
  assumes "sorted_wrt key_less (map fst xs)" "map_of xs k = None"
  shows "map_of (bh_insert k v xs) = (map_of xs)(k \<mapsto> v)"
  using assms by (induction xs) (auto simp: fun_upd_twist split: if_splits)

lemma set_keys_bh_insert: "fst ` set (bh_insert k v xs) = insert k (fst ` set xs)"
  by (induction k v xs rule: bh_insert.induct) auto

lemma sorted_bh_insert:
  "sorted_wrt key_less (map fst xs) \<Longrightarrow> sorted_wrt key_less (map fst (bh_insert k v xs))"
proof (induction k v xs rule: bh_insert.induct)
  case (2 k v l w xs)
  then show ?case
    using set_keys_bh_insert [of k v xs] key_less_linear [of k l] key_less_trans
    by (auto simp del: set_map simp: set_map [symmetric])
qed simp


section \<open>Disk writes\<close>

lemma valid_pageD:
  "valid_page f p \<Longrightarrow> u16 p = p" "valid_page f p \<Longrightarrow> u32 (p * 16384) = p * 16384"
  "valid_page f p \<Longrightarrow> getStream f = 0"
  by (auto simp: valid_page_def u16_def u32_def getStream_def)

lemma writePage_simps [simp]:
  "buffer_hash (fst (file_writePage b f p m)) = buffer_hash b"
  "started (fst (file_writePage b f p m)) = started b"
  "junk (fst (file_writePage b f p m)) = junk b"
  "dirty_pages (fst (file_writePage b f p m)) = dirty_pages b"
  "max_dirty (fst (file_writePage b f p m)) = max_dirty b"
  by (simp_all add: file_writePage_def file_fwrite_def)

lemma writePage_disk_pages:
  assumes "valid_page f p"
  shows "disk_pages (fst (file_writePage b f p m)) g
    = (if g = f then max (disk_pages b f) (p + 1) else disk_pages b g)"
  using valid_pageD [OF assms] by (auto simp: file_writePage_def file_fwrite_def disk_pages_def max_def)

lemma writePage_disk_page:
  assumes "valid_page f p" "(g, q) = (f, p) \<or> q < disk_pages b g"
  shows "disk_page (fst (file_writePage b f p m)) g q = (if (g, q) = (f, p) then clip m else disk_page b g q)"
proof -
  have "q * 16384 + x < disk_len b g" if "q < disk_pages b g" "x < 16384" for x
  proof -
    from that(1) have "(q + 1) * 16384 \<le> disk_len b g"
      by (simp add: disk_pages_def)
    with that(2) show ?thesis by simp
  qed
  moreover have "q = p" if "p * 16384 \<le> q * 16384 + x" "q * 16384 + x < p * 16384 + 16384"
    "0 \<le> x" "x < 16384" for x
    using that by linarith
  ultimately have "disk (fst (file_writePage b f p m)) g (q * 16384 + x)
      = (if (g, q) = (f, p) then m x else disk b g (q * 16384 + x))" if "0 \<le> x" "x < 16384" for x
    using assms(2) that valid_pageD [OF assms(1)]
    by (cases "g = f"; cases "q = p") (simp_all add: file_writePage_def file_fwrite_def, force+)
  then show ?thesis
    by (auto simp: disk_page_def clip_def)
qed

lemma writePage_disk_len:
  assumes "valid_page f p" "\<forall>f. 0 \<le> disk_len b f \<and> disk_len b f \<le> 1073741824"
  shows "\<forall>g. 0 \<le> disk_len (fst (file_writePage b f p m)) g
    \<and> disk_len (fst (file_writePage b f p m)) g \<le> 1073741824"
  using assms valid_pageD [OF assms(1)]
  by (auto simp: file_writePage_def file_fwrite_def valid_page_def max_def)

text \<open>Writing a cached page to its place changes no page, whatever was there.\<close>

lemma writePage_view:
  assumes "pool_inv b" "map_of (buffer_hash b) (f, p) = Some bp"
  shows "page_view (fst (file_writePage b f p m)) g q = page_view b g q"
proof (cases "map_of (buffer_hash b) (g, q)")
  case None
  have v: "valid_page f p" and gap: "\<And>q. disk_pages b f \<le> q \<Longrightarrow> q < p \<Longrightarrow> map_of (buffer_hash b) (f, q) \<noteq> None"
    using assms(1,2) by (auto simp: pool_inv_def)
  from None assms(2) have ne: "(g, q) \<noteq> (f, p)" by auto
  have "disk_pages b g \<le> q \<Longrightarrow> g = f \<Longrightarrow> p < q"
    using gap [of q] None ne by (cases "q < p") auto
  with None ne show ?thesis
    using writePage_disk_page [OF v, of g q b m]
    by (auto simp: page_view_def writePage_disk_pages [OF v])
qed (simp add: page_view_def)

lemma writePage_inv:
  assumes "pool_inv b" "map_of (buffer_hash b) (f, p) = Some bp"
  shows "pool_inv (fst (file_writePage b f p m))"
proof -
  have v: "valid_page f p"
    using assms by (auto simp: pool_inv_def)
  then show ?thesis
    using assms writePage_disk_len [OF v, of b m] unfolding pool_inv_def
    by (auto simp: writePage_disk_pages [OF v] split: if_splits)
qed

section \<open>The laws of the operations\<close>

lemma hash_update_view:
  assumes "\<And>bp. bp_page (g bp) = bp_page bp"
  shows "page_view (b\<lparr>buffer_hash := bh_update k g (buffer_hash b)\<rparr>) = page_view b"
  using assms
  by (auto simp: page_view_def map_of_bh_update disk_pages_def disk_page_def fun_eq_iff
      split: option.splits)

lemma hash_update_inv:
  assumes "\<And>bp. clip (bp_page bp) = bp_page bp \<Longrightarrow> clip (bp_page (g bp)) = bp_page (g bp)" "pool_inv b"
  shows "pool_inv (b\<lparr>buffer_hash := bh_update k g (buffer_hash b)\<rparr>)"
  using assms unfolding pool_inv_def
  by (auto simp: map_of_bh_update disk_pages_def split: if_splits)

lemma dirty_pages_irrelevant [simp]:
  "page_view (b\<lparr>dirty_pages := d\<rparr>) = page_view b" "pool_inv (b\<lparr>dirty_pages := d\<rparr>) = pool_inv b"
  "points (b\<lparr>dirty_pages := d\<rparr>) = points b"
  by (auto simp: page_view_def pool_inv_def points_def disk_pages_def disk_page_def fun_eq_iff
      split: option.splits)

lemma points_update [simp]:
  "points (b\<lparr>buffer_hash := bh_update k g (buffer_hash b)\<rparr>) = points b"
  by (simp add: points_def map_of_bh_update fun_eq_iff)

lemma pp_key_points: "pool_inv b \<Longrightarrow> points b pp f p \<Longrightarrow> pp_key pp = (f, p)"
  using valid_pageD by (fastforce simp: points_def pp_key_def pool_inv_def)


lemma page_view_cached: "map_of (buffer_hash b) (f, p) = Some bp \<Longrightarrow> page_view b f p = bp_page bp"
  by (simp add: page_view_def)

lemma clip_page_view [simp]: "pool_inv b \<Longrightarrow> clip (page_view b f p) = page_view b f p"
  by (auto simp: page_view_def pool_inv_def disk_page_def split: option.splits)

text \<open>Bringing a page into the cache.\<close>

lemma insert_page:
  assumes "pool_inv b" "map_of (buffer_hash b) (f, p) = None" "valid_page f p"
    and "\<And>q. disk_pages b f \<le> q \<Longrightarrow> q < p \<Longrightarrow> map_of (buffer_hash b) (f, q) \<noteq> None"
    and "bp_page v = page_view b f p"
  defines "b' \<equiv> b\<lparr>buffer_hash := bh_insert (f, p) v (buffer_hash b)\<rparr>"
  shows "pool_inv b'" "page_view b' = page_view b"
    "map_of (buffer_hash b') = (map_of (buffer_hash b))((f, p) \<mapsto> v)"
proof -
  have srt: "sorted_wrt key_less (map fst (buffer_hash b))"
    using assms(1) by (simp add: pool_inv_def)
  show m: "map_of (buffer_hash b') = (map_of (buffer_hash b))((f, p) \<mapsto> v)"
    using map_of_bh_insert [OF srt assms(2)] by (simp add: b'_def)
  have dp: "disk_pages b' = disk_pages b" "disk_page b' = disk_page b" "junk b' = junk b"
    "started b' = started b" "disk_len b' = disk_len b"
    by (simp_all add: b'_def disk_pages_def disk_page_def fun_eq_iff)
  have "page_view b' g q = page_view b g q" for g q
    using assms(5) m
    by (cases "(g, q) = (f, p)"; cases "map_of (buffer_hash b) (g, q)") (auto simp: page_view_def dp)
  then show "page_view b' = page_view b"
    by blast
  have "sorted_wrt key_less (map fst (buffer_hash b'))"
    using sorted_bh_insert [OF srt] by (simp add: b'_def)
  moreover have "clip (bp_page v) = bp_page v"
    using assms(1,5) by simp
  ultimately show "pool_inv b'"
    using assms(1,3,4) unfolding pool_inv_def m dp by auto
qed

lemma create_pages_ok:
  assumes "pool_inv b" "valid_page f p" "disk_pages b f \<le> i" "i \<le> p + 1"
    and "\<And>q. disk_pages b f \<le> q \<Longrightarrow> q < i \<Longrightarrow> map_of (buffer_hash b) (f, q) \<noteq> None"
    and "i \<le> p \<longrightarrow> map_of (buffer_hash b) (f, p) = None"
    and "create_pages b f i p arr = (b', arr')"
  shows "pool_inv b' \<and> page_view b' = page_view b
    \<and> dom (map_of (buffer_hash b)) \<subseteq> dom (map_of (buffer_hash b'))
    \<and> (i \<le> p \<longrightarrow> arr' = Some (f, p) \<and> map_of (buffer_hash b') (f, p) \<noteq> None)
    \<and> (p < i \<longrightarrow> arr' = arr)"
  using assms
proof (induction "nat (p + 1 - i)" arbitrary: b i arr)
  case 0
  then show ?case
    by (simp add: create_pages.simps [of b f i])
next
  case (Suc n)
  then have i: "i \<le> p" by simp
  have vi: "valid_page f i"
    using Suc.prems(1,2,3) i by (auto simp: valid_page_def pool_inv_def disk_pages_def)
      (meson dual_order.trans int_one_le_iff_zero_less pos_imp_zdiv_nonneg_iff zero_less_numeral)
  note u = valid_pageD(1) [OF vi]
  show ?case
  proof (cases "map_of (buffer_hash b) (f, i)")
    case (Some x)
    then have "i \<noteq> p" using Suc.prems(6) i by auto
    have "create_pages b f (i + 1) p arr = (b', arr')"
      using Suc.prems(7) Some i u by (subst (asm) create_pages.simps) simp
    moreover have "map_of (buffer_hash b) (f, q) \<noteq> None" if "disk_pages b f \<le> q" "q < i + 1" for q
      using Suc.prems(5) [OF that(1)] that(2) Some by (cases "q = i") auto
    ultimately show ?thesis
      using Suc.hyps(1) [of "i + 1" b arr] Suc.hyps(2) Suc.prems(1,2,3,6) i \<open>i \<noteq> p\<close> by simp
  next
    case None
    let ?v = "\<lparr>bp_dirty = True, bp_lock = 0, bp_page = clip (buf_initializePage f i (clip (junk b f i)))\<rparr>"
    let ?b = "b\<lparr>buffer_hash := bh_insert (f, i) ?v (buffer_hash b)\<rparr>"
    define c where "c = ?b\<lparr>dirty_pages := dirty_pages b + 1\<rparr>"
    have "bp_page ?v = page_view b f i"
      using None Suc.prems(3) by (simp add: page_view_def)
    note ins = insert_page [OF Suc.prems(1) None vi Suc.prems(5) this]
    have c: "pool_inv c" "page_view c = page_view b" "disk_pages c f = disk_pages b f"
      "map_of (buffer_hash c) = (map_of (buffer_hash b))((f, i) \<mapsto> ?v)"
      using ins by (simp_all add: c_def disk_pages_def)
    have gap: "map_of (buffer_hash c) (f, q) \<noteq> None" if "disk_pages c f \<le> q" "q < i + 1" for q
      using Suc.prems(5) [of q] that c(3,4) by (cases "q = i") simp_all
    have "create_pages c f (i + 1) p (Some (f, i)) = (b', arr')"
      using Suc.prems(7) None i u by (subst (asm) create_pages.simps) (simp add: Let_def c_def)
    from Suc.hyps(1) [OF _ c(1) Suc.prems(2) _ _ gap _ this] Suc.hyps(2) Suc.prems(3,6) i c
    have "pool_inv b' \<and> page_view b' = page_view b
      \<and> dom (map_of (buffer_hash c)) \<subseteq> dom (map_of (buffer_hash b'))
      \<and> (i + 1 \<le> p \<longrightarrow> arr' = Some (f, p) \<and> map_of (buffer_hash b') (f, p) \<noteq> None)
      \<and> (p < i + 1 \<longrightarrow> arr' = Some (f, i))"
      by simp
    moreover have "map_of (buffer_hash b') (f, i) \<noteq> None"
      using calculation c(4) by (metis domIff fun_upd_same option.distinct(1) subsetD)
    moreover have "dom (map_of (buffer_hash b)) \<subseteq> dom (map_of (buffer_hash c))"
      using c(4) by auto
    ultimately show ?thesis
      using i by (cases "i = p") auto
  qed
qed


lemma getPagePointer_ok:
  assumes "pool_inv b" "valid_page f p" "getPagePointer b f p = (b', r)"
  shows "pool_inv b' \<and> page_view b' = page_view b
    \<and> dom (map_of (buffer_hash b)) \<subseteq> dom (map_of (buffer_hash b'))
    \<and> (\<exists>pp. r = Inr (Some pp) \<and> points b' pp f p)"
proof (cases "map_of (buffer_hash b) (f, p)")
  case (Some bp)
  with assms valid_pageD [OF assms(2)] show ?thesis
    by (auto simp: getPagePointer_def pool_inv_def points_def)
next
  case None
  have st: "started b"
    using assms(1) by (simp add: pool_inv_def)
  note v = valid_pageD [OF assms(2)]
  have pn: "file_hasPage b f = disk_pages b f"
  proof -
    have "0 \<le> disk_len b f" "disk_len b f \<le> 1073741824"
      using assms(1) by (auto simp: pool_inv_def)
    then have "0 \<le> disk_len b f div 16384" "disk_len b f div 16384 < 4294967296"
      by (simp_all add: pos_imp_zdiv_nonneg_iff div_less_iff_less_mult)
    then show ?thesis
      using v(3) by (simp add: file_hasPage_def disk_pages_def u32_def)
  qed
  show ?thesis
  proof (cases "p < disk_pages b f")
    case True
    define w where "w = snd (buf_readPage b f p)"
    have "(p + 1) * 16384 \<le> disk_len b f"
      using True by (simp add: disk_pages_def)
    then have "bp_page w = page_view b f p"
      using None True v
      by (simp add: w_def buf_readPage_def file_readPage_def file_fread_def page_view_def
          disk_page_def clip_def fun_eq_iff)
    moreover have "fst (buf_readPage b f p) = 0"
      using v by (simp add: buf_readPage_def file_readPage_def file_fread_def)
    moreover have "b' = b\<lparr>buffer_hash := bh_insert (f, p) w (buffer_hash b)\<rparr>"
      "r = Inr (Some \<lparr>pp_file = f, pp_page = p, pp_arr = (f, p)\<rparr>)"
      using assms(3) st None True v calculation(2)
      by (auto simp: getPagePointer_def pn w_def Let_def split_beta)
    ultimately show ?thesis
      using insert_page [OF assms(1) None assms(2), of w] True
      by (auto simp: points_def)
  next
    case False
    obtain b2 arr where cp: "create_pages b f (disk_pages b f) p None = (b2, arr)"
      by fastforce
    from create_pages_ok [OF assms(1,2) _ _ _ _ cp] False None
    have "pool_inv b2 \<and> page_view b2 = page_view b
      \<and> dom (map_of (buffer_hash b)) \<subseteq> dom (map_of (buffer_hash b2))
      \<and> arr = Some (f, p) \<and> map_of (buffer_hash b2) (f, p) \<noteq> None"
      by simp
    with assms(3) st None False v cp show ?thesis
      by (auto simp: getPagePointer_def pn points_def)
  qed
qed

lemma acquirePage_ok:
  assumes "pool_inv b" "points b pp f p"
  shows "\<exists>b'. pp_aquire b pp = (b', 0) \<and> pool_inv b' \<and> page_view b' = page_view b \<and> points b' = points b"
proof -
  from assms obtain bp where "map_of (buffer_hash b) (f, p) = Some bp" "started b"
    by (auto simp: points_def pool_inv_def)
  with assms show ?thesis
    by (auto simp: pp_aquire_def acquirePage_def pp_key_points
        intro!: hash_update_view hash_update_inv)
qed

lemma releasePage_ok:
  assumes "pool_inv b" "points b pp f p"
  shows "\<exists>b'. pp_release b pp d = (b', 0) \<and> pool_inv b' \<and> page_view b' = page_view b \<and> points b' = points b"
proof -
  from assms obtain bp where "map_of (buffer_hash b) (f, p) = Some bp" "started b"
    by (auto simp: points_def pool_inv_def)
  with assms show ?thesis
    by (auto simp: pp_release_def releasePage_def pp_key_points
        intro!: hash_update_view hash_update_inv)
qed

lemma releasePageSync_ok:
  assumes "pool_inv b" "points b pp f p"
  shows "\<exists>b'. pp_releaseSync b pp d = (b', 0) \<and> pool_inv b' \<and> page_view b' = page_view b
    \<and> points b' = points b \<and> p < disk_pages b' f \<and> disk_page b' f p = page_view b' f p"
proof -
  from assms obtain bp where bp: "map_of (buffer_hash b) (f, p) = Some bp" and st: "started b"
    by (auto simp: points_def pool_inv_def)
  have v: "valid_page f p" "clip (bp_page bp) = bp_page bp"
    using assms(1) bp by (auto simp: pool_inv_def)
  define c where "c = fst (file_writePage b f p (bp_page bp))"
  have hc: "buffer_hash c = buffer_hash b" by (simp add: c_def)
  have c: "pool_inv c" "page_view c = page_view b" "points c = points b"
    "p < disk_pages c f" "disk_page c f p = page_view b f p"
    using writePage_inv [OF assms(1) bp] writePage_view [OF assms(1) bp] v(2) bp
    by (auto simp: c_def points_def page_view_cached writePage_disk_pages [OF v(1)]
        writePage_disk_page [OF v(1)] intro!: ext)
  let ?b = "c\<lparr>buffer_hash := bh_update (f, p) (\<lambda>p. p\<lparr>bp_dirty := False\<rparr>) (buffer_hash c)\<rparr>"
  have "pp_releaseSync b pp d = (?b\<lparr>dirty_pages := dirty_pages c - 1\<rparr>, 0)"
    using st bp assms by (simp add: pp_releaseSync_def releasePageSync_def pp_key_points c_def Let_def)
  moreover have "pool_inv ?b" "page_view ?b = page_view c" "points ?b = points c"
    using c(1) by (auto intro!: hash_update_view hash_update_inv)
  ultimately show ?thesis
    using c by (auto simp: disk_pages_def disk_page_def)
qed

lemma pp_write_ok:
  assumes "pool_inv b" "points b pp f p"
  shows "pool_inv (pp_write b pp m)" "points (pp_write b pp m) = points b"
    "page_view (pp_write b pp m) = (page_view b)(f := (page_view b f)(p := clip m))"
    "pp_getPage b pp = page_view b f p"
proof -
  show "pool_inv (pp_write b pp m)"
    using assms by (auto simp: pp_write_def intro!: hash_update_inv)
  show "points (pp_write b pp m) = points b"
    by (simp add: pp_write_def fun_eq_iff)
  have "page_view (pp_write b pp m) g q = (if g = f \<and> q = p then clip m else page_view b g q)" for g q
    using assms(2) by (cases "map_of (buffer_hash b) (g, q)")
      (auto simp: pp_write_def page_view_def map_of_bh_update points_def disk_pages_def disk_page_def)
  then show "page_view (pp_write b pp m) = (page_view b)(f := (page_view b f)(p := clip m))"
    by (auto simp: fun_eq_iff)
  show "pp_getPage b pp = page_view b f p"
    using assms(2) by (auto simp: pp_getPage_def page_view_def points_def)
qed


section \<open>The interface of the cache\<close>

text \<open>What the users of the cache do with a page: get a pointer, acquire it, work on the array and
  release it again. A null pointer is dereferenced.\<close>

definition with_page where
  "with_page get acq page write rel b f p g =
     (case get b f p of
        (b, Inl e) \<Rightarrow> (b, Inl e)
      | (b, Inr None) \<Rightarrow> (b, Inl NullDereference)
      | (b, Inr (Some pp)) \<Rightarrow>
          let b = fst (acq b pp);
              (r, m) = g (page b pp);
              b = write b pp m
          in (fst (rel b pp), Inr r))"

locale page_cache =
  fixes inv :: "'s \<Rightarrow> bool"
    and view :: "'s \<Rightarrow> int \<Rightarrow> int \<Rightarrow> mem"
    and valid :: "int \<Rightarrow> int \<Rightarrow> bool"
    and pts :: "'s \<Rightarrow> 'p \<Rightarrow> int \<Rightarrow> int \<Rightarrow> bool"
    and get :: "'s \<Rightarrow> int \<Rightarrow> int \<Rightarrow> 's \<times> (fault + 'p option)"
    and acq rel relsync :: "'s \<Rightarrow> 'p \<Rightarrow> 's \<times> int"
    and page :: "'s \<Rightarrow> 'p \<Rightarrow> mem"
    and "write" :: "'s \<Rightarrow> 'p \<Rightarrow> mem \<Rightarrow> 's"
  assumes get_law: "inv b \<Longrightarrow> valid f p \<Longrightarrow> \<exists>b' pp. get b f p = (b', Inr (Some pp)) \<and> inv b'
      \<and> view b' = view b \<and> pts b' pp f p \<and> (\<forall>pp f p. pts b pp f p \<longrightarrow> pts b' pp f p)"
    and acq_law: "inv b \<Longrightarrow> pts b pp f p \<Longrightarrow>
      \<exists>b'. acq b pp = (b', 0) \<and> inv b' \<and> view b' = view b \<and> pts b' = pts b"
    and rel_law: "inv b \<Longrightarrow> pts b pp f p \<Longrightarrow>
      \<exists>b'. rel b pp = (b', 0) \<and> inv b' \<and> view b' = view b \<and> pts b' = pts b"
    and relsync_law: "inv b \<Longrightarrow> pts b pp f p \<Longrightarrow>
      \<exists>b'. relsync b pp = (b', 0) \<and> inv b' \<and> view b' = view b \<and> pts b' = pts b"
    and page_law: "inv b \<Longrightarrow> pts b pp f p \<Longrightarrow> page b pp = view b f p"
    and write_law: "inv b \<Longrightarrow> pts b pp f p \<Longrightarrow> inv (write b pp m) \<and> pts (write b pp m) = pts b
      \<and> view (write b pp m) = (view b)(f := (view b f)(p := clip m))"
begin

text \<open>Working on one page between acquire and release changes that page of the view and no other.\<close>

lemma with_page_rel:
  assumes "inv b" "valid f p" "g (view b f p) = (r, m)"
  shows "\<exists>b'. with_page get acq page write rel b f p g = (b', Inr r) \<and> inv b'
    \<and> view b' = (view b)(f := (view b f)(p := clip m))
    \<and> (\<forall>pp f p. pts b pp f p \<longrightarrow> pts b' pp f p)"
proof -
  obtain b1 pp where 1: "get b f p = (b1, Inr (Some pp))" "inv b1" "view b1 = view b" "pts b1 pp f p"
    "\<forall>pp f p. pts b pp f p \<longrightarrow> pts b1 pp f p"
    using get_law [OF assms(1,2)] by blast
  obtain b2 where 2: "acq b1 pp = (b2, 0)" "inv b2" "view b2 = view b" "pts b2 = pts b1"
    using acq_law [OF 1(2,4)] 1(3) by auto
  have 3: "inv (write b2 pp m)" "pts (write b2 pp m) = pts b1"
    "view (write b2 pp m) = (view b)(f := (view b f)(p := clip m))"
    using write_law [of b2 pp f p m] 1(4) 2 by simp_all
  obtain b4 where 4: "rel (write b2 pp m) pp = (b4, 0)" "inv b4"
    "view b4 = (view b)(f := (view b f)(p := clip m))" "pts b4 = pts b1"
    using rel_law [OF 3(1), of pp f p] 1(4) 3 by auto
  have "page b2 pp = view b f p"
    using page_law [of b2 pp f p] 1(4) 2 by simp
  with 1 2 4 assms(3) show ?thesis
    by (simp add: with_page_def)
qed

lemma with_page_view:
  assumes "inv b" "valid f p" "g (view b f p) = (r, m)" "clip m = view b f p"
  shows "\<exists>b'. with_page get acq page write rel b f p g = (b', Inr r) \<and> inv b' \<and> view b' = view b
    \<and> (\<forall>pp f p. pts b pp f p \<longrightarrow> pts b' pp f p)"
  using with_page_rel [OF assms(1,2), of g r m] assms(3,4) by (simp add: fun_upd_idem)

end

text \<open>\<open>releaseSync\<close> is a \<open>release\<close> as far as this contract goes.\<close>

sublocale page_cache \<subseteq> sync: page_cache inv view valid pts get acq relsync rel page "write"
  by unfold_locales (fact get_law acq_law relsync_law rel_law page_law write_law)+

interpretation bp: page_cache pool_inv page_view valid_page points getPagePointer pp_aquire
  "\<lambda>b pp. pp_release b pp 0" "\<lambda>b pp. pp_releaseSync b pp 1" pp_getPage pp_write
proof (unfold_locales, goal_cases)
  case (1 b f p)
  obtain b' r where "getPagePointer b f p = (b', r)"
    by fastforce
  with getPagePointer_ok [OF 1 this] show ?case
    by (fastforce simp: points_def)
next
  case (2 b pp f p)
  then show ?case by (rule acquirePage_ok)
next
  case (3 b pp f p)
  then show ?case by (rule releasePage_ok)
next
  case (4 b pp f p)
  then show ?case using releasePageSync_ok by blast
next
  case (5 b pp f p)
  then show ?case by (rule pp_write_ok)
next
  case (6 b pp f p m)
  then show ?case using pp_write_ok by blast
qed


section \<open>Write-back\<close>

definition on_disk :: "'a bufpool_scheme \<Rightarrow> int \<Rightarrow> int \<Rightarrow> mem \<Rightarrow> bool" where
  "on_disk b f p m \<longleftrightarrow> p < disk_pages b f \<and> disk_page b f p = m"

text \<open>Every cached page that is not marked dirty, except possibly \<open>k\<close>, is on the disk as it is.\<close>

definition clean_but :: "(int \<times> int) option \<Rightarrow> 'a bufpool_scheme \<Rightarrow> bool" where
  "clean_but k b \<longleftrightarrow> (\<forall>f p bp. map_of (buffer_hash b) (f, p) = Some bp \<longrightarrow> Some (f, p) \<noteq> k \<longrightarrow>
     \<not> bp_dirty bp \<longrightarrow> on_disk b f p (bp_page bp))"

abbreviation clean :: "'a bufpool_scheme \<Rightarrow> bool" where
  "clean \<equiv> clean_but None"

lemma on_disk_writePage:
  assumes "valid_page f p"
  shows "on_disk (fst (file_writePage b f p m)) f p (clip m)"
    "on_disk b g q n \<Longrightarrow> (g, q) \<noteq> (f, p) \<Longrightarrow> on_disk (fst (file_writePage b f p m)) g q n"
  by (auto simp: on_disk_def writePage_disk_pages [OF assms] writePage_disk_page [OF assms])

lemma on_disk_update [simp]:
  "on_disk (b\<lparr>buffer_hash := h\<rparr>) = on_disk b" "on_disk (b\<lparr>dirty_pages := d\<rparr>) = on_disk b"
  "on_disk (b\<lparr>started := s\<rparr>) = on_disk b"
  by (simp_all add: on_disk_def disk_pages_def disk_page_def fun_eq_iff)

definition writer_clean :: "buffer_page \<Rightarrow> buffer_page" where
  "writer_clean p = (if bp_lock p = 0 \<and> bp_dirty p then p\<lparr>bp_dirty := False\<rparr> else p)"

lemma write_entries_ok:
  assumes "pool_inv b" "\<And>k p. (k, p) \<in> set xs \<Longrightarrow> map_of (buffer_hash b) k = Some p"
    "distinct (map fst xs)"
  shows "\<exists>b'. write_entries b xs = (b', map (\<lambda>(k, p). (k, writer_clean p)) xs)
    \<and> pool_inv b' \<and> page_view b' = page_view b \<and> buffer_hash b' = buffer_hash b
    \<and> (\<forall>f p bp. ((f, p), bp) \<in> set xs \<longrightarrow> bp_lock bp = 0 \<longrightarrow> bp_dirty bp \<longrightarrow> on_disk b' f p (bp_page bp))
    \<and> (\<forall>f p m. on_disk b f p m \<longrightarrow> (\<forall>bp. ((f, p), bp) \<in> set xs \<longrightarrow> \<not> (bp_lock bp = 0 \<and> bp_dirty bp))
          \<longrightarrow> on_disk b' f p m)"
  using assms
proof (induction xs arbitrary: b)
  case (Cons x xs)
  obtain f p bp where x: "x = ((f, p), bp)" by (cases x) auto
  have hit: "map_of (buffer_hash b) (f, p) = Some bp"
    using Cons.prems(2) x by simp
  then have v: "valid_page f p" "clip (bp_page bp) = bp_page bp"
    using Cons.prems(1) by (auto simp: pool_inv_def)
  show ?case
  proof (cases "bp_lock bp = 0 \<and> bp_dirty bp")
    case False
    from Cons.IH [OF Cons.prems(1)] Cons.prems(2,3)
    obtain b' where "write_entries b xs = (b', map (\<lambda>(k, p). (k, writer_clean p)) xs)"
      "pool_inv b' \<and> page_view b' = page_view b \<and> buffer_hash b' = buffer_hash b"
      "\<forall>f p bp. ((f, p), bp) \<in> set xs \<longrightarrow> bp_lock bp = 0 \<longrightarrow> bp_dirty bp \<longrightarrow> on_disk b' f p (bp_page bp)"
      "\<forall>f p m. on_disk b f p m \<longrightarrow> (\<forall>bp. ((f, p), bp) \<in> set xs \<longrightarrow> \<not> (bp_lock bp = 0 \<and> bp_dirty bp))
          \<longrightarrow> on_disk b' f p m"
      by auto
    with False show ?thesis
      by (auto simp: x writer_clean_def)
  next
    case True
    define c where "c = (fst (file_writePage b f p (bp_page bp)))\<lparr>dirty_pages := dirty_pages b - 1\<rparr>"
    have c: "pool_inv c" "page_view c = page_view b" "buffer_hash c = buffer_hash b"
      using writePage_inv [OF Cons.prems(1) hit] writePage_view [OF Cons.prems(1) hit]
      by (auto simp: c_def intro!: ext)
    have cd: "on_disk c f p (bp_page bp)"
      "\<And>g q n. on_disk b g q n \<Longrightarrow> (g, q) \<noteq> (f, p) \<Longrightarrow> on_disk c g q n"
      using on_disk_writePage(1) [OF v(1), of b "bp_page bp"] v(2)
      by (simp_all add: c_def on_disk_writePage(2) [OF v(1)])
    from Cons.IH [OF c(1)] Cons.prems(2,3) c(3)
    obtain b' where b': "write_entries c xs = (b', map (\<lambda>(k, p). (k, writer_clean p)) xs)"
      "pool_inv b' \<and> page_view b' = page_view c \<and> buffer_hash b' = buffer_hash c"
      "\<And>f p bp. ((f, p), bp) \<in> set xs \<Longrightarrow> bp_lock bp = 0 \<Longrightarrow> bp_dirty bp \<Longrightarrow> on_disk b' f p (bp_page bp)"
      "\<And>f p m. on_disk c f p m \<Longrightarrow> (\<forall>bp. ((f, p), bp) \<in> set xs \<longrightarrow> \<not> (bp_lock bp = 0 \<and> bp_dirty bp))
          \<Longrightarrow> on_disk b' f p m"
      by auto
    have "(f, p) \<notin> fst ` set xs"
      using Cons.prems(3) by (simp add: x)
    then have "on_disk b' f p (bp_page bp)"
      by (intro b'(4) cd(1)) force
    moreover have "write_entries b (x # xs) = (b', map (\<lambda>(k, p). (k, writer_clean p)) (x # xs))"
      using b'(1) True by (simp add: x c_def Let_def writer_clean_def)
    moreover have "on_disk b' g q m" if "on_disk b g q m"
      "\<forall>bp. ((g, q), bp) \<in> set (x # xs) \<longrightarrow> \<not> (bp_lock bp = 0 \<and> bp_dirty bp)" for g q m
    proof (rule b'(4))
      have "(g, q) \<noteq> (f, p)"
        using that(2) True x by auto
      with that(1) show "on_disk c g q m"
        by (rule cd(2))
    qed (use that(2) in auto)
    ultimately show ?thesis
      using b'(2,3) c by (intro exI [of _ b']) (auto simp: x)
  qed
qed simp

lemma sorted_keys_distinct: "sorted_wrt key_less ks \<Longrightarrow> distinct ks"
  by (induction ks) auto

lemma map_of_map_snd: "map_of (map (\<lambda>(k, p). (k, g p)) xs) k = map_option g (map_of xs k)"
  by (induction xs) auto

lemma file_writePage_more: "bufpool.more (fst (file_writePage b f p m)) = bufpool.more b"
  by (simp add: file_writePage_def file_fwrite_def)

lemma write_entries_more: "bufpool.more (fst (write_entries b xs)) = bufpool.more b"
proof (induction xs arbitrary: b)
  case (Cons x xs)
  obtain k p where "x = (k, p)"
    by (cases x)
  then show ?case
    by (simp add: Let_def split_beta Cons.IH file_writePage_more)
qed simp

lemma dbWriterWrite_more [simp]: "bufpool.more (dbWriterWrite b) = bufpool.more b"
  using write_entries_more [of b "buffer_hash b"] by (simp add: dbWriterWrite_def split_beta)

lemma writer_clean_page [simp]: "bp_page (writer_clean p) = bp_page p"
  by (simp add: writer_clean_def)

text \<open>The writer changes no page, keeps the invariants and leaves every unlocked page on the disk.\<close>

lemma dbWriterWrite_ok:
  assumes "pool_inv b"
  shows "pool_inv (dbWriterWrite b)" "page_view (dbWriterWrite b) = page_view b" "clean b \<Longrightarrow> clean (dbWriterWrite b)"
    "clean b \<Longrightarrow> map_of (buffer_hash b) (f, p) = Some bp \<Longrightarrow> bp_lock bp = 0 \<Longrightarrow>
       on_disk (dbWriterWrite b) f p (page_view b f p)"
    "points b pp f p \<Longrightarrow> points (dbWriterWrite b) pp f p"
proof -
  let ?xs = "buffer_hash b" and ?ys = "map (\<lambda>(k, p). (k, writer_clean p)) (buffer_hash b)"
  have dist: "distinct (map fst ?xs)"
    using assms by (simp add: pool_inv_def sorted_keys_distinct)
  then obtain b' where b': "write_entries b ?xs = (b', ?ys)"
      "pool_inv b'" "page_view b' = page_view b" "buffer_hash b' = ?xs"
      "\<And>f p bp. ((f, p), bp) \<in> set ?xs \<Longrightarrow> bp_lock bp = 0 \<Longrightarrow> bp_dirty bp \<Longrightarrow> on_disk b' f p (bp_page bp)"
      "\<And>f p m. on_disk b f p m \<Longrightarrow> (\<forall>bp. ((f, p), bp) \<in> set ?xs \<longrightarrow> \<not> (bp_lock bp = 0 \<and> bp_dirty bp))
          \<Longrightarrow> on_disk b' f p m"
    using write_entries_ok [OF assms, of ?xs] by (auto simp: map_of_is_SomeI)
  have d: "dbWriterWrite b = b'\<lparr>buffer_hash := ?ys\<rparr>"
    by (simp add: dbWriterWrite_def b'(1))
  have keys: "map fst ?ys = map fst ?xs"
    by auto
  show "pool_inv (dbWriterWrite b)"
    using b'(2,4) unfolding pool_inv_def d
    by (simp add: keys map_of_map_snd disk_pages_def del: map_map) (metis writer_clean_page)
  show "points (dbWriterWrite b) pp f p" if "points b pp f p"
    using that unfolding d by (auto simp: points_def map_of_map_snd)
  show "page_view (dbWriterWrite b) = page_view b"
    unfolding b'(3) [symmetric] d using b'(4)
    by (auto simp: page_view_def map_of_map_snd disk_pages_def disk_page_def fun_eq_iff split: option.splits)
  have at: "((f, p), bp) \<in> set ?xs \<longleftrightarrow> map_of ?xs (f, p) = Some bp" for f p bp
    using dist by simp
  have written: "on_disk b' f p (bp_page bp)"
    if "clean b" "map_of ?xs (f, p) = Some bp" "bp_lock bp = 0 \<or> \<not> bp_dirty bp" for f p bp
  proof (cases "bp_lock bp = 0 \<and> bp_dirty bp")
    case True
    with that at b'(5) show ?thesis by blast
  next
    case False
    with that have "on_disk b f p (bp_page bp)"
      by (auto simp: clean_but_def)
    with False that at show ?thesis
      by (intro b'(6)) auto
  qed
  then show "clean (dbWriterWrite b)" if "clean b"
    using that by (auto simp: clean_but_def d map_of_map_snd writer_clean_def split: if_splits)
  show "on_disk (dbWriterWrite b) f p (page_view b f p)"
    if "clean b" "map_of ?xs (f, p) = Some bp" "bp_lock bp = 0"
    using written that by (simp add: d page_view_cached)
qed

section \<open>Properties\<close>

text \<open>A pool with one dirty page of the data file that has not been written yet, for concrete instances.\<close>

definition sample_pool :: bufpool where
  "sample_pool = \<lparr>started = True, buffer_hash = [((STORE_FILE_DEFAULT, 0), \<lparr>bp_dirty = True, bp_lock = 0, bp_page = \<lambda>_. 0\<rparr>)],
     dirty_pages = 1, max_dirty = 16, disk = \<lambda>_ _. 0, disk_len = \<lambda>_. 0, junk = \<lambda>_ _ _. 0\<rparr>"

lemma sample_pool_ok: "pool_inv sample_pool" "clean sample_pool"
  "map_of (buffer_hash sample_pool) (STORE_FILE_DEFAULT, 0) = Some \<lparr>bp_dirty = True, bp_lock = 0, bp_page = \<lambda>_. 0\<rparr>"
  by (auto simp: sample_pool_def pool_inv_def clean_but_def valid_page_def file_ids_def clip_def disk_pages_def
      split: if_splits)

text \<open>(C15) The page cache is transparent: getting a page, acquiring it, working on its bytes and releasing it
  succeeds for every page of every file, whether it is cached, on disk or does not exist yet; the work
  sees the current contents, and afterwards this page has the new contents and every other page of every
  file what it had before.\<close>

theorem page_cache_transparent:
  assumes "pool_inv b" "valid_page f p" "g (page_view b f p) = (r, m)"
  shows "\<exists>b'. with_page getPagePointer pp_aquire pp_getPage pp_write (\<lambda>b pp. pp_release b pp 0) b f p g = (b', Inr r)
    \<and> pool_inv b' \<and> page_view b' = (page_view b)(f := (page_view b f)(p := clip m))"
  using bp.with_page_rel [OF assms(1,2), of g r m] assms(3) by blast

theorem page_cache_transparent_witness:
  "\<exists>b'. with_page getPagePointer pp_aquire pp_getPage pp_write (\<lambda>b pp. pp_release b pp 0) sample_pool
      STORE_FILE_ROOTS 3 (\<lambda>m. (get_s32 m 12, put_32 m 12 7)) = (b', Inr 16364) \<and> pool_inv b'"
proof -
  have v: "valid_page STORE_FILE_ROOTS 3"
    by (simp add: valid_page_def file_ids_def)
  have "page_view sample_pool STORE_FILE_ROOTS 3
      = clip (ni_initializePage STORE_FILE_ROOTS STORE_PAGE_ROOTSPAGE 3 (clip (\<lambda>_. 0)))"
    by (simp add: page_view_def sample_pool_def disk_pages_def buf_initializePage_def store_consts)
  then have "get_s32 (page_view sample_pool STORE_FILE_ROOTS 3) 12 = 16364"
    by simp (simp add: ni_initializePage_def Let_def mem_simps s32_def)
  with page_cache_transparent [OF sample_pool_ok(1) v, of "\<lambda>m. (get_s32 m 12, put_32 m 12 7)" 16364
      "put_32 (page_view sample_pool STORE_FILE_ROOTS 3) 12 7"]
  show ?thesis
    by auto
qed

text \<open>(C16) Writing through: after \<open>releaseSync\<close> the page is on the disk with its current contents, and no page
  has changed.\<close>

theorem releaseSync_durable:
  assumes "pool_inv b" "points b pp f p"
  shows "\<exists>b'. pp_releaseSync b pp 1 = (b', 0) \<and> pool_inv b' \<and> page_view b' = page_view b
    \<and> on_disk b' f p (page_view b f p)"
  using releasePageSync_ok [OF assms, of 1] by (auto simp: on_disk_def)

theorem releaseSync_durable_witness:
  "\<exists>b'. pp_releaseSync sample_pool \<lparr>pp_file = STORE_FILE_DEFAULT, pp_page = 0, pp_arr = (STORE_FILE_DEFAULT, 0)\<rparr> 1 = (b', 0)
    \<and> on_disk b' STORE_FILE_DEFAULT 0 (\<lambda>_. 0)"
  using releaseSync_durable [OF sample_pool_ok(1),
      of "\<lparr>pp_file = STORE_FILE_DEFAULT, pp_page = 0, pp_arr = (STORE_FILE_DEFAULT, 0)\<rparr>" STORE_FILE_DEFAULT 0]
    page_view_cached [OF sample_pool_ok(3)] sample_pool_ok(3)
  by (auto simp: points_def)

text \<open>The background writer changes no page and puts every cached page that nobody holds on the disk;
  pages it reports as clean are on the disk as they are in the cache.\<close>

lemma dbWriter_durable:
  assumes "pool_inv b" "clean b"
  shows "pool_inv (dbWriterWrite b) \<and> page_view (dbWriterWrite b) = page_view b \<and> clean (dbWriterWrite b)
    \<and> (\<forall>f p bp. map_of (buffer_hash b) (f, p) = Some bp \<and> bp_lock bp = 0 \<longrightarrow>
         on_disk (dbWriterWrite b) f p (page_view b f p))"
  using dbWriterWrite_ok [OF assms(1)] assms(2) by blast

text \<open>Stopping and starting again: if no page is held when the buffer is stopped, a new, empty buffer on the
  same files shows every page that was in the old one with the contents it had.\<close>

lemma stop_start_keeps_pages:
  assumes "pool_inv b" "clean b" "\<forall>k bp. map_of (buffer_hash b) k = Some bp \<longrightarrow> bp_lock bp = 0"
    "map_of (buffer_hash b) (f, p) = Some bp"
  shows "page_view ((fst (buf_stop b))\<lparr>buffer_hash := [], started := True\<rparr>) f p = page_view b f p"
proof -
  have "on_disk (dbWriterWrite b) f p (page_view b f p)"
    using dbWriterWrite_ok(4) [OF assms(1,2,4)] assms(3,4) by blast
  moreover have "started b"
    using assms(1) by (simp add: pool_inv_def)
  ultimately show ?thesis
    by (simp add: buf_stop_def page_view_def on_disk_def disk_pages_def disk_page_def)
qed

text \<open>The keys of the cache have 16 bits: a page whose number is 65536 higher shares the array of a cached
  page.\<close>

lemma page_alias:
  assumes "started b" "map_of (buffer_hash b) (f, p) \<noteq> None" "0 \<le> p" "p < 65536"
  shows "getPagePointer b f (p + 65536)
    = (b, Inr (Some \<lparr>pp_file = f, pp_page = p + 65536, pp_arr = (f, p)\<rparr>))"
proof -
  have "u16 (p + 65536) = p"
    using assms(3,4) by (simp add: u16_def)
  with assms show ?thesis
    by (auto simp: getPagePointer_def)
qed

end
