(* ===== verification/IdMap.thy ===== *)
theory IdMap
  imports BufferPool
begin

text \<open>
  The map from logical to physical identifiers (Store/Map.cpp, Store/Map.h). Page 0 of the map file holds
  the last assigned identifier, the later pages hold 2046 physical identifiers each. The map is modelled
  on the bytes of its pages in the page cache, and shown to be a finite map: \<open>createLogicalID\<close> extends it
  by one entry marked as deleted, \<open>setPhysicalID\<close> updates one entry, \<open>getPhysicalID\<close> reads it, and no
  operation touches the pages of another file.
\<close>

section \<open>Operations\<close>

text \<open>The records that the store sends to the log with \<open>LogManager::write\<close>.\<close>

record WriteRecord =
  wr_tid :: int
  wr_lid :: lid
  wr_name :: string
  wr_oldVal :: "DBDataValue option"
  wr_newVal :: "DBDataValue option"
  wr_id :: int

text \<open>The state of the store: the cache, the page pointer that \<open>Map\<close> keeps, \<open>LogRecord::idSeq\<close>, which
  is the logical timer, and the write records handed to the log so far, latest first.\<close>

record storage = bufpool +
  map_header :: "PagePointer option"
  idSeq :: int
  wlog :: "WriteRecord list"

definition same_log :: "storage \<Rightarrow> storage \<Rightarrow> bool" where
  "same_log s t \<longleftrightarrow> idSeq t = idSeq s \<and> wlog t = wlog s"

definition getLogicalTimerValue :: "storage \<Rightarrow> int" where
  "getLogicalTimerValue s = idSeq s"

definition sbind :: "'s \<times> (fault + 'a) \<Rightarrow> ('s \<Rightarrow> 'a \<Rightarrow> 's \<times> (fault + 'b)) \<Rightarrow> 's \<times> (fault + 'b)" where
  "sbind m k = (case m of (s, Inl e) \<Rightarrow> (s, Inl e) | (s, Inr x) \<Rightarrow> k s x)"

lemma sbind_simps [simp]: "sbind (s, Inl e) k = (s, Inl e)" "sbind (s, Inr x) k = k s x"
  by (simp_all add: sbind_def)

text \<open>One page from acquire to \<open>release(tid, 0)\<close>, or to \<open>releaseSync(tid, 1)\<close>.\<close>

definition page_rel ::
  "storage \<Rightarrow> int \<Rightarrow> int \<Rightarrow> (mem \<Rightarrow> 'r \<times> mem) \<Rightarrow> storage \<times> (fault + 'r)" where
  "page_rel s f p g = with_page getPagePointer pp_aquire pp_getPage pp_write
     (\<lambda>s pp. pp_release s pp 0) s f p g"

definition page_sync ::
  "storage \<Rightarrow> int \<Rightarrow> int \<Rightarrow> (mem \<Rightarrow> 'r \<times> mem) \<Rightarrow> storage \<times> (fault + 'r)" where
  "page_sync s f p g = with_page getPagePointer pp_aquire pp_getPage pp_write
     (\<lambda>s pp. pp_releaseSync s pp 1) s f p g"

definition STORE_MAP_PERPAGE :: int where "STORE_MAP_PERPAGE = (STORE_PAGESIZE - 12) div 8"
definition STORE_MAP_MAPPAGE :: "int \<Rightarrow> int" where "STORE_MAP_MAPPAGE i = 1 + i div STORE_MAP_PERPAGE"
definition STORE_MAP_MAPOFFSET :: "int \<Rightarrow> int" where
  "STORE_MAP_MAPOFFSET i = 12 + 8 * (i mod STORE_MAP_PERPAGE)"

text \<open>\<open>Map::initializeFile\<close>: the header page and fifteen empty map pages.\<close>

definition map_header_page :: mem where
  "map_header_page =
     (let m = memset (\<lambda>_. 0) 0 0 STORE_PAGESIZE;
          m = put_16 m 4 STORE_FILE_MAP;
          m = put_32 m 0 0;
          m = put_16 m 6 STORE_PAGE_MAPHEADER;
          m = put_32 m 8 0;
          m = put_32 m 12 16
      in put_32 m 16 0)"

definition map_empty_page :: "int \<Rightarrow> mem" where
  "map_empty_page i =
     (let m = memset (\<lambda>_. 0) 0 0 STORE_PAGESIZE;
          m = put_16 m 4 STORE_FILE_MAP;
          m = put_16 m 6 STORE_PAGE_MAPPAGE
      in put_32 m 0 i)"

definition map_initializeFile :: "'a bufpool_scheme \<Rightarrow> 'a bufpool_scheme" where
  "map_initializeFile b =
     fold (\<lambda>i b. fst (file_writePage b STORE_FILE_MAP i (map_empty_page i))) [1..15]
       (fst (file_writePage b STORE_FILE_MAP 0 map_header_page))"

definition map_equal :: "physical_id \<Rightarrow> physical_id \<Rightarrow> bool" where
  "map_equal a b \<longleftrightarrow> pid_bytes a = pid_bytes b"

definition getLastAssigned :: "storage \<Rightarrow> storage \<times> (fault + int)" where
  "getLastAssigned s =
     sbind (getPagePointer s STORE_FILE_MAP 0) (\<lambda>s hdr.
       let s = s\<lparr>map_header := hdr\<rparr>
       in case hdr of
            None \<Rightarrow> (s, Inl NullDereference)
          | Some pp \<Rightarrow>
              let s = fst (pp_aquire s pp);
                  last_assigned = get_u32 (pp_getPage s pp) 16;
                  s = fst (pp_release s pp 0)
              in (s, Inr last_assigned))"

definition setLastAssigned :: "storage \<Rightarrow> int \<Rightarrow> storage \<times> (fault + unit)" where
  "setLastAssigned s last_assigned =
     sbind (case map_header s of
              Some pp \<Rightarrow> (s, Inr (Some pp))
            | None \<Rightarrow> sbind (getPagePointer s STORE_FILE_MAP 0)
                (\<lambda>s hdr. (s\<lparr>map_header := hdr\<rparr>, Inr hdr)))
       (\<lambda>s hdr. case hdr of
          None \<Rightarrow> (s, Inl NullDereference)
        | Some pp \<Rightarrow>
            let s = fst (pp_aquire s pp);
                m = put_32 (pp_getPage s pp) 8 (getLogicalTimerValue s);
                m = put_32 m 16 last_assigned;
                s = pp_write s pp m
            in (fst (pp_releaseSync s pp 1), Inr ()))"

definition createLogicalID :: "storage \<Rightarrow> storage \<times> (fault + int)" where
  "createLogicalID s =
     sbind (getLastAssigned s) (\<lambda>s last_assigned.
       let i = u32 (last_assigned + 1)
       in sbind (page_sync s STORE_FILE_MAP (u32 (STORE_MAP_MAPPAGE i))
                   (\<lambda>m. ((), put_32 (memset m (STORE_MAP_MAPOFFSET i) (-1) 8) 8 (getLogicalTimerValue s))))
            (\<lambda>s _. sbind (setLastAssigned s i) (\<lambda>s _. (s, Inr i))))"

definition map_getPhysicalID :: "storage \<Rightarrow> int \<Rightarrow> storage \<times> (fault + int \<times> physical_id option)" where
  "map_getPhysicalID s logicalID =
     (if logicalID = 0 then (s, Inr (1, None))
      else sbind (getLastAssigned s) (\<lambda>s last_assigned.
        if last_assigned < logicalID then (s, Inr (2, None))
        else page_rel s STORE_FILE_MAP (u32 (STORE_MAP_MAPPAGE logicalID))
               (\<lambda>m. ((0, Some (pid_read m (STORE_MAP_MAPOFFSET logicalID))), m))))"

text \<open>\<open>setPhysicalID\<close> and its loop call each other; the fuel is decreased in every call and \<^const>\<open>None\<close> is
  running out of it. \<open>lid + 2\<close> is always enough.\<close>

fun map_setPhysicalID ::
  "nat \<Rightarrow> storage \<Rightarrow> int \<Rightarrow> physical_id option \<Rightarrow> (storage \<times> (fault + int)) option"
and fill_loop :: "nat \<Rightarrow> storage \<Rightarrow> int \<Rightarrow> (storage \<times> (fault + unit)) option" where
  "map_setPhysicalID 0 s logicalID physicalID = None"
| "map_setPhysicalID (Suc n) s logicalID physicalID =
     (case physicalID of
        None \<Rightarrow> Some (s, Inr 1)
      | Some pid \<Rightarrow>
          if logicalID = 0 then Some (s, Inr 1)
          else case getLastAssigned s of
            (s, Inl e) \<Rightarrow> Some (s, Inl e)
          | (s, Inr last_assigned) \<Rightarrow>
              if logicalID > 10000000 then Some (s, Inr 2)
              else case (if last_assigned < logicalID then fill_loop n s logicalID
                         else Some (s, Inr ())) of
                None \<Rightarrow> None
              | Some (s, Inl e) \<Rightarrow> Some (s, Inl e)
              | Some (s, Inr _) \<Rightarrow>
                  Some (page_sync s STORE_FILE_MAP (u32 (STORE_MAP_MAPPAGE logicalID))
                    (\<lambda>m. (0, put_32 (putbytes m (STORE_MAP_MAPOFFSET logicalID) (pid_bytes pid)) 8
                              (getLogicalTimerValue s)))))"
| "fill_loop 0 s logicalID = None"
| "fill_loop (Suc n) s logicalID =
     (case getLastAssigned s of
        (s, Inl e) \<Rightarrow> Some (s, Inl e)
      | (s, Inr last_assigned) \<Rightarrow>
          if last_assigned < logicalID then
            (case createLogicalID s of
               (s, Inl e) \<Rightarrow> Some (s, Inl e)
             | (s, Inr ll) \<Rightarrow>
                 (case map_setPhysicalID n s (u32 ll) (Some RIP) of
                    None \<Rightarrow> None
                  | Some (s, Inl e) \<Rightarrow> Some (s, Inl e)
                  | Some (s, Inr _) \<Rightarrow> fill_loop n s logicalID))
          else Some (s, Inr ()))"

section \<open>The map behind the pages\<close>

text \<open>The operations of the cache leave the rest of the state alone.\<close>

lemma create_pages_more: "bufpool.more (fst (create_pages b f i p a)) = bufpool.more b"
proof (induction b f i p a rule: create_pages.induct)
  case (1 b f i p a)
  then show ?case
    by (subst create_pages.simps) (simp add: Let_def split: option.split)
qed

lemma pool_more [simp]:
  "bufpool.more (fst (getPagePointer b f p)) = bufpool.more b"
  "bufpool.more (fst (pp_aquire b pp)) = bufpool.more b"
  "bufpool.more (fst (pp_release b pp d)) = bufpool.more b"
  "bufpool.more (fst (pp_releaseSync b pp d)) = bufpool.more b"
  "bufpool.more (pp_write b pp m) = bufpool.more b"
proof -
  show "bufpool.more (fst (getPagePointer b f p)) = bufpool.more b"
    using create_pages_more [of b f "file_hasPage b f" p None]
    by (simp add: getPagePointer_def Let_def split_beta split: option.split)
qed (simp_all add: pp_aquire_def acquirePage_def pp_release_def releasePage_def pp_releaseSync_def
    releasePageSync_def pp_write_def file_writePage_def file_fwrite_def Let_def split: option.split)

lemma storage_more: "bufpool.more s = bufpool.more t \<Longrightarrow> same_log t s \<and> map_header s = map_header t"
  by (cases s; cases t) (simp add: same_log_def)

lemma with_page_more:
  "bufpool.more (fst (with_page getPagePointer pp_aquire pp_getPage pp_write
      (\<lambda>s pp. pp_release s pp 0) b f p g)) = bufpool.more b"
  "bufpool.more (fst (with_page getPagePointer pp_aquire pp_getPage pp_write
      (\<lambda>s pp. pp_releaseSync s pp 1) b f p g)) = bufpool.more b"
  using pool_more(1) [of b f p]
  by (auto simp: with_page_def Let_def split_beta split: prod.split sum.split option.split)

lemma storage_updates [simp]:
  "pool_inv (s\<lparr>map_header := h\<rparr>) = pool_inv s" "page_view (s\<lparr>map_header := h\<rparr>) = page_view s"
  "points (s\<lparr>map_header := h\<rparr>) = points s"
  "pool_inv (s\<lparr>idSeq := n\<rparr>) = pool_inv s" "page_view (s\<lparr>idSeq := n\<rparr>) = page_view s"
  "points (s\<lparr>idSeq := n\<rparr>) = points s"
  "pool_inv (s\<lparr>wlog := w\<rparr>) = pool_inv s" "page_view (s\<lparr>wlog := w\<rparr>) = page_view s"
  "points (s\<lparr>wlog := w\<rparr>) = points s"
  by (auto simp: pool_inv_def page_view_def points_def disk_pages_def disk_page_def fun_eq_iff
      split: option.splits)

text \<open>\<open>steps s s' f p m\<close>: page \<open>p\<close> of file \<open>f\<close> has become \<open>m\<close>; nothing else has changed.\<close>

definition steps :: "storage \<Rightarrow> storage \<Rightarrow> int \<Rightarrow> int \<Rightarrow> mem \<Rightarrow> bool" where
  "steps s s' f p m \<longleftrightarrow> pool_inv s'
     \<and> page_view s' = (page_view s)(f := (page_view s f)(p := m))
     \<and> (\<forall>pp f p. points s pp f p \<longrightarrow> points s' pp f p)
     \<and> same_log s s' \<and> map_header s' = map_header s"

lemma page_rel_steps:
  assumes "pool_inv s" "valid_page f p" "g (page_view s f p) = (r, m)"
  shows "\<exists>s'. page_rel s f p g = (s', Inr r) \<and> steps s s' f p (clip m)"
proof -
  from bp.with_page_rel [OF assms(1,2), of g r m] assms(3) obtain s' where s': "page_rel s f p g = (s', Inr r)" "pool_inv s'"
    "page_view s' = (page_view s)(f := (page_view s f)(p := clip m))"
    "\<forall>pp f p. points s pp f p \<longrightarrow> points s' pp f p"
    unfolding page_rel_def by blast
  moreover have "bufpool.more s' = bufpool.more s"
    using with_page_more(1) [of s f p g] s'(1) by (simp add: page_rel_def)
  ultimately show ?thesis
    using storage_more [of s' s] by (auto simp: steps_def)
qed

lemma page_sync_steps:
  assumes "pool_inv s" "valid_page f p" "g (page_view s f p) = (r, m)"
  shows "\<exists>s'. page_sync s f p g = (s', Inr r) \<and> steps s s' f p (clip m)"
proof -
  from bp.sync.with_page_rel [OF assms(1,2), of g r m] assms(3) obtain s' where s': "page_sync s f p g = (s', Inr r)" "pool_inv s'"
    "page_view s' = (page_view s)(f := (page_view s f)(p := clip m))"
    "\<forall>pp f p. points s pp f p \<longrightarrow> points s' pp f p"
    unfolding page_sync_def by blast
  moreover have "bufpool.more s' = bufpool.more s"
    using with_page_more(2) [of s f p g] s'(1) by (simp add: page_sync_def)
  ultimately show ?thesis
    using storage_more [of s' s] by (auto simp: steps_def)
qed

definition MAP_LIMIT :: int where "MAP_LIMIT = 134084609"

definition map_last :: "storage \<Rightarrow> int" where
  "map_last s = get_u32 (page_view s STORE_FILE_MAP 0) 16"

definition map_pid :: "storage \<Rightarrow> int \<Rightarrow> physical_id" where
  "map_pid s i = pid_read (page_view s STORE_FILE_MAP (STORE_MAP_MAPPAGE i)) (STORE_MAP_MAPOFFSET i)"

definition map_ok :: "storage \<Rightarrow> bool" where
  "map_ok s \<longleftrightarrow> pool_inv s \<and> map_last s \<le> MAP_LIMIT
     \<and> (\<forall>pp. map_header s = Some pp \<longrightarrow> points s pp STORE_FILE_MAP 0)"

text \<open>What a map operation leaves alone.\<close>

definition other_files :: "storage \<Rightarrow> storage \<Rightarrow> bool" where
  "other_files s s' \<longleftrightarrow> (\<forall>f. f \<noteq> STORE_FILE_MAP \<longrightarrow> page_view s' f = page_view s f) \<and> same_log s s'
     \<and> (\<forall>pp f p. points s pp f p \<longrightarrow> points s' pp f p)"

lemma other_files_refl [simp]: "other_files s s"
  by (simp add: other_files_def same_log_def)

lemma other_files_trans: "other_files s t \<Longrightarrow> other_files t u \<Longrightarrow> other_files s u"
  by (auto simp: other_files_def same_log_def)

lemma steps_other_files: "steps s s' STORE_FILE_MAP p m \<Longrightarrow> other_files s s'"
  by (simp add: steps_def other_files_def)

lemma map_page_facts:
  assumes "0 \<le> i" "i \<le> MAP_LIMIT"
  shows "valid_page STORE_FILE_MAP (STORE_MAP_MAPPAGE i)" "u32 (STORE_MAP_MAPPAGE i) = STORE_MAP_MAPPAGE i"
    "STORE_MAP_MAPPAGE i \<noteq> 0" "12 \<le> STORE_MAP_MAPOFFSET i" "STORE_MAP_MAPOFFSET i + 8 \<le> 16384"
proof -
  have "0 \<le> i div 2046" "i div 2046 < 65535" "0 \<le> i mod 2046" "i mod 2046 < 2046"
    using assms by (simp_all add: MAP_LIMIT_def div_less_iff_less_mult pos_imp_zdiv_nonneg_iff)
  then show "valid_page STORE_FILE_MAP (STORE_MAP_MAPPAGE i)"
    "u32 (STORE_MAP_MAPPAGE i) = STORE_MAP_MAPPAGE i" "STORE_MAP_MAPPAGE i \<noteq> 0"
    "12 \<le> STORE_MAP_MAPOFFSET i" "STORE_MAP_MAPOFFSET i + 8 \<le> 16384"
    by (simp_all add: STORE_MAP_MAPPAGE_def STORE_MAP_MAPOFFSET_def STORE_MAP_PERPAGE_def valid_page_def
        file_ids_def u32_def)
qed

lemma map_page0: "valid_page STORE_FILE_MAP 0"
  by (simp add: valid_page_def file_ids_def)

text \<open>Different identifiers have different places.\<close>

lemma map_place_inj:
  assumes "i \<noteq> j" "STORE_MAP_MAPPAGE i = STORE_MAP_MAPPAGE j"
  shows "STORE_MAP_MAPOFFSET i + 8 \<le> STORE_MAP_MAPOFFSET j \<or> STORE_MAP_MAPOFFSET j + 8 \<le> STORE_MAP_MAPOFFSET i"
proof -
  have "i div 2046 = j div 2046"
    using assms(2) by (simp add: STORE_MAP_MAPPAGE_def STORE_MAP_PERPAGE_def)
  then have "i mod 2046 \<noteq> j mod 2046"
    using assms(1) by (metis div_mult_mod_eq)
  then show ?thesis
    by (auto simp: STORE_MAP_MAPOFFSET_def STORE_MAP_PERPAGE_def)
qed

lemma pid_read_cong:
  "(\<And>x. a \<le> x \<Longrightarrow> x < a + 8 \<Longrightarrow> m x = m' x) \<Longrightarrow> pid_read m a = pid_read m' a"
  by (simp add: pid_read_def get_u32_def get_u16_def getbytes_cong [of _ _ m m'])

section \<open>The operations as operations of a finite map\<close>

lemma getLastAssigned_ok:
  assumes "map_ok s"
  shows "\<exists>s'. getLastAssigned s = (s', Inr (map_last s)) \<and> map_ok s' \<and> page_view s' = page_view s
    \<and> other_files s s' \<and> map_header s' \<noteq> None"
proof -
  have i: "pool_inv s" and lim: "map_last s \<le> MAP_LIMIT"
    using assms by (simp_all add: map_ok_def)
  obtain s1 pp where 1: "getPagePointer s STORE_FILE_MAP 0 = (s1, Inr (Some pp))" "pool_inv s1"
    "page_view s1 = page_view s" "points s1 pp STORE_FILE_MAP 0"
    "\<forall>pp f p. points s pp f p \<longrightarrow> points s1 pp f p"
    using bp.get_law [OF i map_page0] by blast
  define s2 where "s2 = s1\<lparr>map_header := Some pp\<rparr>"
  have 2: "pool_inv s2" "points s2 pp STORE_FILE_MAP 0"
    using 1 by (simp_all add: s2_def)
  obtain s3 where 3: "pp_aquire s2 pp = (s3, 0)" "pool_inv s3" "page_view s3 = page_view s2" "points s3 = points s2"
    using bp.acq_law [OF 2] by blast
  then have p3: "points s3 pp STORE_FILE_MAP 0" using 2 by simp
  obtain s4 where 4: "pp_release s3 pp 0 = (s4, 0)" "pool_inv s4" "page_view s4 = page_view s3" "points s4 = points s3"
    using bp.rel_law [OF 3(2) p3] by blast
  have more: "same_log s s4" "map_header s4 = Some pp"
    using storage_more [OF pool_more(1) [of s STORE_FILE_MAP 0]] storage_more [OF pool_more(2) [of s2 pp]]
      storage_more [OF pool_more(3) [of s3 pp 0]] 1(1) 3(1) 4(1)
    by (simp_all add: s2_def same_log_def)
  have "pp_getPage s3 pp = page_view s STORE_FILE_MAP 0"
    using bp.page_law [OF 3(2) p3] 1(3) 3(3) by (simp add: s2_def)
  then have "getLastAssigned s = (s4, Inr (map_last s))"
    by (simp add: getLastAssigned_def 1(1) s2_def [symmetric] 3(1) 4(1) map_last_def)
  moreover have "page_view s4 = page_view s" "points s4 = points s1"
    using 1 3 4 by (simp_all add: s2_def)
  ultimately show ?thesis
    using 1 4(2) lim more by (auto simp: map_ok_def other_files_def map_last_def)
qed

lemma setLastAssigned_ok:
  assumes "map_ok s" "map_header s \<noteq> None" "0 \<le> v" "v \<le> MAP_LIMIT"
  shows "\<exists>s'. setLastAssigned s v = (s', Inr ()) \<and> map_ok s' \<and> map_last s' = v
    \<and> (\<forall>p. p \<noteq> 0 \<longrightarrow> page_view s' STORE_FILE_MAP p = page_view s STORE_FILE_MAP p) \<and> other_files s s'"
proof -
  from assms(1,2) obtain pp where h: "map_header s = Some pp" "points s pp STORE_FILE_MAP 0" "pool_inv s"
    by (auto simp: map_ok_def)
  obtain s1 where 1: "pp_aquire s pp = (s1, 0)" "pool_inv s1" "page_view s1 = page_view s" "points s1 = points s"
    using bp.acq_law [OF h(3,2)] by blast
  then have p1: "points s1 pp STORE_FILE_MAP 0" using h by simp
  define m where "m = put_32 (put_32 (pp_getPage s1 pp) 8 (getLogicalTimerValue s1)) 16 v"
  define s2 where "s2 = pp_write s1 pp m"
  have 2: "pool_inv s2" "points s2 = points s"
    "page_view s2 = (page_view s)(STORE_FILE_MAP := (page_view s STORE_FILE_MAP)(0 := clip m))"
    using bp.write_law [OF 1(2) p1, of m] 1 by (simp_all add: s2_def)
  then have p2: "points s2 pp STORE_FILE_MAP 0" using h by simp
  obtain s3 where 3: "pp_releaseSync s2 pp 1 = (s3, 0)" "pool_inv s3" "page_view s3 = page_view s2" "points s3 = points s2"
    using bp.relsync_law [OF 2(1) p2] by blast
  have more: "same_log s s3" "map_header s3 = map_header s"
    using storage_more [OF pool_more(2) [of s pp]] storage_more [OF pool_more(5) [of s1 pp m]]
      storage_more [OF pool_more(4) [of s2 pp 1]] 1(1) 3(1)
    by (simp_all add: s2_def same_log_def)
  have "setLastAssigned s v = (s3, Inr ())"
    by (simp add: setLastAssigned_def h(1) 1(1) m_def [symmetric] s2_def [symmetric] 3(1) Let_def)
  moreover have "map_last s3 = v"
    using assms(3,4) by (simp add: map_last_def 3(3) 2(3) m_def mem_simps u32_def MAP_LIMIT_def)
  ultimately show ?thesis
    using 2 3 h more assms by (auto simp: map_ok_def other_files_def)
qed

text \<open>Writing eight bytes at the place of \<open>i\<close>, and the timestamp, changes the entry of \<open>i\<close> only.\<close>

lemma write_entry:
  assumes "map_ok s" "0 \<le> i" "i \<le> MAP_LIMIT" "pid_wf q"
    and "steps s s' STORE_FILE_MAP (STORE_MAP_MAPPAGE i) (clip (put_32 m' 8 t))"
    and "holds m' (STORE_MAP_MAPOFFSET i) (pid_bytes q)"
    and "\<forall>x. x < STORE_MAP_MAPOFFSET i \<or> STORE_MAP_MAPOFFSET i + 8 \<le> x \<longrightarrow>
      m' x = page_view s STORE_FILE_MAP (STORE_MAP_MAPPAGE i) x"
  shows "map_ok s'" "map_last s' = map_last s" "other_files s s'"
    "\<And>j. 0 \<le> j \<Longrightarrow> j \<le> MAP_LIMIT \<Longrightarrow> map_pid s' j = (if j = i then q else map_pid s j)"
    "map_header s' = map_header s"
proof -
  note f = map_page_facts [OF assms(2,3)]
  show oth: "other_files s s'"
    using assms(5) by (rule steps_other_files)
  show mh: "map_header s' = map_header s"
    using assms(5) by (simp add: steps_def)
  show l: "map_last s' = map_last s"
    using assms(5) f(3) by (simp add: steps_def map_last_def)
  show "map_ok s'"
    using assms(1,5) oth l mh by (auto simp: map_ok_def steps_def other_files_def)
  fix j assume j: "0 \<le> j" "j \<le> MAP_LIMIT"
  note fj = map_page_facts [OF j]
  let ?m = "clip (put_32 m' 8 t)"
  have v: "page_view s' STORE_FILE_MAP = (page_view s STORE_FILE_MAP)(STORE_MAP_MAPPAGE i := ?m)"
    using assms(5) by (simp add: steps_def)
  have m: "?m x = m' x" if "12 \<le> x" "x < 16384" for x
    using that by (simp add: clip_apply mem_simps)
  show "map_pid s' j = (if j = i then q else map_pid s j)"
  proof (cases "j = i")
    case True
    have "pid_read ?m (STORE_MAP_MAPOFFSET i) = pid_read m' (STORE_MAP_MAPOFFSET i)"
      using f by (intro pid_read_cong m) auto
    with True show ?thesis
      using pid_read_holds [OF assms(4,6)] by (simp add: map_pid_def v)
  next
    case False
    have "pid_read ?m (STORE_MAP_MAPOFFSET j)
        = pid_read (page_view s STORE_FILE_MAP (STORE_MAP_MAPPAGE i)) (STORE_MAP_MAPOFFSET j)"
      if "STORE_MAP_MAPPAGE j = STORE_MAP_MAPPAGE i"
      using map_place_inj [OF False that] fj assms(7) by (intro pid_read_cong) (auto simp: m)
    with False show ?thesis
      by (auto simp: map_pid_def v)
  qed
qed

lemma map_equal_iff: "pid_wf a \<Longrightarrow> pid_wf b \<Longrightarrow> map_equal a b \<longleftrightarrow> a = b"
proof -
  assume wf: "pid_wf a" "pid_wf b"
  let ?m = "putbytes (\<lambda>_. 0) 0 (pid_bytes a)"
  have h: "holds ?m 0 (pid_bytes a)"
    by (simp add: holds_def mem_simps)
  show ?thesis
    using pid_read_holds [OF wf(1) h] pid_read_holds [OF wf(2), of ?m 0] h by (auto simp: map_equal_def)
qed

lemma memset_ff_holds: "holds (memset m a (-1) 8) a (pid_bytes RIP)"
proof -
  have "getbytes (memset m a (-1) 8) a 8 = replicate 8 (-1)"
    by (rule nth_equalityI) (auto simp: memset_def)
  then show ?thesis
    by (simp add: holds_def RIP_bytes eval_nat_numeral)
qed

lemma createLogicalID_ok:
  assumes "map_ok s" "map_last s < MAP_LIMIT"
  shows "\<exists>s'. createLogicalID s = (s', Inr (map_last s + 1)) \<and> map_ok s' \<and> map_last s' = map_last s + 1
    \<and> other_files s s'
    \<and> (\<forall>j. 0 \<le> j \<and> j \<le> MAP_LIMIT \<longrightarrow> map_pid s' j = (if j = map_last s + 1 then RIP else map_pid s j))"
proof -
  let ?i = "map_last s + 1"
  have i: "0 \<le> ?i" "?i \<le> MAP_LIMIT" "u32 ?i = ?i"
    using assms(2) get_u32_bounds [of "page_view s STORE_FILE_MAP 0" 16]
    by (simp_all add: map_last_def MAP_LIMIT_def u32_def)
  obtain s1 where 1: "getLastAssigned s = (s1, Inr (map_last s))" "map_ok s1" "page_view s1 = page_view s"
    "other_files s s1" "map_header s1 \<noteq> None"
    using getLastAssigned_ok [OF assms(1)] by blast
  note f = map_page_facts [OF i(1,2)]
  let ?g = "\<lambda>m. ((), put_32 (memset m (STORE_MAP_MAPOFFSET ?i) (-1) 8) 8 (getLogicalTimerValue s1))"
  obtain s2 where 2: "page_sync s1 STORE_FILE_MAP (STORE_MAP_MAPPAGE ?i) ?g = (s2, Inr ())"
    "steps s1 s2 STORE_FILE_MAP (STORE_MAP_MAPPAGE ?i)
      (clip (snd (?g (page_view s STORE_FILE_MAP (STORE_MAP_MAPPAGE ?i)))))"
    using page_sync_steps [of s1 STORE_FILE_MAP "STORE_MAP_MAPPAGE ?i" ?g] f 1(2,3)
    by (auto simp: map_ok_def)
  have out: "\<forall>x. x < STORE_MAP_MAPOFFSET ?i \<or> STORE_MAP_MAPOFFSET ?i + 8 \<le> x \<longrightarrow>
      memset (page_view s STORE_FILE_MAP (STORE_MAP_MAPPAGE ?i)) (STORE_MAP_MAPOFFSET ?i) (-1) 8 x
      = page_view s1 STORE_FILE_MAP (STORE_MAP_MAPPAGE ?i) x"
    using 1(3) by (auto simp: memset_def)
  note we = write_entry [OF 1(2) i(1,2) pid_wf_RIP 2(2) [unfolded snd_conv] memset_ff_holds out]
  obtain s3 where 3: "setLastAssigned s2 ?i = (s3, Inr ())" "map_ok s3" "map_last s3 = ?i"
    "\<forall>p. p \<noteq> 0 \<longrightarrow> page_view s3 STORE_FILE_MAP p = page_view s2 STORE_FILE_MAP p" "other_files s2 s3"
    using setLastAssigned_ok [OF we(1) _ i(1,2)] we(5) 1(5) by metis
  have "map_pid s3 j = (if j = ?i then RIP else map_pid s j)" if "0 \<le> j" "j \<le> MAP_LIMIT" for j
    using we(4) [OF that] 3(4) map_page_facts(3) [OF that] 1(3) by (simp add: map_pid_def)
  moreover have "createLogicalID s = (s3, Inr ?i)"
    using 2(1) by (simp add: createLogicalID_def 1(1) i(3) Let_def f(2) 3(1))
  ultimately show ?thesis
    using 3 other_files_trans 1(4) we(3) by blast
qed

lemma map_last_nonneg: "0 \<le> map_last s"
  by (simp add: map_last_def get_u32_bounds)

lemma map_getPhysicalID_ok:
  assumes "map_ok s" "0 \<le> i"
  shows "\<exists>s'. map_getPhysicalID s i = (s', Inr (if i = 0 then (1, None) else if map_last s < i then (2, None)
      else (0, Some (map_pid s i)))) \<and> map_ok s' \<and> page_view s' = page_view s \<and> other_files s s'"
proof (cases "i = 0")
  case True
  with assms show ?thesis by (auto simp: map_getPhysicalID_def)
next
  case False
  obtain s1 where 1: "getLastAssigned s = (s1, Inr (map_last s))" "map_ok s1" "page_view s1 = page_view s"
    "other_files s s1"
    using getLastAssigned_ok [OF assms(1)] by blast
  show ?thesis
  proof (cases "map_last s < i")
    case True
    with False 1 show ?thesis by (simp add: map_getPhysicalID_def)
  next
    case le: False
    then have lim: "i \<le> MAP_LIMIT"
      using assms(1) by (simp add: map_ok_def)
    note f = map_page_facts [OF assms(2) lim]
    let ?v = "page_view s STORE_FILE_MAP (STORE_MAP_MAPPAGE i)"
    have "pool_inv s1" using 1(2) by (simp add: map_ok_def)
    from page_rel_steps [OF this f(1), of "\<lambda>m. ((0, Some (pid_read m (STORE_MAP_MAPOFFSET i))), m)"]
    obtain s2 where 2: "map_getPhysicalID s i = (s2, Inr (0, Some (map_pid s i)))"
      "steps s1 s2 STORE_FILE_MAP (STORE_MAP_MAPPAGE i) (clip ?v)"
      using False le 1(1,3) by (auto simp: map_getPhysicalID_def f(2) map_pid_def)
    moreover have "clip ?v = ?v"
      using assms(1) by (simp add: map_ok_def)
    ultimately have v: "page_view s2 = page_view s" "pool_inv s2" "map_header s2 = map_header s1"
      "\<forall>pp f p. points s1 pp f p \<longrightarrow> points s2 pp f p"
      using 1(3) by (simp_all add: steps_def)
    then have "map_ok s2"
      using 1(2,3) by (auto simp: map_ok_def map_last_def)
    with False le 2 v show ?thesis
      using other_files_trans [OF 1(4) steps_other_files [OF 2(2)]] by simp
  qed
qed

lemma map_view_cong: "page_view t = page_view s \<Longrightarrow> map_last t = map_last s \<and> map_pid t = map_pid s"
  by (auto simp: map_last_def map_pid_def intro!: ext)

text \<open>The last step of \<open>setPhysicalID\<close>.\<close>

lemma sync_entry:
  assumes "map_ok s" "0 \<le> i" "i \<le> MAP_LIMIT" "pid_wf q"
  shows "\<exists>s'. page_sync s STORE_FILE_MAP (u32 (STORE_MAP_MAPPAGE i))
      (\<lambda>m. (0 :: int, put_32 (putbytes m (STORE_MAP_MAPOFFSET i) (pid_bytes q)) 8 t)) = (s', Inr 0)
    \<and> map_ok s' \<and> map_last s' = map_last s \<and> other_files s s'
    \<and> (\<forall>j. 0 \<le> j \<and> j \<le> MAP_LIMIT \<longrightarrow> map_pid s' j = (if j = i then q else map_pid s j))"
proof -
  note f = map_page_facts [OF assms(2,3)]
  let ?m = "putbytes (page_view s STORE_FILE_MAP (STORE_MAP_MAPPAGE i)) (STORE_MAP_MAPOFFSET i) (pid_bytes q)"
  have "pool_inv s" using assms(1) by (simp add: map_ok_def)
  from page_sync_steps [OF this f(1), of "\<lambda>m. (0 :: int, put_32 (putbytes m (STORE_MAP_MAPOFFSET i) (pid_bytes q)) 8 t)"]
  obtain s' where s': "page_sync s STORE_FILE_MAP (STORE_MAP_MAPPAGE i)
      (\<lambda>m. (0 :: int, put_32 (putbytes m (STORE_MAP_MAPOFFSET i) (pid_bytes q)) 8 t)) = (s', Inr 0)"
    "steps s s' STORE_FILE_MAP (STORE_MAP_MAPPAGE i) (clip (put_32 ?m 8 t))"
    by auto
  have out: "\<forall>x. x < STORE_MAP_MAPOFFSET i \<or> STORE_MAP_MAPOFFSET i + 8 \<le> x \<longrightarrow>
      ?m x = page_view s STORE_FILE_MAP (STORE_MAP_MAPPAGE i) x"
    by (auto simp: mem_simps)
  have "holds ?m (STORE_MAP_MAPOFFSET i) (pid_bytes q)"
    by (simp add: holds_def mem_simps)
  note we = write_entry [OF assms s'(2) this out]
  with s'(1) show ?thesis
    unfolding f(2) by blast
qed

lemma set_present:
  assumes "map_ok s" "0 < i" "i \<le> map_last s" "i \<le> 10000000" "pid_wf q"
  shows "\<exists>s'. map_setPhysicalID (Suc n) s i (Some q) = Some (s', Inr 0) \<and> map_ok s'
    \<and> map_last s' = map_last s \<and> other_files s s'
    \<and> (\<forall>j. 0 \<le> j \<and> j \<le> MAP_LIMIT \<longrightarrow> map_pid s' j = (if j = i then q else map_pid s j))"
proof -
  have i: "0 \<le> i" "i \<le> MAP_LIMIT"
    using assms(2,4) by (simp_all add: MAP_LIMIT_def)
  obtain s1 where 1: "getLastAssigned s = (s1, Inr (map_last s))" "map_ok s1" "page_view s1 = page_view s"
    "other_files s s1"
    using getLastAssigned_ok [OF assms(1)] by blast
  from sync_entry [OF 1(2) i assms(5), of "getLogicalTimerValue s1"] map_view_cong [OF 1(3)]
  show ?thesis
    using assms 1(1) other_files_trans [OF 1(4)] by auto
qed

lemma fill_loop_ok:
  assumes "map_ok s" "i \<le> 10000000" "nat (i - map_last s) < n"
  shows "\<exists>s'. fill_loop n s i = Some (s', Inr ()) \<and> map_ok s' \<and> map_last s' = max (map_last s) i
    \<and> other_files s s'
    \<and> (\<forall>j. 0 \<le> j \<and> j \<le> MAP_LIMIT \<longrightarrow> map_pid s' j = (if map_last s < j \<and> j \<le> i then RIP else map_pid s j))"
  using assms
proof (induction n arbitrary: s)
  case (Suc n)
  obtain s1 where 1: "getLastAssigned s = (s1, Inr (map_last s))" "map_ok s1" "page_view s1 = page_view s"
    "other_files s s1"
    using getLastAssigned_ok [OF Suc.prems(1)] by blast
  have l1: "map_last s1 = map_last s" "map_pid s1 = map_pid s"
    using map_view_cong [OF 1(3)] by simp_all
  show ?case
  proof (cases "map_last s < i")
    case False
    with 1 l1 show ?thesis by auto
  next
    case True
    let ?l = "map_last s + 1"
    have "map_last s1 < MAP_LIMIT"
      using True Suc.prems(2) l1 by (simp add: MAP_LIMIT_def)
    from createLogicalID_ok [OF 1(2) this] obtain s2 where 2: "createLogicalID s1 = (s2, Inr ?l)" "map_ok s2"
      "map_last s2 = ?l" "other_files s1 s2"
      "\<forall>j. 0 \<le> j \<and> j \<le> MAP_LIMIT \<longrightarrow> map_pid s2 j = (if j = ?l then RIP else map_pid s j)"
      using l1 by auto
    have l: "0 < ?l" "?l \<le> map_last s2" "?l \<le> 10000000" "u32 ?l = ?l"
      using map_last_nonneg [of s] True Suc.prems(2) 2(3) by (simp_all add: u32_def)
    obtain k where k: "n = Suc k"
      using Suc.prems(3) True by (cases n) auto
    obtain s3 where 3: "map_setPhysicalID n s2 ?l (Some RIP) = Some (s3, Inr 0)" "map_ok s3"
      "map_last s3 = ?l" "other_files s2 s3"
      "\<forall>j. 0 \<le> j \<and> j \<le> MAP_LIMIT \<longrightarrow> map_pid s3 j = (if j = ?l then RIP else map_pid s2 j)"
      using set_present [OF 2(2) l(1-3) pid_wf_RIP, of k] 2(3) k by auto
    have "nat (i - map_last s3) < n"
      using Suc.prems(3) True 3(3) by simp
    then obtain s4 where 4: "fill_loop n s3 i = Some (s4, Inr ())" "map_ok s4" "map_last s4 = max ?l i"
      "other_files s3 s4"
      "\<forall>j. 0 \<le> j \<and> j \<le> MAP_LIMIT \<longrightarrow> map_pid s4 j = (if ?l < j \<and> j \<le> i then RIP else map_pid s3 j)"
      using Suc.IH [OF 3(2) Suc.prems(2)] 3(3) by auto
    have "fill_loop (Suc n) s i = Some (s4, Inr ())"
      using True by (simp add: 1(1) 2(1) l(4) 3(1) 4(1))
    moreover have "other_files s s4"
      using 1(4) 2(4) 3(4) 4(4) other_files_trans by blast
    ultimately show ?thesis
      using 2(5) 3(5) 4(2,3,5) True by auto
  qed
qed simp

lemma map_setPhysicalID_ok:
  assumes "map_ok s" "0 < i" "i \<le> 10000000" "pid_wf q" "nat i + 2 \<le> n"
  shows "\<exists>s'. map_setPhysicalID n s i (Some q) = Some (s', Inr 0) \<and> map_ok s'
    \<and> map_last s' = max (map_last s) i \<and> other_files s s'
    \<and> (\<forall>j. 0 \<le> j \<and> j \<le> MAP_LIMIT \<longrightarrow>
         map_pid s' j = (if j = i then q else if map_last s < j \<and> j \<le> i then RIP else map_pid s j))"
proof (cases "i \<le> map_last s")
  case True
  obtain k where "n = Suc k" using assms(5) by (cases n) auto
  with set_present [OF assms(1,2) True assms(3,4), of k] True show ?thesis
    by auto
next
  case False
  obtain k where n: "n = Suc k" using assms(5) by (cases n) auto
  obtain s1 where 1: "getLastAssigned s = (s1, Inr (map_last s))" "map_ok s1" "page_view s1 = page_view s"
    "other_files s s1"
    using getLastAssigned_ok [OF assms(1)] by blast
  have l1: "map_last s1 = map_last s" "map_pid s1 = map_pid s"
    using map_view_cong [OF 1(3)] by simp_all
  have "nat (i - map_last s1) < k"
    using assms(5) n map_last_nonneg [of s1] assms(2) by simp
  from fill_loop_ok [OF 1(2) assms(3) this] False l1
  obtain s2 where 2: "fill_loop k s1 i = Some (s2, Inr ())" "map_ok s2" "map_last s2 = i" "other_files s1 s2"
    "\<forall>j. 0 \<le> j \<and> j \<le> MAP_LIMIT \<longrightarrow> map_pid s2 j = (if map_last s < j \<and> j \<le> i then RIP else map_pid s j)"
    by auto
  have i: "0 \<le> i" "i \<le> MAP_LIMIT"
    using assms(2,3) by (simp_all add: MAP_LIMIT_def)
  from sync_entry [OF 2(2) i assms(4), of "getLogicalTimerValue s2"]
  show ?thesis
    using assms False n 1(1) 2(1,3,5) other_files_trans [OF other_files_trans [OF 1(4) 2(4)]] by auto
qed

section \<open>The map as the source of physical identifiers\<close>

text \<open>\<open>getPhysicalID\<close> as \<open>DBDataValue::deserialize\<close> calls it. A null page pointer ends in the same null
  dereference as a null physical identifier.\<close>

definition map_phys :: "storage pid_lookup" where
  "map_phys s i = (case map_getPhysicalID s i of
     (s, Inl e) \<Rightarrow> (s, 1, None) | (s, Inr (rc, q)) \<Rightarrow> (s, rc, q))"

text \<open>Lookups change no page, so one snapshot \<open>s0\<close> says which identifiers are known and which are live.\<close>

definition map_snapshot :: "storage \<Rightarrow> storage \<Rightarrow> bool" where
  "map_snapshot s0 s \<longleftrightarrow> map_ok s \<and> page_view s = page_view s0 \<and> other_files s0 s"

definition map_known :: "storage \<Rightarrow> int \<Rightarrow> bool" where
  "map_known s i \<longleftrightarrow> 0 < i \<and> i \<le> map_last s"

definition map_live :: "storage \<Rightarrow> int \<Rightarrow> bool" where
  "map_live s i \<longleftrightarrow> map_pid s i \<noteq> RIP"

interpretation idm: pid_source map_phys "map_snapshot s0" "map_known s0" "map_live s0" for s0
proof
  fix s i
  assume s: "map_snapshot s0 s" and i: "map_known s0 i"
  have eq: "map_last s = map_last s0" "map_pid s = map_pid s0"
    using s map_view_cong [of s s0] by (simp_all add: map_snapshot_def)
  obtain s' where "map_getPhysicalID s i = (s', Inr (0, Some (map_pid s0 i)))" "map_ok s'"
    "page_view s' = page_view s" "other_files s s'"
    using map_getPhysicalID_ok [of s i] s i eq by (auto simp: map_snapshot_def map_known_def)
  then show "\<exists>s' q. map_phys s i = (s', 0, Some q) \<and> map_snapshot s0 s' \<and> (q \<noteq> RIP) = map_live s0 i"
    using s other_files_trans by (auto simp: map_phys_def map_snapshot_def map_live_def)
qed

section \<open>Properties\<close>

text \<open>(C17) \<open>createLogicalID\<close> returns the successor of the last identifier, never one that was assigned before, and
  marks it as having no object; all other entries and the pages of all other files are unchanged.\<close>

theorem createLogicalID_fresh:
  assumes "map_ok s" "map_last s < MAP_LIMIT"
  shows "\<exists>s'. createLogicalID s = (s', Inr (map_last s + 1)) \<and> map_ok s' \<and> map_last s' = map_last s + 1
    \<and> other_files s s'
    \<and> (\<forall>j. 0 \<le> j \<and> j \<le> MAP_LIMIT \<longrightarrow> map_pid s' j = (if j = map_last s + 1 then RIP else map_pid s j))"
  by (rule createLogicalID_ok [OF assms])

text \<open>A map on an empty disk, for concrete instances: its pages hold zeros.\<close>

definition zero_map :: storage where
  "zero_map = \<lparr>started = True, buffer_hash = [], dirty_pages = 0, max_dirty = 16, disk = \<lambda>_ _. 0,
     disk_len = \<lambda>_. 0, junk = \<lambda>_ _ _. 0, map_header = None, idSeq = 0, wlog = []\<rparr>"

lemma zero_map_ok: "map_ok zero_map" "map_last zero_map = 0"
proof -
  have "page_view zero_map STORE_FILE_MAP 0 = (\<lambda>_. 0)"
    by (simp add: zero_map_def page_view_def disk_pages_def buf_initializePage_def map_initializePage_def clip_def
        store_consts fun_eq_iff)
  then show l: "map_last zero_map = 0"
    by (simp add: map_last_def get_u32_def getbytes_def numeral_eq_Suc)
  show "map_ok zero_map"
    using l by (simp add: map_ok_def MAP_LIMIT_def pool_inv_def) (simp add: zero_map_def)
qed

theorem createLogicalID_fresh_witness:
  "\<exists>s'. createLogicalID zero_map = (s', Inr 1) \<and> map_pid s' 1 = RIP"
  using createLogicalID_fresh [OF zero_map_ok(1)] by (auto simp: zero_map_ok(2) MAP_LIMIT_def)

text \<open>\<open>setPhysicalID\<close> ends and records the place: with fuel \<open>i + 2\<close> (or more) it returns 0 for every
  identifier up to ten million, extends the map up to that identifier if needed, sets its entry and
  changes no other entry except those it newly assigns, which have no object.\<close>

lemma setPhysicalID_updates:
  assumes "map_ok s" "0 < i" "i \<le> 10000000" "pid_wf q" "nat i + 2 \<le> n"
  shows "\<exists>s'. map_setPhysicalID n s i (Some q) = Some (s', Inr 0) \<and> map_ok s'
    \<and> map_last s' = max (map_last s) i \<and> other_files s s'
    \<and> (\<forall>j. 0 \<le> j \<and> j \<le> MAP_LIMIT \<longrightarrow>
         map_pid s' j = (if j = i then q else if map_last s < j \<and> j \<le> i then RIP else map_pid s j))"
  by (rule map_setPhysicalID_ok [OF assms])

text \<open>\<open>getPhysicalID\<close> reads the map: code 1 for identifier 0, code 2 beyond the last identifier, else the
  entry; it changes no page.\<close>

lemma getPhysicalID_reads:
  assumes "map_ok s" "0 \<le> i"
  shows "\<exists>s'. map_getPhysicalID s i = (s', Inr (if i = 0 then (1, None) else if map_last s < i then (2, None)
      else (0, Some (map_pid s i)))) \<and> map_ok s' \<and> page_view s' = page_view s \<and> other_files s s'"
  by (rule map_getPhysicalID_ok [OF assms])

end
