(* ===== verification/ObjectStore.thy ===== *)
theory ObjectStore
  imports IdMap
begin

text \<open>
  Objects in pages: the free map of PageManager and the object operations of DBStoreManager
  (Store/PageManager.cpp, Store/DBStoreManager.cpp). Every 4092nd page of the data file holds the free
  space of the 4091 pages after it. An object is created on the first page with enough room, its place
  is recorded in the identifier map and a write record precedes every change of a page.

  \<open>store_rep s \<sigma>\<close> says that the state \<open>s\<close> holds exactly the objects \<open>\<sigma>\<close>, a finite map from logical
  identifiers. Create, delete, modify and get are shown to be the operations of that map, with all other
  objects unchanged; so a new object is found again, a deleted one is not.
\<close>

section \<open>The free map\<close>

function scan_free :: "mem \<Rightarrow> int \<Rightarrow> int \<Rightarrow> int option" where
  "scan_free m i need =
     (if i < object_count m
      then (if object_offset m i \<ge> need then Some i else scan_free m (i + 1) need)
      else None)"
  by pat_completeness auto
termination
  by (relation "measure (\<lambda>(m, i, n). nat (object_count m - i))") auto

declare scan_free.simps [simp del]

text \<open>What \<open>getFreePage\<close> finds in one page of the free map.\<close>

definition free_entry :: "mem \<Rightarrow> int \<Rightarrow> int \<Rightarrow> int option" where
  "free_entry m pageID objsize =
     (case scan_free m 0 (s32 (objsize + 4)) of
        Some i \<Rightarrow> Some (pageID + i + 1)
      | None \<Rightarrow> if object_count m < MAX_OBJECT_COUNT then Some (pageID + object_count m + 1) else None)"

text \<open>The loop over the free-map pages ends when the signed page number wraps around.\<close>

function getFreePage_from :: "storage \<Rightarrow> int \<Rightarrow> int \<Rightarrow> storage \<times> (fault + int)" where
  "getFreePage_from s pii objsize =
     (case page_rel s STORE_FILE_DEFAULT (u32 pii) (\<lambda>m. (free_entry m (u32 pii) objsize, m)) of
        (s, Inl e) \<Rightarrow> (s, Inl e)
      | (s, Inr (Some rid)) \<Rightarrow> (s, Inr (s32 rid))
      | (s, Inr None) \<Rightarrow>
          if 0 < pii + (MAX_OBJECT_COUNT + 1) \<and> pii + (MAX_OBJECT_COUNT + 1) < 2147483648
          then getFreePage_from s (pii + (MAX_OBJECT_COUNT + 1)) objsize
          else (s, Inr 0))"
  by pat_completeness auto
termination
  by (relation "measure (\<lambda>(s, pii, n). nat (2147483648 - pii))") auto

declare getFreePage_from.simps [simp del]

text \<open>\<open>PageManager::initializeFile\<close>.\<close>

definition pm_header_page :: mem where
  "pm_header_page =
     (let m = pm_initializePage 0 (memset (\<lambda>_. 0) 0 0 STORE_PAGESIZE);
          m = put_16 m 6 STORE_PAGE_DATAHEADER;
          m = set_object_count m 0
      in set_free_space m (MAX_FREE_SPACE div 4))"

definition pm_initializeFile :: "'a bufpool_scheme \<Rightarrow> 'a bufpool_scheme" where
  "pm_initializeFile b = fst (file_writePage b STORE_FILE_DEFAULT 0 pm_header_page)"

definition getFreePage :: "storage \<Rightarrow> int \<Rightarrow> storage \<times> (fault + int)" where
  "getFreePage s objsize = getFreePage_from s 0 objsize"

text \<open>The contents of the updated page of the free map.\<close>

definition fmap_update :: "mem \<Rightarrow> int \<Rightarrow> int \<Rightarrow> mem" where
  "fmap_update f off v =
     set_object_offset
       (if object_count f = off
        then (let f = set_object_count f (object_count f + 1) in set_free_space f (free_space f - 1))
        else f) off v"

text \<open>The early return leaves the page of the free map acquired.\<close>

definition updateFreeMap :: "storage \<Rightarrow> PagePointer \<Rightarrow> storage \<times> (fault + int)" where
  "updateFreeMap s pPtr =
     (let pid = page_hdr_page_id (pp_getPage s pPtr);
          pii = s32 (pid - pid mod (MAX_OBJECT_COUNT + 1))
      in sbind (getPagePointer s STORE_FILE_DEFAULT (u32 pii)) (\<lambda>s pf.
           case pf of
             None \<Rightarrow> (s, Inl NullDereference)
           | Some pFree \<Rightarrow>
               let s = fst (pp_aquire s pFree);
                   f = pp_getPage s pFree;
                   off = pid mod (MAX_OBJECT_COUNT + 1) - 1
               in if object_count f < off then (s, Inr (-1))
                  else
                    let s = pp_write s pFree (fmap_update f off (free_space (pp_getPage s pPtr)))
                    in (fst (pp_releaseSync s pFree 1), Inr 0)))"

section \<open>Objects\<close>

definition log_write ::
  "storage \<Rightarrow> int \<Rightarrow> lid \<Rightarrow> string \<Rightarrow> DBDataValue option \<Rightarrow> DBDataValue option \<Rightarrow> storage \<times> int" where
  "log_write s tid l n oldVal newVal =
     (let i = u32 (idSeq s + 1)
      in (s\<lparr>idSeq := i,
            wlog := \<lparr>wr_tid = tid, wr_lid = l, wr_name = n, wr_oldVal = oldVal, wr_newVal = newVal,
                     wr_id = i\<rparr> # wlog s\<rparr>, i))"

text \<open>\<open>Map::setPhysicalID\<close> with fuel that is always enough.\<close>

definition set_pid :: "storage \<Rightarrow> int \<Rightarrow> physical_id \<Rightarrow> storage \<times> (fault + int)" where
  "set_pid s i q = (case map_setPhysicalID (nat i + 2) s i (Some q) of
     None \<Rightarrow> (s, Inl OutOfFuel) | Some r \<Rightarrow> r)"

text \<open>Identifiers with one of the bits 31 to 24 set belong to the system views, whose lookup is a
  parameter. An object that has been read gets its index marker.\<close>

type_synonym system_views = "storage \<Rightarrow> lid \<Rightarrow> storage \<times> (fault + int \<times> DBObjectPointer option)"

definition getObject ::
  "system_views \<Rightarrow> storage \<Rightarrow> lid \<Rightarrow> storage \<times> (fault + int \<times> DBObjectPointer option)" where
  "getObject sysviews s l =
     (if lid_toInteger l div 16777216 mod 256 \<noteq> 0 then sysviews s l
      else sbind (map_getPhysicalID s (lid_toInteger l)) (\<lambda>s (rc, p).
        if rc = 2 then (s, Inr (2, None))
        else case p of
          None \<Rightarrow> (s, Inl NullDereference)
        | Some p_id \<Rightarrow>
            if map_equal p_id RIP then (s, Inr (0, None))
            else sbind (getPagePointer s (file_id p_id) (page_id p_id)) (\<lambda>s pp.
              case pp of
                None \<Rightarrow> (s, Inl NullDereference)
              | Some pPtr \<Rightarrow>
                  let s = fst (pp_aquire s pPtr);
                      m = pp_getPage s pPtr
                  in sbind (page_deserialize map_phys s m (offset p_id)) (\<lambda>s (rval, object).
                       let s = fst (pp_release s pPtr 0)
                       in if rval \<noteq> 0 then (s, Inr (-1, None)) else (s, Inr (0, map_option (setIndexMarker l) object))))))"

text \<open>The part of \<open>createObject\<close> that puts the serialised object on a page and into the map. The result
  of \<open>insertObject\<close> is not tested: if it fails, \<open>pidoffset\<close> is read uninitialised.\<close>

definition store_serialized :: "storage \<Rightarrow> int \<Rightarrow> byte list \<Rightarrow> int \<Rightarrow> storage \<times> (fault + unit)" where
  "store_serialized s i obj log_id =
     sbind (getFreePage s (int (length obj))) (\<lambda>s freepage.
       sbind (getPagePointer s STORE_FILE_DEFAULT (u32 freepage)) (\<lambda>s pp.
         case pp of
           None \<Rightarrow> (s, Inl NullDereference)
         | Some pPtr \<Rightarrow>
             let s = fst (pp_aquire s pPtr);
                 (rc, m, pidoffset) = insertObject (pp_getPage s pPtr) obj log_id;
                 s = pp_write s pPtr m
             in sbind (updateFreeMap s pPtr) (\<lambda>s _.
                  let s = fst (pp_release s pPtr 1)
                  in case pidoffset of
                       None \<Rightarrow> (s, Inl IndeterminateRead)
                     | Some k \<Rightarrow>
                         sbind (set_pid s i
                                  \<lparr>page_id = u32 freepage, file_id = STORE_FILE_DEFAULT, offset = u16 k\<rparr>)
                           (\<lambda>s _. (s, Inr ())))))"

definition createObject ::
  "storage \<Rightarrow> int \<Rightarrow> string \<Rightarrow> DBDataValue \<Rightarrow> lid option \<Rightarrow> bool
     \<Rightarrow> storage \<times> (fault + int \<times> DBObjectPointer)" where
  "createObject s itid nm v p_lid root =
     sbind (case p_lid of
              None \<Rightarrow> sbind (createLogicalID s) (\<lambda>s i. (s, Inr (lid_new i)))
            | Some l \<Rightarrow> (s, Inr l)) (\<lambda>s l.
       let (s, log_id) = log_write s itid (lid_clone l) nm None (Some (dv_clone v));
           object = op_setIsRoot (op_new nm v l) root
       in case op_serialize object of
            Inl e \<Rightarrow> (s, Inl e)
          | Inr sObj \<Rightarrow>
              sbind (store_serialized s (lid_toInteger l) (ser_content sObj) log_id)
                (\<lambda>s _. (s, Inr (0, object))))"

definition deleteObject :: "storage \<Rightarrow> int \<Rightarrow> DBObjectPointer \<Rightarrow> storage \<times> (fault + int)" where
  "deleteObject s itid object =
     (case (lid_of object, val object) of
        (Some l, Some v) \<Rightarrow>
          let (s, log_id) = log_write s itid (lid_clone l) (name object) (Some (dv_clone v)) None
          in sbind (map_getPhysicalID s (lid_toInteger l)) (\<lambda>s (rc, p).
               if rc = 2 then (s, Inr 2)
               else case p of
                 None \<Rightarrow> (s, Inl NullDereference)
               | Some p_id \<Rightarrow>
                   if file_id p_id = 0 \<and> page_id p_id = 0 \<and> offset p_id = 0 then (s, Inr 2)
                   else if offset p_id > STORE_PAGESIZE div 4 then (s, Inr 3)
                   else sbind (getPagePointer s (file_id p_id) (page_id p_id)) (\<lambda>s pp.
                     case pp of
                       None \<Rightarrow> (s, Inl NullDereference)
                     | Some pPtr \<Rightarrow>
                         let s = fst (pp_aquire s pPtr);
                             (m, object_size) = page_delete_move (pp_getPage s pPtr) (offset p_id) log_id;
                             s = pp_write s pPtr m
                         in sbind (set_pid s (lid_toInteger l) RIP) (\<lambda>s _.
                              let m = page_delete_finish (pp_getPage s pPtr) (offset p_id) object_size;
                                  s = pp_write s pPtr m
                              in sbind (updateFreeMap s pPtr) (\<lambda>s _.
                                   (fst (pp_release s pPtr 1), Inr 0)))))
      | _ \<Rightarrow> (s, Inl NullDereference))"

text \<open>\<open>ObjectPointer::isRoot()\<close> is not overridden by \<open>DBObjectPointer\<close> and returns true.\<close>

definition op_isRoot :: "DBObjectPointer \<Rightarrow> bool" where
  "op_isRoot ob = True"

definition modifyObject ::
  "storage \<Rightarrow> int \<Rightarrow> DBObjectPointer \<Rightarrow> DBDataValue \<Rightarrow> storage \<times> (fault + int \<times> DBObjectPointer)" where
  "modifyObject s itid object dv =
     (let root = (if op_isRoot object then name object else '''')
      in sbind (deleteObject s itid object) (\<lambda>s _.
           case isRoot object of
             None \<Rightarrow> (s, Inl IndeterminateRead)
           | Some r \<Rightarrow>
               sbind (createObject s itid (name object) dv (lid_of object) r) (\<lambda>s (_, newobj).
                 (s, Inr (0, op_setParentRoot newobj root)))))"

text \<open>\<open>replaceDV\<close> runs as transaction 99999 and does not pass the root flag on.\<close>

definition replaceDV :: "storage \<Rightarrow> DBObjectPointer \<Rightarrow> DBDataValue \<Rightarrow> storage \<times> (fault + int)" where
  "replaceDV s object dv =
     sbind (deleteObject s 99999 object) (\<lambda>s _.
       sbind (createObject s 99999 (name object) dv (lid_of object) False) (\<lambda>s _. (s, Inr 0)))"

definition store_getPhysicalID :: "storage \<Rightarrow> lid \<Rightarrow> storage \<times> (fault + physical_id option)" where
  "store_getPhysicalID s l =
     sbind (map_getPhysicalID s (lid_toInteger l)) (\<lambda>s (rc, p). (s, Inr p))"

section \<open>What the pages hold\<close>

definition room :: "byte list list \<Rightarrow> int" where
  "room xs = 16364 - 4 * int (length xs) - tot xs"

definition is_data :: "int \<Rightarrow> bool" where
  "is_data p \<longleftrightarrow> 0 < p \<and> p < 65536 \<and> p mod 4092 \<noteq> 0"

definition is_group :: "int \<Rightarrow> bool" where
  "is_group g \<longleftrightarrow> 0 \<le> g \<and> g < 65536 \<and> g mod 4092 = 0"

definition group_of :: "int \<Rightarrow> int" where
  "group_of p = p - p mod 4092"

abbreviation data_page :: "storage \<Rightarrow> int \<Rightarrow> mem" where
  "data_page s p \<equiv> page_view s STORE_FILE_DEFAULT p"

text \<open>A page of the free map: the first \<open>object_count\<close> entries are the free space of their pages, the
  pages of the others have never been used.\<close>

definition fmap_ok :: "mem \<Rightarrow> int \<Rightarrow> (int \<Rightarrow> byte list list) \<Rightarrow> bool" where
  "fmap_ok m g T \<longleftrightarrow> 0 \<le> object_count m \<and> object_count m \<le> 4091 \<and> g + object_count m < 65536
     \<and> (\<forall>i. 0 \<le> i \<and> i < object_count m \<longrightarrow> object_offset m i = room (T (g + i + 1)))
     \<and> (\<forall>i. object_count m \<le> i \<and> i < 4091 \<and> g + i + 1 < 65536 \<longrightarrow> T (g + i + 1) = [])"

definition pages_ok :: "storage \<Rightarrow> (int \<Rightarrow> byte list list) \<Rightarrow> bool" where
  "pages_ok s T \<longleftrightarrow>
     (\<forall>p. is_data p \<longrightarrow> page_repr (data_page s p) (T p) \<and> page_hdr_page_id (data_page s p) = p)
     \<and> (\<forall>g. is_group g \<longrightarrow> fmap_ok (data_page s g) g T)"

text \<open>No page has changed; the pointers stay valid.\<close>

definition same_pages :: "storage \<Rightarrow> storage \<Rightarrow> bool" where
  "same_pages s s' \<longleftrightarrow> pool_inv s' \<and> page_view s' = page_view s \<and> same_log s s'
     \<and> (\<forall>pp f p. points s pp f p \<longrightarrow> points s' pp f p) \<and> map_header s' = map_header s"

text \<open>The operations on objects work on the data file and the map only.\<close>

definition objs_only :: "storage \<Rightarrow> storage \<Rightarrow> bool" where
  "objs_only s s' \<longleftrightarrow> (\<forall>f. f \<noteq> STORE_FILE_DEFAULT \<and> f \<noteq> STORE_FILE_MAP \<longrightarrow> page_view s' f = page_view s f)"

lemma objs_only_trans: "objs_only s t \<Longrightarrow> objs_only t u \<Longrightarrow> objs_only s u"
  by (simp add: objs_only_def)

lemma valid_data [simp]: "is_data p \<Longrightarrow> valid_page STORE_FILE_DEFAULT p"
  "is_group p \<Longrightarrow> valid_page STORE_FILE_DEFAULT p"
  by (simp_all add: is_data_def is_group_def valid_page_def file_ids_def)

lemma is_group_group_of: "is_data p \<Longrightarrow> is_group (group_of p)"
  by (auto simp: is_data_def is_group_def group_of_def minus_mod_eq_mult_div)

lemma group_index:
  assumes "is_group g" "0 \<le> i" "i < 4091" "g + i + 1 < 65536"
  shows "is_data (g + i + 1)" "group_of (g + i + 1) = g" "(g + i + 1) mod 4092 = i + 1"
proof -
  have "(g + i + 1) mod 4092 = (g mod 4092 + (i + 1)) mod 4092"
    by (simp add: mod_simps add.assoc)
  also have "\<dots> = i + 1"
    using assms by (simp add: is_group_def)
  finally show "(g + i + 1) mod 4092 = i + 1" .
  with assms show "is_data (g + i + 1)" "group_of (g + i + 1) = g"
    by (simp_all add: is_data_def is_group_def group_of_def)
qed

lemma data_index:
  assumes "is_data p"
  shows "p = group_of p + (p mod 4092 - 1) + 1" "0 \<le> p mod 4092 - 1" "p mod 4092 - 1 < 4091"
proof -
  have "0 \<le> p mod 4092" "p mod 4092 < 4092" by simp_all
  with assms show "p = group_of p + (p mod 4092 - 1) + 1" "0 \<le> p mod 4092 - 1" "p mod 4092 - 1 < 4091"
    by (auto simp: is_data_def group_of_def)
qed

lemma same_pages_trans: "same_pages s t \<Longrightarrow> same_pages t u \<Longrightarrow> same_pages s u"
  by (auto simp: same_pages_def same_log_def)

lemma page_rel_same:
  assumes "pool_inv s" "valid_page f p" "g (page_view s f p) = (r, page_view s f p)"
  shows "\<exists>s'. page_rel s f p g = (s', Inr r) \<and> same_pages s s'"
  using page_rel_steps [OF assms(1,2), of g r "page_view s f p"] assms
  by (auto simp: steps_def same_pages_def)

lemma scan_free_Some:
  "scan_free m i need = Some j \<Longrightarrow> i \<le> j \<and> j < object_count m \<and> need \<le> object_offset m j"
proof (induction m i need rule: scan_free.induct)
  case (1 m i need)
  then show ?case
    by (subst (asm) scan_free.simps) (auto split: if_splits)
qed

lemma scan_free_first:
  "scan_free m i need = Some j \<Longrightarrow> i \<le> h \<Longrightarrow> h < j \<Longrightarrow> object_offset m h < need"
proof (induction m i need rule: scan_free.induct)
  case (1 m i need)
  then show ?case
    by (subst (asm) (2) scan_free.simps) (cases "h = i"; auto split: if_splits)
qed

lemma scan_free_None:
  "scan_free m i need = None \<Longrightarrow> i \<le> j \<Longrightarrow> j < object_count m \<Longrightarrow> object_offset m j < need"
proof (induction m i need rule: scan_free.induct)
  case (1 m i need)
  then show ?case
    by (subst (asm) (2) scan_free.simps) (cases "j = i"; auto split: if_splits)
qed

text \<open>What one page of the free map answers.\<close>

lemma free_entry_Some:
  assumes "fmap_ok m g T" "is_group g" "free_entry m g sz = Some q" "q < 65536" "0 \<le> sz" "sz \<le> 16360"
  shows "is_data q \<and> sz + 4 \<le> room (T q) \<and> group_of q = g \<and> q mod 4092 - 1 \<le> object_count m"
proof -
  have s: "s32 (sz + 4) = sz + 4"
    using assms(5,6) by (simp add: s32_id)
  obtain i where i: "q = g + i + 1" "0 \<le> i" "i < 4091" "i \<le> object_count m"
    "sz + 4 \<le> room (T (g + i + 1))"
  proof (cases "scan_free m 0 (sz + 4)")
    case (Some i)
    with assms(1,3) scan_free_Some [OF Some] that show ?thesis
      by (auto simp: free_entry_def s fmap_ok_def)
  next
    case None
    with assms(3) have "q = g + object_count m + 1" "object_count m < 4091"
      by (simp_all add: free_entry_def s split: if_splits)
    moreover from this assms(1,4) have "T (g + object_count m + 1) = []"
      by (auto simp: fmap_ok_def)
    ultimately show ?thesis
      using that assms(1,6) by (auto simp: fmap_ok_def room_def)
  qed
  with group_index [OF assms(2) i(2,3)] assms(4) show ?thesis
    by auto
qed


lemma free_entry_first:
  assumes "fmap_ok m g T" "is_group g" "free_entry m g sz = Some q" "0 \<le> sz" "sz \<le> 16360"
    and p: "is_data p" "group_of p = g" "p < q"
  shows "room (T p) < sz + 4"
proof -
  have s: "s32 (sz + 4) = sz + 4"
    using assms(4,5) by (simp add: s32_id)
  note i = data_index [OF p(1)]
  have off: "object_offset m (p mod 4092 - 1) = room (T p)" if "p mod 4092 - 1 < object_count m"
    using assms(1) i p(2) that unfolding fmap_ok_def by metis
  show ?thesis
  proof (cases "scan_free m 0 (sz + 4)")
    case (Some j)
    then have "q = g + j + 1"
      using assms(3) by (simp add: free_entry_def s)
    then have "p mod 4092 - 1 < j"
      using i(1) p(2,3) by simp
    with scan_free_first [OF Some i(2)] scan_free_Some [OF Some] off show ?thesis
      by simp
  next
    case None
    then have "q = g + object_count m + 1"
      using assms(3) by (simp add: free_entry_def s split: if_splits)
    then have lt: "p mod 4092 - 1 < object_count m"
      using i(1) p(2,3) by simp
    with scan_free_None [OF None i(2) lt] off show ?thesis
      by simp
  qed
qed

text \<open>The first page with room for \<open>n\<close> bytes and an entry in its table.\<close>

definition first_fit :: "(int \<Rightarrow> byte list list) \<Rightarrow> int \<Rightarrow> int \<Rightarrow> bool" where
  "first_fit T n q \<longleftrightarrow> is_data q \<and> n + 4 \<le> room (T q) \<and> (\<forall>p. is_data p \<and> p < q \<longrightarrow> room (T p) < n + 4)"

lemma free_entry_None:
  assumes "fmap_ok m g T" "is_group g" "free_entry m g sz = None" "0 \<le> sz" "sz \<le> 16360"
  shows "is_data p \<Longrightarrow> group_of p = g \<Longrightarrow> room (T p) < sz + 4"
proof -
  assume p: "is_data p" "group_of p = g"
  have s: "s32 (sz + 4) = sz + 4"
    using assms(4,5) by (simp add: s32_id)
  have none: "scan_free m 0 (sz + 4) = None" "object_count m = 4091"
    using assms(1,3) by (auto simp: free_entry_def s fmap_ok_def split: option.splits if_splits)
  note i = data_index [OF p(1)]
  have "object_offset m (p mod 4092 - 1) = room (T p)"
    using assms(1) i p(2) none(2) unfolding fmap_ok_def by metis
  with scan_free_None [OF none(1) i(2)] i(3) none(2) show ?thesis
    by simp
qed

lemma group_next: "is_group g \<Longrightarrow> is_group h \<Longrightarrow> g < h \<Longrightarrow> g + 4092 \<le> h"
proof -
  assume "is_group g" "is_group h" "g < h"
  then obtain a b where "g = 4092 * a" "h = 4092 * b"
    by (auto simp: is_group_def elim!: dvdE simp flip: dvd_eq_mod_eq_0)
  with \<open>g < h\<close> show ?thesis by simp
qed

lemma same_group:
  assumes "is_group g" "is_data p" "g \<le> p" "p < g + 4092"
  shows "group_of p = g"
proof -
  have "group_of p \<le> p" "p < group_of p + 4092"
    using data_index [OF assms(2)] by auto
  then show ?thesis
    using group_next [OF assms(1) is_group_group_of [OF assms(2)]] group_next [OF is_group_group_of [OF assms(2)] assms(1)] assms(3,4)
    by (cases "group_of p" g rule: linorder_cases) auto
qed

text \<open>As long as a page at or after this group has room, the page offered is within the file.\<close>

lemma free_entry_small:
  assumes "fmap_ok m g T" "is_group g" "free_entry m g sz = Some q" "0 \<le> sz" "sz \<le> 16360"
    and "is_data p" "sz + 4 \<le> room (T p)" "g \<le> group_of p"
  shows "q < 65536"
proof (cases "scan_free m 0 (s32 (sz + 4))")
  case (Some j)
  with assms(1,3) scan_free_Some [OF Some] show ?thesis
    by (auto simp: free_entry_def fmap_ok_def)
next
  case None
  note i = data_index [OF assms(6)]
  have q: "q = g + object_count m + 1" "object_count m < 4091"
    using assms(3) None by (auto simp: free_entry_def split: if_splits)
  show ?thesis
  proof (cases "group_of p = g")
    case True
    have "\<not> p mod 4092 - 1 < object_count m"
    proof
      assume lt: "p mod 4092 - 1 < object_count m"
      with assms(1) i True have "object_offset m (p mod 4092 - 1) = room (T p)"
        unfolding fmap_ok_def by metis
      with scan_free_None [OF None i(2) lt] assms(4,5,7) show False
        by (simp add: s32_id)
    qed
    then show ?thesis
      using q(1) i(1) True assms(6) by (simp add: is_data_def)
  next
    case False
    then have "g + 4092 \<le> group_of p"
      using group_next assms(2,6,8) is_group_group_of by auto
    with q i(1,2) assms(6) show ?thesis
      by (simp add: is_data_def)
  qed
qed

text \<open>The page that \<open>getFreePage\<close> returns has room for the object and its table entry, provided any page
  has.\<close>

lemma getFreePage_from_ok:
  assumes "pool_inv s" "pages_ok s T" "is_data p" "sz + 4 \<le> room (T p)" "0 \<le> sz" "sz \<le> 16360"
    "is_group g" "g \<le> group_of p" "\<And>h. is_data h \<Longrightarrow> h < g \<Longrightarrow> room (T h) < sz + 4"
  shows "\<exists>s' q. getFreePage_from s g sz = (s', Inr q) \<and> same_pages s s' \<and> first_fit T sz q
    \<and> q mod 4092 - 1 \<le> object_count (data_page s (group_of q))"
  using assms
proof (induction "nat (group_of p - g)" arbitrary: s g rule: less_induct)
  case less
  have ug: "u32 g = g"
    using less.prems(7) by (simp add: is_group_def u32_def)
  have fm: "fmap_ok (data_page s g) g T"
    using less.prems(2,7) by (simp add: pages_ok_def)
  let ?fe = "free_entry (data_page s g) g sz"
  obtain s1 where 1: "page_rel s STORE_FILE_DEFAULT g (\<lambda>m. (free_entry m g sz, m)) = (s1, Inr ?fe)" "same_pages s s1"
    using page_rel_same [of s STORE_FILE_DEFAULT g "\<lambda>m. (free_entry m g sz, m)" ?fe] less.prems(1,7)
    by auto
  show ?case
  proof (cases ?fe)
    case (Some q)
    from free_entry_small [OF fm less.prems(7) Some less.prems(5,6,3,4,8)]
    have q: "is_data q" "sz + 4 \<le> room (T q)" "group_of q = g" "q mod 4092 - 1 \<le> object_count (data_page s g)"
      using free_entry_Some [OF fm less.prems(7) Some _ less.prems(5,6)] by auto
    moreover have "s32 q = q"
      using q(1) by (simp add: is_data_def s32_id)
    moreover have "room (T h) < sz + 4" if h: "is_data h" "h < q" for h
    proof (cases "h < g")
      case False
      have "q < g + 4092"
        using data_index [OF q(1)] q(3) by simp
      then show ?thesis
        using False h same_group [OF less.prems(7) h(1)]
        by (intro free_entry_first [OF fm less.prems(7) Some less.prems(5,6) h(1) _ h(2)]) simp
    qed (use less.prems(9) h in blast)
    ultimately show ?thesis
      using 1 Some by (subst getFreePage_from.simps) (simp add: ug first_fit_def)
  next
    case None
    have ne: "g \<noteq> group_of p"
      using free_entry_None [OF fm less.prems(7) None less.prems(5,6,3)] less.prems(4) by auto
    then have next_g: "g + 4092 \<le> group_of p"
      using group_next less.prems(3,7,8) is_group_group_of by auto
    have gg: "is_group (g + 4092)"
      using next_g less.prems(3,7) is_group_group_of [OF less.prems(3)] by (simp add: is_group_def)
    have s1: "pool_inv s1" "pages_ok s1 T" "data_page s1 = data_page s"
      using 1(2) less.prems(2) by (simp_all add: same_pages_def pages_ok_def)
    have "getFreePage_from s g sz = getFreePage_from s1 (g + 4092) sz"
      using 1(1) None gg less.prems(7) by (subst getFreePage_from.simps) (simp add: ug is_group_def)
    moreover have "room (T h) < sz + 4" if h: "is_data h" "h < g + 4092" for h
      using less.prems(9) [OF h(1)] same_group [OF less.prems(7) h(1) _ h(2)]
        free_entry_None [OF fm less.prems(7) None less.prems(5,6) h(1)] by (cases "h < g") auto
    then obtain s2 q where "getFreePage_from s1 (g + 4092) sz = (s2, Inr q)" "same_pages s1 s2" "first_fit T sz q"
      "q mod 4092 - 1 \<le> object_count (data_page s1 (group_of q))"
      using less.hyps [OF _ s1(1,2) less.prems(3-6) gg next_g] next_g by auto
    ultimately show ?thesis
      using same_pages_trans [OF 1(2)] s1(3) by auto
  qed
qed

lemma getFreePage_ok:
  assumes "pool_inv s" "pages_ok s T" "is_data p" "sz + 4 \<le> room (T p)" "0 \<le> sz" "sz \<le> 16360"
  shows "\<exists>s' q. getFreePage s sz = (s', Inr q) \<and> same_pages s s' \<and> first_fit T sz q
    \<and> q mod 4092 - 1 \<le> object_count (data_page s (group_of q))"
proof -
  have "is_group 0" "0 \<le> group_of p"
    using is_group_group_of [OF assms(3)] by (simp_all add: is_group_def)
  with assms show ?thesis
    unfolding getFreePage_def by (intro getFreePage_from_ok) (auto simp: is_data_def)
qed

lemma fmap_update_ok:
  assumes fm: "fmap_ok f (group_of q) T" and q: "is_data q"
    and le: "q mod 4092 - 1 \<le> object_count f" and v: "v = room ys" "0 \<le> v" "v \<le> 16364"
  shows "fmap_ok (clip (fmap_update f (q mod 4092 - 1) v)) (group_of q) (T(q := ys))"
proof -
  let ?g = "group_of q" and ?k = "q mod 4092 - 1" and ?n = "object_count f"
  let ?f = "fmap_update f ?k v"
  note k = data_index [OF q]
  have n: "0 \<le> ?n" "?n \<le> 4091"
    using fm by (simp_all add: fmap_ok_def)
  have cnt: "object_count ?f = (if ?n = ?k then ?n + 1 else ?n)"
    using k n by (simp add: fmap_update_def page_acc_defs mem_simps s32_id Let_def)
  have off: "object_offset ?f i = (if i = ?k then v else object_offset f i)" if "0 \<le> i" for i
  proof (cases "i = ?k")
    case True
    with v show ?thesis
      by (simp add: fmap_update_def page_acc_defs mem_simps s32_id)
  next
    case False
    then have "i < ?k \<or> ?k < i" by auto
    with that False k(2) show ?thesis
      by (auto simp: fmap_update_def page_acc_defs mem_simps Let_def)
  qed
  have cl: "object_count (clip ?f) = object_count ?f"
    "\<And>i. 0 \<le> i \<Longrightarrow> i < 4091 \<Longrightarrow> object_offset (clip ?f) i = object_offset ?f i"
    by (simp_all add: object_count_def object_offset_def)
  have idx: "?g + i + 1 = q \<longleftrightarrow> i = ?k" for i
    using k(1) by linarith
  have "?g + object_count ?f < 65536"
    using fm k q cnt by (auto simp: fmap_ok_def is_data_def split: if_splits)
  moreover have "object_offset (clip ?f) i = room ((T(q := ys)) (?g + i + 1))"
    if "0 \<le> i" "i < object_count ?f" for i
  proof -
    have "i < 4091" "i \<noteq> ?k \<Longrightarrow> i < ?n"
      using that k(3) n(2) le cnt by (simp_all split: if_splits)
    moreover from this have "object_offset (clip ?f) i = (if i = ?k then v else object_offset f i)"
      using that(1) by (simp add: cl(2) off)
    ultimately show ?thesis
      using that(1) fm v(1) by (simp add: idx fmap_ok_def)
  qed
  moreover have "(T(q := ys)) (?g + i + 1) = []"
    if "object_count ?f \<le> i" "i < 4091" "?g + i + 1 < 65536" for i
    using that fm k le cnt by (auto simp: idx fmap_ok_def split: if_splits)
  ultimately show ?thesis
    using cnt n k by (auto simp: fmap_ok_def cl)
qed

lemma page_hdr_clip [simp]: "page_hdr_page_id (clip m) = page_hdr_page_id m"
  by (simp add: page_hdr_page_id_def)

lemma updateFreeMap_ok:
  assumes "pool_inv s" "points s pp STORE_FILE_DEFAULT q" "is_data q" "page_hdr_page_id (data_page s q) = q"
    and "q mod 4092 - 1 \<le> object_count (data_page s (group_of q))"
  shows "\<exists>s'. updateFreeMap s pp = (s', Inr 0) \<and> steps s s' STORE_FILE_DEFAULT (group_of q)
    (clip (fmap_update (data_page s (group_of q)) (q mod 4092 - 1) (free_space (data_page s q))))"
proof -
  let ?g = "group_of q"
  have g: "is_group ?g" by (rule is_group_group_of [OF assms(3)])
  have sg: "s32 ?g = ?g" "u32 ?g = ?g"
    using g by (simp_all add: is_group_def s32_id u32_def)
  have ne: "?g \<noteq> q"
    using assms(3) g by (auto simp: is_data_def is_group_def)
  obtain s1 pf where 1: "getPagePointer s STORE_FILE_DEFAULT ?g = (s1, Inr (Some pf))" "pool_inv s1"
    "page_view s1 = page_view s" "points s1 pf STORE_FILE_DEFAULT ?g"
    "\<forall>pp f p. points s pp f p \<longrightarrow> points s1 pp f p"
    using bp.get_law [OF assms(1) valid_data(2) [OF g]] by blast
  obtain s2 where 2: "pp_aquire s1 pf = (s2, 0)" "pool_inv s2" "page_view s2 = page_view s" "points s2 = points s1"
    using bp.acq_law [OF 1(2,4)] 1(3) by auto
  have pf2: "points s2 pf STORE_FILE_DEFAULT ?g" "points s2 pp STORE_FILE_DEFAULT q"
    using 1 2 assms(2) by simp_all
  have rd: "pp_getPage s2 pf = data_page s ?g" "pp_getPage s2 pp = data_page s q" "pp_getPage s pp = data_page s q"
    using bp.page_law [OF 2(2) pf2(1)] bp.page_law [OF 2(2) pf2(2)] bp.page_law [OF assms(1,2)] 2(3) by simp_all
  define m where "m = fmap_update (data_page s ?g) (q mod 4092 - 1) (free_space (data_page s q))"
  define s3 where "s3 = pp_write s2 pf m"
  have 3: "pool_inv s3" "points s3 = points s1"
    "page_view s3 = (page_view s)(STORE_FILE_DEFAULT := (data_page s)(?g := clip m))"
    using bp.write_law [OF 2(2) pf2(1), of m] 2 by (simp_all add: s3_def)
  obtain s4 where 4: "pp_releaseSync s3 pf 1 = (s4, 0)" "pool_inv s4" "page_view s4 = page_view s3" "points s4 = points s3"
    using bp.relsync_law [OF 3(1), of pf] 3(2) 1(4) by auto
  have more: "same_log s s4" "map_header s4 = map_header s"
    using storage_more [OF pool_more(1) [of s STORE_FILE_DEFAULT ?g]] storage_more [OF pool_more(2) [of s1 pf]]
      storage_more [OF pool_more(5) [of s2 pf m]] storage_more [OF pool_more(4) [of s3 pf 1]] 1(1) 2(1) 4(1)
    by (simp_all add: s3_def same_log_def)
  have "updateFreeMap s pp = (s4, Inr 0)"
    using assms(4,5) sg 1(1) 2(1) 4(1)
    by (simp add: updateFreeMap_def rd group_of_def [symmetric] Let_def m_def s3_def)
  with 1 3 4 more show ?thesis
    by (auto simp: steps_def m_def)
qed

section \<open>The objects of a state\<close>

type_synonym obj = "bool \<times> string \<times> DBDataValue"

definition obj_bytes :: "int \<Rightarrow> obj \<Rightarrow> byte list" where
  "obj_bytes i ob = (case ob of (r, n, v) \<Rightarrow> op_bytes (lid_new i) r n v)"

text \<open>An object that can be stored: its fields are in range and its references have been assigned.\<close>

definition obj_ok :: "int \<Rightarrow> obj \<Rightarrow> bool" where
  "obj_ok n ob = (case ob of (r, nm, v) \<Rightarrow> length nm < 2147483648 \<and> dv_ok v
     \<and> (\<forall>ls. dvalue v = vector_value ls \<longrightarrow> (\<forall>x\<in>set ls. 0 < lvalue x \<and> lvalue x \<le> n)))"

definition obj_at :: "storage \<Rightarrow> (int \<Rightarrow> byte list list) \<Rightarrow> int \<Rightarrow> obj \<Rightarrow> bool" where
  "obj_at s T i ob \<longleftrightarrow> (let q = map_pid s i in file_id q = STORE_FILE_DEFAULT \<and> is_data (page_id q)
     \<and> 0 \<le> offset q \<and> nat (offset q) < length (T (page_id q))
     \<and> T (page_id q) ! nat (offset q) = obj_bytes i ob \<and> obj_ok (map_last s) ob)"

definition store_at :: "storage \<Rightarrow> (int \<Rightarrow> byte list list) \<Rightarrow> (int \<Rightarrow> obj option) \<Rightarrow> bool" where
  "store_at s T \<sigma> \<longleftrightarrow> map_ok s \<and> map_last s \<le> 10000000 \<and> pages_ok s T
     \<and> (\<forall>i. \<sigma> i \<noteq> None \<longrightarrow> 0 < i \<and> i \<le> map_last s)
     \<and> (\<forall>i. 0 < i \<and> i \<le> map_last s \<longrightarrow>
          (case \<sigma> i of None \<Rightarrow> map_pid s i = RIP | Some ob \<Rightarrow> obj_at s T i ob))"

definition store_rep :: "storage \<Rightarrow> (int \<Rightarrow> obj option) \<Rightarrow> bool" where
  "store_rep s \<sigma> \<longleftrightarrow> (\<exists>T. store_at s T \<sigma>)"

lemma obj_bytes_nonempty [simp]: "obj_bytes i ob \<noteq> []"
proof (cases ob)
  case (fields r n v)
  with op_bytes_nonempty [of "lid_new i" r n v] show ?thesis
    by (auto simp: obj_bytes_def)
qed

lemma obj_bytes_inj:
  assumes "obj_bytes i ob = obj_bytes j ob'" "0 \<le> i" "i < 4294967296" "0 \<le> j" "j < 4294967296"
  shows "i = j"
proof -
  from assms(1) have "le_bytes 4 i = le_bytes 4 j"
    by (auto simp: obj_bytes_def op_bytes_def lid_bytes_def u32_def split: prod.splits)
      (metis assms(2-5) mod_pos_pos_trivial)
  then have "le_int (le_bytes 4 i) = le_int (le_bytes 4 j)"
    by simp
  with assms(2-5) show ?thesis
    by (simp add: le_int_le_bytes)
qed

lemma page_repr_clip:
  assumes "page_repr m xs"
  shows "page_repr (clip m) xs"
proof -
  note d = page_reprD [OF assms]
  have "16384 - tot xs + int (length (concat (rev xs))) \<le> 16384" "0 \<le> 16384 - tot xs"
    using d(3) by (simp_all add: length_concat_rev)
  with d show ?thesis
    using tot_nonneg [of xs]
    by (intro page_reprI) (auto simp: object_count_def free_space_def object_offset_def holds_def)
qed

text \<open>Both list operations keep the objects in the other slots.\<close>

lemma slots_insert_keep:
  assumes "slots_insert xs obj = (0, ys, Some k)"
  shows "0 \<le> k" "nat k < length ys" "ys ! nat k = obj"
    "\<And>j. j < length xs \<Longrightarrow> xs ! j \<noteq> [] \<Longrightarrow> j < length ys \<and> ys ! j = xs ! j"
proof -
  from assms consider (old) r where "first_empty xs = Some r" "ys = xs[r := obj]" "k = int r"
    | (new) "ys = xs @ [obj]" "k = int (length xs)"
    by (auto simp: slots_insert_def Let_def split: if_splits option.splits)
  then show "0 \<le> k" "nat k < length ys" "ys ! nat k = obj"
    "\<And>j. j < length xs \<Longrightarrow> xs ! j \<noteq> [] \<Longrightarrow> j < length ys \<and> ys ! j = xs ! j"
    by (cases, use first_empty_Some in \<open>auto simp: nth_append nth_list_update\<close>)+
qed

lemma rstrip_keep: "j < length xs \<Longrightarrow> xs ! j \<noteq> [] \<Longrightarrow> j < length (rstrip xs) \<and> rstrip xs ! j = xs ! j"
proof (induction xs rule: rev_induct)
  case (snoc x xs)
  then show ?case
    by (cases "j = length xs") (auto simp: nth_append less_Suc_eq)
qed simp

lemma slots_delete_keep:
  "j < length xs \<Longrightarrow> xs ! j \<noteq> [] \<Longrightarrow> j \<noteq> k \<Longrightarrow>
     j < length (slots_delete xs k) \<and> slots_delete xs k ! j = xs ! j"
  using rstrip_keep [of j "xs[k := []]"] by (simp add: slots_delete_def)

lemma slots_insert_fits:
  assumes "int (length obj) + 4 \<le> room xs"
  shows "\<exists>ys k. slots_insert xs obj = (0, ys, Some k)"
  using assms by (cases "first_empty xs") (auto simp: slots_insert_def room_def Let_def)

text \<open>A change of one data page and of its entry in the free map.\<close>

lemma pages_ok_update:
  assumes "pages_ok s T" "is_data q" "page_repr m ys" "page_hdr_page_id m = q"
    and "fmap_ok f (group_of q) (T(q := ys))"
    and "page_view s' STORE_FILE_DEFAULT = (data_page s)(q := clip m, group_of q := f)"
  shows "pages_ok s' (T(q := ys))"
proof -
  have g: "is_group (group_of q)" by (rule is_group_group_of [OF assms(2)])
  have "page_repr (data_page s' p) ((T(q := ys)) p) \<and> page_hdr_page_id (data_page s' p) = p" if "is_data p" for p
    using that assms g page_repr_clip [OF assms(3)]
    by (auto simp: pages_ok_def is_group_def is_data_def)
  moreover have "fmap_ok (data_page s' h) h (T(q := ys))" if "is_group h" for h
  proof (cases "h = group_of q")
    case True
    with assms(5,6) show ?thesis by simp
  next
    case False
    have "h + i + 1 \<noteq> q" if "0 \<le> i" "i < 4091" for i
      using group_index(2) [OF \<open>is_group h\<close> that] False assms(2) by (auto simp: is_data_def)
    moreover have "fmap_ok (data_page s h) h T"
      using assms(1) that by (simp add: pages_ok_def)
    moreover have "h \<noteq> q"
      using that assms(2) by (auto simp: is_group_def is_data_def)
    ultimately show ?thesis
      using False assms(6) by (auto simp: fmap_ok_def)
  qed
  ultimately show ?thesis
    by (simp add: pages_ok_def)
qed

section \<open>Create\<close>

lemma DEFAULT_not_MAP [simp]: "STORE_FILE_DEFAULT \<noteq> STORE_FILE_MAP" "STORE_FILE_MAP \<noteq> STORE_FILE_DEFAULT"
  "STORE_FILE_DEFAULT \<noteq> 0"
  by (simp_all add: store_consts)

lemma set_pid_ok:
  assumes "map_ok s" "0 < i" "i \<le> 10000000" "pid_wf q"
  shows "\<exists>s'. set_pid s i q = (s', Inr 0) \<and> map_ok s' \<and> map_last s' = max (map_last s) i \<and> other_files s s'
    \<and> (\<forall>j. 0 \<le> j \<and> j \<le> MAP_LIMIT \<longrightarrow>
         map_pid s' j = (if j = i then q else if map_last s < j \<and> j \<le> i then RIP else map_pid s j))"
  using map_setPhysicalID_ok [OF assms, of "nat i + 2"] unfolding set_pid_def by auto

text \<open>Two places for the same slot hold the same object.\<close>

lemma obj_at_unique:
  assumes "obj_at s T i ob" "obj_at s T j ob'" "map_pid s i = map_pid s j" "0 < i" "0 < j"
    "i \<le> 10000000" "j \<le> 10000000"
  shows "i = j"
  using assms obj_bytes_inj [of i ob j ob'] by (auto simp: obj_at_def Let_def)

text \<open>A change on the pages of \<open>q\<close> and in the map entry of \<open>i\<close> that keeps the slots of the other objects
  leads to the store with the new contents for \<open>i\<close>. An identifier beyond the last one is assigned by this, with those
  before it.\<close>

lemma store_at_update:
  assumes st: "store_at s T \<sigma>" and i: "0 < i" "i \<le> 10000000"
    and new: "map_ok s'" "map_last s' = max (map_last s) i" "pages_ok s' (T(q := ys))"
      "\<And>j. 0 \<le> j \<Longrightarrow> j \<le> MAP_LIMIT \<Longrightarrow> j \<noteq> i \<Longrightarrow>
         map_pid s' j = (if map_last s < j \<and> j \<le> i then RIP else map_pid s j)"
    and keep: "\<And>j ob. j \<noteq> i \<Longrightarrow> \<sigma> j = Some ob \<Longrightarrow> page_id (map_pid s j) = q \<Longrightarrow>
      nat (offset (map_pid s j)) < length ys \<and> ys ! nat (offset (map_pid s j)) = obj_bytes j ob"
    and at: "case x of None \<Rightarrow> map_pid s' i = RIP | Some ob \<Rightarrow> obj_at s' (T(q := ys)) i ob"
  shows "store_at s' (T(q := ys)) (\<sigma>(i := x))"
proof -
  have mono: "obj_ok (map_last s) ob \<Longrightarrow> obj_ok (max (map_last s) i) ob" for ob
    by (force simp: obj_ok_def split: prod.splits)
  have "case (\<sigma>(i := x)) j of None \<Rightarrow> map_pid s' j = RIP | Some ob \<Rightarrow> obj_at s' (T(q := ys)) j ob"
    if j: "0 < j" "j \<le> max (map_last s) i" for j
  proof (cases "j = i")
    case True
    show ?thesis
      unfolding True using at by simp
  next
    case False
    have pj: "map_pid s' j = (if map_last s < j then RIP else map_pid s j)"
      using j False st i by (subst new(4)) (auto simp: store_at_def MAP_LIMIT_def)
    show ?thesis
    proof (cases "\<sigma> j")
      case (Some ob)
      with st have "j \<le> map_last s"
        unfolding store_at_def by blast
      moreover from this st j Some have "obj_at s T j ob"
        by (fastforce simp: store_at_def)
      ultimately have "obj_at s T j ob" "j \<le> map_last s"
        by simp_all
      with keep [OF False Some] Some False mono show ?thesis
        by (auto simp: obj_at_def Let_def pj new(2))
    qed (use st j False pj in \<open>auto simp: store_at_def\<close>)
  qed
  with st i new(1-3) show ?thesis
    by (fastforce simp: store_at_def)
qed

lemma insertObject_fits:
  assumes "page_repr m xs" "int (length obj) + 4 \<le> room xs"
  shows "\<exists>m' ys k. insertObject m obj log_id = (0, m', Some k) \<and> page_repr m' ys
    \<and> slots_insert xs obj = (0, ys, Some k) \<and> page_hdr_page_id m' = page_hdr_page_id m"
proof -
  obtain ys k where yk: "slots_insert xs obj = (0, ys, Some k)"
    using slots_insert_fits [OF assms(2)] by blast
  from insertObject_repr [OF assms(1) this] obtain m' where
    m': "insertObject m obj log_id = (0, m', Some k)" "page_repr m' ys" "same_outside m m'"
    by blast
  then have "page_hdr_page_id m' = page_hdr_page_id m"
    using getbytes_cong [of 0 4 m' m]
    by (simp add: page_hdr_page_id_def get_u32_def same_outside_def)
  with yk m' show ?thesis by blast
qed


lemma store_atD:
  assumes "store_at s T \<sigma>"
  shows "map_ok s" "pool_inv s" "pages_ok s T" "map_last s \<le> 10000000"
    "\<sigma> j = Some ob \<Longrightarrow> 0 < j \<and> j \<le> map_last s \<and> obj_at s T j ob"
    "0 < j \<Longrightarrow> j \<le> map_last s \<Longrightarrow> \<sigma> j = None \<Longrightarrow> map_pid s j = RIP"
proof -
  show "\<sigma> j = Some ob \<Longrightarrow> 0 < j \<and> j \<le> map_last s \<and> obj_at s T j ob"
  proof -
    assume j: "\<sigma> j = Some ob"
    then have "\<sigma> j \<noteq> None" by simp
    with assms have "0 < j" "j \<le> map_last s" unfolding store_at_def by blast+
    with assms j show ?thesis by (fastforce simp: store_at_def)
  qed
  show "0 < j \<Longrightarrow> j \<le> map_last s \<Longrightarrow> \<sigma> j = None \<Longrightarrow> map_pid s j = RIP"
    using assms by (fastforce simp: store_at_def)
qed (use assms in \<open>simp_all add: store_at_def map_ok_def\<close>)

text \<open>The three steps in which the store works on a data page: open it, write it, and close it after
  the free map has been told.\<close>

lemma open_page:
  assumes "pool_inv s" "valid_page f p"
  shows "\<exists>s1 s2 pp. getPagePointer s f p = (s1, Inr (Some pp)) \<and> pp_aquire s1 pp = (s2, 0)
    \<and> same_pages s s2 \<and> points s2 pp f p \<and> pp_getPage s2 pp = page_view s f p"
proof -
  obtain s1 pp where 1: "getPagePointer s f p = (s1, Inr (Some pp))" "pool_inv s1" "page_view s1 = page_view s"
    "points s1 pp f p" "\<forall>pp f p. points s pp f p \<longrightarrow> points s1 pp f p"
    using bp.get_law [OF assms] by blast
  obtain s2 where 2: "pp_aquire s1 pp = (s2, 0)" "pool_inv s2" "page_view s2 = page_view s1" "points s2 = points s1"
    using bp.acq_law [OF 1(2,4)] by blast
  have "same_pages s s2"
    using 1 2 storage_more [OF pool_more(1) [of s f p]] storage_more [OF pool_more(2) [of s1 pp]]
    by (simp add: same_pages_def same_log_def)
  moreover have "points s2 pp f p" "pp_getPage s2 pp = page_view s f p"
    using bp.page_law [OF 2(2), of pp f p] 1 2 by simp_all
  ultimately show ?thesis
    using 1(1) 2(1) by blast
qed

lemma write_page:
  assumes "pool_inv s" "points s pp f p"
  shows "steps s (pp_write s pp m) f p (clip m)"
  using bp.write_law [OF assms, of m] storage_more [OF pool_more(5) [of s pp m]] by (simp add: steps_def)

lemma release_page:
  assumes "pool_inv s" "points s pp f p"
  shows "\<exists>s'. pp_release s pp d = (s', 0) \<and> same_pages s s'"
  using releasePage_ok [OF assms, of d] storage_more [OF pool_more(3) [of s pp d]] by (auto simp: same_pages_def)

lemma close_data_page:
  assumes "pool_inv s" "points s pp STORE_FILE_DEFAULT q" "is_data q" "page_hdr_page_id (data_page s q) = q"
    and "q mod 4092 - 1 \<le> object_count (data_page s (group_of q))"
    and "page_repr (data_page s q) ys" "fmap_ok (data_page s (group_of q)) (group_of q) T"
  shows "\<exists>s1 s2 f. updateFreeMap s pp = (s1, Inr 0) \<and> pp_release s1 pp 1 = (s2, 0)
    \<and> steps s s2 STORE_FILE_DEFAULT (group_of q) f \<and> fmap_ok f (group_of q) (T(q := ys))"
proof -
  let ?fs = "free_space (data_page s q)"
  let ?f = "clip (fmap_update (data_page s (group_of q)) (q mod 4092 - 1) ?fs)"
  obtain s1 where 1: "updateFreeMap s pp = (s1, Inr 0)" "steps s s1 STORE_FILE_DEFAULT (group_of q) ?f"
    using updateFreeMap_ok [OF assms(1-5)] by blast
  then have "pool_inv s1" "points s1 pp STORE_FILE_DEFAULT q"
    using assms(2) by (simp_all add: steps_def)
  from release_page [OF this] obtain s2 where 2: "pp_release s1 pp 1 = (s2, 0)" "same_pages s1 s2"
    by blast
  note d = page_reprD [OF assms(6)]
  have "?fs = room ys" "0 \<le> ?fs" "?fs \<le> 16364"
    using d(2,3) tot_nonneg [of ys] by (simp_all add: room_def)
  then have "fmap_ok ?f (group_of q) (T(q := ys))"
    using assms(3,5,7) by (intro fmap_update_ok) simp_all
  moreover have "steps s s2 STORE_FILE_DEFAULT (group_of q) ?f"
    using 1(2) 2(2) by (simp add: steps_def same_pages_def same_log_def)
  ultimately show ?thesis
    using 1(1) 2(1) by blast
qed

lemma steps_map:
  assumes "map_ok s" "steps s s' STORE_FILE_DEFAULT p m"
  shows "map_ok s'" "map_last s' = map_last s" "map_pid s' = map_pid s"
proof -
  have "page_view s' STORE_FILE_MAP = page_view s STORE_FILE_MAP"
    using assms(2) by (simp add: steps_def)
  then show m: "map_last s' = map_last s" "map_pid s' = map_pid s"
    by (simp_all add: map_last_def map_pid_def fun_eq_iff [where f = "map_pid _"])
  show "map_ok s'"
    using assms m(1) by (auto simp: map_ok_def steps_def)
qed

text \<open>What a finished change of a data page means for the pages and for the map.\<close>

lemma changed_page:
  assumes "map_ok s" "pages_ok s T" "is_data q" "page_repr m ys" "page_hdr_page_id m = q"
    "fmap_ok f (group_of q) (T(q := ys))"
    and "same_pages s s1" "steps s1 s2 STORE_FILE_DEFAULT q (clip m)"
    "steps s2 s3 STORE_FILE_DEFAULT (group_of q) f"
  shows "map_ok s3" "pages_ok s3 (T(q := ys))" "map_last s3 = map_last s" "map_pid s3 = map_pid s" "same_log s s3"
    "\<And>pp f p. points s pp f p \<Longrightarrow> points s3 pp f p"
proof -
  have v: "page_view s3 = (page_view s)(STORE_FILE_DEFAULT := (data_page s)(q := clip m, group_of q := f))"
    using assms(7-9) by (simp add: steps_def same_pages_def)
  then show mv: "map_last s3 = map_last s" "map_pid s3 = map_pid s"
    by (auto simp: map_last_def map_pid_def intro!: ext)
  show "same_log s s3" and pts: "\<And>pp f p. points s pp f p \<Longrightarrow> points s3 pp f p"
    using assms(7-9) by (auto simp: steps_def same_pages_def same_log_def)
  show "map_ok s3"
    using assms(1,7-9) mv(1) pts by (auto simp: map_ok_def steps_def same_pages_def)
  show "pages_ok s3 (T(q := ys))"
    using v by (intro pages_ok_update [OF assms(2-6)]) simp
qed


text \<open>Where an object has been put: in the first empty slot, or a new one, of the first page with room.\<close>

definition placed :: "(int \<Rightarrow> byte list list) \<Rightarrow> byte list \<Rightarrow> int \<Rightarrow> storage \<Rightarrow> (int \<Rightarrow> byte list list) \<Rightarrow> bool" where
  "placed T bs i s' T' \<longleftrightarrow>
     (\<exists>q ys k. first_fit T (int (length bs)) q \<and> slots_insert (T q) bs = (0, ys, Some k) \<and> T' = T(q := ys)
        \<and> map_pid s' i = \<lparr>page_id = q, file_id = STORE_FILE_DEFAULT, offset = k\<rparr>)"

lemma store_serialized_ok:
  assumes st: "store_at s T \<sigma>" and i: "0 < i" "i \<le> 10000000"
    and ob: "obj_ok (max (map_last s) i) ob"
    and p: "is_data p" "int (length (obj_bytes i ob)) + 4 \<le> room (T p)"
  shows "\<exists>s' T'. store_serialized s i (obj_bytes i ob) log_id = (s', Inr ()) \<and> store_at s' T' (\<sigma>(i \<mapsto> ob))
    \<and> map_last s' = max (map_last s) i \<and> same_log s s' \<and> (\<exists>q ys. T' = T(q := ys)) \<and> objs_only s s'
    \<and> placed T (obj_bytes i ob) i s' T'"
proof -
  let ?b = "obj_bytes i ob"
  note s = store_atD [OF st]
  have "int (length ?b) \<le> 16360"
    using p(2) tot_nonneg [of "T p"] by (simp add: room_def)
  from getFreePage_ok [OF s(2,3) p _ this] obtain s1 q where 1: "getFreePage s (int (length ?b)) = (s1, Inr q)"
    "same_pages s s1" and q: "is_data q" "int (length ?b) + 4 \<le> room (T q)"
    "q mod 4092 - 1 \<le> object_count (data_page s (group_of q))" and ff: "first_fit T (int (length ?b)) q"
    by (auto simp: first_fit_def)
  have uq: "u32 q = q" using q(1) by (simp add: is_data_def u32_def)
  have g: "is_group (group_of q)" "group_of q \<noteq> q"
    using is_group_group_of [OF q(1)] q(1) by (auto simp: is_group_def is_data_def)
  have "pool_inv s1" using 1(2) by (simp add: same_pages_def)
  from open_page [OF this valid_data(1) [OF q(1)]] obtain s2 s3 pp where
    2: "getPagePointer s1 STORE_FILE_DEFAULT q = (s2, Inr (Some pp))" "pp_aquire s2 pp = (s3, 0)"
    and s13: "same_pages s1 s3" and p3: "points s3 pp STORE_FILE_DEFAULT q" and "pp_getPage s3 pp = data_page s1 q"
    by blast
  then have s3: "same_pages s s3" "pool_inv s3" "pp_getPage s3 pp = data_page s q"
    using same_pages_trans [OF 1(2) s13] 1(2) by (simp_all add: same_pages_def)
  have rq: "page_repr (data_page s q) (T q)" "page_hdr_page_id (data_page s q) = q"
    using s(3) q(1) by (simp_all add: pages_ok_def)
  obtain m ys k where ins: "insertObject (data_page s q) ?b log_id = (0, m, Some k)" "page_repr m ys"
    "slots_insert (T q) ?b = (0, ys, Some k)" "page_hdr_page_id m = q"
    using insertObject_fits [OF rq(1) q(2), of log_id] rq(2) by auto
  define s4 where "s4 = pp_write s3 pp m"
  have 4: "steps s3 s4 STORE_FILE_DEFAULT q (clip m)"
    unfolding s4_def by (rule write_page [OF s3(2) p3])
  have v4: "data_page s4 q = clip m" "data_page s4 (group_of q) = data_page s (group_of q)"
    "pool_inv s4" "points s4 pp STORE_FILE_DEFAULT q"
    using 4 s3(1) g(2) p3 by (simp_all add: steps_def same_pages_def)
  from close_data_page [OF v4(3,4) q(1), of ys T] obtain s5 s6 f where
    5: "updateFreeMap s4 pp = (s5, Inr 0)" "pp_release s5 pp 1 = (s6, 0)"
    and s46: "steps s4 s6 STORE_FILE_DEFAULT (group_of q) f" and fm: "fmap_ok f (group_of q) (T(q := ys))"
    using v4(1,2) ins(4) q(3) page_repr_clip [OF ins(2)] s(3) g(1) by (auto simp: pages_ok_def)
  note ch = changed_page [OF s(1,3) q(1) ins(2,4) fm s3(1) 4 s46]
  note k = slots_insert_keep [OF ins(3)]
  have kb: "k < 4091" "u16 k = k"
    using k(1,2) page_reprD(3) [OF ins(2)] tot_nonneg [of ys] by (simp_all add: u16_def)
  let ?pid = "\<lparr>page_id = q, file_id = STORE_FILE_DEFAULT, offset = k\<rparr>"
  have "pid_wf ?pid"
    using q(1) k(1) kb by (simp add: pid_wf_def is_data_def store_consts)
  then obtain s7 where 7: "set_pid s6 i ?pid = (s7, Inr 0)" "map_ok s7" "map_last s7 = max (map_last s) i" "other_files s6 s7"
    "\<forall>j. 0 \<le> j \<and> j \<le> MAP_LIMIT \<longrightarrow>
       map_pid s7 j = (if j = i then ?pid else if map_last s < j \<and> j \<le> i then RIP else map_pid s j)"
    using set_pid_ok [OF ch(1) i, of ?pid] ch(3,4) by auto
  have "store_serialized s i ?b log_id = (s7, Inr ())"
    using 7(1) by (simp add: store_serialized_def 1(1) uq 2 s3(3) ins(1) s4_def [symmetric] 5 kb(2) Let_def)
  moreover have "same_log s s7" "map_last s7 = max (map_last s) i"
    using ch(3,5) 7(3,4) by (simp_all add: other_files_def same_log_def)
  moreover have "store_at s7 (T(q := ys)) (\<sigma>(i \<mapsto> ob))"
  proof (rule store_at_update [OF st i 7(2)])
    show "pages_ok s7 (T(q := ys))"
      using ch(2) 7(4) by (simp add: pages_ok_def other_files_def)
    have "map_pid s7 i = ?pid"
      using 7(5) i s(4) by (simp add: MAP_LIMIT_def)
    then show "case Some ob of None \<Rightarrow> map_pid s7 i = RIP | Some ob \<Rightarrow> obj_at s7 (T(q := ys)) i ob"
      using q(1) k(1-3) ob calculation(3) by (simp add: obj_at_def)
    show "nat (offset (map_pid s j)) < length ys \<and> ys ! nat (offset (map_pid s j)) = obj_bytes j ob'"
      if "j \<noteq> i" "\<sigma> j = Some ob'" "page_id (map_pid s j) = q" for j ob'
      using k(4) [of "nat (offset (map_pid s j))"] s(5) [OF that(2)] that(3) by (simp add: obj_at_def Let_def)
  qed (use 7(5) calculation(3) in auto)
  moreover have "objs_only s s7"
    using s3(1) 4 s46 7(4) by (simp add: objs_only_def steps_def same_pages_def other_files_def)
  moreover have "placed T ?b i s7 (T(q := ys))"
    using ff ins(3) 7(5) i s(4) by (auto simp: placed_def MAP_LIMIT_def)
  ultimately show ?thesis
    by blast
qed


text \<open>The log is not part of the objects.\<close>

lemma log_irrelevant [simp]:
  "map_last (s\<lparr>idSeq := n, wlog := w\<rparr>) = map_last s" "map_pid (s\<lparr>idSeq := n, wlog := w\<rparr>) = map_pid s"
  "map_ok (s\<lparr>idSeq := n, wlog := w\<rparr>) = map_ok s" "pages_ok (s\<lparr>idSeq := n, wlog := w\<rparr>) = pages_ok s"
  "obj_at (s\<lparr>idSeq := n, wlog := w\<rparr>) = obj_at s" "store_at (s\<lparr>idSeq := n, wlog := w\<rparr>) = store_at s"
proof -
  show m: "map_last (s\<lparr>idSeq := n, wlog := w\<rparr>) = map_last s" "map_pid (s\<lparr>idSeq := n, wlog := w\<rparr>) = map_pid s"
    using map_view_cong [of "s\<lparr>idSeq := n, wlog := w\<rparr>" s] by simp_all
  show "map_ok (s\<lparr>idSeq := n, wlog := w\<rparr>) = map_ok s" "pages_ok (s\<lparr>idSeq := n, wlog := w\<rparr>) = pages_ok s"
    "obj_at (s\<lparr>idSeq := n, wlog := w\<rparr>) = obj_at s" "store_at (s\<lparr>idSeq := n, wlog := w\<rparr>) = store_at s"
    by (simp_all add: map_ok_def m pages_ok_def obj_at_def store_at_def fun_eq_iff cong: option.case_cong)
qed

lemma op_bytes_lid: "lid_wf l \<Longrightarrow> op_bytes l r n v = op_bytes (lid_new (lvalue l)) r n v"
  by (simp add: op_bytes_def lid_bytes_def lid_wf_def u32_def)

lemma serialize_new:
  assumes "lid_wf l" "dv_ok v"
  shows "\<exists>so. op_serialize (op_setIsRoot (op_new n v l) r) = Inr so \<and> ser_inv so
    \<and> ser_content so = obj_bytes (lvalue l) (r, n, v)"
proof -
  have "dv_bytes (dv_clone v) = dv_bytes v"
    using dv_copy_same [OF assms(2)] by (simp add: dv_clone_def)
  moreover have "\<exists>so. op_serialize (op_setIsRoot (op_new n v l) r) = Inr so \<and> ser_inv so
      \<and> ser_content so = op_bytes (lid_clone l) r n (dv_clone v)"
    using op_serialize_bytes [of "op_setIsRoot (op_new n v l) r" "lid_clone l" r "dv_clone v"]
    by (simp add: op_setIsRoot_def op_new_def)
  ultimately show ?thesis
    using op_bytes_lid [OF assms(1)] by (simp add: obj_bytes_def op_bytes_def)
qed

text \<open>Whether an object of a given size still fits somewhere.\<close>

definition has_room :: "storage \<Rightarrow> int \<Rightarrow> bool" where
  "has_room s n \<longleftrightarrow> (\<exists>p. is_data p \<and> n + 4 \<le> free_space (data_page s p))"

lemma has_room_T: "pages_ok s T \<Longrightarrow> has_room s n \<longleftrightarrow> (\<exists>p. is_data p \<and> n + 4 \<le> room (T p))"
  unfolding has_room_def room_def pages_ok_def using page_reprD(2) by metis

text \<open>Creating an object under a given identifier, which need not have been assigned.\<close>

lemma createObject_any:
  assumes st: "store_at s T \<sigma>" and l: "lid_wf l" "0 < lvalue l" "lvalue l \<le> 10000000"
    and ob: "obj_ok (max (map_last s) (lvalue l)) (root, nm, v)"
    and p: "has_room s (int (length (obj_bytes (lvalue l) (root, nm, v))))"
  shows "\<exists>s' T'. createObject s tid nm v (Some l) root = (s', Inr (0, op_setIsRoot (op_new nm v l) root))
    \<and> store_at s' T' (\<sigma>(lvalue l \<mapsto> (root, nm, v))) \<and> map_last s' = max (map_last s) (lvalue l)
    \<and> (\<exists>q ys. T' = T(q := ys))
    \<and> wlog s' = \<lparr>wr_tid = tid, wr_lid = lid_clone l, wr_name = nm, wr_oldVal = None,
        wr_newVal = Some (dv_clone v), wr_id = u32 (idSeq s + 1)\<rparr> # wlog s
    \<and> objs_only s s' \<and> idSeq s' = u32 (idSeq s + 1) \<and> placed T (obj_bytes (lvalue l) (root, nm, v)) (lvalue l) s' T'"
proof -
  define s1 where "s1 = fst (log_write s tid (lid_clone l) nm None (Some (dv_clone v)))"
  have lw: "log_write s tid (lid_clone l) nm None (Some (dv_clone v)) = (s1, u32 (idSeq s + 1))"
    by (simp add: s1_def log_write_def Let_def)
  have st1: "store_at s1 T \<sigma>" "map_last s1 = map_last s"
    using st by (simp_all add: s1_def log_write_def Let_def)
  obtain q where q: "is_data q" "int (length (obj_bytes (lvalue l) (root, nm, v))) + 4 \<le> room (T q)"
    using p has_room_T [OF store_atD(3) [OF st]] by blast
  have "dv_ok v" using ob by (simp add: obj_ok_def)
  from serialize_new [OF l(1) this, of nm root] obtain so where
    so: "op_serialize (op_setIsRoot (op_new nm v l) root) = Inr so"
    "ser_content so = obj_bytes (lvalue l) (root, nm, v)"
    by blast
  from store_serialized_ok [OF st1(1) l(2) _ _ q, of "u32 (idSeq s + 1)"] l(3) ob st1(2)
  obtain s2 T2 where 2: "store_serialized s1 (lvalue l) (ser_content so) (u32 (idSeq s + 1)) = (s2, Inr ())"
    "store_at s2 T2 (\<sigma>(lvalue l \<mapsto> (root, nm, v)))" "map_last s2 = max (map_last s) (lvalue l)" "same_log s1 s2"
    "\<exists>q ys. T2 = T(q := ys)"
    "objs_only s1 s2" "placed T (obj_bytes (lvalue l) (root, nm, v)) (lvalue l) s2 T2"
    by (auto simp: so(2))
  have "createObject s tid nm v (Some l) root = (s2, Inr (0, op_setIsRoot (op_new nm v l) root))"
    using 2(1) by (simp add: createObject_def lw so(1) lid_toInteger_def)
  with 2 show ?thesis
    by (auto simp: same_log_def s1_def log_write_def Let_def objs_only_def)
qed

lemma createObject_given:
  assumes st: "store_at s T \<sigma>" and l: "lid_wf l" "0 < lvalue l" "lvalue l \<le> map_last s"
    and ob: "obj_ok (map_last s) (root, nm, v)"
    and p: "has_room s (int (length (obj_bytes (lvalue l) (root, nm, v))))"
  shows "\<exists>s' T'. createObject s tid nm v (Some l) root = (s', Inr (0, op_setIsRoot (op_new nm v l) root))
    \<and> store_at s' T' (\<sigma>(lvalue l \<mapsto> (root, nm, v))) \<and> map_last s' = map_last s \<and> (\<exists>q ys. T' = T(q := ys))
    \<and> wlog s' = \<lparr>wr_tid = tid, wr_lid = lid_clone l, wr_name = nm, wr_oldVal = None,
        wr_newVal = Some (dv_clone v), wr_id = u32 (idSeq s + 1)\<rparr> # wlog s
    \<and> objs_only s s' \<and> idSeq s' = u32 (idSeq s + 1) \<and> placed T (obj_bytes (lvalue l) (root, nm, v)) (lvalue l) s' T'"
proof -
  have m: "max (map_last s) (lvalue l) = map_last s"
    using l(3) by simp
  have "lvalue l \<le> 10000000"
    using l(3) store_atD(4) [OF st] by simp
  from createObject_any [OF st l(1,2) this _ p, of tid] ob show ?thesis
    unfolding m .
qed

text \<open>A new identifier changes no object.\<close>

lemma createLogicalID_store:
  assumes st: "store_at s T \<sigma>" and last: "map_last s < 10000000"
  shows "\<exists>s'. createLogicalID s = (s', Inr (map_last s + 1)) \<and> store_at s' T \<sigma>
    \<and> map_last s' = map_last s + 1 \<and> same_log s s' \<and> data_page s' = data_page s \<and> objs_only s s'"
proof -
  note s = store_atD [OF st]
  have lim: "map_last s < MAP_LIMIT"
    using last by (simp add: MAP_LIMIT_def)
  from createLogicalID_ok [OF s(1) this] obtain s' where
    s': "createLogicalID s = (s', Inr (map_last s + 1))" "map_ok s'" "map_last s' = map_last s + 1" "other_files s s'"
    "\<And>j. 0 \<le> j \<Longrightarrow> j \<le> MAP_LIMIT \<Longrightarrow> map_pid s' j = (if j = map_last s + 1 then RIP else map_pid s j)"
    by auto
  have dp: "data_page s' = data_page s"
    using s'(4) by (simp add: other_files_def)
  have "case \<sigma> j of None \<Rightarrow> map_pid s' j = RIP | Some ob \<Rightarrow> obj_at s' T j ob"
    if j: "0 < j" "j \<le> map_last s + 1" for j
  proof (cases "j = map_last s + 1")
    case True
    then have "\<sigma> j = None"
      using s(5) [of j] by (cases "\<sigma> j") auto
    with True s'(5) [of j] j lim show ?thesis
      by simp
  next
    case False
    then have pj: "map_pid s' j = map_pid s j"
      using s'(5) [of j] j lim by simp
    have mono: "obj_ok (map_last s) ob \<Longrightarrow> obj_ok (map_last s + 1) ob" for ob
      by (force simp: obj_ok_def split: prod.splits)
    show ?thesis
      using s(5,6) [of j] j False mono s'(3) by (cases "\<sigma> j") (auto simp: obj_at_def Let_def pj)
  qed
  moreover have "\<sigma> j \<noteq> None \<Longrightarrow> 0 < j \<and> j \<le> map_last s + 1" for j
    using s(5) [of j] by auto
  ultimately have "store_at s' T \<sigma>"
    using s'(2,3) last s(3) dp by (simp add: store_at_def pages_ok_def)
  with s' dp show ?thesis
    by (simp add: other_files_def objs_only_def)
qed

lemma createObject_new:
  assumes st: "store_at s T \<sigma>" and last: "map_last s < 10000000"
    and ob: "obj_ok (map_last s) (root, nm, v)"
    and p: "has_room s (int (length (obj_bytes (map_last s + 1) (root, nm, v))))"
  shows "\<exists>s' T'. createObject s tid nm v None root
      = (s', Inr (0, op_setIsRoot (op_new nm v (lid_new (map_last s + 1))) root))
    \<and> store_at s' T' (\<sigma>(map_last s + 1 \<mapsto> (root, nm, v))) \<and> map_last s' = map_last s + 1
    \<and> (\<exists>q ys. T' = T(q := ys))
    \<and> wlog s' = \<lparr>wr_tid = tid, wr_lid = lid_new (map_last s + 1), wr_name = nm, wr_oldVal = None,
        wr_newVal = Some (dv_clone v), wr_id = u32 (idSeq s + 1)\<rparr> # wlog s
    \<and> objs_only s s' \<and> idSeq s' = u32 (idSeq s + 1)
    \<and> placed T (obj_bytes (map_last s + 1) (root, nm, v)) (map_last s + 1) s' T'"
proof -
  let ?i = "map_last s + 1"
  obtain s1 where 1: "createLogicalID s = (s1, Inr ?i)" "store_at s1 T \<sigma>" "map_last s1 = ?i" "same_log s s1"
    "data_page s1 = data_page s" "objs_only s s1"
    using createLogicalID_store [OF st last] by blast
  have i: "lvalue (lid_new ?i) = ?i"
    using last map_last_nonneg [of s] by (simp add: u32_def)
  have "obj_ok (map_last s1) (root, nm, v)"
    using ob 1(3) by (force simp: obj_ok_def)
  moreover have "has_room s1 (int (length (obj_bytes ?i (root, nm, v))))"
    using p 1(5) by (simp add: has_room_def)
  ultimately obtain s2 T2 where 2: "createObject s1 tid nm v (Some (lid_new ?i)) root
      = (s2, Inr (0, op_setIsRoot (op_new nm v (lid_new ?i)) root))"
    "store_at s2 T2 (\<sigma>(?i \<mapsto> (root, nm, v)))" "map_last s2 = ?i" "\<exists>q ys. T2 = T(q := ys)"
    "wlog s2 = \<lparr>wr_tid = tid, wr_lid = lid_clone (lid_new ?i), wr_name = nm, wr_oldVal = None,
        wr_newVal = Some (dv_clone v), wr_id = u32 (idSeq s1 + 1)\<rparr> # wlog s1"
    "objs_only s1 s2" "idSeq s2 = u32 (idSeq s1 + 1)" "placed T (obj_bytes ?i (root, nm, v)) ?i s2 T2"
    using createObject_given [OF 1(2), of "lid_new ?i" root nm v tid] i 1(3) map_last_nonneg [of s] by auto
  moreover have "createObject s tid nm v None root = createObject s1 tid nm v (Some (lid_new ?i)) root"
    by (simp add: createObject_def 1(1))
  ultimately show ?thesis
    using 1(4) objs_only_trans [OF 1(6) 2(6)] by (auto simp: same_log_def lid_clone_def)
qed

section \<open>Get\<close>

lemma store_at_same:
  assumes "store_at s T \<sigma>" "map_ok s'" "page_view s' = page_view s"
  shows "store_at s' T \<sigma>"
proof -
  have m: "map_last s' = map_last s" "map_pid s' = map_pid s" "pages_ok s' = pages_ok s"
    using map_view_cong [OF assms(3)] assms(3) by (auto simp: pages_ok_def intro!: ext)
  then have "obj_at s' = obj_at s"
    by (simp add: obj_at_def fun_eq_iff)
  with assms m show ?thesis
    by (simp add: store_at_def cong: option.case_cong)
qed

lemma obj_at_not_RIP: "obj_at s T i ob \<Longrightarrow> map_pid s i \<noteq> RIP"
  by (auto simp: obj_at_def Let_def RIP_def store_consts)

lemma live_iff:
  assumes "store_at s T \<sigma>" "0 < j" "j \<le> map_last s"
  shows "map_live s j \<longleftrightarrow> \<sigma> j \<noteq> None"
  using store_atD(5,6) [OF assms(1), of j] assms(2,3) obj_at_not_RIP
  by (cases "\<sigma> j") (auto simp: map_live_def)

lemma dv_nf_cong:
  "(\<And>ls x. dvalue v = vector_value ls \<Longrightarrow> x \<in> set ls \<Longrightarrow> live (lvalue x) = live' (lvalue x)) \<Longrightarrow>
     dv_nf live v = dv_nf live' v"
  by (auto simp: dv_nf_def value_nf_def split: complex_value.splits cong: filter_cong)

lemma getObject_absent:
  assumes st: "store_at s T \<sigma>" and l: "0 < lvalue l" "lvalue l < 16777216" "\<sigma> (lvalue l) = None"
  shows "\<exists>s'. getObject sysviews s l = (s', Inr (if lvalue l \<le> map_last s then 0 else 2, None))
    \<and> store_at s' T \<sigma>"
proof -
  note s = store_atD [OF st]
  obtain s1 where 1: "map_getPhysicalID s (lvalue l) = (s1, Inr (if map_last s < lvalue l then (2, None)
      else (0, Some (map_pid s (lvalue l)))))" "map_ok s1" "page_view s1 = page_view s"
    using map_getPhysicalID_ok [OF s(1), of "lvalue l"] l(1) by auto
  have "store_at s1 T \<sigma>"
    by (rule store_at_same [OF st 1(2,3)])
  moreover have "\<not> map_last s < lvalue l \<Longrightarrow> map_pid s (lvalue l) = RIP"
    using s(6) [of "lvalue l"] l by simp
  ultimately show ?thesis
    using l 1(1) by (auto simp: getObject_def lid_toInteger_def map_equal_def)
qed

lemma getObject_present:
  assumes st: "store_at s T \<sigma>" and l: "lvalue l < 16777216" "\<sigma> (lvalue l) = Some (r, n, v)"
  shows "\<exists>s'. getObject sysviews s l
      = (s', Inr (0, Some (setIndexMarker l (op_nf (\<lambda>j. \<sigma> j \<noteq> None) (lid_new (lvalue l)) r n v)))) \<and> store_at s' T \<sigma>"
proof -
  note s = store_atD [OF st]
  let ?i = "lvalue l" and ?p = "map_pid s (lvalue l)"
  have i: "0 < ?i" "?i \<le> map_last s" and at: "obj_at s T ?i (r, n, v)"
    using s(5) [OF l(2)] by auto
  let ?q = "page_id ?p"
  define k where "k = nat (offset ?p)"
  have q: "file_id ?p = STORE_FILE_DEFAULT" "is_data ?q" "k < length (T ?q)" "offset ?p = int k"
    "T ?q ! k = op_bytes (lid_new ?i) r n v" "obj_ok (map_last s) (r, n, v)"
    using at by (auto simp: obj_at_def Let_def obj_bytes_def k_def)
  have "pid_wf ?p"
    by (simp add: map_pid_def)
  then have nrip: "\<not> map_equal ?p RIP"
    using map_equal_iff obj_at_not_RIP [OF at] by simp
  obtain s1 where 1: "map_getPhysicalID s ?i = (s1, Inr (0, Some ?p))" "map_ok s1"
    "page_view s1 = page_view s"
    using map_getPhysicalID_ok [OF s(1), of ?i] i by auto
  have i1: "pool_inv s1" using 1(2) by (simp add: map_ok_def)
  obtain s2 s3 pp where 2: "getPagePointer s1 STORE_FILE_DEFAULT ?q = (s2, Inr (Some pp))"
    "pp_aquire s2 pp = (s3, 0)" "same_pages s1 s3" "points s3 pp STORE_FILE_DEFAULT ?q"
    "pp_getPage s3 pp = data_page s ?q"
    using open_page [OF i1 valid_data(1) [OF q(2)]] 1(3) by auto
  have ok3: "map_ok s3" and v3: "page_view s3 = page_view s"
    using 1(2,3) 2(3) by (auto simp: map_ok_def map_last_def same_pages_def)
  have mv3: "map_last s3 = map_last s" "map_live s3 = map_live s"
    using map_view_cong [OF v3] by (auto simp: map_live_def)
  have rq: "page_repr (data_page s ?q) (T ?q)"
    using s(3) q(2) by (simp add: pages_ok_def)
  note sl = page_repr_slot [OF rq q(3)]
  have nf: "op_nf (map_live s) (lid_new ?i) r n v = op_nf (\<lambda>j. \<sigma> j \<noteq> None) (lid_new ?i) r n v"
  proof -
    have "dv_nf (map_live s) v = dv_nf (\<lambda>j. \<sigma> j \<noteq> None) v"
      using q(6) live_iff [OF st] by (intro dv_nf_cong) (auto simp: obj_ok_def)
    then show ?thesis
      by (simp add: op_nf_def)
  qed
  have "map_snapshot s3 s3"
    using ok3 by (simp add: map_snapshot_def)
  from idm.op_deserialize_bytes [OF this, of "lid_new ?i" n v "data_page s ?q"
      "object_offset (data_page s ?q) (int k)" r "int (length (T ?q ! k))"]
  obtain s4 where 4: "map_snapshot s3 s4" "op_deserialize map_phys s3 (data_page s ?q)
      (object_offset (data_page s ?q) (int k)) (int (length (T ?q ! k)))
      = (s4, Inr (0, Some (op_nf (map_live s) (lid_new ?i) r n v)))"
    using sl(1) q(5,6) by (auto simp: op_ok_def obj_ok_def map_known_def mv3)
  then have p4: "pool_inv s4" "points s4 pp STORE_FILE_DEFAULT ?q"
    using 2(4) by (auto simp: map_snapshot_def map_ok_def other_files_def)
  from release_page [OF this] obtain s5 where 5: "pp_release s4 pp 0 = (s5, 0)" "same_pages s4 s5"
    by blast
  have "page_deserialize map_phys s3 (data_page s ?q) (offset ?p)
      = (s4, Inr (0, Some (op_nf (\<lambda>j. \<sigma> j \<noteq> None) (lid_new ?i) r n v)))"
    unfolding page_deserialize_def Let_def q(4) sl(2) 4(2) nf ..
  then have "getObject sysviews s l = (s5, Inr (0, Some (setIndexMarker l (op_nf (\<lambda>j. \<sigma> j \<noteq> None) (lid_new ?i) r n v))))"
    using i(1) l(1) nrip
    by (simp add: getObject_def lid_toInteger_def 1(1) q(1) 2(1,2,5) 5(1) Let_def)
  moreover have "map_ok s5" "page_view s5 = page_view s"
    using 4(1) 5(2) v3 by (auto simp: map_snapshot_def same_pages_def map_ok_def map_last_def)
  ultimately show ?thesis
    using store_at_same [OF st] by blast
qed


section \<open>Delete\<close>

lemma mid_delete_clip:
  assumes "mid_delete m xs r" "r < length xs"
  shows "mid_delete (clip m) xs r"
proof -
  let ?ys = "xs[r := []]"
  have b: "4 * int (length ?ys) + tot ?ys \<le> 16364" "0 \<le> tot ?ys"
    using assms tot_nonneg [of ?ys] by (simp_all add: mid_delete_def tot_update)
  have "16384 - tot ?ys + int (length (concat (rev ?ys))) \<le> 16384" "0 \<le> 16384 - tot ?ys"
    using b by (simp_all only: length_concat_rev)
  moreover have "20 + 4 * int i \<le> 16380" if "i < length xs" for i
    using that b by simp
  ultimately show ?thesis
    using assms b by (auto simp: mid_delete_def slots_at_def object_count_def free_space_def object_offset_def holds_def)
qed

lemma same_outside_hdr: "same_outside m m' \<Longrightarrow> page_hdr_page_id m' = page_hdr_page_id m"
  using getbytes_cong [of 0 4 m' m] by (simp add: page_hdr_page_id_def get_u32_def same_outside_def)

lemma registered:
  assumes "pages_ok s T" "is_data q" "T q \<noteq> []"
  shows "q mod 4092 - 1 \<le> object_count (data_page s (group_of q))"
proof (rule ccontr)
  assume gt: "\<not> ?thesis"
  have "fmap_ok (data_page s (group_of q)) (group_of q) T"
    using assms(1,2) is_group_group_of by (simp add: pages_ok_def)
  then have "T (group_of q + (q mod 4092 - 1) + 1) = []"
    using gt data_index [OF assms(2)] assms(2) unfolding fmap_ok_def
    by (metis is_data_def linorder_le_cases)
  with assms(3) data_index(1) [OF assms(2)] show False
    by simp
qed

lemma deleteObject_present:
  assumes st: "store_at s T \<sigma>" and ob: "lid_of object = Some l" "val object = Some v"
    and l: "\<sigma> (lvalue l) = Some old"
  shows "\<exists>s' T'. deleteObject s tid object = (s', Inr 0) \<and> store_at s' T' (\<sigma>(lvalue l := None))
    \<and> map_last s' = map_last s \<and> (\<exists>q ys. T' = T(q := ys))
    \<and> wlog s' = \<lparr>wr_tid = tid, wr_lid = lid_clone l, wr_name = name object, wr_oldVal = Some (dv_clone v),
        wr_newVal = None, wr_id = u32 (idSeq s + 1)\<rparr> # wlog s
    \<and> objs_only s s' \<and> idSeq s' = u32 (idSeq s + 1)
    \<and> T' = T(page_id (map_pid s (lvalue l)) := slots_delete (T (page_id (map_pid s (lvalue l)))) (nat (offset (map_pid s (lvalue l)))))"
proof -
  let ?i = "lvalue l" and ?p = "map_pid s (lvalue l)" and ?id = "u32 (idSeq s + 1)"
  define s1 where "s1 = fst (log_write s tid (lid_clone l) (name object) (Some (dv_clone v)) None)"
  have lw: "log_write s tid (lid_clone l) (name object) (Some (dv_clone v)) None = (s1, ?id)"
    by (simp add: s1_def log_write_def Let_def)
  have st1: "store_at s1 T \<sigma>" and m1: "map_last s1 = map_last s" "map_pid s1 = map_pid s"
    using st by (simp_all add: s1_def log_write_def Let_def)
  note s = store_atD [OF st1]
  have i: "0 < ?i" "?i \<le> map_last s" and at: "obj_at s1 T ?i old"
    using s(5) [OF l] m1 by auto
  let ?q = "page_id ?p"
  define k where "k = nat (offset ?p)"
  have q: "file_id ?p = STORE_FILE_DEFAULT" "is_data ?q" "k < length (T ?q)" "offset ?p = int k"
    "T ?q ! k = obj_bytes ?i old"
    using at by (auto simp: obj_at_def Let_def k_def m1)
  have g: "is_group (group_of ?q)" "group_of ?q \<noteq> ?q"
    using is_group_group_of [OF q(2)] q(2) by (auto simp: is_group_def is_data_def)
  obtain s2 where 2: "map_getPhysicalID s1 ?i = (s2, Inr (0, Some ?p))" "map_ok s2"
    "page_view s2 = page_view s1" "other_files s1 s2"
    using map_getPhysicalID_ok [OF s(1), of ?i] i m1 by auto
  have "pool_inv s2" using 2(2) by (simp add: map_ok_def)
  from open_page [OF this valid_data(1) [OF q(2)]] obtain s3 s4 pp where
    3: "getPagePointer s2 STORE_FILE_DEFAULT ?q = (s3, Inr (Some pp))" "pp_aquire s3 pp = (s4, 0)"
    "same_pages s2 s4" "points s4 pp STORE_FILE_DEFAULT ?q" "pp_getPage s4 pp = data_page s1 ?q"
    using 2(3) by auto
  have st4: "store_at s4 T \<sigma>"
    using 2(2,3) 3(3) by (intro store_at_same [OF st1]) (auto simp: same_pages_def map_ok_def map_last_def)
  have v4: "page_view s4 = page_view s1" "same_log s1 s4"
    using 2(3,4) 3(3) by (simp_all add: same_pages_def same_log_def other_files_def)
  have rq: "page_repr (data_page s1 ?q) (T ?q)" "page_hdr_page_id (data_page s1 ?q) = ?q"
    using s(3) q(2) by (simp_all add: pages_ok_def)
  obtain mm where mm: "page_delete_move (data_page s1 ?q) (int k) ?id = (mm, int (length (T ?q ! k)))"
    "mid_delete mm (T ?q) k" "same_outside (data_page s1 ?q) mm"
    using page_delete_move_repr [OF rq(1) q(3)] by blast
  define s5 where "s5 = pp_write s4 pp mm"
  have 5: "steps s4 s5 STORE_FILE_DEFAULT ?q (clip mm)"
    unfolding s5_def by (rule write_page [OF store_atD(2) [OF st4] 3(4)])
  have ok5: "map_ok s5" and m5: "map_last s5 = map_last s" "map_pid s5 = map_pid s"
    using steps_map [OF store_atD(1) [OF st4] 5] m1 map_view_cong [OF v4(1)] by simp_all
  have i7: "?i \<le> 10000000" using i s(4) m1 by simp
  obtain s6 where 6: "set_pid s5 ?i RIP = (s6, Inr 0)" "map_ok s6" "map_last s6 = map_last s" "other_files s5 s6"
    "\<And>j. 0 \<le> j \<Longrightarrow> j \<le> MAP_LIMIT \<Longrightarrow> map_pid s6 j = (if j = ?i then RIP else map_pid s j)"
    using set_pid_ok [OF ok5 i(1) i7 pid_wf_RIP] i(2) m5 by auto
  have p6: "pool_inv s6" "points s6 pp STORE_FILE_DEFAULT ?q" "page_view s6 STORE_FILE_DEFAULT = (data_page s1)(?q := clip mm)"
    using 6(2,4) 5 3(4) v4(1) by (auto simp: map_ok_def other_files_def steps_def)
  have rd6: "pp_getPage s6 pp = clip mm"
    using bp.page_law [OF p6(1,2)] p6(3) by simp
  define mf where "mf = page_delete_finish (clip mm) (int k) (int (length (T ?q ! k)))"
  have mf: "page_repr mf (slots_delete (T ?q) k)" "same_outside (clip mm) mf"
    using page_delete_finish_repr [OF mid_delete_clip [OF mm(2) q(3)] q(3) refl] by (simp_all add: mf_def)
  have hdr: "page_hdr_page_id mf = ?q"
    using same_outside_hdr [OF mf(2)] same_outside_hdr [OF mm(3)] rq(2) by simp
  define s7 where "s7 = pp_write s6 pp mf"
  have 7: "steps s6 s7 STORE_FILE_DEFAULT ?q (clip mf)"
    unfolding s7_def by (rule write_page [OF p6(1,2)])
  have v7: "data_page s7 ?q = clip mf" "data_page s7 (group_of ?q) = data_page s1 (group_of ?q)"
    "pool_inv s7" "points s7 pp STORE_FILE_DEFAULT ?q"
    using 7 p6 g(2) by (simp_all add: steps_def)
  have "T ?q \<noteq> []" using q(3) by auto
  from close_data_page [OF v7(3,4) q(2), of "slots_delete (T ?q) k" T] obtain s8 s9 f where
    8: "updateFreeMap s7 pp = (s8, Inr 0)" "pp_release s8 pp 1 = (s9, 0)"
    and s79: "steps s7 s9 STORE_FILE_DEFAULT (group_of ?q) f"
    and fm: "fmap_ok f (group_of ?q) (T(?q := slots_delete (T ?q) k))"
    using v7(1,2) hdr registered [OF s(3) q(2) \<open>T ?q \<noteq> []\<close>] page_repr_clip [OF mf(1)] s(3) g(1)
    by (auto simp: pages_ok_def)
  have v9: "page_view s9 = (page_view s6)(STORE_FILE_DEFAULT := (data_page s1)(?q := clip mf, group_of ?q := f))"
    using s79 7 p6(3) by (simp add: steps_def)
  have m9: "map_last s9 = map_last s" "map_pid s9 = map_pid s6"
    using v9 6(3) by (auto simp: map_last_def map_pid_def intro!: ext)
  have "deleteObject s tid object = (s9, Inr 0)"
    using q(3) page_reprD(3) [OF rq(1)] tot_nonneg [of "T ?q"]
    by (simp add: deleteObject_def ob lw lid_toInteger_def 2(1) q(1,4) 3(1,2,5) mm(1) s5_def [symmetric] 6(1) rd6 mf_def [symmetric] s7_def [symmetric] 8 Let_def)
  moreover have sl: "same_log s1 s9"
    using v4(2) 5 6(4) 7 s79 by (simp add: same_log_def steps_def other_files_def)
  then have "wlog s9 = \<lparr>wr_tid = tid, wr_lid = lid_clone l, wr_name = name object, wr_oldVal = Some (dv_clone v),
        wr_newVal = None, wr_id = ?id\<rparr> # wlog s"
    by (simp add: same_log_def s1_def log_write_def Let_def)
  moreover have "store_at s9 (T(?q := slots_delete (T ?q) k)) (\<sigma>(?i := None))"
  proof (rule store_at_update [OF st i(1) i7])
    show "map_ok s9"
      using 6(2,3) m9(1) 7 s79 by (auto simp: map_ok_def steps_def)
    show "pages_ok s9 (T(?q := slots_delete (T ?q) k))"
      using v9 by (intro pages_ok_update [OF s(3) q(2) mf(1) hdr fm]) simp
    show "case None of None \<Rightarrow> map_pid s9 ?i = RIP | Some ob \<Rightarrow> obj_at s9 (T(?q := slots_delete (T ?q) k)) ?i ob"
      using 6(5) [of ?i] i i7 m9(2) by (simp add: MAP_LIMIT_def)
    fix j ob' assume j: "j \<noteq> ?i" "\<sigma> j = Some ob'" "page_id (map_pid s j) = ?q"
    have aj: "0 < j" "j \<le> 10000000" "obj_at s1 T j ob'"
      using s(4) s(5) [OF j(2)] m1 by auto
    have "nat (offset (map_pid s j)) \<noteq> k"
    proof
      assume "nat (offset (map_pid s j)) = k"
      then have "obj_bytes j ob' = obj_bytes ?i old"
        using aj(3) q(5) j(3) by (simp add: obj_at_def Let_def m1)
      from obj_bytes_inj [OF this] aj(1,2) i(1) i7 j(1) show False by simp
    qed
    then show "nat (offset (map_pid s j)) < length (slots_delete (T ?q) k)
        \<and> slots_delete (T ?q) k ! nat (offset (map_pid s j)) = obj_bytes j ob'"
      using slots_delete_keep [of "nat (offset (map_pid s j))" "T ?q" k] aj(3) j(3)
      by (simp add: obj_at_def Let_def m1)
  qed (use m9 6(5) i(2) in auto)
  moreover have "objs_only s s9"
    using v4(1) 5 6(4) v9 by (simp add: objs_only_def steps_def other_files_def s1_def log_write_def Let_def)
  moreover have "idSeq s9 = ?id"
    using sl by (simp add: same_log_def s1_def log_write_def Let_def)
  ultimately show ?thesis
    using m9(1) unfolding k_def by blast
qed


lemma deleteObject_absent:
  assumes st: "store_at s T \<sigma>" and ob: "lid_of object = Some l" "val object = Some v"
    and l: "0 < lvalue l" "\<sigma> (lvalue l) = None"
  shows "\<exists>s'. deleteObject s tid object = (s', Inr (if lvalue l \<le> map_last s then 3 else 2)) \<and> store_at s' T \<sigma>"
proof -
  define s1 where "s1 = fst (log_write s tid (lid_clone l) (name object) (Some (dv_clone v)) None)"
  have lw: "log_write s tid (lid_clone l) (name object) (Some (dv_clone v)) None = (s1, u32 (idSeq s + 1))"
    by (simp add: s1_def log_write_def Let_def)
  have st1: "store_at s1 T \<sigma>" and m1: "map_last s1 = map_last s"
    using st by (simp_all add: s1_def log_write_def Let_def)
  note s = store_atD [OF st1]
  obtain s2 where 2: "map_getPhysicalID s1 (lvalue l) = (s2, Inr (if map_last s < lvalue l then (2, None)
      else (0, Some (map_pid s1 (lvalue l)))))" "map_ok s2" "page_view s2 = page_view s1"
    using map_getPhysicalID_ok [OF s(1), of "lvalue l"] l(1) m1 by auto
  have "store_at s2 T \<sigma>"
    by (rule store_at_same [OF st1 2(2,3)])
  moreover have "\<not> map_last s < lvalue l \<Longrightarrow> map_pid s1 (lvalue l) = RIP"
    using s(6) [of "lvalue l"] l m1 by simp
  ultimately show ?thesis
    using 2(1) by (auto simp: deleteObject_def ob lw lid_toInteger_def RIP_def)
qed

text \<open>Modification is deletion and creation under the same identifier.\<close>

lemma modifyObject_present:
  assumes st: "store_at s T \<sigma>" and ob: "lid_of object = Some l" "val object = Some v" "isRoot object = Some r"
    and l: "lid_wf l" "\<sigma> (lvalue l) = Some old" and new: "obj_ok (map_last s) (r, name object, dv)"
    and room: "\<And>s1. deleteObject s tid object = (s1, Inr 0) \<Longrightarrow>
      has_room s1 (int (length (obj_bytes (lvalue l) (r, name object, dv))))"
  shows "\<exists>s' T' ob'. modifyObject s tid object dv = (s', Inr (0, ob'))
    \<and> store_at s' T' (\<sigma>(lvalue l \<mapsto> (r, name object, dv))) \<and> map_last s' = map_last s
    \<and> ob' = op_setParentRoot (op_setIsRoot (op_new (name object) dv l) r) (name object)
    \<and> objs_only s s' \<and> idSeq s' = u32 (u32 (idSeq s + 1) + 1)"
proof -
  obtain s1 T1 where 1: "deleteObject s tid object = (s1, Inr 0)" "store_at s1 T1 (\<sigma>(lvalue l := None))"
    "map_last s1 = map_last s" "objs_only s s1" "idSeq s1 = u32 (idSeq s + 1)"
    using deleteObject_present [OF st ob(1,2) l(2), of tid] by blast
  have i: "0 < lvalue l" "lvalue l \<le> map_last s1"
    using store_atD(5) [OF st l(2)] 1(3) by auto
  obtain s2 T2 where 2: "createObject s1 tid (name object) dv (Some l) r
      = (s2, Inr (0, op_setIsRoot (op_new (name object) dv l) r))"
    "store_at s2 T2 ((\<sigma>(lvalue l := None))(lvalue l \<mapsto> (r, name object, dv)))" "map_last s2 = map_last s1"
    "objs_only s1 s2" "idSeq s2 = u32 (idSeq s1 + 1)"
    using createObject_given [OF 1(2) l(1) i _ room [OF 1(1)], of tid] new 1(3) by auto
  then have "modifyObject s tid object dv
      = (s2, Inr (0, op_setParentRoot (op_setIsRoot (op_new (name object) dv l) r) (name object)))"
    using 1(1) by (simp add: modifyObject_def ob op_isRoot_def)
  then show ?thesis
    using 1(3,5) 2(2,3,5) objs_only_trans [OF 1(4) 2(4)] by auto
qed


section \<open>A new database\<close>

text \<open>The state after \<open>initializeFile\<close> has run for the map and the data file on empty files.\<close>

definition empty_disk :: "(int \<Rightarrow> int \<Rightarrow> mem) \<Rightarrow> storage" where
  "empty_disk j = \<lparr>started = True, buffer_hash = [], dirty_pages = 0, max_dirty = 16, disk = \<lambda>_ _. 0,
     disk_len = \<lambda>_. 0, junk = j, map_header = None, idSeq = 0, wlog = []\<rparr>"

definition fresh_store :: "(int \<Rightarrow> int \<Rightarrow> mem) \<Rightarrow> storage" where
  "fresh_store j = pm_initializeFile (map_initializeFile (empty_disk j))"

lemma fold_writes:
  fixes b :: "'a bufpool_scheme" and g :: "int \<Rightarrow> mem"
  assumes "\<forall>i\<in>set is. valid_page f i"
  defines "b' \<equiv> fold (\<lambda>i b. fst (file_writePage b f i (g i))) is b"
  shows "buffer_hash b' = buffer_hash b" "started b' = started b" "junk b' = junk b"
    "bufpool.more b' = bufpool.more b" "h \<noteq> f \<Longrightarrow> disk_pages b' h = disk_pages b h"
    "p \<notin> set is \<or> h \<noteq> f \<Longrightarrow> on_disk b h p m \<Longrightarrow> on_disk b' h p m"
    "\<forall>f. 0 \<le> disk_len b f \<and> disk_len b f \<le> 1073741824 \<Longrightarrow>
       \<forall>f. 0 \<le> disk_len b' f \<and> disk_len b' f \<le> 1073741824"
proof -
  have more: "bufpool.more (fst (file_writePage b f i m)) = bufpool.more b" for b :: "'a bufpool_scheme" and f i m
    by (simp add: file_writePage_def file_fwrite_def)
  have "buffer_hash b' = buffer_hash b \<and> started b' = started b \<and> junk b' = junk b
      \<and> bufpool.more b' = bufpool.more b \<and> (h \<noteq> f \<longrightarrow> disk_pages b' h = disk_pages b h)
      \<and> (p \<notin> set is \<or> h \<noteq> f \<longrightarrow> on_disk b h p m \<longrightarrow> on_disk b' h p m)
      \<and> ((\<forall>f. 0 \<le> disk_len b f \<and> disk_len b f \<le> 1073741824) \<longrightarrow>
         (\<forall>f. 0 \<le> disk_len b' f \<and> disk_len b' f \<le> 1073741824))"
    using assms(1) unfolding b'_def
  proof (induction "is" arbitrary: b)
    case (Cons i "is")
    let ?b = "fst (file_writePage b f i (g i))"
    have v: "valid_page f i" using Cons.prems by simp
    have "h \<noteq> f \<Longrightarrow> disk_pages ?b h = disk_pages b h"
      "p \<notin> set (i # is) \<or> h \<noteq> f \<Longrightarrow> on_disk b h p m \<Longrightarrow> on_disk ?b h p m"
      by (auto simp: writePage_disk_pages [OF v] on_disk_writePage(2) [OF v])
    with Cons.IH [of ?b] Cons.prems writePage_disk_len [OF v, of b "g i"] show ?case
      by (simp add: more)
  qed simp
  then show "buffer_hash b' = buffer_hash b" "started b' = started b" "junk b' = junk b"
    "bufpool.more b' = bufpool.more b" "h \<noteq> f \<Longrightarrow> disk_pages b' h = disk_pages b h"
    "p \<notin> set is \<or> h \<noteq> f \<Longrightarrow> on_disk b h p m \<Longrightarrow> on_disk b' h p m"
    "\<forall>f. 0 \<le> disk_len b f \<and> disk_len b f \<le> 1073741824 \<Longrightarrow>
       \<forall>f. 0 \<le> disk_len b' f \<and> disk_len b' f \<le> 1073741824"
    by blast+
qed

lemma page_view_on_disk:
  "map_of (buffer_hash b) (f, p) = None \<Longrightarrow> on_disk b f p m \<Longrightarrow> page_view b f p = m"
  by (simp add: page_view_def on_disk_def)

lemma initialize_group_ok:
  assumes "g mod 4092 = 0" "0 \<le> g" "g < 65536"
  shows "fmap_ok (clip (pm_initializePage g m)) g (\<lambda>_. [])"
proof -
  have "object_count (clip (pm_initializePage g m)) = 0"
    using assms by (simp add: object_count_def)
      (simp add: pm_initializePage_def Let_def page_acc_defs mem_simps s32_def)
  with assms show ?thesis
    by (simp add: fmap_ok_def)
qed

text \<open>A cache without pages, over a map with a new header page and a data file with a new first page.\<close>

lemma new_store_ok:
  fixes s :: storage
  assumes h: "buffer_hash s = []" "started s" "disk_pages s STORE_FILE_DEFAULT = 1"
    and ds: "on_disk s STORE_FILE_MAP 0 (clip map_header_page)" "on_disk s STORE_FILE_DEFAULT 0 (clip pm_header_page)"
    and len: "\<forall>f. 0 \<le> disk_len s f \<and> disk_len s f \<le> 1073741824"
    and hdr: "map_header s = None"
  shows "store_at s (\<lambda>_. []) (\<lambda>_. None)" "map_last s = 0"
proof -
  have inv: "pool_inv s"
    using h len by (simp add: pool_inv_def)
  have last: "map_last s = 0"
    using page_view_on_disk [OF _ ds(1)] h(1)
    by (simp add: map_last_def) (simp add: map_header_page_def mem_simps u32_def)
  have init: "data_page s p = clip (pm_initializePage p (clip (junk s STORE_FILE_DEFAULT p)))" if "1 \<le> p" for p
    using that h by (simp add: page_view_def buf_initializePage_def)
  have "pages_ok s (\<lambda>_. [])"
    unfolding pages_ok_def
  proof (intro conjI allI impI)
    fix p assume p: "is_data p"
    then show "page_repr (data_page s p) []" "page_hdr_page_id (data_page s p) = p"
      using initialize_page_repr [of p] page_repr_clip by (simp_all add: init is_data_def)
  next
    fix g assume g: "is_group g"
    show "fmap_ok (data_page s g) g (\<lambda>_. [])"
    proof (cases "g = 0")
      case True
      have "object_count (clip pm_header_page) = 0"
        by (simp add: object_count_def)
          (simp add: pm_header_page_def Let_def page_acc_defs mem_simps s32_def)
      with True show ?thesis
        using page_view_on_disk [OF _ ds(2)] h(1) by (simp add: fmap_ok_def)
    next
      case False
      with g initialize_group_ok [of g] show ?thesis
        by (simp add: init is_group_def)
    qed
  qed
  with inv last hdr show "store_at s (\<lambda>_. []) (\<lambda>_. None)" "map_last s = 0"
    by (simp_all add: store_at_def map_ok_def MAP_LIMIT_def)
qed

text \<open>What the writes to one file keep of the others.\<close>

definition kept :: "int \<Rightarrow> 'a bufpool_scheme \<Rightarrow> 'a bufpool_scheme \<Rightarrow> bool" where
  "kept f b b' \<longleftrightarrow> buffer_hash b' = buffer_hash b \<and> started b' = started b \<and> bufpool.more b' = bufpool.more b
     \<and> (\<forall>h. h \<noteq> f \<longrightarrow> disk_pages b' h = disk_pages b h \<and> (\<forall>p m. on_disk b h p m \<longrightarrow> on_disk b' h p m))
     \<and> ((\<forall>f. 0 \<le> disk_len b f \<and> disk_len b f \<le> 1073741824) \<longrightarrow>
         (\<forall>f. 0 \<le> disk_len b' f \<and> disk_len b' f \<le> 1073741824))"

lemma kept_trans: "kept f b b1 \<Longrightarrow> kept f b1 b2 \<Longrightarrow> kept f b b2"
  by (auto simp: kept_def)

lemma kept_write:
  assumes "valid_page f p"
  shows "kept f b (fst (file_writePage b f p m))"
proof -
  have "buffer_hash (fst (file_writePage b f p m)) = buffer_hash b"
    "started (fst (file_writePage b f p m)) = started b"
    "bufpool.more (fst (file_writePage b f p m)) = bufpool.more b"
    by (simp_all add: file_writePage_def file_fwrite_def)
  with writePage_disk_len [OF assms, of b m] on_disk_writePage(2) [OF assms, of b] writePage_disk_pages [OF assms, of b m]
  show ?thesis
    unfolding kept_def by simp
qed

lemma kept_writes:
  assumes "\<forall>i\<in>set is. valid_page f i"
  shows "kept f b (fold (\<lambda>i b. fst (file_writePage b f i (g i))) is b)"
  using assms
proof (induction "is" arbitrary: b)
  case (Cons i "is")
  then show ?case
    using kept_trans [OF kept_write [of f i b "g i"] Cons.IH] by simp
qed (simp add: kept_def)

lemma fold_writes_here:
  "distinct is \<Longrightarrow> \<forall>i\<in>set is. valid_page f i \<Longrightarrow> i \<in> set is \<Longrightarrow>
   on_disk (fold (\<lambda>i b. fst (file_writePage b f i (g i))) is b) f i (clip (g i))"
proof (induction "is" arbitrary: b)
  case (Cons j js)
  show ?case
  proof (cases "i = j")
    case True
    have "on_disk (fold (\<lambda>i b. fst (file_writePage b f i (g i))) js (fst (file_writePage b f j (g j)))) f j (clip (g j))"
      by (rule fold_writes(6)) (use Cons.prems on_disk_writePage(1) in auto)
    with True show ?thesis by simp
  qed (use Cons in auto)
qed simp

lemma map_initializeFile_ok:
  "kept STORE_FILE_MAP b (map_initializeFile b)"
  "on_disk (map_initializeFile b) STORE_FILE_MAP 0 (clip map_header_page)"
  "i \<in> {1..15} \<Longrightarrow> on_disk (map_initializeFile b) STORE_FILE_MAP i (clip (map_empty_page i))"
proof -
  let ?b1 = "fst (file_writePage b STORE_FILE_MAP 0 map_header_page)"
  have v: "valid_page STORE_FILE_MAP 0" "\<forall>i\<in>set [1..15]. valid_page STORE_FILE_MAP i"
    by (auto simp: valid_page_def file_ids_def)
  show "kept STORE_FILE_MAP b (map_initializeFile b)"
    unfolding map_initializeFile_def by (rule kept_trans [OF kept_write kept_writes]) (fact v)+
  show "on_disk (map_initializeFile b) STORE_FILE_MAP 0 (clip map_header_page)"
    unfolding map_initializeFile_def
    by (rule fold_writes(6) [OF v(2)]) (use on_disk_writePage(1) [OF v(1)] in auto)
  show "i \<in> {1..15} \<Longrightarrow> on_disk (map_initializeFile b) STORE_FILE_MAP i (clip (map_empty_page i))"
    unfolding map_initializeFile_def by (rule fold_writes_here [OF _ v(2)]) auto
qed

lemma pm_initializeFile_ok:
  assumes "disk_pages b STORE_FILE_DEFAULT = 0"
  shows "kept STORE_FILE_DEFAULT b (pm_initializeFile b)"
    "on_disk (pm_initializeFile b) STORE_FILE_DEFAULT 0 (clip pm_header_page)"
    "disk_pages (pm_initializeFile b) STORE_FILE_DEFAULT = 1"
proof -
  have v: "valid_page STORE_FILE_DEFAULT 0"
    by (auto simp: valid_page_def file_ids_def)
  show "kept STORE_FILE_DEFAULT b (pm_initializeFile b)"
    "on_disk (pm_initializeFile b) STORE_FILE_DEFAULT 0 (clip pm_header_page)"
    "disk_pages (pm_initializeFile b) STORE_FILE_DEFAULT = 1"
    using kept_write [OF v] on_disk_writePage(1) [OF v] assms
    by (simp_all add: pm_initializeFile_def writePage_disk_pages [OF v])
qed

lemma empty_disk_facts [simp]:
  "buffer_hash (empty_disk j) = []" "started (empty_disk j)" "disk_pages (empty_disk j) f = 0"
  "disk_len (empty_disk j) f = 0"
  by (simp_all add: empty_disk_def disk_pages_def)

lemma fresh_store_ok: "store_at (fresh_store j) (\<lambda>_. []) (\<lambda>_. None)" "map_last (fresh_store j) = 0"
proof -
  let ?b = "map_initializeFile (empty_disk j)"
  have k1: "kept STORE_FILE_MAP (empty_disk j) ?b" and d1: "on_disk ?b STORE_FILE_MAP 0 (clip map_header_page)"
    by (rule map_initializeFile_ok)+
  have p: "disk_pages ?b STORE_FILE_DEFAULT = 0"
    using k1 by (simp add: kept_def)
  note k2 = pm_initializeFile_ok [OF p]
  have "map_header (fresh_store j) = None"
    using storage_more [of "fresh_store j" "empty_disk j"] k1 k2(1)
    by (auto simp: fresh_store_def kept_def empty_disk_def)
  with k1 k2 d1 show "store_at (fresh_store j) (\<lambda>_. []) (\<lambda>_. None)" "map_last (fresh_store j) = 0"
    by (intro new_store_ok; simp add: fresh_store_def kept_def)+
qed

lemma fresh_has_room: "n \<le> 16360 \<Longrightarrow> has_room (fresh_store j) n"
  using has_room_T [OF store_atD(3) [OF fresh_store_ok(1) [of j]]]
  by (auto simp: room_def is_data_def intro!: exI [of _ 1])

text \<open>Small objects, for concrete instances.\<close>

lemma small_object:
  "obj_ok m (r, ''x'', dv_new_int 5)" "length (obj_bytes i (r, ''x'', dv_new_int 5)) \<le> 200"
  by (simp_all add: obj_ok_def dv_ok_def dv_new_int_def dv_setInt_def p_init_def lids_opt_ok_def value_ok_def
      obj_bytes_def op_bytes_def string_bytes_def dv_bytes_def lids_bytes_def value_bytes_def s32_def)


section \<open>Properties\<close>

text \<open>(C1) Creating an object: if the store represents the objects \<open>\<sigma>\<close>, identifiers are left and the object
  fits on some page, \<open>createObject\<close> succeeds with the next identifier, the store then represents \<open>\<sigma>\<close> with
  the new object and all others unchanged, and the log has one more record with the new value.\<close>

theorem createObject_refines:
  assumes "store_rep s \<sigma>" "map_last s < 10000000" "obj_ok (map_last s) (root, nm, v)"
    "has_room s (int (length (obj_bytes (map_last s + 1) (root, nm, v))))"
  shows "\<exists>s'. createObject s tid nm v None root
      = (s', Inr (0, op_setIsRoot (op_new nm v (lid_new (map_last s + 1))) root))
    \<and> store_rep s' (\<sigma>(map_last s + 1 \<mapsto> (root, nm, v)))
    \<and> wlog s' = \<lparr>wr_tid = tid, wr_lid = lid_new (map_last s + 1), wr_name = nm, wr_oldVal = None,
        wr_newVal = Some (dv_clone v), wr_id = u32 (idSeq s + 1)\<rparr> # wlog s"
proof -
  obtain T where "store_at s T \<sigma>"
    using assms(1) by (auto simp: store_rep_def)
  from createObject_new [OF this assms(2-4), of tid] show ?thesis
    unfolding store_rep_def by blast
qed

theorem createObject_refines_witness:
  "\<exists>s'. createObject (fresh_store (\<lambda>_ _ _. 0)) 7 ''x'' (dv_new_int 5) None False
      = (s', Inr (0, op_setIsRoot (op_new ''x'' (dv_new_int 5) (lid_new 1)) False))
    \<and> store_rep s' ((\<lambda>_. None)(1 \<mapsto> (False, ''x'', dv_new_int 5)))"
proof -
  let ?s = "fresh_store (\<lambda>_ _ _. 0)"
  have "store_rep ?s (\<lambda>_. None)"
    using fresh_store_ok(1) by (auto simp: store_rep_def)
  moreover have "has_room ?s (int (length (obj_bytes (map_last ?s + 1) (False, ''x'', dv_new_int 5))))"
    using small_object(2) [of "map_last ?s + 1" False] by (intro fresh_has_room) linarith
  ultimately show ?thesis
    using createObject_refines [of ?s "\<lambda>_. None" False "''x''" "dv_new_int 5" 7] small_object(1)
      fresh_store_ok(2) by auto
qed

text \<open>(C2) Reading an object: \<open>getObject\<close> of an identifier that \<open>\<sigma>\<close> maps to an object returns that object (name, root
  flag and value, with the references to deleted objects left out of a vector) with its index marker, and changes no object.
  The marker: the references in the vector of a root carry the name of the root; every other object carries the root name of the
  identifier it is read by.\<close>

theorem getObject_refines:
  assumes "store_rep s \<sigma>" "lvalue l < 16777216" "\<sigma> (lvalue l) = Some (r, n, v)"
  shows "\<exists>s' p. getObject sysviews s l = (s', Inr (0, Some p)) \<and> store_rep s' \<sigma>
    \<and> name p = n \<and> isRoot p = Some r
    \<and> p = setIndexMarker l (op_nf (\<lambda>j. \<sigma> j \<noteq> None) (lid_new (lvalue l)) r n v)
    \<and> (\<forall>ls. r \<and> map_option dvalue (val p) = Some (vector_value ls) \<longrightarrow> opParentRoot p = [] \<and> (\<forall>x\<in>set ls. parentRoot x = n))
    \<and> ((\<nexists>ls. r \<and> map_option dvalue (val p) = Some (vector_value ls)) \<longrightarrow> opParentRoot p = parentRoot l)"
proof -
  obtain T where "store_at s T \<sigma>"
    using assms(1) by (auto simp: store_rep_def)
  from getObject_present [OF this assms(2,3), of sysviews] obtain s' where
    "getObject sysviews s l = (s', Inr (0, Some (setIndexMarker l (op_nf (\<lambda>j. \<sigma> j \<noteq> None) (lid_new (lvalue l)) r n v))))"
    "store_rep s' \<sigma>"
    unfolding store_rep_def by blast
  then show ?thesis
    using setIndexMarker_marks [where l = l and ob = "op_nf (\<lambda>j. \<sigma> j \<noteq> None) (lid_new (lvalue l)) r n v" and r = r]
    by (auto simp: op_nf_def op_setIsRoot_def op_new_def)
qed

text \<open>A store with one object, for the instances of the properties below.\<close>

lemma one_object_store:
  "\<exists>s T. store_rep s ((\<lambda>_. None)(1 \<mapsto> (False, ''x'', dv_new_int 5)))
    \<and> store_at s T ((\<lambda>_. None)(1 \<mapsto> (False, ''x'', dv_new_int 5))) \<and> (\<exists>q ys. T = (\<lambda>_. [])(q := ys))"
proof -
  let ?s = "fresh_store (\<lambda>_ _ _. 0)"
  have "has_room ?s (int (length (obj_bytes (map_last ?s + 1) (False, ''x'', dv_new_int 5))))"
    using small_object(2) [of "map_last ?s + 1" False] by (intro fresh_has_room) linarith
  with createObject_new [OF fresh_store_ok(1), of "\<lambda>_ _ _. 0" False "''x''" "dv_new_int 5" 7]
  obtain s T where "store_at s T ((\<lambda>_. None)(1 \<mapsto> (False, ''x'', dv_new_int 5)))" "\<exists>q ys. T = (\<lambda>_. [])(q := ys)"
    using small_object(1) fresh_store_ok(2) by auto
  then show ?thesis
    by (auto simp: store_rep_def)
qed

text \<open>Three data pages are not all taken by two changes.\<close>

lemma almost_fresh_has_room:
  assumes "store_at s ((\<lambda>_. [])(q := ys, q' := ys')) \<sigma>" "n \<le> 16360"
  shows "has_room s n"
proof -
  have "is_data 1" "is_data 2" "is_data 3"
    by (simp_all add: is_data_def)
  moreover have "\<exists>p\<in>{1, 2, 3 :: int}. p \<noteq> q \<and> p \<noteq> q'"
    by auto
  ultimately show ?thesis
    unfolding has_room_T [OF store_atD(3) [OF assms(1)]] using assms(2) by (force simp: room_def)
qed

theorem getObject_refines_witness:
  "\<exists>s s' \<sigma> p. store_rep s \<sigma> \<and> getObject (\<lambda>s l. (s, Inr (0, None))) s (lid_setParentRoot (lid_new 1) ''r'') = (s', Inr (0, Some p))
     \<and> name p = ''x'' \<and> isRoot p = Some False
     \<and> p = setIndexMarker (lid_setParentRoot (lid_new 1) ''r'')
         (op_nf (\<lambda>j. \<sigma> j \<noteq> None) (lid_new 1) False ''x'' (dv_new_int 5)) \<and> opParentRoot p = ''r''"
proof -
  obtain s where s: "store_rep s ((\<lambda>_. None)(1 \<mapsto> (False, ''x'', dv_new_int 5)))"
    using one_object_store by blast
  let ?l = "lid_setParentRoot (lid_new 1) ''r''"
  have one: "lvalue ?l = 1" "parentRoot ?l = ''r''"
    by (simp_all add: lid_setParentRoot_def u32_def)
  have "((\<lambda>_. None)(1 \<mapsto> (False, ''x'', dv_new_int 5))) (lvalue ?l) = Some (False, ''x'', dv_new_int 5)"
    "lvalue ?l < 16777216"
    by (simp_all add: one)
  from getObject_refines [OF s this(2,1), of "\<lambda>s l. (s, Inr (0, None))"] s show ?thesis
    unfolding one by blast
qed

text \<open>Reading what is not there: an identifier that was assigned but has no object gives a null pointer
  with code 0, one that was never assigned gives code 2; the objects stay as they are.\<close>

lemma getObject_missing:
  assumes "store_rep s \<sigma>" "0 < lvalue l" "lvalue l < 16777216" "\<sigma> (lvalue l) = None"
  shows "\<exists>s'. getObject sysviews s l = (s', Inr (if lvalue l \<le> map_last s then 0 else 2, None))
    \<and> store_rep s' \<sigma>"
proof -
  obtain T where "store_at s T \<sigma>"
    using assms(1) by (auto simp: store_rep_def)
  from getObject_absent [OF this assms(2-4)] show ?thesis
    unfolding store_rep_def by blast
qed

text \<open>(C3) Deleting an object: \<open>deleteObject\<close> of a stored object succeeds, afterwards the store represents \<open>\<sigma>\<close>
  without it and with all others unchanged, and the log has one more record with the old value.\<close>

theorem deleteObject_refines:
  assumes "store_rep s \<sigma>" "lid_of object = Some l" "val object = Some v" "\<sigma> (lvalue l) \<noteq> None"
  shows "\<exists>s'. deleteObject s tid object = (s', Inr 0) \<and> store_rep s' (\<sigma>(lvalue l := None))
    \<and> wlog s' = \<lparr>wr_tid = tid, wr_lid = lid_clone l, wr_name = name object, wr_oldVal = Some (dv_clone v),
        wr_newVal = None, wr_id = u32 (idSeq s + 1)\<rparr> # wlog s"
proof -
  obtain T old where "store_at s T \<sigma>" "\<sigma> (lvalue l) = Some old"
    using assms(1,4) by (auto simp: store_rep_def)
  from deleteObject_present [OF this(1) assms(2,3) this(2), of tid] show ?thesis
    unfolding store_rep_def by blast
qed

theorem deleteObject_refines_witness:
  "\<exists>s s'. store_rep s ((\<lambda>_. None)(1 \<mapsto> (False, ''x'', dv_new_int 5)))
    \<and> deleteObject s 7 (op_new ''x'' (dv_new_int 5) (lid_new 1)) = (s', Inr 0)
    \<and> store_rep s' ((\<lambda>_. None)(1 := None))"
proof -
  obtain s where s: "store_rep s ((\<lambda>_. None)(1 \<mapsto> (False, ''x'', dv_new_int 5)))"
    using one_object_store by blast
  have one: "lvalue (lid_clone (lid_new 1)) = 1"
    by (simp add: u32_def)
  from deleteObject_refines [OF s, of "op_new ''x'' (dv_new_int 5) (lid_new 1)"
      "lid_clone (lid_new 1)" "dv_clone (dv_new_int 5)" 7] s
  show ?thesis
    by (auto simp: op_new_def one)
qed

text \<open>Deleting what is not there: the call returns 3 for an identifier whose object is gone and 2 for one
  never assigned, and no object is lost.\<close>

lemma deleteObject_missing:
  assumes "store_rep s \<sigma>" "lid_of object = Some l" "val object = Some v" "0 < lvalue l" "\<sigma> (lvalue l) = None"
  shows "\<exists>s'. deleteObject s tid object = (s', Inr (if lvalue l \<le> map_last s then 3 else 2)) \<and> store_rep s' \<sigma>"
proof -
  obtain T where "store_at s T \<sigma>"
    using assms(1) by (auto simp: store_rep_def)
  from deleteObject_absent [OF this assms(2-5), of tid] show ?thesis
    unfolding store_rep_def by blast
qed

text \<open>(C4) Modifying an object: \<open>modifyObject\<close> replaces the value of the object and keeps its identifier, name
  and root flag; all other objects are unchanged. The room is asked for after the old object is gone.\<close>

theorem modifyObject_refines:
  assumes "store_rep s \<sigma>" "lid_of object = Some l" "val object = Some v" "isRoot object = Some r"
    "lid_wf l" "\<sigma> (lvalue l) \<noteq> None" "obj_ok (map_last s) (r, name object, dv)"
    "has_room (fst (deleteObject s tid object)) (int (length (obj_bytes (lvalue l) (r, name object, dv))))"
  shows "\<exists>s'. modifyObject s tid object dv
      = (s', Inr (0, op_setParentRoot (op_setIsRoot (op_new (name object) dv l) r) (name object)))
    \<and> store_rep s' (\<sigma>(lvalue l \<mapsto> (r, name object, dv)))"
proof -
  obtain T old where "store_at s T \<sigma>" "\<sigma> (lvalue l) = Some old"
    using assms(1,6) by (auto simp: store_rep_def)
  from modifyObject_present [OF this(1) assms(2-5) this(2) assms(7), of tid] assms(8) show ?thesis
    unfolding store_rep_def by fastforce
qed


theorem modifyObject_refines_witness:
  "\<exists>s s' ob. store_rep s ((\<lambda>_. None)(1 \<mapsto> (False, ''x'', dv_new_int 5)))
    \<and> modifyObject s 7 (op_setIsRoot (op_new ''x'' (dv_new_int 5) (lid_new 1)) False) (dv_new_int 5)
      = (s', Inr (0, ob))"
proof -
  let ?\<sigma> = "(\<lambda>_. None)(1 \<mapsto> (False, ''x'', dv_new_int 5))"
    and ?ob = "op_setIsRoot (op_new ''x'' (dv_new_int 5) (lid_new 1)) False"
  obtain s T where s: "store_at s T ?\<sigma>" "store_rep s ?\<sigma>" "\<exists>q ys. T = (\<lambda>_. [])(q := ys)"
    using one_object_store by blast
  have ob: "lid_of ?ob = Some (lid_new 1)" "val ?ob = Some (dv_clone (dv_new_int 5))" "isRoot ?ob = Some False"
    "name ?ob = ''x''" and one: "lvalue (lid_new 1) = 1"
    by (simp_all add: op_new_def op_setIsRoot_def u32_def lid_clone_def)
  have here: "?\<sigma> (lvalue (lid_new 1)) = Some (False, ''x'', dv_new_int 5)"
    by (simp add: one)
  obtain s1 T1 where 1: "deleteObject s 7 ?ob = (s1, Inr 0)" "store_at s1 T1 (?\<sigma>(1 := None))" "\<exists>q ys. T1 = T(q := ys)"
    using deleteObject_present [OF s(1) ob(1,2) here, of 7] unfolding one by blast
  have "has_room s1 (int (length (obj_bytes 1 (False, ''x'', dv_new_int 5))))"
    using almost_fresh_has_room 1(2,3) s(3) small_object(2) [of 1 False] by force
  with modifyObject_refines [OF s(2) ob(1-3) _ _ _, of "dv_new_int 5" 7] here small_object(1) 1(1) one ob(4) s(2)
  show ?thesis
    by fastforce
qed

end
