(* ===== verification/NamedItems.thy ===== *)
theory NamedItems
  imports IdMap
begin

text \<open>
  The registries of named entries: \<open>Store/NamedItems.cpp\<close> with its subclasses \<open>NamedRoots\<close>,
  \<open>Classes\<close>, \<open>Interfaces\<close> and \<open>StoreSchemas\<close>, and \<open>Store/Views.cpp\<close>, which has the same code for
  one more file.

  A registry is a file of pages. Each page has a header of 20 bytes (the page header, the free space
  at 12, the number of entries at 16), then the entries one after another. An entry is an
  \<open>ix_entry\<close> of five integers and zero-terminated texts. A page whose timestamp is the null value
  ends the file. This theory holds the operations; \<open>EntryPages\<close> and \<open>Registries\<close> hold the proofs.
\<close>

section \<open>Transaction identifiers\<close>

text \<open>\<open>TManager::TransactionID\<close>. Both constructors leave \<open>timeStamp\<close> as the allocation has it; the last
  argument is that value.\<close>

record TransactionID =
  tid_id :: int
  tid_priority :: int
  tid_sessionId :: int
  tid_timeStamp :: int

definition TransactionID_new0 :: "int \<Rightarrow> int \<Rightarrow> TransactionID" where
  "TransactionID_new0 n garbage = \<lparr>tid_id = n, tid_priority = n, tid_sessionId = 0, tid_timeStamp = garbage\<rparr>"

definition TransactionID_new :: "int \<Rightarrow> int \<Rightarrow> int \<Rightarrow> int \<Rightarrow> TransactionID" where
  "TransactionID_new sessionId n priority garbage =
     \<lparr>tid_id = n, tid_priority = priority, tid_sessionId = sessionId, tid_timeStamp = garbage\<rparr>"

definition TransactionID_clone :: "TransactionID \<Rightarrow> int \<Rightarrow> TransactionID" where
  "TransactionID_clone t garbage = TransactionID_new (tid_sessionId t) (tid_id t) (tid_priority t) garbage"

definition setTimeStamp :: "TransactionID \<Rightarrow> int \<Rightarrow> TransactionID" where
  "setTimeStamp t v = t\<lparr>tid_timeStamp := v\<rparr>"

section \<open>The registries\<close>

record registry =
  STORE_IX_INITIALPAGECOUNT :: int
  STORE_IX_NAMEMAXLEN :: int
  STORE_IX_NULLVALUE :: int
  STORE_FILE :: int
  STORE_PAGE_HEADER :: int
  STORE_PAGE_PAGE :: int

definition NamedRoots :: registry where
  "NamedRoots = \<lparr>STORE_IX_INITIALPAGECOUNT = 2, STORE_IX_NAMEMAXLEN = 100, STORE_IX_NULLVALUE = -1,
     STORE_FILE = STORE_FILE_ROOTS, STORE_PAGE_HEADER = STORE_PAGE_ROOTSHEADER,
     STORE_PAGE_PAGE = STORE_PAGE_ROOTSPAGE\<rparr>"

definition Classes :: registry where
  "Classes = \<lparr>STORE_IX_INITIALPAGECOUNT = 2, STORE_IX_NAMEMAXLEN = 1000, STORE_IX_NULLVALUE = -1,
     STORE_FILE = STORE_FILE_CLASSES, STORE_PAGE_HEADER = STORE_PAGE_CLASSESHEADER,
     STORE_PAGE_PAGE = STORE_PAGE_CLASSESPAGE\<rparr>"

definition invaraint_maxlen :: int where "invaraint_maxlen = 100"

definition Interfaces :: registry where
  "Interfaces = \<lparr>STORE_IX_INITIALPAGECOUNT = 2, STORE_IX_NAMEMAXLEN = 1000, STORE_IX_NULLVALUE = -1,
     STORE_FILE = STORE_FILE_INTERFACES, STORE_PAGE_HEADER = STORE_PAGE_INTERFACESHEADER,
     STORE_PAGE_PAGE = STORE_PAGE_INTERFACESPAGE\<rparr>"

definition StoreSchemas :: registry where
  "StoreSchemas = \<lparr>STORE_IX_INITIALPAGECOUNT = 2, STORE_IX_NAMEMAXLEN = 1000, STORE_IX_NULLVALUE = -1,
     STORE_FILE = STORE_FILE_SCHEMAS, STORE_PAGE_HEADER = STORE_PAGE_SCHEMASHEADER,
     STORE_PAGE_PAGE = STORE_PAGE_SCHEMASPAGE\<rparr>"

text \<open>\<open>Views\<close> is a class of its own with the constants of \<open>Views.h\<close>.\<close>

definition Views :: registry where
  "Views = \<lparr>STORE_IX_INITIALPAGECOUNT = 2, STORE_IX_NAMEMAXLEN = 100, STORE_IX_NULLVALUE = -1,
     STORE_FILE = STORE_FILE_VIEWS, STORE_PAGE_HEADER = STORE_PAGE_VIEWSHEADER,
     STORE_PAGE_PAGE = STORE_PAGE_VIEWSPAGE\<rparr>"

section \<open>Entries\<close>

text \<open>An entry in memory form; \<open>e_text\<close> is what follows the five integers, and \<open>size\<close> is its length plus
  that of the integers.\<close>

record ix_entry =
  l_id :: int
  cur_tran :: int
  add_t :: int
  del_t :: int
  e_text :: "byte list"

definition entry_size :: "ix_entry \<Rightarrow> int" where
  "entry_size e = 20 + int (length (e_text e))"

definition entry_bytes :: "ix_entry \<Rightarrow> byte list" where
  "entry_bytes e = le_bytes 4 (entry_size e) @ le_bytes 4 (l_id e) @ le_bytes 4 (cur_tran e)
     @ le_bytes 4 (add_t e) @ le_bytes 4 (del_t e) @ e_text e"

text \<open>A \<open>const char*\<close> reaches up to its first zero, and \<open>c_text\<close> are its bytes with that zero.\<close>

definition cstr :: "string \<Rightarrow> string" where
  "cstr s = takeWhile (\<lambda>c. byte_of_char c \<noteq> 0) s"

definition c_text :: "string \<Rightarrow> byte list" where
  "c_text s = map byte_of_char (cstr s) @ [0]"

definition new_entry :: "TransactionID \<Rightarrow> int \<Rightarrow> byte list \<Rightarrow> ix_entry" where
  "new_entry tid logicalID txt = \<lparr>l_id = logicalID, cur_tran = tid_id tid, add_t = tid_timeStamp tid,
     del_t = -1, e_text = txt\<rparr>"

text \<open>\<open>createEntry\<close> of the three classes: the error code, or the bytes of the entry.\<close>

definition ni_createEntry :: "registry \<Rightarrow> TransactionID \<Rightarrow> int \<Rightarrow> string \<Rightarrow> int + byte list" where
  "ni_createEntry r tid logicalID nm =
     (if int (length (cstr nm)) > STORE_IX_NAMEMAXLEN r then Inl 1
      else Inr (entry_bytes ((new_entry tid logicalID (c_text nm))\<lparr>del_t := STORE_IX_NULLVALUE r\<rparr>)))"

definition classes_createEntry3 :: "TransactionID \<Rightarrow> int \<Rightarrow> string \<Rightarrow> int + byte list" where
  "classes_createEntry3 tid logicalID nm = Inl 1"

definition classes_createEntry ::
  "registry \<Rightarrow> TransactionID \<Rightarrow> int \<Rightarrow> string \<Rightarrow> string \<Rightarrow> int + byte list" where
  "classes_createEntry r tid logicalID nm invariantName =
     (if int (length (cstr nm)) > STORE_IX_NAMEMAXLEN r then Inl 1
      else if int (length (cstr invariantName)) > invaraint_maxlen then Inl 1
      else Inr (entry_bytes ((new_entry tid logicalID (c_text nm @ c_text invariantName))
                  \<lparr>del_t := STORE_IX_NULLVALUE r\<rparr>)))"

definition interfaces_createEntry ::
  "registry \<Rightarrow> TransactionID \<Rightarrow> int \<Rightarrow> string \<Rightarrow> string \<Rightarrow> string \<Rightarrow> int + byte list" where
  "interfaces_createEntry r tid logicalID nm objectName bindName =
     (if int (length (cstr objectName)) > STORE_IX_NAMEMAXLEN r
         \<or> int (length (cstr nm)) > STORE_IX_NAMEMAXLEN r
         \<or> int (length (cstr bindName)) > STORE_IX_NAMEMAXLEN r then Inl 1
      else Inr (entry_bytes ((new_entry tid logicalID (c_text nm @ c_text objectName @ c_text bindName))
                  \<lparr>del_t := STORE_IX_NULLVALUE r\<rparr>)))"

text \<open>\<open>createEntry\<close> is virtual: \<open>Classes\<close> overrides the form with one name by an error.\<close>

definition createEntry :: "registry \<Rightarrow> TransactionID \<Rightarrow> int \<Rightarrow> string \<Rightarrow> int + byte list" where
  "createEntry r = (if STORE_FILE r = STORE_FILE_CLASSES then classes_createEntry3 else ni_createEntry r)"

section \<open>Pages and entries on the bytes\<close>

definition ip_free :: "mem \<Rightarrow> int" where "ip_free m = get_s32 m 12"
definition ip_entries :: "mem \<Rightarrow> int" where "ip_entries m = get_s32 m 16"
definition at_size :: "mem \<Rightarrow> int \<Rightarrow> int" where "at_size m a = get_s32 m a"
definition at_l_id :: "mem \<Rightarrow> int \<Rightarrow> int" where "at_l_id m a = get_s32 m (a + 4)"
definition at_cur_tran :: "mem \<Rightarrow> int \<Rightarrow> int" where "at_cur_tran m a = get_s32 m (a + 8)"
definition at_add_t :: "mem \<Rightarrow> int \<Rightarrow> int" where "at_add_t m a = get_s32 m (a + 12)"
definition at_del_t :: "mem \<Rightarrow> int \<Rightarrow> int" where "at_del_t m a = get_s32 m (a + 16)"

lemmas at_defs = ip_free_def ip_entries_def at_size_def at_l_id_def at_cur_tran_def at_add_t_def at_del_t_def

text \<open>\<open>strcmp\<close> with a text in memory, \<open>strlen\<close> of one, and reading one as a \<open>std::string\<close>. The scan for
  the zero stops at the end of the page.\<close>

fun str_eq :: "string \<Rightarrow> mem \<Rightarrow> int \<Rightarrow> bool" where
  "str_eq [] m a \<longleftrightarrow> m a = 0"
| "str_eq (c # cs) m a \<longleftrightarrow> m a = byte_of_char c \<and> str_eq cs m (a + 1)"

fun str_prefix :: "string \<Rightarrow> mem \<Rightarrow> int \<Rightarrow> bool" where
  "str_prefix [] m a \<longleftrightarrow> True"
| "str_prefix (c # cs) m a \<longleftrightarrow> m a = byte_of_char c \<and> str_prefix cs m (a + 1)"

function str_read :: "mem \<Rightarrow> int \<Rightarrow> string" where
  "str_read m a = (if a < STORE_PAGESIZE \<and> m a \<noteq> 0 then char_of_byte (m a) # str_read m (a + 1) else [])"
  by pat_completeness auto
termination
  by (relation "measure (\<lambda>(m, a). nat (STORE_PAGESIZE - a))") auto

declare str_read.simps [simp del]

definition str_next :: "mem \<Rightarrow> int \<Rightarrow> int" where
  "str_next m a = a + int (length (str_read m a)) + 1"

definition getInvariant :: "mem \<Rightarrow> int \<Rightarrow> int" where
  "getInvariant m a = str_next m (a + 20)"

definition ixi_getName :: "mem \<Rightarrow> int \<Rightarrow> string" where
  "ixi_getName m a = str_read m (a + 20)"

definition ixi_getObjectName :: "mem \<Rightarrow> int \<Rightarrow> string" where
  "ixi_getObjectName m a = str_read m (str_next m (a + 20))"

definition ixi_getBindName :: "mem \<Rightarrow> int \<Rightarrow> string" where
  "ixi_getBindName m a = str_read m (str_next m (str_next m (a + 20)))"

definition findByName :: "string \<Rightarrow> mem \<Rightarrow> int \<Rightarrow> bool" where
  "findByName nm m a \<longleftrightarrow> length (cstr nm) = 0 \<or> str_eq (cstr nm) m (a + 20)"

definition findByInvariantName :: "string \<Rightarrow> mem \<Rightarrow> int \<Rightarrow> bool" where
  "findByInvariantName nm m a \<longleftrightarrow> str_eq (cstr nm) m (getInvariant m a)"

definition findByObjectName :: "string \<Rightarrow> mem \<Rightarrow> int \<Rightarrow> bool" where
  "findByObjectName nm m a \<longleftrightarrow> cstr nm = cstr (ixi_getObjectName m a)"

definition findNamesWithBegin :: "string \<Rightarrow> mem \<Rightarrow> int \<Rightarrow> bool" where
  "findNamesWithBegin nm m a \<longleftrightarrow> str_prefix (cstr nm) m (a + 20)"

section \<open>The loop over the pages\<close>

text \<open>One page from acquire to release, where the work on the page decides which release is called.
  \<^const>\<open>None\<close> is a loop on the page that does not end; a fault ends the process in the middle.\<close>

definition page_with ::
  "storage \<Rightarrow> int \<Rightarrow> int \<Rightarrow> (mem \<Rightarrow> (fault + 'r \<times> bool \<times> mem) option) \<Rightarrow> (storage \<times> (fault + 'r)) option" where
  "page_with s f p g =
     (case getPagePointer s f p of
        (s, Inl e) \<Rightarrow> Some (s, Inl e)
      | (s, Inr None) \<Rightarrow> Some (s, Inl NullDereference)
      | (s, Inr (Some pp)) \<Rightarrow>
          (let s = fst (pp_aquire s pp)
           in case g (pp_getPage s pp) of
                None \<Rightarrow> None
              | Some (Inl e) \<Rightarrow> Some (s, Inl e)
              | Some (Inr (r, sync, m)) \<Rightarrow>
                  let s = pp_write s pp m
                  in Some (if sync then fst (pp_releaseSync s pp 1) else fst (pp_release s pp 0), Inr r)))"

text \<open>\<open>while (i > 0)\<close> over the pages of a registry. The work on a page gets the logical timer, the page
  number and an accumulator, and gives the next page number and accumulator.\<close>

partial_function (option) page_loop ::
  "int \<Rightarrow> (int \<Rightarrow> int \<Rightarrow> 'a \<Rightarrow> mem \<Rightarrow> (fault + (int \<times> 'a) \<times> bool \<times> mem) option) \<Rightarrow> int \<Rightarrow> 'a \<Rightarrow> storage
     \<Rightarrow> (storage \<times> (fault + 'a)) option" where
  "page_loop f g i a s =
     (if i > 0 then
        (case page_with s f (u32 i) (g (getLogicalTimerValue s) i a) of
           None \<Rightarrow> None
         | Some (s', Inl e) \<Rightarrow> Some (s', Inl e)
         | Some (s', Inr (i', a')) \<Rightarrow> page_loop f g i' a' s')
      else Some (s, Inr a))"

section \<open>Adding an entry\<close>

definition add_page :: "byte list \<Rightarrow> int \<Rightarrow> int \<Rightarrow> unit \<Rightarrow> mem \<Rightarrow> (fault + (int \<times> unit) \<times> bool \<times> mem) option" where
  "add_page entry_buf timer i u m =
     (let size_needed = int (length entry_buf)
      in if ip_free m \<ge> size_needed then
           (let m = putbytes m (STORE_PAGESIZE - ip_free m) entry_buf;
                m = put_32 m 12 (ip_free m - size_needed);
                m = put_32 m 16 (ip_entries m + 1);
                m = put_32 m 8 timer
            in Some (Inr ((0, ()), True, m)))
         else Some (Inr ((s32 (i + 1), ()), False, m)))"

definition addItem_buf :: "registry \<Rightarrow> storage \<Rightarrow> byte list \<Rightarrow> (storage \<times> (fault + int)) option" where
  "addItem_buf r s entry_buf =
     (case page_loop (STORE_FILE r) (add_page entry_buf) 1 () s of
        None \<Rightarrow> None
      | Some (s, Inl e) \<Rightarrow> Some (s, Inl e)
      | Some (s, Inr _) \<Rightarrow> Some (s, Inr 0))"

definition addItem :: "registry \<Rightarrow> storage \<Rightarrow> TransactionID \<Rightarrow> int \<Rightarrow> string \<Rightarrow> (storage \<times> (fault + int)) option" where
  "addItem r s tid logicalID nm =
     (case createEntry r tid logicalID nm of
        Inl errcode \<Rightarrow> Some (s, Inr errcode)
      | Inr entry_buf \<Rightarrow> addItem_buf r s entry_buf)"

definition addClass :: "storage \<Rightarrow> TransactionID \<Rightarrow> int \<Rightarrow> string \<Rightarrow> string \<Rightarrow> (storage \<times> (fault + int)) option" where
  "addClass s tid logicalID nm invariantName =
     (case classes_createEntry Classes tid logicalID nm invariantName of
        Inl errcode \<Rightarrow> Some (s, Inr errcode)
      | Inr entry_buf \<Rightarrow> addItem_buf Classes s entry_buf)"

definition addInterface ::
  "storage \<Rightarrow> TransactionID \<Rightarrow> int \<Rightarrow> string \<Rightarrow> string \<Rightarrow> string \<Rightarrow> (storage \<times> (fault + int)) option" where
  "addInterface s tid logicalID nm objectName bindName =
     (case interfaces_createEntry Interfaces tid logicalID nm objectName bindName of
        Inl errcode \<Rightarrow> Some (s, Inr errcode)
      | Inr entry_buf \<Rightarrow> addItem_buf Interfaces s entry_buf)"

definition addView :: "storage \<Rightarrow> TransactionID \<Rightarrow> int \<Rightarrow> string \<Rightarrow> (storage \<times> (fault + int)) option" where
  "addView s tid logicalID nm =
     (case ni_createEntry Views tid logicalID nm of
        Inl errcode \<Rightarrow> Some (s, Inr errcode)
      | Inr entry_buf \<Rightarrow> addItem_buf Views s entry_buf)"

section \<open>Removing an entry\<close>

text \<open>Taking the bytes of an entry out of the page.\<close>

definition cut_entry :: "mem \<Rightarrow> int \<Rightarrow> int \<Rightarrow> mem" where
  "cut_entry m off sz =
     (let m = memmove m off (off + sz) (STORE_PAGESIZE - (off + sz + ip_free m));
          m = put_32 m 12 (ip_free m + sz);
          m = put_32 m 16 (ip_entries m - 1)
      in memset m (STORE_PAGESIZE - ip_free m) 0 (ip_free m))"

text \<open>The loop over the entries of a page. A match sets the offset past the end and \<open>i\<close> to 0.\<close>

partial_function (option) remove_scan ::
  "registry \<Rightarrow> TransactionID \<Rightarrow> int \<Rightarrow> int \<Rightarrow> int \<Rightarrow> int \<Rightarrow> mem \<Rightarrow> (int \<times> mem) option" where
  "remove_scan r tid logicalID timer i off m =
     (if off < STORE_PAGESIZE - ip_free m then
        (if at_l_id m off = logicalID then
           (let m = (if at_cur_tran m off = STORE_IX_NULLVALUE r
                     then put_32 (put_32 m (off + 8) (tid_id tid)) (off + 16) (tid_timeStamp tid)
                     else cut_entry m off (at_size m off));
                m = put_32 m 8 timer
            in remove_scan r tid logicalID timer 0 (STORE_PAGESIZE + 1) m)
         else remove_scan r tid logicalID timer i (off + at_size m off) m)
      else Some (i, m))"

definition remove_page ::
  "registry \<Rightarrow> TransactionID \<Rightarrow> int \<Rightarrow> int \<Rightarrow> int \<Rightarrow> unit \<Rightarrow> mem \<Rightarrow> (fault + (int \<times> unit) \<times> bool \<times> mem) option" where
  "remove_page r tid logicalID timer i u m =
     (if page_timestamp m = STORE_IX_NULLVALUE r then Some (Inr ((0, ()), True, m))
      else if ip_entries m = 0 then Some (Inr ((s32 (i + 1), ()), False, m))
      else case remove_scan r tid logicalID timer i 20 m of
             None \<Rightarrow> None
           | Some (i, m) \<Rightarrow>
               let i = (if i > 0 then s32 (i + 1) else i) in Some (Inr ((i, ()), i = 0, m)))"

definition removeItem :: "registry \<Rightarrow> storage \<Rightarrow> TransactionID \<Rightarrow> int \<Rightarrow> (storage \<times> (fault + int)) option" where
  "removeItem r s tid logicalID =
     (case page_loop (STORE_FILE r) (remove_page r tid logicalID) 1 () s of
        None \<Rightarrow> None
      | Some (s, Inl e) \<Rightarrow> Some (s, Inl e)
      | Some (s, Inr _) \<Rightarrow> Some (s, Inr 0))"

definition removeView :: "storage \<Rightarrow> TransactionID \<Rightarrow> int \<Rightarrow> (storage \<times> (fault + int)) option" where
  "removeView s tid logicalID = removeItem Views s tid logicalID"

section \<open>Commit and abort\<close>

text \<open>\<open>modifyTransaction\<close> on a page. The test \<open>entry->cur_tran == tid->getId()\<close> comes first, also for a
  null \<open>tid\<close>. The result says whether the page has changed.\<close>

partial_function (option) modify_scan ::
  "registry \<Rightarrow> TransactionID option \<Rightarrow> int \<Rightarrow> int \<Rightarrow> bool \<Rightarrow> int \<Rightarrow> mem \<Rightarrow> (fault + bool \<times> mem) option" where
  "modify_scan r tid mode timer changed off m =
     (if off < STORE_PAGESIZE - ip_free m then
        (case tid of
           None \<Rightarrow> Some (Inl NullDereference)
         | Some t \<Rightarrow>
             let size = at_size m off; null = STORE_IX_NULLVALUE r
             in if at_cur_tran m off = tid_id t \<or> (mode = 2 \<and> at_cur_tran m off \<noteq> null) then
                  (let (size, m) =
                     (if at_del_t m off \<noteq> null \<and> mode = 0
                      then (size, put_32 (put_32 m (off + 16) timer) (off + 8) null)
                      else if at_del_t m off = null \<and> mode = 0
                      then (size, put_32 (put_32 m (off + 12) timer) (off + 8) null)
                      else if at_del_t m off \<noteq> null \<and> mode > 0
                      then (size, put_32 (put_32 m (off + 16) null) (off + 8) null)
                      else if at_del_t m off = null \<and> mode > 0
                      then (0, cut_entry m off size)
                      else (size, m))
                   in modify_scan r tid mode timer True (off + size) (put_32 m 8 timer))
                else modify_scan r tid mode timer changed (off + size) m)
      else Some (Inr (changed, m)))"

definition modify_page ::
  "registry \<Rightarrow> TransactionID option \<Rightarrow> int \<Rightarrow> int \<Rightarrow> int \<Rightarrow> unit \<Rightarrow> mem
     \<Rightarrow> (fault + (int \<times> unit) \<times> bool \<times> mem) option" where
  "modify_page r tid mode timer i u m =
     (if page_timestamp m = STORE_IX_NULLVALUE r then Some (Inr ((0, ()), False, m))
      else if ip_entries m = 0 then Some (Inr ((s32 (i + 1), ()), False, m))
      else case modify_scan r tid mode timer False 20 m of
             None \<Rightarrow> None
           | Some (Inl e) \<Rightarrow> Some (Inl e)
           | Some (Inr (changed, m)) \<Rightarrow> Some (Inr ((s32 (i + 1), ()), changed, m)))"

definition modifyTransaction ::
  "registry \<Rightarrow> storage \<Rightarrow> TransactionID option \<Rightarrow> int \<Rightarrow> (storage \<times> (fault + int)) option" where
  "modifyTransaction r s tid mode =
     (case page_loop (STORE_FILE r) (modify_page r tid mode) 1 () s of
        None \<Rightarrow> None
      | Some (s, Inl e) \<Rightarrow> Some (s, Inl e)
      | Some (s, Inr _) \<Rightarrow> Some (s, Inr 0))"

definition ni_commitTransaction :: "registry \<Rightarrow> storage \<Rightarrow> TransactionID \<Rightarrow> (storage \<times> (fault + int)) option" where
  "ni_commitTransaction r s tid = modifyTransaction r s (Some tid) 0"

definition ni_abortTransaction :: "registry \<Rightarrow> storage \<Rightarrow> TransactionID \<Rightarrow> (storage \<times> (fault + int)) option" where
  "ni_abortTransaction r s tid = modifyTransaction r s (Some tid) 1"

definition abortAllTransactions :: "registry \<Rightarrow> storage \<Rightarrow> (storage \<times> (fault + int)) option" where
  "abortAllTransactions r s = modifyTransaction r s None 2"

definition views_modifyTransaction ::
  "storage \<Rightarrow> TransactionID option \<Rightarrow> int \<Rightarrow> (storage \<times> (fault + int)) option" where
  "views_modifyTransaction s tid mode = modifyTransaction Views s tid mode"

definition views_commitTransaction :: "storage \<Rightarrow> TransactionID \<Rightarrow> (storage \<times> (fault + int)) option" where
  "views_commitTransaction s tid = views_modifyTransaction s (Some tid) 0"

definition views_abortTransaction :: "storage \<Rightarrow> TransactionID \<Rightarrow> (storage \<times> (fault + int)) option" where
  "views_abortTransaction s tid = views_modifyTransaction s (Some tid) 1"

definition views_abortAllTransactions :: "storage \<Rightarrow> (storage \<times> (fault + int)) option" where
  "views_abortAllTransactions s = views_modifyTransaction s None 2"

section \<open>Looking up\<close>

text \<open>\<open>Indexes::RootEntry\<close>, and what \<open>getItemsByAnything\<close> collects: the identifiers, the content for the
  indexes and the pointers to the entries, each of the last two only if asked for. An entry pointer
  is the page number and the offset on the page.\<close>

record RootEntry =
  re_addTime :: int
  re_delTime :: int
  re_modyfierTransactionId :: int
  re_logicalID :: int

record found =
  roots :: "int list"
  indexContent :: "RootEntry list option"
  entries :: "(int \<times> int) list option"

definition visible_at :: "registry \<Rightarrow> TransactionID \<Rightarrow> mem \<Rightarrow> int \<Rightarrow> bool" where
  "visible_at r tid m off \<longleftrightarrow> at_add_t m off \<le> s32 (tid_timeStamp tid)
     \<and> at_del_t m off = STORE_IX_NULLVALUE r
     \<and> (at_cur_tran m off = STORE_IX_NULLVALUE r \<or> at_cur_tran m off = tid_id tid)"

text \<open>\<open>Views::getViews\<close> compares the times as \<open>unsigned long\<close>, which has 64 bits.\<close>

definition views_visible_at :: "TransactionID \<Rightarrow> mem \<Rightarrow> int \<Rightarrow> bool" where
  "views_visible_at tid m off \<longleftrightarrow> at_add_t m off mod 2 ^ 64 \<le> tid_timeStamp tid
     \<and> at_del_t m off = STORE_IX_NULLVALUE Views
     \<and> (at_cur_tran m off = STORE_IX_NULLVALUE Views \<or> at_cur_tran m off = tid_id tid)"

partial_function (option) collect_scan ::
  "(mem \<Rightarrow> int \<Rightarrow> bool) \<Rightarrow> (mem \<Rightarrow> int \<Rightarrow> bool) \<Rightarrow> int \<Rightarrow> found \<Rightarrow> int \<Rightarrow> mem \<Rightarrow> found option" where
  "collect_scan findTest vis i acc off m =
     (if off < STORE_PAGESIZE - ip_free m then
        (let acc = acc\<lparr>indexContent := map_option (\<lambda>ix. ix @
               [\<lparr>re_addTime = at_add_t m off, re_delTime = at_del_t m off,
                 re_modyfierTransactionId = at_cur_tran m off, re_logicalID = at_l_id m off\<rparr>])
               (indexContent acc)\<rparr>;
             acc = (if findTest m off \<and> vis m off
                    then acc\<lparr>roots := roots acc @ [at_l_id m off],
                            entries := map_option (\<lambda>es. es @ [(i, off)]) (entries acc)\<rparr>
                    else acc)
         in collect_scan findTest vis i acc (off + at_size m off) m)
      else Some acc)"

definition collect_page ::
  "int \<Rightarrow> (mem \<Rightarrow> int \<Rightarrow> bool) \<Rightarrow> (mem \<Rightarrow> int \<Rightarrow> bool) \<Rightarrow> int \<Rightarrow> int \<Rightarrow> found \<Rightarrow> mem
     \<Rightarrow> (fault + (int \<times> found) \<times> bool \<times> mem) option" where
  "collect_page null findTest vis timer i acc m =
     (if page_timestamp m = null then Some (Inr ((0, acc), False, m))
      else if ip_entries m = 0 then Some (Inr ((s32 (i + 1), acc), False, m))
      else case collect_scan findTest vis i acc 20 m of
             None \<Rightarrow> None
           | Some acc \<Rightarrow> Some (Inr ((s32 (i + 1), acc), False, m)))"

definition getItemsByAnything ::
  "registry \<Rightarrow> storage \<Rightarrow> TransactionID \<Rightarrow> (mem \<Rightarrow> int \<Rightarrow> bool) \<Rightarrow> RootEntry list option \<Rightarrow> (int \<times> int) list option
     \<Rightarrow> (storage \<times> (fault + found)) option" where
  "getItemsByAnything r s tid findTest ix es =
     page_loop (STORE_FILE r) (collect_page (STORE_IX_NULLVALUE r) findTest (visible_at r tid)) 1
       \<lparr>roots = [], indexContent = ix, entries = es\<rparr> s"

definition getItems ::
  "registry \<Rightarrow> storage \<Rightarrow> TransactionID \<Rightarrow> string \<Rightarrow> RootEntry list option \<Rightarrow> (storage \<times> (fault + found)) option" where
  "getItems r s tid nm ix = getItemsByAnything r s tid (findByName nm) ix None"

definition getItems_all :: "registry \<Rightarrow> storage \<Rightarrow> TransactionID \<Rightarrow> (storage \<times> (fault + found)) option" where
  "getItems_all r s tid = getItems r s tid [] None"

definition getByNameWithEntries :: "registry \<Rightarrow> storage \<Rightarrow> TransactionID \<Rightarrow> string \<Rightarrow> (storage \<times> (fault + found)) option" where
  "getByNameWithEntries r s tid nm = getItemsByAnything r s tid (findByName nm) None (Some [])"

definition getRootsWithBegin :: "storage \<Rightarrow> TransactionID \<Rightarrow> string \<Rightarrow> (storage \<times> (fault + found)) option" where
  "getRootsWithBegin s tid nameBegin = getItemsByAnything NamedRoots s tid (findNamesWithBegin nameBegin) None None"

definition getClassByInvariant :: "storage \<Rightarrow> TransactionID \<Rightarrow> string \<Rightarrow> (storage \<times> (fault + found)) option" where
  "getClassByInvariant s tid invariantName =
     getItemsByAnything Classes s tid (findByInvariantName invariantName) None None"

definition getInterfaceByObjectName :: "storage \<Rightarrow> TransactionID \<Rightarrow> string \<Rightarrow> (storage \<times> (fault + found)) option" where
  "getInterfaceByObjectName s tid objectName =
     getItemsByAnything Interfaces s tid (findByObjectName objectName) None (Some [])"

definition getViews :: "storage \<Rightarrow> TransactionID \<Rightarrow> string \<Rightarrow> (storage \<times> (fault + found)) option" where
  "getViews s tid nm =
     page_loop STORE_FILE_VIEWS (collect_page (STORE_IX_NULLVALUE Views) (findByName nm) (views_visible_at tid)) 1
       \<lparr>roots = [], indexContent = None, entries = None\<rparr> s"

definition getViews_all :: "storage \<Rightarrow> TransactionID \<Rightarrow> (storage \<times> (fault + found)) option" where
  "getViews_all s tid = getViews s tid []"

section \<open>Interfaces\<close>

definition ErrStore :: int where "ErrStore = 37748736"
definition ENoInterfaceFound :: int where "ENoInterfaceFound = 6466"

text \<open>\<open>ENoInterfaceFound | ErrStore\<close>: the two have no bit in common.\<close>

definition no_interface :: int where "no_interface = ENoInterfaceFound + ErrStore"

text \<open>Following an entry pointer: the page has been released, but its array stays in the cache.\<close>

definition entry_page :: "registry \<Rightarrow> storage \<Rightarrow> int \<Rightarrow> mem" where
  "entry_page r s i =
     (case map_of (buffer_hash s) (STORE_FILE r, u16 i) of Some p \<Rightarrow> bp_page p | None \<Rightarrow> \<lambda>_. 0)"

text \<open>The two lookups give the error code and, with code 0, the other two names.\<close>

definition getInterfaceBindForObjectName ::
  "storage \<Rightarrow> TransactionID \<Rightarrow> string \<Rightarrow> (storage \<times> (fault + int \<times> (string \<times> string) option)) option" where
  "getInterfaceBindForObjectName s tid oName =
     (case getInterfaceByObjectName s tid oName of
        None \<Rightarrow> None
      | Some (s, Inl e) \<Rightarrow> Some (s, Inl e)
      | Some (s, Inr res) \<Rightarrow>
          (case entries res of
             None \<Rightarrow> Some (s, Inr (no_interface, None))
           | Some [] \<Rightarrow> Some (s, Inr (no_interface, None))
           | Some [(i, off)] \<Rightarrow>
               Some (s, Inr (0, Some (ixi_getName (entry_page Interfaces s i) off,
                                      ixi_getBindName (entry_page Interfaces s i) off)))
           | Some _ \<Rightarrow> Some (s, Inr (-1, None))))"

definition getInterfaceBindForName ::
  "storage \<Rightarrow> TransactionID \<Rightarrow> string \<Rightarrow> (storage \<times> (fault + int \<times> (string \<times> string) option)) option" where
  "getInterfaceBindForName s tid interfaceName =
     (case getByNameWithEntries Interfaces s tid interfaceName of
        None \<Rightarrow> None
      | Some (s, Inl e) \<Rightarrow> Some (s, Inl e)
      | Some (s, Inr res) \<Rightarrow>
          (case entries res of
             None \<Rightarrow> Some (s, Inr (no_interface, None))
           | Some [] \<Rightarrow> Some (s, Inr (no_interface, None))
           | Some [(i, off)] \<Rightarrow>
               Some (s, Inr (0, Some (ixi_getObjectName (entry_page Interfaces s i) off,
                                      ixi_getBindName (entry_page Interfaces s i) off)))
           | Some _ \<Rightarrow> Some (s, Inr (-1, None))))"

definition bindInterface ::
  "storage \<Rightarrow> TransactionID \<Rightarrow> string \<Rightarrow> string \<Rightarrow> (storage \<times> (fault + int)) option" where
  "bindInterface s tid nm bindName =
     (case getInterfaceBindForName s tid nm of
        None \<Rightarrow> None
      | Some (s, Inl e) \<Rightarrow> Some (s, Inl e)
      | Some (s, Inr (errcode, names)) \<Rightarrow>
          if errcode \<noteq> 0 then Some (s, Inr no_interface)
          else
            (let (objectName, oldBindName) = (case names of Some p \<Rightarrow> p | None \<Rightarrow> ([], []))
             in case getItems Interfaces s tid nm None of
                  None \<Rightarrow> None
                | Some (s, Inl e) \<Rightarrow> Some (s, Inl e)
                | Some (s, Inr res) \<Rightarrow>
                    (case roots res of
                       [lid] \<Rightarrow>
                         (case removeItem Interfaces s tid lid of
                            None \<Rightarrow> None
                          | Some (s, Inl e) \<Rightarrow> Some (s, Inl e)
                          | Some (s, Inr _) \<Rightarrow> addInterface s tid lid nm objectName bindName)
                     | _ \<Rightarrow> Some (s, Inr no_interface))))"

section \<open>New files\<close>

definition ni_header_page :: "registry \<Rightarrow> mem" where
  "ni_header_page r =
     (let m = memset (\<lambda>_. 0) 0 0 STORE_PAGESIZE;
          m = put_32 m 0 0;
          m = put_16 m 4 (STORE_FILE r);
          m = put_16 m 6 (STORE_PAGE_HEADER r)
      in put_32 m 8 0)"

definition ni_entry_page :: "registry \<Rightarrow> int \<Rightarrow> mem" where
  "ni_entry_page r i =
     (let m = memset (\<lambda>_. 0) 0 0 STORE_PAGESIZE;
          m = put_16 m 4 (STORE_FILE r);
          m = put_16 m 6 (STORE_PAGE_PAGE r);
          m = put_32 m 12 (STORE_PAGESIZE - 20);
          m = put_32 m 16 0;
          m = put_32 m 0 i
      in put_32 m 8 (if i = 1 then 0 else STORE_IX_NULLVALUE r))"

definition ni_initializeFile :: "registry \<Rightarrow> 'a bufpool_scheme \<Rightarrow> 'a bufpool_scheme" where
  "ni_initializeFile r b =
     fold (\<lambda>i b. fst (file_writePage b (STORE_FILE r) i (ni_entry_page r i)))
       [1..STORE_IX_INITIALPAGECOUNT r - 1]
       (fst (file_writePage b (STORE_FILE r) 0 (ni_header_page r)))"

definition views_initializeFile :: "'a bufpool_scheme \<Rightarrow> 'a bufpool_scheme" where
  "views_initializeFile b = ni_initializeFile Views b"

end
