(* ===== verification/EntryPages.thy ===== *)
theory EntryPages
  imports NamedItems
begin

text \<open>
  The entries on one page of a registry. \<open>ni_page m es\<close> relates the bytes of a page to the list of
  its entries; adding, marking and cutting entries and the three scans over a page are shown to be
  the corresponding operations on the list.
\<close>

section \<open>Representation of a page\<close>

definition esize :: "ix_entry list \<Rightarrow> int" where
  "esize es = sum_list (map entry_size es)"

definition entries_bytes :: "ix_entry list \<Rightarrow> byte list" where
  "entries_bytes es = concat (map entry_bytes es)"

definition entry_ok :: "ix_entry \<Rightarrow> bool" where
  "entry_ok e \<longleftrightarrow> -2147483648 \<le> l_id e \<and> l_id e < 2147483648 \<and> -1 \<le> cur_tran e \<and> cur_tran e < 2147483648
     \<and> 0 \<le> add_t e \<and> add_t e < 2147483648 \<and> -1 \<le> del_t e \<and> del_t e < 2147483648
     \<and> 0 \<in> set (e_text e)"

definition ni_page :: "mem \<Rightarrow> ix_entry list \<Rightarrow> bool" where
  "ni_page m es \<longleftrightarrow> ip_free m = 16364 - esize es \<and> ip_entries m = int (length es) \<and> esize es \<le> 16364
     \<and> (\<forall>e\<in>set es. entry_ok e) \<and> holds m 20 (entries_bytes es)"

lemma esize_simps [simp]: "esize [] = 0" "esize (e # es) = entry_size e + esize es"
  "esize (xs @ ys) = esize xs + esize ys"
  by (simp_all add: esize_def)

lemma entries_bytes_simps [simp]: "entries_bytes [] = []"
  "entries_bytes (e # es) = entry_bytes e @ entries_bytes es"
  "entries_bytes (xs @ ys) = entries_bytes xs @ entries_bytes ys"
  by (simp_all add: entries_bytes_def)

lemma entry_size_ge: "20 \<le> entry_size e"
  by (simp add: entry_size_def)

lemma length_entry_bytes [simp]: "int (length (entry_bytes e)) = entry_size e"
  by (simp add: entry_bytes_def entry_size_def)

lemma length_entries_bytes [simp]: "int (length (entries_bytes es)) = esize es"
  by (induction es) simp_all

lemma esize_nonneg: "0 \<le> esize es"
proof (induction es)
  case (Cons e es)
  with entry_size_ge [of e] show ?case by simp
qed simp

lemma esize_length: "20 * int (length es) \<le> esize es"
proof (induction es)
  case (Cons e es)
  with entry_size_ge [of e] show ?case by simp
qed simp

text \<open>Bytes that a write does not touch.\<close>

lemma holds_put_32_disj [mem_simps]:
  "a + 4 \<le> b \<or> b + int (length bs) \<le> a \<Longrightarrow> holds (put_32 m a v) b bs = holds m b bs"
  by (simp add: holds_def getbytes_put_32_disj)

lemma holds_put_32_same [mem_simps]: "holds (put_32 m a v) a (le_bytes 4 v)"
  by (simp add: put_32_def)

lemma holds_memset_disj [mem_simps]:
  "a + n \<le> b \<or> b + int (length bs) \<le> a \<Longrightarrow> holds (memset m a v n) b bs = holds m b bs"
  by (simp add: holds_def getbytes_memset_disj)

lemma holds_putbytes_disj [mem_simps]:
  "a + int (length cs) \<le> b \<or> b + int (length bs) \<le> a \<Longrightarrow> holds (putbytes m a cs) b bs = holds m b bs"
  by (simp add: holds_def getbytes_putbytes_disj)

lemma holds_memmove_disj [mem_simps]:
  "dst + n \<le> b \<or> b + int (length bs) \<le> dst \<Longrightarrow> holds (memmove m dst src n) b bs = holds m b bs"
  by (simp add: holds_def getbytes_memmove_disj)

lemma holds_memmove_same [mem_simps]:
  "n = int (length bs) \<Longrightarrow> holds (memmove m dst src n) dst bs = holds m src bs"
  by (simp add: holds_def getbytes_memmove_same)

lemma holds_clip [simp]:
  "0 \<le> a \<Longrightarrow> a + int (length bs) \<le> 16384 \<Longrightarrow> holds (clip m) a bs = holds m a bs"
  by (simp add: holds_def)

lemma ni_page_clip [simp]: "ni_page (clip m) es = ni_page m es"
  using esize_nonneg [of es] by (auto simp: ni_page_def at_defs)

lemma ni_page_timestamp [simp]: "ni_page (put_32 m 8 v) es = ni_page m es"
  by (simp add: ni_page_def at_defs mem_simps)

section \<open>Reading an entry\<close>

text \<open>The fields of the entry at a given place.\<close>

lemma entry_at_holds:
  assumes "holds m off (entry_bytes e)" "entry_ok e" "entry_size e \<le> 16364"
  shows "at_size m off = entry_size e" "at_l_id m off = l_id e" "at_cur_tran m off = cur_tran e"
    "at_add_t m off = add_t e" "at_del_t m off = del_t e" "holds m (off + 20) (e_text e)"
proof -
  have h: "holds m off (le_bytes 4 (entry_size e))" "holds m (off + 4) (le_bytes 4 (l_id e))"
    "holds m (off + 8) (le_bytes 4 (cur_tran e))" "holds m (off + 12) (le_bytes 4 (add_t e))"
    "holds m (off + 16) (le_bytes 4 (del_t e))" "holds m (off + 20) (e_text e)"
    using assms(1) by (simp_all add: entry_bytes_def holds_append add.assoc)
  from h(6) show "holds m (off + 20) (e_text e)" .
  show "at_size m off = entry_size e" "at_l_id m off = l_id e" "at_cur_tran m off = cur_tran e"
    "at_add_t m off = add_t e" "at_del_t m off = del_t e"
    using assms(2,3) entry_size_ge [of e]
    by (simp_all add: at_defs holds_s32 [OF h(1)] holds_s32 [OF h(2)] holds_s32 [OF h(3)] holds_s32 [OF h(4)]
        holds_s32 [OF h(5)] entry_ok_def s32_id)
qed

lemma entry_at:
  assumes "ni_page m (xs @ e # ys)"
  defines "off \<equiv> 20 + esize xs"
  shows "at_size m off = entry_size e" "at_l_id m off = l_id e" "at_cur_tran m off = cur_tran e"
    "at_add_t m off = add_t e" "at_del_t m off = del_t e" "holds m (off + 20) (e_text e)"
    "off < 16384 - ip_free m"
proof -
  have "holds m off (entry_bytes e)" "entry_ok e" "entry_size e \<le> 16364"
    using assms(1) esize_nonneg [of xs] esize_nonneg [of ys] by (auto simp: ni_page_def holds_append off_def)
  then show "at_size m off = entry_size e" "at_l_id m off = l_id e" "at_cur_tran m off = cur_tran e"
    "at_add_t m off = add_t e" "at_del_t m off = del_t e" "holds m (off + 20) (e_text e)"
    by (rule entry_at_holds)+
  show "off < 16384 - ip_free m"
    using assms(1) entry_size_ge [of e] esize_nonneg [of ys] by (simp add: ni_page_def off_def)
qed

lemma page_end: "ni_page m es \<Longrightarrow> \<not> 20 + esize es < 16384 - ip_free m"
  by (simp add: ni_page_def)

section \<open>Changing an entry\<close>

lemma ni_page_replace:
  assumes "ni_page m (xs @ e # ys)" "e_text e' = e_text e" "entry_ok e'"
    "holds m' (20 + esize xs) (entry_bytes e')"
    "\<And>x. x < 20 + esize xs \<or> 40 + esize xs \<le> x \<Longrightarrow> m' x = m x"
  shows "ni_page m' (xs @ e' # ys)"
proof -
  have sz: "entry_size e' = entry_size e"
    using assms(2) by (simp add: entry_size_def)
  have same: "holds m' a bs = holds m a bs"
    if "a + int (length bs) \<le> 20 + esize xs \<or> 40 + esize xs \<le> a" for a bs
    unfolding holds_def using that assms(5) by (subst getbytes_cong [of _ _ m' m]) auto
  have g: "get_s32 m' a = get_s32 m a" if "a + 4 \<le> 20" for a
    unfolding get_s32_def using that assms(5) esize_nonneg [of xs]
    by (subst getbytes_cong [of _ _ m' m]) auto
  have "holds m' 20 (entries_bytes xs)"
    "holds m' (20 + esize xs + entry_size e) (entries_bytes ys)"
    using assms(1) entry_size_ge [of e] by (auto simp: ni_page_def holds_append same add.assoc)
  with assms(1,3,4) show ?thesis
    by (auto simp: ni_page_def at_defs g holds_append sz add.assoc)
qed

lemma set_cur_tran:
  assumes "ni_page m (xs @ e # ys)" "-1 \<le> c" "c < 2147483648"
  shows "ni_page (put_32 m (20 + esize xs + 8) c) (xs @ e\<lparr>cur_tran := c\<rparr> # ys)"
proof (rule ni_page_replace [OF assms(1)])
  have h: "holds m (20 + esize xs) (entry_bytes e)" and ok: "entry_ok e"
    using assms(1) by (simp_all add: ni_page_def holds_append)
  show "entry_ok (e\<lparr>cur_tran := c\<rparr>)"
    using ok assms(2,3) by (simp add: entry_ok_def)
  show "holds (put_32 m (20 + esize xs + 8) c) (20 + esize xs) (entry_bytes (e\<lparr>cur_tran := c\<rparr>))"
    using h by (simp add: entry_bytes_def entry_size_def holds_append mem_simps add.assoc)
qed (auto simp: mem_simps)

lemma set_add_t:
  assumes "ni_page m (xs @ e # ys)" "0 \<le> c" "c < 2147483648"
  shows "ni_page (put_32 m (20 + esize xs + 12) c) (xs @ e\<lparr>add_t := c\<rparr> # ys)"
proof (rule ni_page_replace [OF assms(1)])
  have h: "holds m (20 + esize xs) (entry_bytes e)" and ok: "entry_ok e"
    using assms(1) by (simp_all add: ni_page_def holds_append)
  show "entry_ok (e\<lparr>add_t := c\<rparr>)"
    using ok assms(2,3) by (simp add: entry_ok_def)
  show "holds (put_32 m (20 + esize xs + 12) c) (20 + esize xs) (entry_bytes (e\<lparr>add_t := c\<rparr>))"
    using h by (simp add: entry_bytes_def entry_size_def holds_append mem_simps add.assoc)
qed (auto simp: mem_simps)

lemma set_del_t:
  assumes "ni_page m (xs @ e # ys)" "-1 \<le> c" "c < 2147483648"
  shows "ni_page (put_32 m (20 + esize xs + 16) c) (xs @ e\<lparr>del_t := c\<rparr> # ys)"
proof (rule ni_page_replace [OF assms(1)])
  have h: "holds m (20 + esize xs) (entry_bytes e)" and ok: "entry_ok e"
    using assms(1) by (simp_all add: ni_page_def holds_append)
  show "entry_ok (e\<lparr>del_t := c\<rparr>)"
    using ok assms(2,3) by (simp add: entry_ok_def)
  show "holds (put_32 m (20 + esize xs + 16) c) (20 + esize xs) (entry_bytes (e\<lparr>del_t := c\<rparr>))"
    using h by (simp add: entry_bytes_def entry_size_def holds_append mem_simps add.assoc)
qed (auto simp: mem_simps)

lemma page_timestamp_after [simp]:
  "8 \<le> off \<Longrightarrow> page_timestamp (put_32 m (off + 8) v) = page_timestamp m"
  "8 \<le> off \<Longrightarrow> page_timestamp (put_32 m (off + 12) v) = page_timestamp m"
  "8 \<le> off \<Longrightarrow> page_timestamp (put_32 m (off + 16) v) = page_timestamp m"
  by (simp_all add: page_timestamp_def mem_simps)

lemma page_timestamp_set [simp]: "page_timestamp (put_32 m 8 v) = s32 v"
  by (simp add: page_timestamp_def mem_simps)

text \<open>Cutting an entry out.\<close>

lemma cut_entry_page:
  assumes "ni_page m (xs @ e # ys)"
  shows "ni_page (cut_entry m (20 + esize xs) (entry_size e)) (xs @ ys)"
proof -
  let ?off = "20 + esize xs"
  let ?m1 = "memmove m ?off (?off + entry_size e) (esize ys)"
  let ?m2 = "put_32 (put_32 ?m1 12 (16364 - esize xs - esize ys)) 16 (int (length xs + length ys))"
  have free: "ip_free m = 16364 - (esize xs + (entry_size e + esize ys))" "ip_entries m = int (length (xs @ e # ys))"
    and le: "esize xs + (entry_size e + esize ys) \<le> 16364"
    and ok: "\<forall>e\<in>set (xs @ ys). entry_ok e"
    and h: "holds m 20 (entries_bytes xs)" "holds m (?off + entry_size e) (entries_bytes ys)"
    using assms by (auto simp: ni_page_def holds_append add.assoc)
  have sizes: "0 \<le> esize xs" "0 \<le> esize ys" "20 \<le> entry_size e" "20 * int (length xs) \<le> esize xs"
    "20 * int (length ys) \<le> esize ys"
    using entry_size_ge esize_length by (simp_all add: esize_nonneg)
  have m1: "ip_free ?m1 = ip_free m" "ip_entries ?m1 = ip_entries m"
    using sizes by (simp_all add: at_defs mem_simps)
  have m2: "ip_free ?m2 = 16364 - esize xs - esize ys" "ip_entries ?m2 = int (length xs + length ys)"
    using sizes le by (simp_all add: at_defs mem_simps s32_id)
  have n: "STORE_PAGESIZE - (?off + entry_size e + ip_free m) = esize ys"
    using free by simp
  have e1: "ip_free m + entry_size e = 16364 - esize xs - esize ys"
    using free by simp
  have e2: "ip_entries (put_32 ?m1 12 v) - 1 = int (length xs + length ys)" for v
    using m1 free by (simp add: at_defs mem_simps)
  have cut: "cut_entry m ?off (entry_size e) = memset ?m2 (?off + esize ys) 0 (16364 - esize xs - esize ys)"
    unfolding cut_entry_def Let_def n m1 e1 e2 m2 by (simp add: add.assoc)
  have "holds ?m2 20 (entries_bytes xs)" "holds ?m2 ?off (entries_bytes ys)"
    using h sizes by (simp_all add: mem_simps)
  then have "holds (cut_entry m ?off (entry_size e)) 20 (entries_bytes (xs @ ys))"
    using sizes by (simp add: cut holds_append mem_simps)
  moreover have "ip_free (cut_entry m ?off (entry_size e)) = 16364 - esize (xs @ ys)"
    "ip_entries (cut_entry m ?off (entry_size e)) = int (length (xs @ ys))"
    using m2 sizes by (simp_all add: cut ip_free_def ip_entries_def get_s32_memset_disj)
  ultimately show ?thesis
    using ok le sizes by (auto simp: ni_page_def)
qed

lemma cut_entry_timestamp [simp]:
  assumes "ni_page m (xs @ e # ys)"
  shows "page_timestamp (cut_entry m (20 + esize xs) (entry_size e)) = page_timestamp m"
proof -
  have "20 \<le> 16384 - (ip_free m + entry_size e)"
    using assms esize_nonneg [of xs] esize_nonneg [of ys] by (simp add: ni_page_def)
  moreover have "ip_free m + entry_size e \<ge> 0" "ip_free m + entry_size e < 2147483648"
    using assms esize_nonneg [of xs] esize_nonneg [of ys] entry_size_ge [of e] by (simp_all add: ni_page_def)
  ultimately show ?thesis
    using esize_nonneg [of xs]
    by (simp add: cut_entry_def Let_def page_timestamp_def ip_free_def mem_simps s32_id)
qed

text \<open>Appending an entry.\<close>

definition append_entry :: "mem \<Rightarrow> ix_entry list \<Rightarrow> ix_entry \<Rightarrow> int \<Rightarrow> mem" where
  "append_entry m es e timer =
     put_32 (put_32 (put_32 (putbytes m (20 + esize es) (entry_bytes e)) 12 (16364 - esize es - entry_size e))
        16 (int (length es) + 1)) 8 timer"

lemma append_entry_page:
  assumes "ni_page m es" "entry_ok e" "esize es + entry_size e \<le> 16364"
  shows "add_page (entry_bytes e) timer i u m = Some (Inr ((0, ()), True, append_entry m es e timer))"
    "ni_page (append_entry m es e timer) (es @ [e])"
proof -
  let ?m1 = "putbytes m (20 + esize es) (entry_bytes e)"
  have sizes: "0 \<le> esize es" "20 \<le> entry_size e" "20 * int (length es) \<le> esize es"
    using entry_size_ge esize_length by (simp_all add: esize_nonneg)
  have free: "ip_free m = 16364 - esize es" "ip_entries m = int (length es)"
    using assms(1) by (simp_all add: ni_page_def)
  have m1: "ip_free ?m1 = 16364 - esize es" "ip_entries (put_32 ?m1 12 v) = int (length es)" for v
    using sizes free by (simp_all add: at_defs mem_simps)
  have "\<not> 16364 - esize es < entry_size e"
    using assms(3) by simp
  then show "add_page (entry_bytes e) timer i u m = Some (Inr ((0, ()), True, append_entry m es e timer))"
    by (simp add: add_page_def Let_def free m1 append_entry_def diff_diff_eq)
  have "ip_free (put_32 (put_32 ?m1 12 (16364 - esize es - entry_size e)) 16 (int (length es) + 1)) = 16364 - esize es - entry_size e"
    "ip_entries (put_32 (put_32 ?m1 12 (16364 - esize es - entry_size e)) 16 (int (length es) + 1)) = int (length es) + 1"
    using sizes assms(3) by (simp_all add: at_defs mem_simps s32_id)
  moreover have "holds m 20 (entries_bytes es)"
    using assms(1) by (simp add: ni_page_def)
  ultimately have "ni_page (put_32 (put_32 ?m1 12 (16364 - esize es - entry_size e)) 16 (int (length es) + 1)) (es @ [e])"
    using assms sizes by (auto simp: ni_page_def holds_append mem_simps)
  then show "ni_page (append_entry m es e timer) (es @ [e])" by (simp add: append_entry_def)
qed

lemma add_page_full:
  assumes "ni_page m es" "16364 < esize es + entry_size e"
  shows "add_page (entry_bytes e) timer i u m = Some (Inr ((s32 (i + 1), ()), False, m))"
  using assms by (simp add: add_page_def Let_def ni_page_def)

section \<open>The operations on lists of entries\<close>

definition tid_ok :: "TransactionID \<Rightarrow> bool" where
  "tid_ok t \<longleftrightarrow> 0 \<le> tid_id t \<and> tid_id t < 2147483648 \<and> 0 \<le> tid_timeStamp t \<and> tid_timeStamp t < 2147483648"

definition mark_removed :: "TransactionID \<Rightarrow> ix_entry \<Rightarrow> ix_entry" where
  "mark_removed t e = e\<lparr>cur_tran := tid_id t, del_t := tid_timeStamp t\<rparr>"

text \<open>Removal works on the first entry with the identifier: a settled one is marked, a pending one is
  taken out.\<close>

fun es_remove :: "TransactionID \<Rightarrow> int \<Rightarrow> ix_entry list \<Rightarrow> ix_entry list" where
  "es_remove t lid [] = []"
| "es_remove t lid (e # es) =
     (if l_id e = lid then (if cur_tran e = -1 then mark_removed t e # es else es)
      else e # es_remove t lid es)"

text \<open>Commit (mode 0) and abort (mode 1) of one entry; \<^const>\<open>None\<close> takes it out.\<close>

definition modify_entry :: "int \<Rightarrow> TransactionID \<Rightarrow> int \<Rightarrow> ix_entry \<Rightarrow> ix_entry option" where
  "modify_entry timer t mode e =
     (if cur_tran e = tid_id t then
        (if mode = 0 then
           Some (if del_t e \<noteq> -1 then e\<lparr>del_t := timer, cur_tran := -1\<rparr> else e\<lparr>add_t := timer, cur_tran := -1\<rparr>)
         else if del_t e \<noteq> -1 then Some (e\<lparr>del_t := -1, cur_tran := -1\<rparr>)
         else None)
      else Some e)"

definition es_modify :: "int \<Rightarrow> TransactionID \<Rightarrow> int \<Rightarrow> ix_entry list \<Rightarrow> ix_entry list" where
  "es_modify timer t mode es = List.map_filter (modify_entry timer t mode) es"

definition visible :: "TransactionID \<Rightarrow> ix_entry \<Rightarrow> bool" where
  "visible t e \<longleftrightarrow> add_t e \<le> tid_timeStamp t \<and> del_t e = -1 \<and> (cur_tran e = -1 \<or> cur_tran e = tid_id t)"

lemma es_modify_simps [simp]: "es_modify timer t mode [] = []"
  "es_modify timer t mode (xs @ ys) = es_modify timer t mode xs @ es_modify timer t mode ys"
  by (simp_all add: es_modify_def List.map_filter_def)

lemma es_modify_Cons:
  "es_modify timer t mode (e # es) =
     (case modify_entry timer t mode e of None \<Rightarrow> [] | Some e' \<Rightarrow> [e']) @ es_modify timer t mode es"
  by (simp add: es_modify_def List.map_filter_simps split: option.split)

lemma es_remove_none: "\<forall>e\<in>set es. l_id e \<noteq> lid \<Longrightarrow> es_remove t lid es = es"
  by (induction es) auto

lemma es_remove_append:
  "es_remove t lid (xs @ ys) =
     (if \<exists>e\<in>set xs. l_id e = lid then es_remove t lid xs @ ys else xs @ es_remove t lid ys)"
  by (induction xs) auto

section \<open>The scans over a page\<close>

definition timer_ok :: "int \<Rightarrow> bool" where
  "timer_ok timer \<longleftrightarrow> 0 \<le> timer \<and> timer < 2147483648"

text \<open>What a scan may do to the timestamp of a page.\<close>

definition ts_kept :: "int \<Rightarrow> mem \<Rightarrow> mem \<Rightarrow> bool" where
  "ts_kept timer m m' \<longleftrightarrow> page_timestamp m' = page_timestamp m \<or> page_timestamp m' = timer"

lemma ts_kept_refl [simp]: "ts_kept timer m m"
  by (simp add: ts_kept_def)

lemma ts_kept_set: "timer_ok timer \<Longrightarrow> ts_kept timer m (put_32 m' 8 timer)"
  by (simp add: ts_kept_def timer_ok_def s32_id)

lemma ts_kept_trans: "ts_kept timer m m1 \<Longrightarrow> ts_kept timer m1 m2 \<Longrightarrow> ts_kept timer m m2"
  by (auto simp: ts_kept_def)

lemma remove_scan_stop:
  "ni_page m es \<Longrightarrow> remove_scan r t lid timer i (STORE_PAGESIZE + 1) m = Some (i, m)"
  by (subst remove_scan.simps) (simp add: ni_page_def)

lemma mark_entry:
  assumes "ni_page m (xs @ e # ys)" "tid_ok t"
  shows "ni_page (put_32 (put_32 m (20 + esize xs + 8) (tid_id t)) (20 + esize xs + 16) (tid_timeStamp t))
      (xs @ mark_removed t e # ys)"
  using set_del_t [OF set_cur_tran [OF assms(1), of "tid_id t"], of "tid_timeStamp t"] assms(2)
  by (simp add: tid_ok_def mark_removed_def)

lemma remove_scan_page:
  assumes "STORE_IX_NULLVALUE r = -1" "tid_ok t" "timer_ok timer"
    and "ni_page m (xs @ ys)"
  shows "\<exists>m'. remove_scan r t lid timer i (20 + esize xs) m
      = Some (if \<exists>e\<in>set ys. l_id e = lid then 0 else i, m')
    \<and> ni_page m' (xs @ es_remove t lid ys) \<and> ts_kept timer m m'"
  using assms(4)
proof (induction ys arbitrary: xs)
  case Nil
  then have "remove_scan r t lid timer i (20 + esize xs) m = Some (i, m)"
    by (subst remove_scan.simps) (simp add: ni_page_def)
  with Nil show ?case by simp
next
  case (Cons e ys)
  note at = entry_at [OF Cons.prems]
  show ?case
  proof (cases "l_id e = lid")
    case True
    define m1 where "m1 = (if cur_tran e = -1
      then put_32 (put_32 m (20 + esize xs + 8) (tid_id t)) (20 + esize xs + 16) (tid_timeStamp t)
      else cut_entry m (20 + esize xs) (entry_size e))"
    have "ni_page m1 (xs @ es_remove t lid (e # ys))"
      using True mark_entry [OF Cons.prems assms(2)] cut_entry_page [OF Cons.prems] by (simp add: m1_def)
    then have p: "ni_page (put_32 m1 8 timer) (xs @ es_remove t lid (e # ys))" by simp
    have "remove_scan r t lid timer i (20 + esize xs) m
        = remove_scan r t lid timer 0 (STORE_PAGESIZE + 1) (put_32 m1 8 timer)"
      using at True assms(1) by (subst remove_scan.simps) (simp add: m1_def)
    with remove_scan_stop [OF p] p ts_kept_set [OF assms(3)] True show ?thesis
      by (simp del: es_remove.simps)
  next
    case False
    have "remove_scan r t lid timer i (20 + esize xs) m = remove_scan r t lid timer i (20 + esize (xs @ [e])) m"
      using at False by (subst remove_scan.simps) (simp add: add.assoc)
    with Cons.IH [of "xs @ [e]"] Cons.prems False show ?thesis by simp
  qed
qed

lemma modify_scan_page:
  assumes "STORE_IX_NULLVALUE r = -1" "tid_ok t" "timer_ok timer" "mode = 0 \<or> mode = 1"
    and "ni_page m (xs @ ys)"
  shows "\<exists>m' ch. modify_scan r (Some t) mode timer changed (20 + esize xs) m = Some (Inr (ch, m'))
    \<and> ni_page m' (xs @ es_modify timer t mode ys) \<and> ts_kept timer m m'"
  using assms(5)
proof (induction ys arbitrary: xs m changed)
  case Nil
  then have "modify_scan r (Some t) mode timer changed (20 + esize xs) m = Some (Inr (changed, m))"
    by (subst modify_scan.simps) (simp add: ni_page_def)
  with Nil show ?case by simp
next
  case (Cons e ys)
  note at = entry_at [OF Cons.prems]
  let ?off = "20 + esize xs"
  show ?case
  proof (cases "cur_tran e = tid_id t")
    case False
    have "modify_scan r (Some t) mode timer changed ?off m
        = modify_scan r (Some t) mode timer changed (20 + esize (xs @ [e])) m"
      using at False assms(4) by (subst modify_scan.simps) (auto simp: Let_def add.assoc)
    with Cons.IH [of m "xs @ [e]"] Cons.prems False show ?thesis
      by (simp add: es_modify_Cons modify_entry_def)
  next
    case True
    obtain m1 xs1 where step: "modify_scan r (Some t) mode timer changed ?off m
        = modify_scan r (Some t) mode timer True (20 + esize xs1) (put_32 m1 8 timer)"
      and p1: "ni_page m1 (xs1 @ ys)" and xs1: "xs1 @ es_modify timer t mode ys = xs @ es_modify timer t mode (e # ys)"
    proof (cases "mode = 1 \<and> del_t e = -1")
      case c: True
      show ?thesis
      proof (rule that [of xs "cut_entry m ?off (entry_size e)"])
        show "modify_scan r (Some t) mode timer changed ?off m
            = modify_scan r (Some t) mode timer True ?off (put_32 (cut_entry m ?off (entry_size e)) 8 timer)"
          using at True c assms(1) by (subst modify_scan.simps) (simp add: Let_def)
      qed (use cut_entry_page [OF Cons.prems] True c in \<open>simp_all add: es_modify_Cons modify_entry_def\<close>)
    next
      case c: False
      define e' where "e' = the (modify_entry timer t mode e)"
      define m1 where "m1 = (if mode = 0 \<and> del_t e = -1 then put_32 (put_32 m (?off + 12) timer) (?off + 8) (-1)
        else put_32 (put_32 m (?off + 16) (if mode = 0 then timer else -1)) (?off + 8) (-1))"
      have me: "modify_entry timer t mode e = Some e'"
        using True c assms(4) by (auto simp: modify_entry_def e'_def)
      have "ni_page m1 (xs @ e' # ys)"
        using True c assms(3,4) set_cur_tran [OF set_add_t [OF Cons.prems, of timer], of "-1"]
          set_cur_tran [OF set_del_t [OF Cons.prems, of "if mode = 0 then timer else -1"], of "-1"]
        by (auto simp: m1_def e'_def modify_entry_def timer_ok_def)
      moreover have "entry_size e' = entry_size e"
        using me True by (auto simp: modify_entry_def entry_size_def split: if_splits)
      moreover have "modify_scan r (Some t) mode timer changed ?off m
          = modify_scan r (Some t) mode timer True (?off + entry_size e) (put_32 m1 8 timer)"
        using at True c assms(1,4) by (subst modify_scan.simps) (auto simp: Let_def m1_def)
      ultimately show ?thesis
        using that [of "xs @ [e']" m1] me by (simp add: es_modify_Cons add.assoc)
    qed
    obtain m' ch where "modify_scan r (Some t) mode timer True (20 + esize xs1) (put_32 m1 8 timer) = Some (Inr (ch, m'))"
      "ni_page m' (xs1 @ es_modify timer t mode ys)" "ts_kept timer (put_32 m1 8 timer) m'"
      using Cons.IH [of "put_32 m1 8 timer" xs1 True] p1 by auto
    with step xs1 ts_kept_trans [OF ts_kept_set [OF assms(3), of m m1]] show ?thesis
      by auto
  qed
qed

text \<open>The lookup. \<open>hits\<close> are the places of the entries found.\<close>

definition root_entry :: "ix_entry \<Rightarrow> RootEntry" where
  "root_entry e = \<lparr>re_addTime = add_t e, re_delTime = del_t e, re_modyfierTransactionId = cur_tran e,
     re_logicalID = l_id e\<rparr>"

fun hits :: "(ix_entry \<Rightarrow> bool) \<Rightarrow> int \<Rightarrow> int \<Rightarrow> ix_entry list \<Rightarrow> (int \<times> int) list" where
  "hits P i off [] = []"
| "hits P i off (e # es) = (if P e then [(i, off)] else []) @ hits P i (off + entry_size e) es"

definition collected :: "(ix_entry \<Rightarrow> bool) \<Rightarrow> int \<Rightarrow> int \<Rightarrow> ix_entry list \<Rightarrow> found \<Rightarrow> found" where
  "collected P i off es acc =
     \<lparr>roots = roots acc @ map l_id (filter P es),
      indexContent = map_option (\<lambda>ix. ix @ map root_entry es) (indexContent acc),
      entries = map_option (\<lambda>h. h @ hits P i off es) (entries acc)\<rparr>"

definition finds :: "(mem \<Rightarrow> int \<Rightarrow> bool) \<Rightarrow> (ix_entry \<Rightarrow> bool) \<Rightarrow> bool" where
  "finds test P \<longleftrightarrow> (\<forall>m xs e ys. ni_page m (xs @ e # ys) \<longrightarrow> test m (20 + esize xs) = P e)"

lemma collected_Nil [simp]: "collected P i off [] acc = acc"
  by (cases acc) (simp add: collected_def option.map_ident)

lemma collect_scan_page:
  assumes "finds findTest P" "finds vis V" "ni_page m (xs @ ys)"
  shows "collect_scan findTest vis i acc (20 + esize xs) m
    = Some (collected (\<lambda>e. P e \<and> V e) i (20 + esize xs) ys acc)"
  using assms(3)
proof (induction ys arbitrary: xs acc)
  case Nil
  then show ?case
    by (subst collect_scan.simps) (simp add: ni_page_def)
next
  case (Cons e ys)
  note at = entry_at [OF Cons.prems]
  have f: "findTest m (20 + esize xs) = P e" "vis m (20 + esize xs) = V e"
    using assms(1,2) Cons.prems unfolding finds_def by blast+
  have p: "ni_page m ((xs @ [e]) @ ys)" using Cons.prems by simp
  have "collect_scan findTest vis i acc (20 + esize xs) m
      = collect_scan findTest vis i (collected (\<lambda>e. P e \<and> V e) i (20 + esize xs) [e] acc) (20 + esize (xs @ [e])) m"
    using at f by (subst collect_scan.simps)
      (cases acc; simp add: Let_def collected_def root_entry_def add.assoc option.map_comp comp_def option.map_ident)
  also have "\<dots> = Some (collected (\<lambda>e. P e \<and> V e) i (20 + esize xs) (e # ys) acc)"
    unfolding Cons.IH [OF p]
    by (simp add: collected_def option.map_comp comp_def add.assoc)
  finally show ?case .
qed

section \<open>What the lookups compare\<close>

lemma byte_of_char_of_byte [simp]: "byte_of_char (char_of_byte b) = b"
proof -
  have "uint b mod 256 = uint b"
    using uint_bounded [of b] by (simp add: zmod_trivial_iff)
  then show ?thesis
    by (simp add: byte_of_char_def char_of_byte_def)
qed

text \<open>The first text of an entry.\<close>

definition e_name :: "ix_entry \<Rightarrow> string" where
  "e_name e = map char_of_byte (takeWhile (\<lambda>b. b \<noteq> 0) (e_text e))"

definition named :: "string \<Rightarrow> ix_entry \<Rightarrow> bool" where
  "named nm e \<longleftrightarrow> cstr nm = [] \<or> e_name e = cstr nm"

definition begins :: "string \<Rightarrow> ix_entry \<Rightarrow> bool" where
  "begins nm e \<longleftrightarrow> take (length (cstr nm)) (e_name e) = cstr nm"

lemma chars_bytes: "map char_of_byte bs = s \<longleftrightarrow> bs = map byte_of_char s"
  by (auto simp: comp_def)

lemma cstr_nonzero: "c \<in> set (cstr s) \<Longrightarrow> byte_of_char c \<noteq> 0"
  by (auto simp: cstr_def dest: set_takeWhileD)

lemma str_eq_text:
  assumes "holds m a tx" "0 \<in> set tx" "\<forall>c\<in>set ws. byte_of_char c \<noteq> 0"
  shows "str_eq ws m a \<longleftrightarrow> takeWhile (\<lambda>b. b \<noteq> 0) tx = map byte_of_char ws"
  using assms
proof (induction ws arbitrary: a tx)
  case Nil
  then show ?case by (cases tx) (auto simp: holds_cons)
next
  case (Cons c cs)
  then show ?case by (cases tx) (auto simp: holds_cons)
qed

lemma str_prefix_text:
  assumes "holds m a tx" "0 \<in> set tx" "\<forall>c\<in>set ws. byte_of_char c \<noteq> 0"
  shows "str_prefix ws m a \<longleftrightarrow> take (length ws) (takeWhile (\<lambda>b. b \<noteq> 0) tx) = map byte_of_char ws"
  using assms
proof (induction ws arbitrary: a tx)
  case (Cons c cs)
  then show ?case by (cases tx) (auto simp: holds_cons)
qed simp

lemma ni_page_entry_ok: "ni_page m (xs @ e # ys) \<Longrightarrow> entry_ok e"
  by (simp add: ni_page_def)

lemma finds_name: "finds (findByName nm) (named nm)"
  unfolding finds_def
proof (intro allI impI)
  fix m xs e ys
  assume p: "ni_page m (xs @ e # ys)"
  have z: "0 \<in> set (e_text e)"
    using ni_page_entry_ok [OF p] by (simp add: entry_ok_def)
  have "str_eq (cstr nm) m (20 + esize xs + 20) \<longleftrightarrow> e_name e = cstr nm"
    using str_eq_text [OF entry_at(6) [OF p] z, of "cstr nm"] by (auto simp: cstr_nonzero e_name_def chars_bytes)
  then show "findByName nm m (20 + esize xs) = named nm e"
    by (simp add: findByName_def named_def)
qed

lemma finds_begin: "finds (findNamesWithBegin nm) (begins nm)"
  unfolding finds_def
proof (intro allI impI)
  fix m xs e ys
  assume p: "ni_page m (xs @ e # ys)"
  have z: "0 \<in> set (e_text e)"
    using ni_page_entry_ok [OF p] by (simp add: entry_ok_def)
  have "str_prefix (cstr nm) m (20 + esize xs + 20) \<longleftrightarrow> take (length (cstr nm)) (e_name e) = cstr nm"
    using str_prefix_text [OF entry_at(6) [OF p] z, of "cstr nm"]
    by (auto simp: cstr_nonzero e_name_def take_map chars_bytes)
  then show "findNamesWithBegin nm m (20 + esize xs) = begins nm e"
    by (simp add: findNamesWithBegin_def begins_def)
qed

lemma finds_visible:
  assumes "STORE_IX_NULLVALUE r = -1" "tid_ok t"
  shows "finds (visible_at r t) (visible t)"
  using assms entry_at unfolding finds_def
  by (auto simp: visible_at_def visible_def tid_ok_def s32_id)

lemma finds_views_visible:
  assumes "tid_ok t"
  shows "finds (views_visible_at t) (visible t)"
  unfolding finds_def
proof (intro allI impI)
  fix m xs e ys
  assume p: "ni_page m (xs @ e # ys)"
  have "add_t e mod 18446744073709551616 = add_t e"
    using ni_page_entry_ok [OF p] by (simp add: entry_ok_def)
  then show "views_visible_at t m (20 + esize xs) = visible t e"
    by (simp add: views_visible_at_def visible_def entry_at [OF p] Views_def)
qed

lemma e_name_new [simp]: "e_name (new_entry t lid (c_text nm @ rest)) = cstr nm"
proof -
  have "takeWhile (\<lambda>b. b \<noteq> 0) (map byte_of_char (cstr nm) @ 0 # rest) = map byte_of_char (cstr nm)"
    by (subst takeWhile_append2) (auto dest: cstr_nonzero)
  then show ?thesis
    by (simp add: e_name_def new_entry_def c_text_def comp_def)
qed

lemma new_entry_ok: "tid_ok t \<Longrightarrow> -2147483648 \<le> lid \<Longrightarrow> lid < 2147483648 \<Longrightarrow> 0 \<in> set tx \<Longrightarrow> entry_ok (new_entry t lid tx)"
  by (simp add: entry_ok_def new_entry_def tid_ok_def)

end
