(* ===== verification/Registries.thy ===== *)
theory Registries
  imports EntryPages
begin

text \<open>
  A registry as a whole: the loop over its pages and the contract of the operations.

  \<open>reg_rep s f es\<close> says that file \<open>f\<close> holds the entries \<open>es\<close>, in the order of pages and places. The
  operations of \<open>NamedItems\<close> and \<open>Views\<close> are shown to act on this list, whatever the distribution
  over the pages. The locale \<open>registry_laws\<close> states the contract, with what follows from it for
  transactions; it is interpreted for the five registries.
\<close>

section \<open>Pages of a registry\<close>

text \<open>The pages of a registry as the operations see them through the cache. A page that is not on the disk reads as an empty page, so
  this says nothing of the files: that they are created and initialised is a statement of its own (\<open>fresh_file\<close> in
  \<open>StoreRegistries\<close>).\<close>

definition reg_at :: "storage \<Rightarrow> int \<Rightarrow> ix_entry list list \<Rightarrow> bool" where
  "reg_at s f ps \<longleftrightarrow> pool_inv s \<and> timer_ok (idSeq s) \<and> f \<in> set file_ids \<and> length ps \<le> 65534
     \<and> (\<forall>i<length ps. ni_page (page_view s f (int i + 1)) (ps ! i)
          \<and> page_timestamp (page_view s f (int i + 1)) \<noteq> -1)
     \<and> (\<forall>p. int (length ps) < p \<and> p < 65536 \<longrightarrow>
          ni_page (page_view s f p) [] \<and> page_timestamp (page_view s f p) = -1)"

definition reg_rep :: "storage \<Rightarrow> int \<Rightarrow> ix_entry list \<Rightarrow> bool" where
  "reg_rep s f es \<longleftrightarrow> (\<exists>ps. reg_at s f ps \<and> es = concat ps)"

lemma reg_repI [intro]: "reg_at s f ps \<Longrightarrow> concat ps = es \<Longrightarrow> reg_rep s f es"
  by (auto simp: reg_rep_def)

text \<open>What an operation on file \<open>f\<close> leaves alone.\<close>

definition only_file :: "int \<Rightarrow> storage \<Rightarrow> storage \<Rightarrow> bool" where
  "only_file f s s' \<longleftrightarrow> pool_inv s' \<and> (\<forall>h. h \<noteq> f \<longrightarrow> page_view s' h = page_view s h) \<and> same_log s s'
     \<and> map_header s' = map_header s \<and> (\<forall>pp f p. points s pp f p \<longrightarrow> points s' pp f p)"

lemma only_file_refl: "pool_inv s \<Longrightarrow> only_file f s s"
  by (simp add: only_file_def same_log_def)

lemma only_file_trans: "only_file f s t \<Longrightarrow> only_file f t u \<Longrightarrow> only_file f s u"
  by (auto simp: only_file_def same_log_def)

lemma steps_only_file: "steps s s' f p m \<Longrightarrow> only_file f s s'"
  by (simp add: steps_def only_file_def)

lemma reg_at_other:
  assumes "reg_at s h ps" "only_file f s s'" "h \<noteq> f"
  shows "reg_at s' h ps"
  using assms by (simp add: reg_at_def only_file_def same_log_def)

lemma page_timestamp_clip [simp]: "page_timestamp (clip m) = page_timestamp m"
  by (simp add: page_timestamp_def)

lemma reg_valid: "reg_at s f ps \<Longrightarrow> 0 \<le> p \<Longrightarrow> p < 65536 \<Longrightarrow> valid_page f p"
  by (simp add: reg_at_def valid_page_def)

lemma reg_at_update:
  assumes "reg_at s f (qs @ p # ps)" "steps s s' f (int (length qs) + 1) m" "ni_page m p'"
    "page_timestamp m \<noteq> -1"
  shows "reg_at s' f (qs @ p' # ps)"
proof -
  have view: "page_view s' f i = (if i = int (length qs) + 1 then m else page_view s f i)" for i
    using assms(2) by (simp add: steps_def)
  have inv: "pool_inv s'" "idSeq s' = idSeq s"
    using assms(2) by (simp_all add: steps_def same_log_def)
  have "ni_page (page_view s' f (int i + 1)) ((qs @ p' # ps) ! i)
      \<and> page_timestamp (page_view s' f (int i + 1)) \<noteq> -1" if "i < length (qs @ p' # ps)" for i
  proof (cases "i = length qs")
    case False
    then have "(qs @ p' # ps) ! i = (qs @ p # ps) ! i"
      by (auto simp: nth_append nth_Cons')
    with assms(1) that False show ?thesis
      by (simp add: reg_at_def view del: nth_append)
  qed (use assms(3,4) view in simp)
  with assms(1) inv view show ?thesis
    by (auto simp: reg_at_def)
qed

lemma page_with_steps:
  assumes "pool_inv s" "valid_page f p" "g (page_view s f p) = Some (Inr (r, sync, m))"
  shows "\<exists>s'. page_with s f p g = Some (s', Inr r) \<and> steps s s' f p (clip m)"
proof -
  obtain s1 pp where 1: "getPagePointer s f p = (s1, Inr (Some pp))" "pool_inv s1" "page_view s1 = page_view s"
    "points s1 pp f p"
    using bp.get_law [OF assms(1,2)] by blast
  obtain s2 where 2: "pp_aquire s1 pp = (s2, 0)" "pool_inv s2" "page_view s2 = page_view s" "points s2 = points s1"
    using bp.acq_law [OF 1(2,4)] 1(3) by auto
  have "pp_getPage s2 pp = page_view s f p"
    using bp.page_law [of s2 pp f p] 1(4) 2 by simp
  then have "page_with s f p g
      = Some (if sync then page_sync s f p (\<lambda>_. (r, m)) else page_rel s f p (\<lambda>_. (r, m)))"
    using 1(1) 2(1) assms(3) by (simp add: page_with_def page_sync_def page_rel_def with_page_def Let_def)
  with page_sync_steps [OF assms(1,2), of "\<lambda>_. (r, m)"] page_rel_steps [OF assms(1,2), of "\<lambda>_. (r, m)"]
  show ?thesis by (cases sync) auto
qed

lemma reg_page_with:
  assumes "reg_at s f ps" "0 < i" "i < 65536" "g (page_view s f i) = Some (Inr (r, sync, m))"
  shows "\<exists>s'. page_with s f (u32 i) g = Some (s', Inr r) \<and> steps s s' f i (clip m)"
proof -
  have "u32 i = i"
    using assms(2,3) by (simp add: u32_def)
  with page_with_steps [of s f i g] assms reg_valid [OF assms(1), of i] show ?thesis
    by (simp add: reg_at_def)
qed

section \<open>The loop over the pages\<close>

text \<open>The contract between the loop and the work on one page: on a page in use the work computes
  \<open>step\<close> on its entries, and a page with the null timestamp ends the loop. Then the loop computes
  \<open>run\<close>, the iteration of \<open>step\<close> over the pages.\<close>

locale page_scan =
  fixes okx :: "'x \<Rightarrow> bool"
    and g :: "'x \<Rightarrow> int \<Rightarrow> int \<Rightarrow> 'a \<Rightarrow> mem \<Rightarrow> (fault + (int \<times> 'a) \<times> bool \<times> mem) option"
    and step :: "'x \<Rightarrow> int \<Rightarrow> int \<Rightarrow> 'a \<Rightarrow> ix_entry list \<Rightarrow> bool \<times> 'a \<times> ix_entry list"
  assumes work: "okx x \<Longrightarrow> timer_ok timer \<Longrightarrow> ni_page m es \<Longrightarrow> page_timestamp m \<noteq> -1 \<Longrightarrow> 0 < i \<Longrightarrow> i < 65535 \<Longrightarrow>
      step x timer i a es = (stop, a', es') \<Longrightarrow>
      \<exists>m' sync. g x timer i a m = Some (Inr ((if stop then 0 else i + 1, a'), sync, m'))
        \<and> ni_page m' es' \<and> page_timestamp m' \<noteq> -1"
    and last_page: "okx x \<Longrightarrow> page_timestamp m = -1 \<Longrightarrow> \<exists>sync. g x timer i a m = Some (Inr ((0, a), sync, m))"
begin

fun run :: "'x \<Rightarrow> int \<Rightarrow> int \<Rightarrow> 'a \<Rightarrow> ix_entry list list \<Rightarrow> 'a \<times> ix_entry list list" where
  "run x timer i a [] = (a, [])"
| "run x timer i a (p # ps) =
     (let (stop, a', p') = step x timer i a p
      in if stop then (a', p' # ps)
         else let (a'', ps') = run x timer (i + 1) a' ps in (a'', p' # ps'))"

lemma loop:
  assumes "okx x" "reg_at s f (qs @ ps)" "run x (idSeq s) (int (length qs) + 1) a ps = (a', ps')"
  shows "\<exists>s'. page_loop f (g x) (int (length qs) + 1) a s = Some (s', Inr a') \<and> reg_at s' f (qs @ ps')
    \<and> only_file f s s'"
  using assms(2,3)
proof (induction ps arbitrary: qs a s ps')
  case Nil
  let ?i = "int (length qs) + 1"
  have r: "ni_page (page_view s f ?i) []" "page_timestamp (page_view s f ?i) = -1" "?i < 65536"
    using Nil.prems(1) by (auto simp: reg_at_def)
  obtain sync where g: "g x (idSeq s) ?i a (page_view s f ?i) = Some (Inr ((0, a), sync, page_view s f ?i))"
    using last_page [OF assms(1) r(2)] by blast
  from reg_page_with [OF Nil.prems(1) _ r(3), of "g x (idSeq s) ?i a"] g obtain s' where
    s': "page_with s f (u32 ?i) (g x (idSeq s) ?i a) = Some (s', Inr (0, a))"
      "steps s s' f ?i (clip (page_view s f ?i))" by auto
  have "clip (page_view s f ?i) = page_view s f ?i"
    using Nil.prems(1) by (simp add: reg_at_def)
  then have "page_view s' = page_view s"
    using s'(2) by (simp add: steps_def fun_upd_idem)
  then have "reg_at s' f qs"
    using Nil.prems(1) s'(2) by (simp add: reg_at_def steps_def same_log_def)
  moreover have "page_loop f (g x) ?i a s = page_loop f (g x) 0 a s'"
    using s'(1) by (subst page_loop.simps) (simp add: getLogicalTimerValue_def)
  ultimately show ?case
    using Nil.prems(2) steps_only_file [OF s'(2)] by (simp add: page_loop.simps)
next
  case (Cons p ps)
  let ?i = "int (length qs) + 1"
  obtain stop a1 p1 where st: "step x (idSeq s) ?i a p = (stop, a1, p1)"
    by (metis prod_cases3)
  have r: "ni_page (page_view s f ?i) p" "page_timestamp (page_view s f ?i) \<noteq> -1" "?i < 65535" "timer_ok (idSeq s)"
    using Cons.prems(1) by (auto simp: reg_at_def nth_append dest: spec [where x = "length qs"])
  obtain m' sync where m': "g x (idSeq s) ?i a (page_view s f ?i) = Some (Inr ((if stop then 0 else ?i + 1, a1), sync, m'))"
    "ni_page m' p1" "page_timestamp m' \<noteq> -1"
    using work [OF assms(1) r(4,1,2) _ r(3) st] by auto
  from reg_page_with [OF Cons.prems(1), of ?i "g x (idSeq s) ?i a"] m'(1) r(3) obtain s1 where
    s1: "page_with s f (u32 ?i) (g x (idSeq s) ?i a) = Some (s1, Inr (if stop then 0 else ?i + 1, a1))"
      "steps s s1 f ?i (clip m')" by auto
  have r1: "reg_at s1 f (qs @ p1 # ps)"
    by (rule reg_at_update [OF Cons.prems(1) s1(2)]) (use m' in simp_all)
  have l: "page_loop f (g x) ?i a s = page_loop f (g x) (if stop then 0 else ?i + 1) a1 s1"
    using s1(1) by (subst page_loop.simps) (simp add: getLogicalTimerValue_def)
  show ?case
  proof (cases stop)
    case True
    with l Cons.prems(2) st r1 steps_only_file [OF s1(2)] show ?thesis
      by (simp add: page_loop.simps)
  next
    case False
    have id: "idSeq s1 = idSeq s"
      using s1(2) by (simp add: steps_def same_log_def)
    obtain ps2 where ps2: "run x (idSeq s1) (int (length (qs @ [p1])) + 1) a1 ps = (a', ps2)" "ps' = p1 # ps2"
      using Cons.prems(2) st False id by (auto simp: split_beta prod_eq_iff)
    from Cons.IH [of s1 "qs @ [p1]", OF _ ps2(1)] r1 obtain s' where
      "page_loop f (g x) (?i + 1) a1 s1 = Some (s', Inr a')" "reg_at s' f (qs @ ps')" "only_file f s1 s'"
      using ps2(2) by auto
    with l False only_file_trans [OF steps_only_file [OF s1(2)]] show ?thesis by auto
  qed
qed

lemma loop_all:
  assumes "okx x" "reg_at s f ps" "run x (idSeq s) 1 a ps = (a', ps')"
  shows "\<exists>s'. page_loop f (g x) 1 a s = Some (s', Inr a') \<and> reg_at s' f ps' \<and> only_file f s s'"
  using loop [of x s f "[]" ps a a' ps'] assms by simp

end

section \<open>The three scans\<close>

definition scan_ok :: "registry \<times> TransactionID \<Rightarrow> bool" where
  "scan_ok x \<longleftrightarrow> STORE_IX_NULLVALUE (fst x) = -1 \<and> tid_ok (snd x)"

lemma ts_kept_null: "ts_kept timer m m' \<Longrightarrow> timer_ok timer \<Longrightarrow> page_timestamp m \<noteq> -1 \<Longrightarrow> page_timestamp m' \<noteq> -1"
  by (auto simp: ts_kept_def timer_ok_def)

lemma ni_page_empty: "ni_page m es \<Longrightarrow> ip_entries m = 0 \<longleftrightarrow> es = []"
  by (simp add: ni_page_def)

lemma next_page [simp]: "0 < i \<Longrightarrow> i < 65535 \<Longrightarrow> s32 (i + 1) = i + 1"
  by (simp add: s32_id)

interpretation rem: page_scan "\<lambda>(x, lid). scan_ok x" "\<lambda>((r, t), lid). remove_page r t lid"
  "\<lambda>((r, t), lid) timer i u es. (\<exists>e\<in>set es. l_id e = lid, (), es_remove t lid es)"
proof (unfold_locales, goal_cases)
  case (1 x timer m es i a stop a' es')
  obtain r t lid where x: "x = ((r, t), lid)" by (cases x) auto
  have "\<exists>m'. remove_scan r t lid timer i (20 + esize []) m = Some (if \<exists>e\<in>set es. l_id e = lid then 0 else i, m')
      \<and> ni_page m' ([] @ es_remove t lid es) \<and> ts_kept timer m m'"
    using 1 x by (intro remove_scan_page) (simp_all add: scan_ok_def)
  with 1 x ts_kept_null show ?case
    by (cases "es = []") (auto simp: remove_page_def scan_ok_def ni_page_empty)
next
  case (2 x m timer i a)
  then show ?case by (auto simp: remove_page_def scan_ok_def split: prod.splits)
qed

interpretation modi: page_scan "\<lambda>(x, mode). scan_ok x \<and> (mode = 0 \<or> mode = 1)"
  "\<lambda>((r, t), mode). modify_page r (Some t) mode"
  "\<lambda>((r, t), mode) timer i u es. (False, (), es_modify timer t mode es)"
proof (unfold_locales, goal_cases)
  case (1 x timer m es i a stop a' es')
  obtain r t mode where x: "x = ((r, t), mode)" by (cases x) auto
  have "\<exists>m' ch. modify_scan r (Some t) mode timer False (20 + esize []) m = Some (Inr (ch, m'))
      \<and> ni_page m' ([] @ es_modify timer t mode es) \<and> ts_kept timer m m'"
    using 1 x by (intro modify_scan_page) (simp_all add: scan_ok_def)
  with 1 x ts_kept_null show ?case
    by (cases "es = []") (auto simp: modify_page_def scan_ok_def ni_page_empty)
next
  case (2 x m timer i a)
  then show ?case by (auto simp: modify_page_def scan_ok_def split: prod.splits)
qed

interpretation coll: page_scan "\<lambda>(findTest, P, vis, V). finds findTest P \<and> finds vis V"
  "\<lambda>(findTest, P, vis, V). collect_page (-1) findTest vis"
  "\<lambda>(findTest, P, vis, V) timer i acc es. (False, collected (\<lambda>e. P e \<and> V e) i 20 es acc, es)"
proof (unfold_locales, goal_cases)
  case (1 x timer m es i a stop a' es')
  obtain findTest P vis V where x: "x = (findTest, P, vis, V)" by (cases x) auto
  have "collect_scan findTest vis i a (20 + esize []) m = Some (collected (\<lambda>e. P e \<and> V e) i (20 + esize []) es a)"
    using 1 x by (intro collect_scan_page) simp_all
  with 1 x show ?case
    by (cases "es = []") (auto simp: collect_page_def ni_page_empty)
next
  case (2 x m timer i a)
  then show ?case by (auto simp: collect_page_def split: prod.splits)
qed

lemma rem_run:
  "rem.run ((r, t), lid) timer i u ps = (u', ps') \<Longrightarrow> concat ps' = es_remove t lid (concat ps)"
proof (induction ps arbitrary: i ps')
  case (Cons p ps)
  then show ?case
    by (auto simp: es_remove_append es_remove_none split: if_splits prod.splits)
qed simp

lemma modi_run:
  "modi.run ((r, t), mode) timer i u ps = (u', ps') \<Longrightarrow> concat ps' = es_modify timer t mode (concat ps)"
  by (induction ps arbitrary: i ps') (auto split: prod.splits)

text \<open>The places of the entries found, over all pages.\<close>

fun page_hits :: "(ix_entry \<Rightarrow> bool) \<Rightarrow> int \<Rightarrow> ix_entry list list \<Rightarrow> (int \<times> int) list" where
  "page_hits P i [] = []"
| "page_hits P i (p # ps) = hits P i 20 p @ page_hits P (i + 1) ps"

lemma coll_run:
  "coll.run (findTest, P, vis, V) timer i acc ps = (acc', ps') \<Longrightarrow> ps' = ps
    \<and> acc' = \<lparr>roots = roots acc @ map l_id (filter (\<lambda>e. P e \<and> V e) (concat ps)),
       indexContent = map_option (\<lambda>ix. ix @ map root_entry (concat ps)) (indexContent acc),
       entries = map_option (\<lambda>h. h @ page_hits (\<lambda>e. P e \<and> V e) i ps) (entries acc)\<rparr>"
proof (induction ps arbitrary: i acc ps')
  case Nil
  then show ?case by (cases acc) (simp add: option.map_ident)
next
  case (Cons p ps)
  obtain ps2 where ps2: "coll.run (findTest, P, vis, V) timer (i + 1)
      (collected (\<lambda>e. P e \<and> V e) i 20 p acc) ps = (acc', ps2)" "ps' = p # ps2"
    using Cons.prems by (auto split: prod.splits)
  with Cons.IH [OF ps2(1)] show ?case
    by (simp add: collected_def option.map_comp comp_def)
qed

section \<open>First fit\<close>

definition reg_room :: "storage \<Rightarrow> int \<Rightarrow> int \<Rightarrow> bool" where
  "reg_room s f n \<longleftrightarrow> (\<exists>p. 0 < p \<and> p < 65535 \<and> n \<le> ip_free (page_view s f p))"

lemma reg_at_extend:
  assumes "reg_at s f qs" "steps s s' f (int (length qs) + 1) m" "ni_page m p'" "page_timestamp m \<noteq> -1"
    "length qs < 65534"
  shows "reg_at s' f (qs @ [p'])"
proof -
  have view: "page_view s' f i = (if i = int (length qs) + 1 then m else page_view s f i)" for i
    using assms(2) by (simp add: steps_def)
  have inv: "pool_inv s'" "idSeq s' = idSeq s"
    using assms(2) by (simp_all add: steps_def same_log_def)
  show ?thesis
    using assms(1,3,4,5) inv by (auto simp: reg_at_def view nth_append less_Suc_eq)
qed

lemma add_loop:
  assumes "entry_ok e" "entry_size e \<le> 16364" "reg_at s f (qs @ ps)" "reg_room s f (entry_size e)"
    "\<forall>q\<in>set qs. 16364 < esize q + entry_size e"
  shows "\<exists>s' ps' xs ys. page_loop f (add_page (entry_bytes e)) (int (length qs) + 1) () s = Some (s', Inr ())
    \<and> reg_at s' f (qs @ ps') \<and> only_file f s s' \<and> concat ps = xs @ ys \<and> concat ps' = xs @ e # ys"
  using assms(3-)
proof (induction ps arbitrary: qs s)
  case Nil
  let ?i = "int (length qs) + 1" and ?g = "add_page (entry_bytes e)"
  have full: "ip_free (page_view s f (int j + 1)) < entry_size e" if "j < length qs" for j
    using Nil.prems(1,3) that by (fastforce simp: reg_at_def ni_page_def dest: nth_mem)
  obtain p where p: "0 < p" "p < 65535" "entry_size e \<le> ip_free (page_view s f p)"
    using Nil.prems(2) by (auto simp: reg_room_def)
  have len: "length qs < 65534"
    using p full [of "nat (p - 1)"] by fastforce
  have pg: "ni_page (page_view s f ?i) []"
    using Nil.prems(1) len by (simp add: reg_at_def)
  let ?m = "append_entry (page_view s f ?i) [] e (idSeq s)"
  have g: "?g (idSeq s) ?i () (page_view s f ?i) = Some (Inr ((0, ()), True, ?m))" "ni_page ?m [e]"
    using append_entry_page [OF pg assms(1)] assms(2) by simp_all
  have ts: "page_timestamp ?m \<noteq> -1"
    using Nil.prems(1) by (simp add: append_entry_def reg_at_def timer_ok_def s32_id)
  obtain s' where s': "page_with s f (u32 ?i) (?g (idSeq s) ?i ()) = Some (s', Inr (0, ()))"
    "steps s s' f ?i (clip ?m)"
    using reg_page_with [OF Nil.prems(1), of ?i "?g (idSeq s) ?i ()"] g(1) len by auto
  have "reg_at s' f (qs @ [[e]])"
    using reg_at_extend [of s f qs s' "clip ?m" "[e]"] Nil.prems(1) s'(2) g(2) ts len by simp
  moreover have "page_loop f ?g ?i () s = Some (s', Inr ())"
    using s'(1) by (subst page_loop.simps) (simp add: getLogicalTimerValue_def page_loop.simps)
  ultimately show ?case
    using steps_only_file [OF s'(2)] by (intro exI [of _ s'] exI [of _ "[[e]]"]) simp
next
  case (Cons p ps)
  let ?i = "int (length qs) + 1" and ?g = "add_page (entry_bytes e)"
  have r: "ni_page (page_view s f ?i) p" "page_timestamp (page_view s f ?i) \<noteq> -1" "?i < 65535" "timer_ok (idSeq s)"
    using Cons.prems(1) by (auto simp: reg_at_def nth_append dest: spec [where x = "length qs"])
  show ?case
  proof (cases "esize p + entry_size e \<le> 16364")
    case True
    let ?m = "append_entry (page_view s f ?i) p e (idSeq s)"
    have g: "?g (idSeq s) ?i () (page_view s f ?i) = Some (Inr ((0, ()), True, ?m))" "ni_page ?m (p @ [e])"
      using append_entry_page [OF r(1) assms(1) True] by simp_all
    have ts: "page_timestamp ?m \<noteq> -1"
      using r(4) by (simp add: append_entry_def timer_ok_def s32_id)
    obtain s' where s': "page_with s f (u32 ?i) (?g (idSeq s) ?i ()) = Some (s', Inr (0, ()))"
      "steps s s' f ?i (clip ?m)"
      using reg_page_with [OF Cons.prems(1), of ?i "?g (idSeq s) ?i ()"] g(1) r(3) by auto
    have "reg_at s' f (qs @ (p @ [e]) # ps)"
      by (rule reg_at_update [OF Cons.prems(1) s'(2)]) (use g(2) ts in simp_all)
    moreover have "page_loop f ?g ?i () s = Some (s', Inr ())"
      using s'(1) by (subst page_loop.simps) (simp add: getLogicalTimerValue_def page_loop.simps)
    ultimately show ?thesis
      using steps_only_file [OF s'(2)]
      by (intro exI [of _ s'] exI [of _ "(p @ [e]) # ps"] exI [of _ p] exI [of _ "concat ps"]) simp
  next
    case False
    have g: "?g (idSeq s) ?i () (page_view s f ?i) = Some (Inr ((?i + 1, ()), False, page_view s f ?i))"
      using add_page_full [OF r(1)] False r(3) next_page [of ?i] by simp
    obtain s1 where s1: "page_with s f (u32 ?i) (?g (idSeq s) ?i ()) = Some (s1, Inr (?i + 1, ()))"
      "steps s s1 f ?i (clip (page_view s f ?i))"
      using reg_page_with [OF Cons.prems(1), of ?i "?g (idSeq s) ?i ()"] g r(3) by auto
    have v: "page_view s1 = page_view s"
      using s1(2) Cons.prems(1) by (simp add: steps_def reg_at_def fun_upd_idem)
    have r1: "reg_at s1 f ((qs @ [p]) @ ps)"
      using Cons.prems(1) s1(2) v by (simp add: reg_at_def steps_def same_log_def)
    have "reg_room s1 f (entry_size e)" "\<forall>q\<in>set (qs @ [p]). 16364 < esize q + entry_size e"
      using Cons.prems(2,3) v False by (simp_all add: reg_room_def)
    from Cons.IH [OF r1 this] obtain s' ps' xs ys where
      IH: "page_loop f ?g (?i + 1) () s1 = Some (s', Inr ())" "reg_at s' f (qs @ p # ps')" "only_file f s1 s'"
        "concat ps = xs @ ys" "concat ps' = xs @ e # ys" by auto
    have "page_loop f ?g ?i () s = Some (s', Inr ())"
      using s1(1) IH(1) by (subst page_loop.simps) (simp add: getLogicalTimerValue_def)
    then show ?thesis
      using IH only_file_trans [OF steps_only_file [OF s1(2)] IH(3)]
      by (intro exI [of _ s'] exI [of _ "p # ps'"] exI [of _ "p @ xs"] exI [of _ ys]) simp
  qed
qed

section \<open>The operations\<close>

definition reg_ok :: "registry \<Rightarrow> bool" where
  "reg_ok r \<longleftrightarrow> STORE_IX_NULLVALUE r = -1 \<and> STORE_FILE r \<in> set file_ids \<and> STORE_IX_NAMEMAXLEN r \<le> 1000"

lemma registries_ok: "reg_ok NamedRoots" "reg_ok Classes" "reg_ok Interfaces" "reg_ok StoreSchemas" "reg_ok Views"
  by (simp_all add: reg_ok_def NamedRoots_def Classes_def Interfaces_def StoreSchemas_def Views_def file_ids_def)

definition lid_ok :: "int \<Rightarrow> bool" where
  "lid_ok lid \<longleftrightarrow> -2147483648 \<le> lid \<and> lid < 2147483648"

lemma removeItem_rep:
  assumes "reg_ok r" "tid_ok t" "reg_rep s (STORE_FILE r) es"
  shows "\<exists>s'. removeItem r s t lid = Some (s', Inr 0) \<and> reg_rep s' (STORE_FILE r) (es_remove t lid es)
    \<and> only_file (STORE_FILE r) s s'"
proof -
  obtain ps where ps: "reg_at s (STORE_FILE r) ps" "es = concat ps"
    using assms(3) by (auto simp: reg_rep_def)
  obtain u ps' where run: "rem.run ((r, t), lid) (idSeq s) 1 () ps = (u, ps')"
    by (cases "rem.run ((r, t), lid) (idSeq s) 1 () ps") blast
  with rem.loop_all [OF _ ps(1) run] assms(1,2) rem_run [OF run] ps(2) show ?thesis
    by (auto simp: removeItem_def scan_ok_def reg_ok_def)
qed

lemma modifyTransaction_rep:
  assumes "reg_ok r" "tid_ok t" "mode = 0 \<or> mode = 1" "reg_rep s (STORE_FILE r) es"
  shows "\<exists>s'. modifyTransaction r s (Some t) mode = Some (s', Inr 0)
    \<and> reg_rep s' (STORE_FILE r) (es_modify (idSeq s) t mode es) \<and> only_file (STORE_FILE r) s s'"
proof -
  obtain ps where ps: "reg_at s (STORE_FILE r) ps" "es = concat ps"
    using assms(4) by (auto simp: reg_rep_def)
  obtain u ps' where run: "modi.run ((r, t), mode) (idSeq s) 1 () ps = (u, ps')"
    by (cases "modi.run ((r, t), mode) (idSeq s) 1 () ps") blast
  with modi.loop_all [OF _ ps(1) run] assms(1-3) modi_run [OF run] ps(2) show ?thesis
    by (auto simp: modifyTransaction_def scan_ok_def reg_ok_def)
qed

lemma collect_rep:
  assumes "finds findTest P" "finds vis V" "reg_at s f ps"
  shows "\<exists>s'. page_loop f (collect_page (-1) findTest vis) 1 \<lparr>roots = [], indexContent = ix, entries = en\<rparr> s
      = Some (s', Inr \<lparr>roots = map l_id (filter (\<lambda>e. P e \<and> V e) (concat ps)),
          indexContent = map_option (\<lambda>ix. ix @ map root_entry (concat ps)) ix,
          entries = map_option (\<lambda>h. h @ page_hits (\<lambda>e. P e \<and> V e) 1 ps) en\<rparr>)
    \<and> reg_at s' f ps \<and> only_file f s s'"
proof -
  obtain acc' ps' where run: "coll.run (findTest, P, vis, V) (idSeq s) 1 \<lparr>roots = [], indexContent = ix, entries = en\<rparr> ps
      = (acc', ps')"
    by fastforce
  with coll.loop_all [OF _ assms(3) run] assms(1,2) coll_run [OF run] show ?thesis
    by auto
qed

lemma getItemsByAnything_rep:
  assumes "reg_ok r" "tid_ok t" "finds findTest P" "reg_rep s (STORE_FILE r) es"
  shows "\<exists>s' fd. getItemsByAnything r s t findTest ix en = Some (s', Inr fd)
    \<and> roots fd = map l_id (filter (\<lambda>e. P e \<and> visible t e) es)
    \<and> indexContent fd = map_option (\<lambda>ix. ix @ map root_entry es) ix
    \<and> reg_rep s' (STORE_FILE r) es \<and> only_file (STORE_FILE r) s s'"
proof -
  obtain ps where ps: "reg_at s (STORE_FILE r) ps" "es = concat ps"
    using assms(4) by (auto simp: reg_rep_def)
  have n: "STORE_IX_NULLVALUE r = -1"
    using assms(1) by (simp add: reg_ok_def)
  from collect_rep [OF assms(3) finds_visible [OF n assms(2)] ps(1), of ix en] ps(2) show ?thesis
    by (force simp: getItemsByAnything_def n reg_rep_def)
qed

lemma getItems_rep:
  assumes "reg_ok r" "tid_ok t" "reg_rep s (STORE_FILE r) es"
  shows "\<exists>s' fd. getItems r s t nm ix = Some (s', Inr fd)
    \<and> roots fd = map l_id (filter (\<lambda>e. named nm e \<and> visible t e) es)
    \<and> indexContent fd = map_option (\<lambda>ix. ix @ map root_entry es) ix
    \<and> reg_rep s' (STORE_FILE r) es \<and> only_file (STORE_FILE r) s s'"
  unfolding getItems_def by (rule getItemsByAnything_rep [OF assms(1,2) finds_name assms(3)])

lemma getViews_rep:
  assumes "tid_ok t" "reg_rep s STORE_FILE_VIEWS es"
  shows "\<exists>s' fd. getViews s t nm = Some (s', Inr fd)
    \<and> roots fd = map l_id (filter (\<lambda>e. named nm e \<and> visible t e) es)
    \<and> reg_rep s' STORE_FILE_VIEWS es \<and> only_file STORE_FILE_VIEWS s s'"
proof -
  obtain ps where ps: "reg_at s STORE_FILE_VIEWS ps" "es = concat ps"
    using assms(2) by (auto simp: reg_rep_def)
  have n: "STORE_IX_NULLVALUE Views = -1"
    by (simp add: Views_def)
  from collect_rep [OF finds_name finds_views_visible [OF assms(1)] ps(1), of nm None None] ps(2) show ?thesis
    by (force simp: getViews_def n reg_rep_def)
qed

lemma addItem_buf_rep:
  assumes "reg_rep s (STORE_FILE r) es" "entry_ok e" "entry_size e \<le> 16364"
    "reg_room s (STORE_FILE r) (entry_size e)"
  shows "\<exists>s' xs ys. addItem_buf r s (entry_bytes e) = Some (s', Inr 0) \<and> es = xs @ ys
    \<and> reg_rep s' (STORE_FILE r) (xs @ e # ys) \<and> only_file (STORE_FILE r) s s'"
proof -
  obtain ps where ps: "reg_at s (STORE_FILE r) ps" "es = concat ps"
    using assms(1) by (auto simp: reg_rep_def)
  from add_loop [OF assms(2,3), of s "STORE_FILE r" "[]" ps] ps assms(4) obtain s' ps' xs ys where
    "page_loop (STORE_FILE r) (add_page (entry_bytes e)) 1 () s = Some (s', Inr ())" "reg_at s' (STORE_FILE r) ps'"
    "only_file (STORE_FILE r) s s'" "es = xs @ ys" "concat ps' = xs @ e # ys"
    by auto
  then show ?thesis
    by (force simp: addItem_buf_def reg_rep_def)
qed

definition name_fits :: "registry \<Rightarrow> string \<Rightarrow> bool" where
  "name_fits r nm \<longleftrightarrow> int (length (cstr nm)) \<le> STORE_IX_NAMEMAXLEN r"

lemma c_text_length [simp]: "length (c_text nm) = Suc (length (cstr nm))" "0 \<in> set (c_text nm)"
  by (simp_all add: c_text_def)

lemma ni_createEntry_fits:
  assumes "reg_ok r"
  shows "ni_createEntry r t lid nm = (if name_fits r nm then Inr (entry_bytes (new_entry t lid (c_text nm))) else Inl 1)"
  using assms by (simp add: ni_createEntry_def name_fits_def reg_ok_def new_entry_def)

lemma new_entry_size [simp]: "entry_size (new_entry t lid tx) = 20 + int (length tx)"
  by (simp add: entry_size_def new_entry_def)

lemma addItem_rep:
  assumes "reg_ok r" "STORE_FILE r \<noteq> STORE_FILE_CLASSES" "tid_ok t" "lid_ok lid" "reg_rep s (STORE_FILE r) es"
    "name_fits r nm" "reg_room s (STORE_FILE r) (21 + int (length (cstr nm)))"
  shows "\<exists>s' xs ys. addItem r s t lid nm = Some (s', Inr 0) \<and> es = xs @ ys
    \<and> reg_rep s' (STORE_FILE r) (xs @ new_entry t lid (c_text nm) # ys) \<and> only_file (STORE_FILE r) s s'"
  using addItem_buf_rep [OF assms(5) new_entry_ok [OF assms(3), of lid "c_text nm"]] assms
  by (simp add: addItem_def createEntry_def ni_createEntry_fits lid_ok_def name_fits_def reg_ok_def)

lemma addView_rep:
  assumes "tid_ok t" "lid_ok lid" "reg_rep s STORE_FILE_VIEWS es" "name_fits Views nm"
    "reg_room s STORE_FILE_VIEWS (21 + int (length (cstr nm)))"
  shows "\<exists>s' xs ys. addView s t lid nm = Some (s', Inr 0) \<and> es = xs @ ys
    \<and> reg_rep s' STORE_FILE_VIEWS (xs @ new_entry t lid (c_text nm) # ys) \<and> only_file STORE_FILE_VIEWS s s'"
proof -
  have f: "STORE_FILE Views = STORE_FILE_VIEWS"
    by (simp add: Views_def)
  from addItem_buf_rep [of s Views es "new_entry t lid (c_text nm)"] new_entry_ok [OF assms(1), of lid "c_text nm"]
    assms registries_ok(5) show ?thesis
    by (simp add: addView_def ni_createEntry_fits lid_ok_def name_fits_def reg_ok_def f)
qed

lemma addClass_rep:
  assumes "tid_ok t" "lid_ok lid" "reg_rep s STORE_FILE_CLASSES es" "name_fits Classes nm"
    "int (length (cstr invn)) \<le> invaraint_maxlen"
    "reg_room s STORE_FILE_CLASSES (22 + int (length (cstr nm)) + int (length (cstr invn)))"
  shows "\<exists>s' xs ys. addClass s t lid nm invn = Some (s', Inr 0) \<and> es = xs @ ys
    \<and> reg_rep s' STORE_FILE_CLASSES (xs @ new_entry t lid (c_text nm @ c_text invn) # ys)
    \<and> only_file STORE_FILE_CLASSES s s'"
proof -
  let ?e = "new_entry t lid (c_text nm @ c_text invn)"
  have f: "STORE_FILE Classes = STORE_FILE_CLASSES"
    by (simp add: Classes_def)
  have sz: "entry_size ?e = 22 + int (length (cstr nm)) + int (length (cstr invn))" "entry_size ?e \<le> 16364"
    using assms(4,5) by (simp_all add: name_fits_def invaraint_maxlen_def Classes_def)
  have "classes_createEntry Classes t lid nm invn = Inr (entry_bytes ?e)"
    using assms(4,5) by (simp add: classes_createEntry_def name_fits_def new_entry_def Classes_def)
  moreover have "entry_ok ?e"
    using assms(1,2) by (intro new_entry_ok) (simp_all add: lid_ok_def)
  ultimately show ?thesis
    using addItem_buf_rep [of s Classes es ?e] assms(3,6) sz by (simp only: addClass_def f) simp
qed

end
