(* ===== verification/RegistryContract.thy ===== *)
theory RegistryContract
  imports Registries
begin

text \<open>
  What the registries promise to transactions. \<open>registry_laws\<close> is the contract of the operations on
  the list of entries; from it follow, once for all registries, that an abort takes back everything
  a transaction has done, that a commit publishes exactly what the transaction saw, and that added
  entries are hidden from other transactions until then. It is interpreted for the registries of
  roots, schemas, interfaces, classes and views.
\<close>

section \<open>Transactions on lists of entries\<close>

definition idle :: "TransactionID \<Rightarrow> ix_entry list \<Rightarrow> bool" where
  "idle t es \<longleftrightarrow> (\<forall>e\<in>set es. cur_tran e \<noteq> tid_id t)"

text \<open>The entry that a removal would work on is live, and settled or the transaction's own. \<open>NamedItems::removeItem\<close> does not
  check this: it is a condition on its callers.\<close>

definition removable :: "TransactionID \<Rightarrow> int \<Rightarrow> ix_entry list \<Rightarrow> bool" where
  "removable t lid es \<longleftrightarrow> (case find (\<lambda>e. l_id e = lid) es of
     None \<Rightarrow> True
   | Some e \<Rightarrow> del_t e = -1 \<and> (cur_tran e = -1 \<or> cur_tran e = tid_id t))"

definition seen :: "TransactionID \<Rightarrow> string \<Rightarrow> ix_entry list \<Rightarrow> int list" where
  "seen t nm es = map l_id (filter (\<lambda>e. named nm e \<and> visible t e) es)"

text \<open>The times a transaction may find: nothing it can see was added after its start.\<close>

definition started_after :: "TransactionID \<Rightarrow> ix_entry list \<Rightarrow> bool" where
  "started_after t es \<longleftrightarrow> (\<forall>e\<in>set es. cur_tran e = -1 \<or> cur_tran e = tid_id t \<longrightarrow> add_t e \<le> tid_timeStamp t)"

lemma es_modify_idle: "idle t es \<Longrightarrow> es_modify k t mode es = es"
  by (induction es) (simp_all add: idle_def es_modify_Cons modify_entry_def)

lemma es_abort_idle: "tid_ok t \<Longrightarrow> idle t (es_modify k t mode es)"
  by (auto simp: idle_def es_modify_def List.map_filter_def modify_entry_def tid_ok_def split: if_splits)

lemma abort_add [simp]: "es_modify k t 1 (xs @ new_entry t lid tx # ys) = es_modify k t 1 (xs @ ys)"
  by (simp add: es_modify_Cons modify_entry_def new_entry_def)

lemma abort_mark:
  assumes "cur_tran e = -1" "del_t e = -1" "tid_ok t"
  shows "modify_entry k t 1 (mark_removed t e) = Some e"
  using assms by (cases e) (simp add: modify_entry_def mark_removed_def tid_ok_def)

lemma abort_remove:
  assumes "removable t lid es" "tid_ok t"
  shows "es_modify k t 1 (es_remove t lid es) = es_modify k t 1 es"
  using assms(1)
proof (induction es)
  case (Cons e es)
  show ?case
  proof (cases "l_id e = lid")
    case True
    with Cons.prems abort_mark [OF _ _ assms(2), of e k] assms(2) show ?thesis
      by (auto simp: removable_def es_modify_Cons modify_entry_def tid_ok_def)
  next
    case False
    with Cons show ?thesis
      by (simp add: removable_def es_modify_Cons)
  qed
qed simp

lemma seen_add:
  assumes "tid_id u \<noteq> tid_id t" "tid_ok t"
  shows "seen u nm (xs @ new_entry t lid tx # ys) = seen u nm (xs @ ys)"
  using assms by (simp add: seen_def visible_def new_entry_def tid_ok_def)

lemma seen_own:
  assumes "named nm (new_entry t lid tx)"
  shows "lid \<in> set (seen t nm (xs @ new_entry t lid tx # ys))"
  using assms by (simp add: seen_def visible_def new_entry_def)

lemma named_cong: "e_text e = e_text e' \<Longrightarrow> named nm e = named nm e'"
  by (simp add: named_def e_name_def)

lemma commit_publishes_list:
  assumes "started_after t es" "tid_timeStamp t \<le> tid_timeStamp t'" "k \<le> tid_timeStamp t'"
    "tid_id t' = tid_id t \<or> idle t' es" "tid_ok t" "tid_ok t'" "timer_ok k"
  shows "seen t' nm (es_modify k t 0 es) = seen t nm es"
  using assms(1,4)
proof (induction es)
  case (Cons e es)
  have IH: "seen t' nm (es_modify k t 0 es) = seen t nm es"
    using Cons by (auto simp: started_after_def idle_def)
  obtain e' where e': "modify_entry k t 0 e = Some e'" "e_text e' = e_text e" "l_id e' = l_id e"
    by (cases "cur_tran e = tid_id t"; cases "del_t e = -1") (simp_all add: modify_entry_def)
  have "visible t' e' \<longleftrightarrow> visible t e"
    using e'(1) Cons.prems assms(2,3,5-7)
    by (auto simp: visible_def modify_entry_def tid_ok_def timer_ok_def started_after_def idle_def split: if_splits)
  with IH e' named_cong [OF e'(2), of nm] show ?case
    by (simp add: seen_def es_modify_Cons)
qed (simp add: seen_def)

section \<open>Sessions\<close>

text \<open>A transaction that adds and removes entries. An addition needs a text that fits and room for it; a
  removal must hit a live entry that is settled or the transaction's own.\<close>

inductive session ::
  "('s \<Rightarrow> ix_entry list \<Rightarrow> bool) \<Rightarrow> ('s \<Rightarrow> 'n \<Rightarrow> bool)
    \<Rightarrow> ('s \<Rightarrow> TransactionID \<Rightarrow> int \<Rightarrow> 'n \<Rightarrow> ('s \<times> (fault + int)) option)
    \<Rightarrow> ('s \<Rightarrow> TransactionID \<Rightarrow> int \<Rightarrow> ('s \<times> (fault + int)) option) \<Rightarrow> TransactionID \<Rightarrow> 's \<Rightarrow> 's \<Rightarrow> bool"
  for rep fits add remove t where
  session_start: "session rep fits add remove t s s"
| session_add: "session rep fits add remove t s s1 \<Longrightarrow> fits s1 n \<Longrightarrow> lid_ok lid \<Longrightarrow>
    add s1 t lid n = Some (s2, Inr 0) \<Longrightarrow> session rep fits add remove t s s2"
| session_remove: "session rep fits add remove t s s1 \<Longrightarrow> (\<forall>es. rep s1 es \<longrightarrow> removable t lid es) \<Longrightarrow>
    remove s1 t lid = Some (s2, Inr 0) \<Longrightarrow> session rep fits add remove t s s2"

text \<open>The same on the list of entries: what a transaction does to the entries of a registry.\<close>

inductive own_changes :: "TransactionID \<Rightarrow> ix_entry list \<Rightarrow> ix_entry list \<Rightarrow> bool" for t where
  no_change: "own_changes t es es"
| own_add: "own_changes t es (xs @ ys) \<Longrightarrow> own_changes t es (xs @ new_entry t lid tx # ys)"
| own_remove: "own_changes t es es1 \<Longrightarrow> removable t lid es1 \<Longrightarrow> own_changes t es (es_remove t lid es1)"

lemma abort_own_changes:
  assumes "own_changes t es es1" "tid_ok t" "idle t es"
  shows "es_modify k t 1 es1 = es"
  using assms
proof (induction rule: own_changes.induct)
  case (own_add es xs ys lid tx)
  then show ?case by (simp only: abort_add)
next
  case (own_remove es es1 lid)
  then show ?case by (simp add: abort_remove)
qed (rule es_modify_idle)

section \<open>The contract\<close>

locale registry_laws =
  fixes rep :: "'s \<Rightarrow> ix_entry list \<Rightarrow> bool"
    and timer :: "'s \<Rightarrow> int"
    and fits :: "'s \<Rightarrow> 'n \<Rightarrow> bool"
    and text_of :: "'n \<Rightarrow> byte list"
    and add :: "'s \<Rightarrow> TransactionID \<Rightarrow> int \<Rightarrow> 'n \<Rightarrow> ('s \<times> (fault + int)) option"
    and remove :: "'s \<Rightarrow> TransactionID \<Rightarrow> int \<Rightarrow> ('s \<times> (fault + int)) option"
    and commit abort :: "'s \<Rightarrow> TransactionID \<Rightarrow> ('s \<times> (fault + int)) option"
    and lookup :: "'s \<Rightarrow> TransactionID \<Rightarrow> string \<Rightarrow> ('s \<times> (fault + found)) option"
  assumes add_law: "rep s es \<Longrightarrow> tid_ok t \<Longrightarrow> lid_ok lid \<Longrightarrow> fits s n \<Longrightarrow>
      \<exists>s' xs ys. add s t lid n = Some (s', Inr 0) \<and> es = xs @ ys \<and> rep s' (xs @ new_entry t lid (text_of n) # ys)
        \<and> timer s' = timer s"
    and remove_law: "rep s es \<Longrightarrow> tid_ok t \<Longrightarrow>
      \<exists>s'. remove s t lid = Some (s', Inr 0) \<and> rep s' (es_remove t lid es) \<and> timer s' = timer s"
    and commit_law: "rep s es \<Longrightarrow> tid_ok t \<Longrightarrow>
      \<exists>s'. commit s t = Some (s', Inr 0) \<and> rep s' (es_modify (timer s) t 0 es) \<and> timer s' = timer s"
    and abort_law: "rep s es \<Longrightarrow> tid_ok t \<Longrightarrow>
      \<exists>s'. abort s t = Some (s', Inr 0) \<and> rep s' (es_modify (timer s) t 1 es) \<and> timer s' = timer s"
    and lookup_law: "rep s es \<Longrightarrow> tid_ok t \<Longrightarrow>
      \<exists>s' fd. lookup s t nm = Some (s', Inr fd) \<and> roots fd = seen t nm es \<and> rep s' es \<and> timer s' = timer s"
    and timer_law: "rep s es \<Longrightarrow> timer_ok (timer s)"
begin

lemma session_inv:
  assumes "session rep fits add remove t s s1" "rep s es" "tid_ok t"
  shows "\<exists>es1. rep s1 es1 \<and> (\<forall>k. es_modify k t 1 es1 = es_modify k t 1 es)"
  using assms
proof (induction rule: session.induct)
  case (session_add s s1 n lid s2)
  then obtain es1 where es1: "rep s1 es1" "\<forall>k. es_modify k t 1 es1 = es_modify k t 1 es" by blast
  from add_law [OF es1(1) \<open>tid_ok t\<close> session_add.hyps(3,2)] session_add.hyps(4) obtain xs ys where
    "es1 = xs @ ys" "rep s2 (xs @ new_entry t lid (text_of n) # ys)" by auto
  with es1(2) show ?case
    by (intro exI [of _ "xs @ new_entry t lid (text_of n) # ys"]) (simp only: abort_add simp_thms)
next
  case (session_remove s s1 lid s2)
  then obtain es1 where es1: "rep s1 es1" "\<forall>k. es_modify k t 1 es1 = es_modify k t 1 es" by blast
  with remove_law [OF es1(1) \<open>tid_ok t\<close>, of lid] session_remove.hyps(2,3) abort_remove [OF _ \<open>tid_ok t\<close>, of lid es1]
  show ?case by auto
qed blast

lemma abort_undoes:
  assumes "session rep fits add remove t s s1" "rep s es" "idle t es" "tid_ok t"
  shows "\<exists>s'. abort s1 t = Some (s', Inr 0) \<and> rep s' es"
proof -
  obtain es1 where "rep s1 es1" "\<forall>k. es_modify k t 1 es1 = es_modify k t 1 es"
    using session_inv [OF assms(1,2,4)] by blast
  with abort_law [of s1 es1 t] assms(3,4) show ?thesis
    by (auto simp: es_modify_idle)
qed

lemma commit_publishes:
  assumes "rep s es" "started_after t es" "tid_timeStamp t \<le> tid_timeStamp t'" "timer s \<le> tid_timeStamp t'"
    "tid_id t' = tid_id t \<or> idle t' es" "tid_ok t" "tid_ok t'"
  shows "\<exists>s1 s2 s3 fd fd'. lookup s t nm = Some (s1, Inr fd) \<and> commit s t = Some (s2, Inr 0)
    \<and> lookup s2 t' nm = Some (s3, Inr fd') \<and> roots fd' = roots fd"
proof -
  obtain s1 fd where 1: "lookup s t nm = Some (s1, Inr fd)" "roots fd = seen t nm es"
    using lookup_law [OF assms(1,6)] by blast
  obtain s2 where 2: "commit s t = Some (s2, Inr 0)" "rep s2 (es_modify (timer s) t 0 es)"
    using commit_law [OF assms(1,6)] by blast
  obtain s3 fd' where "lookup s2 t' nm = Some (s3, Inr fd')" "roots fd' = seen t' nm (es_modify (timer s) t 0 es)"
    using lookup_law [OF 2(2) assms(7)] by blast
  with 1 2 commit_publishes_list [OF assms(2-7) timer_law [OF assms(1)]] show ?thesis by auto
qed

lemma add_isolated:
  assumes "rep s es" "tid_ok t" "tid_ok u" "tid_id u \<noteq> tid_id t" "lid_ok lid" "fits s n"
  shows "\<exists>s1 s2 fd. add s t lid n = Some (s1, Inr 0) \<and> lookup s1 u nm = Some (s2, Inr fd)
    \<and> roots fd = seen u nm es"
proof -
  obtain s1 xs ys where 1: "add s t lid n = Some (s1, Inr 0)" "es = xs @ ys"
    "rep s1 (xs @ new_entry t lid (text_of n) # ys)"
    using add_law [OF assms(1,2,5,6)] by blast
  with lookup_law [OF 1(3) assms(3), of nm] seen_add [OF assms(4,2)] show ?thesis by auto
qed

lemma add_seen:
  assumes "rep s es" "tid_ok t" "lid_ok lid" "fits s n" "named nm (new_entry t lid (text_of n))"
  shows "\<exists>s1 s2 fd. add s t lid n = Some (s1, Inr 0) \<and> lookup s1 t nm = Some (s2, Inr fd)
    \<and> lid \<in> set (roots fd)"
proof -
  obtain s1 xs ys where 1: "add s t lid n = Some (s1, Inr 0)"
    "rep s1 (xs @ new_entry t lid (text_of n) # ys)"
    using add_law [OF assms(1-4)] by blast
  with lookup_law [OF 1(2) assms(2), of nm] seen_own [OF assms(5)] show ?thesis by auto
qed

end

section \<open>The registries keep it\<close>

definition item_fits :: "registry \<Rightarrow> storage \<Rightarrow> string \<Rightarrow> bool" where
  "item_fits r s nm \<longleftrightarrow> name_fits r nm \<and> reg_room s (STORE_FILE r) (21 + int (length (cstr nm)))"

definition ni_lookup :: "registry \<Rightarrow> storage \<Rightarrow> TransactionID \<Rightarrow> string \<Rightarrow> (storage \<times> (fault + found)) option" where
  "ni_lookup r s t nm = getItems r s t nm None"

lemma only_file_timer: "only_file f s s' \<Longrightarrow> idSeq s' = idSeq s"
  by (simp add: only_file_def same_log_def)

lemma reg_rep_timer: "reg_rep s f es \<Longrightarrow> timer_ok (idSeq s)"
  by (auto simp: reg_rep_def reg_at_def)

lemma item_registry_laws:
  assumes "reg_ok r" "STORE_FILE r \<noteq> STORE_FILE_CLASSES"
  shows "registry_laws (\<lambda>s. reg_rep s (STORE_FILE r)) idSeq (item_fits r) c_text (addItem r) (removeItem r)
    (ni_commitTransaction r) (ni_abortTransaction r) (ni_lookup r)"
proof (unfold_locales, goal_cases)
  case (1 s es t lid n)
  with addItem_rep [OF assms 1(2,3,1), of n] show ?case
    by (auto simp: item_fits_def dest!: only_file_timer)
next
  case (2 s es t lid)
  with removeItem_rep [OF assms(1) 2(2,1)] show ?case
    by (auto dest!: only_file_timer)
next
  case (3 s es t)
  with modifyTransaction_rep [OF assms(1) 3(2) _ 3(1), of 0] show ?case
    by (auto simp: ni_commitTransaction_def dest!: only_file_timer)
next
  case (4 s es t)
  with modifyTransaction_rep [OF assms(1) 4(2) _ 4(1), of 1] show ?case
    by (auto simp: ni_abortTransaction_def dest!: only_file_timer)
next
  case (5 s es t nm)
  with getItems_rep [OF assms(1) 5(2,1), of nm None] show ?case
    by (auto simp: ni_lookup_def seen_def dest!: only_file_timer)
next
  case (6 s es)
  then show ?case by (rule reg_rep_timer)
qed

interpretation roots: registry_laws "\<lambda>s. reg_rep s (STORE_FILE NamedRoots)" idSeq "item_fits NamedRoots" c_text
  "addItem NamedRoots" "removeItem NamedRoots" "ni_commitTransaction NamedRoots" "ni_abortTransaction NamedRoots"
  "ni_lookup NamedRoots"
  by (rule item_registry_laws) (simp_all add: registries_ok, simp add: NamedRoots_def STORE_FILE_ROOTS_def STORE_FILE_CLASSES_def)

interpretation schemas: registry_laws "\<lambda>s. reg_rep s (STORE_FILE StoreSchemas)" idSeq "item_fits StoreSchemas" c_text
  "addItem StoreSchemas" "removeItem StoreSchemas" "ni_commitTransaction StoreSchemas"
  "ni_abortTransaction StoreSchemas" "ni_lookup StoreSchemas"
  by (rule item_registry_laws) (simp_all add: registries_ok, simp add: StoreSchemas_def STORE_FILE_SCHEMAS_def STORE_FILE_CLASSES_def)

definition class_fits :: "storage \<Rightarrow> string \<times> string \<Rightarrow> bool" where
  "class_fits s n \<longleftrightarrow> name_fits Classes (fst n) \<and> int (length (cstr (snd n))) \<le> invaraint_maxlen
     \<and> reg_room s STORE_FILE_CLASSES (22 + int (length (cstr (fst n))) + int (length (cstr (snd n))))"

interpretation classes: registry_laws "\<lambda>s. reg_rep s STORE_FILE_CLASSES" idSeq class_fits
  "\<lambda>n. c_text (fst n) @ c_text (snd n)" "\<lambda>s t lid n. addClass s t lid (fst n) (snd n)" "removeItem Classes"
  "ni_commitTransaction Classes" "ni_abortTransaction Classes" "ni_lookup Classes"
proof (unfold_locales, goal_cases)
  case (1 s es t lid n)
  with addClass_rep [OF 1(2,3,1), of "fst n" "snd n"] show ?case
    by (auto simp: class_fits_def dest!: only_file_timer)
next
  case (2 s es t lid)
  with removeItem_rep [OF registries_ok(2) 2(2), of s es lid] show ?case
    by (auto simp: Classes_def dest!: only_file_timer)
next
  case (3 s es t)
  with modifyTransaction_rep [OF registries_ok(2) 3(2), of 0 s es] show ?case
    by (auto simp: ni_commitTransaction_def Classes_def dest!: only_file_timer)
next
  case (4 s es t)
  with modifyTransaction_rep [OF registries_ok(2) 4(2), of 1 s es] show ?case
    by (auto simp: ni_abortTransaction_def Classes_def dest!: only_file_timer)
next
  case (5 s es t nm)
  with getItems_rep [OF registries_ok(2) 5(2), of s es nm None] show ?case
    by (auto simp: ni_lookup_def seen_def Classes_def dest!: only_file_timer)
next
  case (6 s es)
  then show ?case by (rule reg_rep_timer)
qed

definition view_fits :: "storage \<Rightarrow> string \<Rightarrow> bool" where
  "view_fits s nm \<longleftrightarrow> name_fits Views nm \<and> reg_room s STORE_FILE_VIEWS (21 + int (length (cstr nm)))"

interpretation views: registry_laws "\<lambda>s. reg_rep s STORE_FILE_VIEWS" idSeq view_fits c_text
  addView removeView views_commitTransaction views_abortTransaction getViews
proof (unfold_locales, goal_cases)
  case (1 s es t lid n)
  with addView_rep [OF 1(2,3,1), of n] show ?case
    by (auto simp: view_fits_def dest!: only_file_timer)
next
  case (2 s es t lid)
  with removeItem_rep [OF registries_ok(5) 2(2), of s es lid] show ?case
    by (auto simp: removeView_def Views_def dest!: only_file_timer)
next
  case (3 s es t)
  with modifyTransaction_rep [OF registries_ok(5) 3(2), of 0 s es] show ?case
    by (auto simp: views_commitTransaction_def views_modifyTransaction_def Views_def dest!: only_file_timer)
next
  case (4 s es t)
  with modifyTransaction_rep [OF registries_ok(5) 4(2), of 1 s es] show ?case
    by (auto simp: views_abortTransaction_def views_modifyTransaction_def Views_def dest!: only_file_timer)
next
  case (5 s es t nm)
  with getViews_rep [OF 5(2,1), of nm] show ?case
    by (auto simp: seen_def dest!: only_file_timer)
next
  case (6 s es)
  then show ?case by (rule reg_rep_timer)
qed

end
