(* ===== verification/StoreRegistries.thy ===== *)
theory StoreRegistries
  imports ObjectStore RegistryContract
begin

text \<open>
  The operations of \<open>DBStoreManager\<close> on roots, views, classes, interfaces and schemas, the end of a
  transaction, and starting the store on new files. Each operation goes to one registry, \<open>addRoot\<close>
  and \<open>removeRoot\<close> also rewrite the object; commit and abort go to all five. A logical identifier
  reaches the registries as a signed \<open>int\<close>.
\<close>

section \<open>Operations\<close>

definition obind ::
  "('s \<times> (fault + 'a)) option \<Rightarrow> ('s \<Rightarrow> 'a \<Rightarrow> ('s \<times> (fault + 'b)) option) \<Rightarrow> ('s \<times> (fault + 'b)) option" where
  "obind m k = (case m of None \<Rightarrow> None | Some (s, Inl e) \<Rightarrow> Some (s, Inl e) | Some (s, Inr x) \<Rightarrow> k s x)"

lemma obind_simps [simp]: "obind None k = None" "obind (Some (s, Inl e)) k = Some (s, Inl e)"
  "obind (Some (s, Inr x)) k = k s x"
  by (simp_all add: obind_def)

text \<open>The number of the identifier of an object; the object must have one.\<close>

definition with_lid ::
  "storage \<Rightarrow> DBObjectPointer \<Rightarrow> (int \<Rightarrow> (storage \<times> (fault + 'a)) option) \<Rightarrow> (storage \<times> (fault + 'a)) option" where
  "with_lid s object k =
     (case lid_of object of None \<Rightarrow> Some (s, Inl NullDereference) | Some l \<Rightarrow> k (s32 (lid_toInteger l)))"

text \<open>The vectors of identifiers that the lookups make.\<close>

definition lids_of :: "(storage \<times> (fault + found)) option \<Rightarrow> (storage \<times> (fault + int \<times> lid list)) option" where
  "lids_of r = obind r (\<lambda>s fd. Some (s, Inr (0, map lid_new (roots fd))))"

definition sm_getRootsLID :: "storage \<Rightarrow> TransactionID \<Rightarrow> string \<Rightarrow> (storage \<times> (fault + int \<times> lid list)) option" where
  "sm_getRootsLID s tid p_name = lids_of (getItems NamedRoots s tid p_name None)"

definition sm_getRootsLID_all :: "storage \<Rightarrow> TransactionID \<Rightarrow> (storage \<times> (fault + int \<times> lid list)) option" where
  "sm_getRootsLID_all s tid = sm_getRootsLID s tid []"

definition sm_getRootsLIDWithBegin ::
  "storage \<Rightarrow> TransactionID \<Rightarrow> string \<Rightarrow> (storage \<times> (fault + int \<times> lid list)) option" where
  "sm_getRootsLIDWithBegin s tid nameBegin = lids_of (getRootsWithBegin s tid nameBegin)"

definition sm_getViewsLID :: "storage \<Rightarrow> TransactionID \<Rightarrow> string \<Rightarrow> (storage \<times> (fault + int \<times> lid list)) option" where
  "sm_getViewsLID s tid p_name = lids_of (getViews s tid p_name)"

definition sm_getViewsLID_all :: "storage \<Rightarrow> TransactionID \<Rightarrow> (storage \<times> (fault + int \<times> lid list)) option" where
  "sm_getViewsLID_all s tid = sm_getViewsLID s tid []"

definition sm_getClassesLID :: "storage \<Rightarrow> TransactionID \<Rightarrow> string \<Rightarrow> (storage \<times> (fault + int \<times> lid list)) option" where
  "sm_getClassesLID s tid p_name = lids_of (getItems Classes s tid p_name None)"

definition sm_getClassesLID_all :: "storage \<Rightarrow> TransactionID \<Rightarrow> (storage \<times> (fault + int \<times> lid list)) option" where
  "sm_getClassesLID_all s tid = sm_getClassesLID s tid []"

definition sm_getClassesLIDByInvariant ::
  "storage \<Rightarrow> TransactionID \<Rightarrow> string \<Rightarrow> (storage \<times> (fault + int \<times> lid list)) option" where
  "sm_getClassesLIDByInvariant s tid invariantName = lids_of (getClassByInvariant s tid invariantName)"

definition sm_getInterfacesLID :: "storage \<Rightarrow> TransactionID \<Rightarrow> string \<Rightarrow> (storage \<times> (fault + int \<times> lid list)) option" where
  "sm_getInterfacesLID s tid nm = lids_of (getItems Interfaces s tid nm None)"

definition sm_getInterfacesLID_all :: "storage \<Rightarrow> TransactionID \<Rightarrow> (storage \<times> (fault + int \<times> lid list)) option" where
  "sm_getInterfacesLID_all s tid = sm_getInterfacesLID s tid []"

definition sm_getSchemasLID :: "storage \<Rightarrow> TransactionID \<Rightarrow> string \<Rightarrow> (storage \<times> (fault + int \<times> lid list)) option" where
  "sm_getSchemasLID s tid nm = lids_of (getItems StoreSchemas s tid nm None)"

definition sm_getSchemasLID_all :: "storage \<Rightarrow> TransactionID \<Rightarrow> (storage \<times> (fault + int \<times> lid list)) option" where
  "sm_getSchemasLID_all s tid = sm_getSchemasLID s tid []"

text \<open>\<open>getRoots\<close> reads the objects; it gives up with -1 at the first identifier without object.\<close>

fun root_objects ::
  "system_views \<Rightarrow> storage \<Rightarrow> int list \<Rightarrow> DBObjectPointer option list
     \<Rightarrow> (storage \<times> (fault + int \<times> DBObjectPointer option list)) option" where
  "root_objects sysviews s [] acc = Some (s, Inr (0, acc))"
| "root_objects sysviews s (i # is) acc =
     (case getObject sysviews s (lid_new i) of
        (s, Inl e) \<Rightarrow> Some (s, Inl e)
      | (s, Inr (rval, optr)) \<Rightarrow>
          if optr \<noteq> None \<or> rval \<noteq> 0 then root_objects sysviews s is (acc @ [optr])
          else Some (s, Inr (-1, acc)))"

definition sm_getRoots ::
  "system_views \<Rightarrow> storage \<Rightarrow> TransactionID \<Rightarrow> string
     \<Rightarrow> (storage \<times> (fault + int \<times> DBObjectPointer option list)) option" where
  "sm_getRoots sysviews s tid p_name =
     obind (getItems NamedRoots s tid p_name None) (\<lambda>s fd. root_objects sysviews s (roots fd) [])"

definition sm_getRoots_all ::
  "system_views \<Rightarrow> storage \<Rightarrow> TransactionID \<Rightarrow> (storage \<times> (fault + int \<times> DBObjectPointer option list)) option" where
  "sm_getRoots_all sysviews s tid = sm_getRoots sysviews s tid []"

text \<open>\<open>addRoot\<close> and \<open>removeRoot\<close> set the flag, rewrite the object and then change the registry; the results
  of both calls are dropped. They give the code and the new object.\<close>

definition sm_addRoot ::
  "storage \<Rightarrow> TransactionID \<Rightarrow> DBObjectPointer \<Rightarrow> (storage \<times> (fault + int \<times> DBObjectPointer)) option" where
  "sm_addRoot s tid object =
     with_lid s object (\<lambda>lid.
       let object = op_setIsRoot object True
       in case val object of
            None \<Rightarrow> Some (s, Inl NullDereference)
          | Some v \<Rightarrow>
              obind (Some (modifyObject s (tid_id tid) object v)) (\<lambda>s (rc, object).
                obind (addItem NamedRoots s tid lid (name object)) (\<lambda>s _. Some (s, Inr (0, object)))))"

definition sm_removeRoot ::
  "storage \<Rightarrow> TransactionID \<Rightarrow> DBObjectPointer \<Rightarrow> (storage \<times> (fault + int \<times> DBObjectPointer)) option" where
  "sm_removeRoot s tid object =
     with_lid s object (\<lambda>lid.
       let object = op_setIsRoot object False
       in case val object of
            None \<Rightarrow> Some (s, Inl NullDereference)
          | Some v \<Rightarrow>
              obind (Some (modifyObject s (tid_id tid) object v)) (\<lambda>s (rc, object).
                obind (removeItem NamedRoots s tid lid) (\<lambda>s _. Some (s, Inr (0, object)))))"

definition sm_addView :: "storage \<Rightarrow> TransactionID \<Rightarrow> string \<Rightarrow> DBObjectPointer \<Rightarrow> (storage \<times> (fault + int)) option" where
  "sm_addView s tid nm object = with_lid s object (\<lambda>lid. obind (addView s tid lid nm) (\<lambda>s _. Some (s, Inr 0)))"

definition sm_removeView :: "storage \<Rightarrow> TransactionID \<Rightarrow> DBObjectPointer \<Rightarrow> (storage \<times> (fault + int)) option" where
  "sm_removeView s tid object = with_lid s object (\<lambda>lid. obind (removeView s tid lid) (\<lambda>s _. Some (s, Inr 0)))"

definition sm_addClass ::
  "storage \<Rightarrow> TransactionID \<Rightarrow> string \<Rightarrow> string \<Rightarrow> DBObjectPointer \<Rightarrow> (storage \<times> (fault + int)) option" where
  "sm_addClass s tid nm invariantName object =
     with_lid s object (\<lambda>lid. obind (addClass s tid lid nm invariantName) (\<lambda>s _. Some (s, Inr 0)))"

definition sm_removeClass :: "storage \<Rightarrow> TransactionID \<Rightarrow> DBObjectPointer \<Rightarrow> (storage \<times> (fault + int)) option" where
  "sm_removeClass s tid object =
     with_lid s object (\<lambda>lid. obind (removeItem Classes s tid lid) (\<lambda>s _. Some (s, Inr 0)))"

definition sm_addInterface ::
  "storage \<Rightarrow> TransactionID \<Rightarrow> string \<Rightarrow> string \<Rightarrow> DBObjectPointer \<Rightarrow> (storage \<times> (fault + int)) option" where
  "sm_addInterface s tid nm objectName object =
     with_lid s object (\<lambda>lid. addInterface s tid lid nm objectName [])"

definition sm_bindInterface :: "storage \<Rightarrow> TransactionID \<Rightarrow> string \<Rightarrow> string \<Rightarrow> (storage \<times> (fault + int)) option" where
  "sm_bindInterface s tid nm bindName = bindInterface s tid nm bindName"

definition sm_getInterfaceBindForObjectName ::
  "storage \<Rightarrow> TransactionID \<Rightarrow> string \<Rightarrow> (storage \<times> (fault + int \<times> (string \<times> string) option)) option" where
  "sm_getInterfaceBindForObjectName s tid oName = getInterfaceBindForObjectName s tid oName"

definition sm_removeInterface :: "storage \<Rightarrow> TransactionID \<Rightarrow> DBObjectPointer \<Rightarrow> (storage \<times> (fault + int)) option" where
  "sm_removeInterface s tid object =
     with_lid s object (\<lambda>lid. obind (removeItem Interfaces s tid lid) (\<lambda>s _. Some (s, Inr 0)))"

definition sm_addSchema :: "storage \<Rightarrow> TransactionID \<Rightarrow> string \<Rightarrow> DBObjectPointer \<Rightarrow> (storage \<times> (fault + int)) option" where
  "sm_addSchema s tid nm object = with_lid s object (\<lambda>lid. addItem StoreSchemas s tid lid nm)"

definition sm_removeSchema :: "storage \<Rightarrow> TransactionID \<Rightarrow> DBObjectPointer \<Rightarrow> (storage \<times> (fault + int)) option" where
  "sm_removeSchema s tid object =
     with_lid s object (\<lambda>lid. obind (removeItem StoreSchemas s tid lid) (\<lambda>s _. Some (s, Inr 0)))"

section \<open>The end of a transaction\<close>

text \<open>The calls one after another, up to the first error code.\<close>

definition unless_err ::
  "(storage \<times> (fault + int)) option \<Rightarrow> (storage \<Rightarrow> (storage \<times> (fault + int)) option) \<Rightarrow> (storage \<times> (fault + int)) option" where
  "unless_err r k = obind r (\<lambda>s err. if err \<noteq> 0 then Some (s, Inr err) else k s)"

definition sm_abortTransaction :: "storage \<Rightarrow> TransactionID \<Rightarrow> (storage \<times> (fault + int)) option" where
  "sm_abortTransaction s tid =
     unless_err (ni_abortTransaction NamedRoots s tid) (\<lambda>s.
     unless_err (views_abortTransaction s tid) (\<lambda>s.
     unless_err (ni_abortTransaction Classes s tid) (\<lambda>s.
     unless_err (ni_abortTransaction Interfaces s tid) (\<lambda>s.
       ni_abortTransaction StoreSchemas s tid))))"

text \<open>The commit calls the interfaces twice.\<close>

definition sm_commitTransaction :: "storage \<Rightarrow> TransactionID \<Rightarrow> (storage \<times> (fault + int)) option" where
  "sm_commitTransaction s tid =
     unless_err (ni_commitTransaction NamedRoots s tid) (\<lambda>s.
     unless_err (views_commitTransaction s tid) (\<lambda>s.
     unless_err (ni_commitTransaction Classes s tid) (\<lambda>s.
     unless_err (ni_commitTransaction Interfaces s tid) (\<lambda>s.
     unless_err (ni_commitTransaction Interfaces s tid) (\<lambda>s.
       ni_commitTransaction StoreSchemas s tid)))))"

section \<open>Starting\<close>

definition EBadFile :: int where "EBadFile = 2048"

text \<open>\<open>File::start\<close> opens the seven files; one that cannot be opened is created and initialised.
  \<open>present f\<close> says whether the first \<open>open\<close> succeeds, \<open>creatable f\<close> whether the second does.\<close>

definition open_or_init ::
  "(int \<Rightarrow> bool) \<Rightarrow> (int \<Rightarrow> bool) \<Rightarrow> int \<Rightarrow> ('a bufpool_scheme \<Rightarrow> 'a bufpool_scheme)
     \<Rightarrow> ('a bufpool_scheme \<Rightarrow> 'a bufpool_scheme \<times> int) \<Rightarrow> 'a bufpool_scheme \<Rightarrow> 'a bufpool_scheme \<times> int" where
  "open_or_init present creatable f init k b =
     (if present f then k b else if \<not> creatable f then (b, EBadFile) else k (init b))"

definition file_start ::
  "(int \<Rightarrow> bool) \<Rightarrow> (int \<Rightarrow> bool) \<Rightarrow> 'a bufpool_scheme \<Rightarrow> 'a bufpool_scheme \<times> int" where
  "file_start present creatable =
     open_or_init present creatable STORE_FILE_MAP map_initializeFile
     (open_or_init present creatable STORE_FILE_ROOTS (ni_initializeFile NamedRoots)
     (open_or_init present creatable STORE_FILE_DEFAULT pm_initializeFile
     (open_or_init present creatable STORE_FILE_VIEWS views_initializeFile
     (open_or_init present creatable STORE_FILE_CLASSES (ni_initializeFile Classes)
     (open_or_init present creatable STORE_FILE_INTERFACES (ni_initializeFile Interfaces)
     (open_or_init present creatable STORE_FILE_SCHEMAS (ni_initializeFile StoreSchemas)
     (\<lambda>b. (b, 0))))))))"

text \<open>\<open>Buffer::start\<close>; the number of dirty pages to wait for comes from the configuration.\<close>

definition buf_start ::
  "(int \<Rightarrow> bool) \<Rightarrow> (int \<Rightarrow> bool) \<Rightarrow> int option \<Rightarrow> 'a bufpool_scheme \<Rightarrow> 'a bufpool_scheme \<times> int" where
  "buf_start present creatable maxdirty b =
     (if started b then (b, 0)
      else let (b, retval) = file_start present creatable b
           in if retval \<noteq> 0 then (b, retval)
              else (b\<lparr>started := True, dirty_pages := 0,
                      max_dirty := (case maxdirty of Some n \<Rightarrow> n | None \<Rightarrow> 16)\<rparr>, 0))"

definition sm_start ::
  "(int \<Rightarrow> bool) \<Rightarrow> (int \<Rightarrow> bool) \<Rightarrow> int option \<Rightarrow> storage \<Rightarrow> storage \<times> int" where
  "sm_start present creatable maxdirty s = buf_start present creatable maxdirty s"

definition sm_stop :: "storage \<Rightarrow> storage \<times> int" where
  "sm_stop s = buf_stop s"

section \<open>All registries together\<close>

definition registry_files :: "int set" where
  "registry_files = {STORE_FILE_ROOTS, STORE_FILE_VIEWS, STORE_FILE_CLASSES, STORE_FILE_INTERFACES, STORE_FILE_SCHEMAS}"

definition regs_rep :: "storage \<Rightarrow> (int \<Rightarrow> ix_entry list) \<Rightarrow> bool" where
  "regs_rep s R \<longleftrightarrow> (\<forall>f\<in>registry_files. reg_rep s f (R f))"

lemma registry_file_ne [simp]:
  "f \<in> registry_files \<Longrightarrow> f \<noteq> STORE_FILE_DEFAULT" "f \<in> registry_files \<Longrightarrow> f \<noteq> STORE_FILE_MAP"
  by (auto simp: registry_files_def store_consts)

lemma registry_file_of [simp]:
  "STORE_FILE NamedRoots = STORE_FILE_ROOTS" "STORE_FILE Views = STORE_FILE_VIEWS"
  "STORE_FILE Classes = STORE_FILE_CLASSES" "STORE_FILE Interfaces = STORE_FILE_INTERFACES"
  "STORE_FILE StoreSchemas = STORE_FILE_SCHEMAS"
  by (simp_all add: NamedRoots_def Views_def Classes_def Interfaces_def StoreSchemas_def)

lemma registry_files_mem [simp]:
  "STORE_FILE_ROOTS \<in> registry_files" "STORE_FILE_VIEWS \<in> registry_files" "STORE_FILE_CLASSES \<in> registry_files"
  "STORE_FILE_INTERFACES \<in> registry_files" "STORE_FILE_SCHEMAS \<in> registry_files"
  by (simp_all add: registry_files_def)

lemma reg_rep_other: "reg_rep s h es \<Longrightarrow> only_file f s s' \<Longrightarrow> h \<noteq> f \<Longrightarrow> reg_rep s' h es"
  by (auto simp: reg_rep_def intro: reg_at_other)

lemma regs_rep_update:
  assumes "regs_rep s R" "only_file f s s'" "reg_rep s' f es"
  shows "regs_rep s' (R(f := es))"
  using assms reg_rep_other by (auto simp: regs_rep_def)

lemma regs_modify:
  assumes "regs_rep s R" "reg_ok r" "STORE_FILE r \<in> registry_files" "tid_ok t" "mode = 0 \<or> mode = 1"
  shows "\<exists>s'. modifyTransaction r s (Some t) mode = Some (s', Inr 0)
    \<and> regs_rep s' (R(STORE_FILE r := es_modify (idSeq s) t mode (R (STORE_FILE r))))
    \<and> only_file (STORE_FILE r) s s' \<and> idSeq s' = idSeq s"
proof -
  have "reg_rep s (STORE_FILE r) (R (STORE_FILE r))"
    using assms(1,3) by (simp add: regs_rep_def)
  from modifyTransaction_rep [OF assms(2,4,5) this] show ?thesis
    using regs_rep_update [OF assms(1)] only_file_timer by blast
qed

text \<open>Objects do not depend on the registries.\<close>

definition outside_objects :: "storage \<Rightarrow> storage \<Rightarrow> bool" where
  "outside_objects s s' \<longleftrightarrow> pool_inv s' \<and> page_view s' STORE_FILE_DEFAULT = page_view s STORE_FILE_DEFAULT
     \<and> page_view s' STORE_FILE_MAP = page_view s STORE_FILE_MAP \<and> same_log s s' \<and> map_header s' = map_header s
     \<and> (\<forall>pp f p. points s pp f p \<longrightarrow> points s' pp f p)"

lemma only_file_objects: "only_file f s s' \<Longrightarrow> f \<in> registry_files \<Longrightarrow> outside_objects s s'"
  by (auto simp: only_file_def outside_objects_def dest: registry_file_ne)

lemma outside_objects_trans: "outside_objects s t \<Longrightarrow> outside_objects t u \<Longrightarrow> outside_objects s u"
  by (auto simp: outside_objects_def same_log_def)

lemma store_at_outside:
  assumes "store_at s T \<sigma>" "outside_objects s s'"
  shows "store_at s' T \<sigma>"
proof -
  have m: "map_last s' = map_last s" "map_pid s' = map_pid s" "data_page s' = data_page s"
    using assms(2) by (auto simp: outside_objects_def map_last_def map_pid_def intro!: ext)
  have "map_ok s'"
    using assms m(1) by (auto simp: store_at_def map_ok_def outside_objects_def)
  with assms(1) m show ?thesis
    by (simp add: store_at_def pages_ok_def obj_at_def cong: option.case_cong)
qed

lemma store_rep_outside: "store_rep s \<sigma> \<Longrightarrow> outside_objects s s' \<Longrightarrow> store_rep s' \<sigma>"
  by (auto simp: store_rep_def intro: store_at_outside)

lemma regs_rep_cong: "regs_rep s R \<Longrightarrow> (\<And>f. f \<in> registry_files \<Longrightarrow> R' f = R f) \<Longrightarrow> regs_rep s R'"
  by (simp add: regs_rep_def)

lemma outside_refl: "regs_rep s R \<Longrightarrow> outside_objects s s"
  by (auto simp: regs_rep_def reg_rep_def reg_at_def registry_files_def outside_objects_def same_log_def)

lemma registry_files_distinct [simp]:
  "STORE_FILE_ROOTS \<noteq> STORE_FILE_VIEWS" "STORE_FILE_ROOTS \<noteq> STORE_FILE_CLASSES"
  "STORE_FILE_ROOTS \<noteq> STORE_FILE_INTERFACES" "STORE_FILE_ROOTS \<noteq> STORE_FILE_SCHEMAS"
  "STORE_FILE_VIEWS \<noteq> STORE_FILE_ROOTS" "STORE_FILE_VIEWS \<noteq> STORE_FILE_CLASSES"
  "STORE_FILE_VIEWS \<noteq> STORE_FILE_INTERFACES" "STORE_FILE_VIEWS \<noteq> STORE_FILE_SCHEMAS"
  "STORE_FILE_CLASSES \<noteq> STORE_FILE_ROOTS" "STORE_FILE_CLASSES \<noteq> STORE_FILE_VIEWS"
  "STORE_FILE_CLASSES \<noteq> STORE_FILE_INTERFACES" "STORE_FILE_CLASSES \<noteq> STORE_FILE_SCHEMAS"
  "STORE_FILE_INTERFACES \<noteq> STORE_FILE_ROOTS" "STORE_FILE_INTERFACES \<noteq> STORE_FILE_VIEWS"
  "STORE_FILE_INTERFACES \<noteq> STORE_FILE_CLASSES" "STORE_FILE_INTERFACES \<noteq> STORE_FILE_SCHEMAS"
  "STORE_FILE_SCHEMAS \<noteq> STORE_FILE_ROOTS" "STORE_FILE_SCHEMAS \<noteq> STORE_FILE_VIEWS"
  "STORE_FILE_SCHEMAS \<noteq> STORE_FILE_CLASSES" "STORE_FILE_SCHEMAS \<noteq> STORE_FILE_INTERFACES"
  by (simp_all add: store_consts)

text \<open>The calls in a row, for any list of registries.\<close>

fun end_all :: "TransactionID \<Rightarrow> int \<Rightarrow> registry list \<Rightarrow> storage \<Rightarrow> (storage \<times> (fault + int)) option" where
  "end_all t mode [] s = Some (s, Inr 0)"
| "end_all t mode (r # rs) s = unless_err (modifyTransaction r s (Some t) mode) (end_all t mode rs)"

lemma end_all_fun: "end_all t mode [] = (\<lambda>s. Some (s, Inr 0))"
  "end_all t mode (r # rs) = (\<lambda>s. unless_err (modifyTransaction r s (Some t) mode) (end_all t mode rs))"
  by (simp_all add: fun_eq_iff)

lemma unless_err_last: "unless_err r (\<lambda>s. Some (s, Inr 0)) = r"
  by (auto simp: unless_err_def obind_def split: option.split sum.split)

lemma sm_end_all:
  "sm_abortTransaction s t = end_all t 1 [NamedRoots, Views, Classes, Interfaces, StoreSchemas] s"
  "sm_commitTransaction s t = end_all t 0 [NamedRoots, Views, Classes, Interfaces, Interfaces, StoreSchemas] s"
  by (simp_all add: sm_abortTransaction_def sm_commitTransaction_def ni_abortTransaction_def
      ni_commitTransaction_def views_abortTransaction_def views_commitTransaction_def views_modifyTransaction_def
      unless_err_last end_all_fun)

lemma es_modify_twice: "tid_ok t \<Longrightarrow> es_modify k' t mode (es_modify k t mode es) = es_modify k t mode es"
  by (rule es_modify_idle [OF es_abort_idle])

lemma end_all_regs:
  assumes "regs_rep s R" "\<forall>r\<in>set rs. reg_ok r \<and> STORE_FILE r \<in> registry_files" "tid_ok t" "mode = 0 \<or> mode = 1"
  shows "\<exists>s'. end_all t mode rs s = Some (s', Inr 0)
    \<and> regs_rep s' (\<lambda>f. if f \<in> STORE_FILE ` set rs then es_modify (idSeq s) t mode (R f) else R f)
    \<and> outside_objects s s'"
  using assms(1,2)
proof (induction rs arbitrary: s R)
  case Nil
  then show ?case by (simp add: outside_refl)
next
  case (Cons r rs)
  let ?f = "STORE_FILE r"
  obtain s1 where 1: "modifyTransaction r s (Some t) mode = Some (s1, Inr 0)"
    "regs_rep s1 (R(?f := es_modify (idSeq s) t mode (R ?f)))" "only_file ?f s s1" "idSeq s1 = idSeq s"
    using regs_modify [OF Cons.prems(1) _ _ assms(3,4), of r] Cons.prems(2) by auto
  from Cons.IH [OF 1(2), unfolded 1(4)] Cons.prems(2) obtain s2 where 2: "end_all t mode rs s1 = Some (s2, Inr 0)"
    "regs_rep s2 (\<lambda>f. if f \<in> STORE_FILE ` set rs
       then es_modify (idSeq s) t mode ((R(?f := es_modify (idSeq s) t mode (R ?f))) f)
       else (R(?f := es_modify (idSeq s) t mode (R ?f))) f)" "outside_objects s1 s2"
    by auto
  have "regs_rep s2 (\<lambda>f. if f \<in> STORE_FILE ` set (r # rs) then es_modify (idSeq s) t mode (R f) else R f)"
    by (rule regs_rep_cong [OF 2(2)]) (auto simp: es_modify_twice [OF assms(3)])
  with 1(1) 2(1) outside_objects_trans [OF only_file_objects [OF 1(3)] 2(3)] Cons.prems(2) show ?case
    by (simp add: unless_err_def)
qed

lemma sm_end_regs:
  assumes "regs_rep s R" "tid_ok t"
  shows "\<exists>s'. sm_abortTransaction s t = Some (s', Inr 0) \<and> regs_rep s' (\<lambda>f. es_modify (idSeq s) t 1 (R f))
      \<and> outside_objects s s'"
    "\<exists>s'. sm_commitTransaction s t = Some (s', Inr 0) \<and> regs_rep s' (\<lambda>f. es_modify (idSeq s) t 0 (R f))
      \<and> outside_objects s s'"
proof -
  have *: "\<exists>s'. end_all t mode rs s = Some (s', Inr 0) \<and> regs_rep s' (\<lambda>f. es_modify (idSeq s) t mode (R f))
      \<and> outside_objects s s'"
    if rs: "set rs = {NamedRoots, Views, Classes, Interfaces, StoreSchemas}" and md: "mode = 0 \<or> mode = 1" for rs mode
  proof -
    obtain s' where s': "end_all t mode rs s = Some (s', Inr 0)" "outside_objects s s'"
      "regs_rep s' (\<lambda>f. if f \<in> STORE_FILE ` set rs then es_modify (idSeq s) t mode (R f) else R f)"
      using end_all_regs [OF assms(1) _ assms(2) md, of rs] rs registries_ok by auto
    moreover have "regs_rep s' (\<lambda>f. es_modify (idSeq s) t mode (R f))"
      by (rule regs_rep_cong [OF s'(3)]) (auto simp: rs registry_files_def)
    ultimately show ?thesis by blast
  qed
  show "\<exists>s'. sm_abortTransaction s t = Some (s', Inr 0) \<and> regs_rep s' (\<lambda>f. es_modify (idSeq s) t 1 (R f))
      \<and> outside_objects s s'"
    "\<exists>s'. sm_commitTransaction s t = Some (s', Inr 0) \<and> regs_rep s' (\<lambda>f. es_modify (idSeq s) t 0 (R f))
      \<and> outside_objects s s'"
    unfolding sm_end_all by (rule *; force)+
qed

section \<open>A new database\<close>

lemma empty_page: "ip_free m = 16364 \<Longrightarrow> ip_entries m = 0 \<Longrightarrow> ni_page m []"
  by (simp add: ni_page_def)

lemma ni_entry_page_ok: "ni_page (ni_entry_page r 1) []" "page_timestamp (ni_entry_page r 1) \<noteq> -1"
proof -
  show "ni_page (ni_entry_page r 1) []"
    by (rule empty_page) (simp_all add: ni_entry_page_def Let_def at_defs mem_simps s32_def)
  show "page_timestamp (ni_entry_page r 1) \<noteq> -1"
    by (simp add: ni_entry_page_def Let_def page_timestamp_def mem_simps s32_def)
qed

lemma get_s32_zero: "\<forall>x. a \<le> x \<and> x < a + 4 \<longrightarrow> m x = 0 \<Longrightarrow> get_s32 m a = 0"
proof -
  assume "\<forall>x. a \<le> x \<and> x < a + 4 \<longrightarrow> m x = 0"
  then have "getbytes m a 4 = getbytes (\<lambda>_. 0) a 4"
    by (intro getbytes_cong) simp
  then show ?thesis
    by (simp add: get_s32_def getbytes_def numeral_eq_Suc s32_def)
qed

lemma ni_initializePage_ok:
  "ni_page (ni_initializePage f ty p m) []" "page_timestamp (ni_initializePage f ty p m) = -1"
proof -
  have "ip_entries (ni_initializePage f ty p m) = get_s32 (memset m 0 0 16384) 16"
    by (simp add: ni_initializePage_def Let_def ip_entries_def mem_simps)
  also have "\<dots> = 0"
    by (rule get_s32_zero) (simp add: memset_def)
  finally show "ni_page (ni_initializePage f ty p m) []"
    by (intro empty_page) (simp_all add: ni_initializePage_def Let_def ip_free_def mem_simps s32_def)
  show "page_timestamp (ni_initializePage f ty p m) = -1"
    by (simp add: ni_initializePage_def Let_def page_timestamp_def mem_simps s32_def)
qed

lemma views_page: "views_initializePage p m = ni_initializePage STORE_FILE_VIEWS STORE_PAGE_VIEWSPAGE p m"
  by (simp add: views_initializePage_def ni_initializePage_def)

lemma registry_initializePage:
  "f \<in> registry_files \<Longrightarrow> \<exists>ty. buf_initializePage f p m = ni_initializePage f ty p m"
  by (auto simp: registry_files_def buf_initializePage_def views_page store_consts)

lemma new_registry_ok:
  fixes s :: storage
  assumes "buffer_hash s = []" "started s" "\<forall>f. 0 \<le> disk_len s f \<and> disk_len s f \<le> 1073741824"
    "f \<in> registry_files" "disk_pages s f = 2" "on_disk s f 1 (clip (ni_entry_page r 1))" "timer_ok (idSeq s)"
  shows "reg_rep s f []"
proof -
  have p1: "page_view s f 1 = clip (ni_entry_page r 1)"
    using page_view_on_disk [OF _ assms(6)] assms(1) by simp
  have p2: "ni_page (page_view s f p) [] \<and> page_timestamp (page_view s f p) = -1" if "1 < p" for p
    using that assms(1,5) registry_initializePage [OF assms(4), of p "clip (junk s f p)"] ni_initializePage_ok
    by (auto simp: page_view_def)
  have "reg_at s f [[]]"
    using p1 p2 ni_entry_page_ok [of r] assms(1-4,7)
    by (auto simp: reg_at_def pool_inv_def registry_files_def file_ids_def)
  then show ?thesis by auto
qed

lemma ni_initializeFile_ok:
  assumes "STORE_IX_INITIALPAGECOUNT r = 2" "STORE_FILE r \<in> registry_files" "disk_pages b (STORE_FILE r) = 0"
  shows "kept (STORE_FILE r) b (ni_initializeFile r b)"
    "on_disk (ni_initializeFile r b) (STORE_FILE r) 1 (clip (ni_entry_page r 1))"
    "disk_pages (ni_initializeFile r b) (STORE_FILE r) = 2"
    "on_disk (ni_initializeFile r b) (STORE_FILE r) 0 (clip (ni_header_page r))"
proof -
  have v: "valid_page (STORE_FILE r) 0" "valid_page (STORE_FILE r) 1"
    using assms(2) by (auto simp: valid_page_def file_ids_def registry_files_def)
  have e: "ni_initializeFile r b = fst (file_writePage (fst (file_writePage b (STORE_FILE r) 0 (ni_header_page r)))
      (STORE_FILE r) 1 (ni_entry_page r 1))"
    by (simp add: ni_initializeFile_def assms(1) upto.simps)
  show "kept (STORE_FILE r) b (ni_initializeFile r b)"
    unfolding e by (rule kept_trans [OF kept_write kept_write]) (fact v)+
  show "on_disk (ni_initializeFile r b) (STORE_FILE r) 1 (clip (ni_entry_page r 1))"
    "disk_pages (ni_initializeFile r b) (STORE_FILE r) = 2"
    using assms(3) on_disk_writePage(1) [OF v(2)]
    by (simp_all add: e writePage_disk_pages [OF v(1)] writePage_disk_pages [OF v(2)])
  show "on_disk (ni_initializeFile r b) (STORE_FILE r) 0 (clip (ni_header_page r))"
    unfolding e by (rule on_disk_writePage(2) [OF v(2) on_disk_writePage(1) [OF v(1)]]) simp
qed

lemma kept_other:
  assumes "kept f b b'" "h \<noteq> f"
  shows "disk_pages b' h = disk_pages b h" "on_disk b h p m \<Longrightarrow> on_disk b' h p m"
  using assms by (simp_all add: kept_def)

lemma initial_page_count: "STORE_IX_INITIALPAGECOUNT NamedRoots = 2" "STORE_IX_INITIALPAGECOUNT Classes = 2"
  "STORE_IX_INITIALPAGECOUNT Interfaces = 2" "STORE_IX_INITIALPAGECOUNT StoreSchemas = 2"
  "STORE_IX_INITIALPAGECOUNT Views = 2"
  by (simp_all add: NamedRoots_def Classes_def Interfaces_def StoreSchemas_def Views_def)

text \<open>What initialisation leaves on the disk: the header and fifteen empty pages of the map, the header of the objects, the
  header and one empty page of each registry.\<close>

definition registries :: "registry list" where
  "registries = [NamedRoots, Views, Classes, Interfaces, StoreSchemas]"

definition fresh_file :: "'a bufpool_scheme \<Rightarrow> int \<Rightarrow> bool" where
  "fresh_file b f \<longleftrightarrow>
     (if f = STORE_FILE_MAP then on_disk b f 0 (clip map_header_page) \<and> (\<forall>i\<in>{1..15}. on_disk b f i (clip (map_empty_page i)))
      else if f = STORE_FILE_DEFAULT then on_disk b f 0 (clip pm_header_page) \<and> disk_pages b f = 1
      else disk_pages b f = 2 \<and> (\<exists>r\<in>set registries. STORE_FILE r = f \<and> on_disk b f 0 (clip (ni_header_page r))
        \<and> on_disk b f 1 (clip (ni_entry_page r 1))))"

definition fresh_files :: "'a bufpool_scheme \<Rightarrow> 'a bufpool_scheme \<Rightarrow> int set \<Rightarrow> bool" where
  "fresh_files b0 b F \<longleftrightarrow> buffer_hash b = buffer_hash b0 \<and> started b = started b0 \<and> bufpool.more b = bufpool.more b0
     \<and> ((\<forall>f. 0 \<le> disk_len b0 f \<and> disk_len b0 f \<le> 1073741824) \<longrightarrow> (\<forall>f. 0 \<le> disk_len b f \<and> disk_len b f \<le> 1073741824))
     \<and> (\<forall>f. if f \<in> F then fresh_file b f else disk_pages b f = disk_pages b0 f)"

lemma fresh_files_step:
  assumes "fresh_files b0 b F" "kept f b b'" "fresh_file b' f" "f \<notin> F"
  shows "fresh_files b0 b' (insert f F)"
proof -
  have "fresh_file b' h" if "fresh_file b h" "h \<noteq> f" for h
    using that kept_other [OF assms(2) that(2)] unfolding fresh_file_def by (auto split: if_splits)
  note keep = this
  have old: "if h \<in> F then fresh_file b h else disk_pages b h = disk_pages b0 h" for h
    using assms(1) by (simp add: fresh_files_def)
  have "if h \<in> insert f F then fresh_file b' h else disk_pages b' h = disk_pages b0 h" for h
    using old [of h] keep [of h] assms(3,4) kept_other(1) [OF assms(2), of h] by (cases "h = f") auto
  then show ?thesis
    using assms(1,2) by (simp add: fresh_files_def kept_def)
qed

lemma fresh_registry_step:
  assumes "fresh_files b0 b F" "STORE_FILE r \<notin> F" "STORE_FILE r \<in> registry_files" "STORE_IX_INITIALPAGECOUNT r = 2"
    "r \<in> set registries" "\<forall>f. disk_pages b0 f = 0"
  shows "fresh_files b0 (ni_initializeFile r b) (insert (STORE_FILE r) F)"
proof (rule fresh_files_step [OF assms(1) _ _ assms(2)])
  have z: "disk_pages b (STORE_FILE r) = 0"
    using assms(1,2,6) by (simp add: fresh_files_def)
  note i = ni_initializeFile_ok [OF assms(4,3) z]
  show "kept (STORE_FILE r) b (ni_initializeFile r b)" by (rule i)
  show "fresh_file (ni_initializeFile r b) (STORE_FILE r)"
    using i(2-4) assms(3,5) by (auto simp: fresh_file_def)
qed

lemma file_start_new:
  assumes "\<forall>f. disk_pages b f = 0"
  shows "\<exists>b'. file_start (\<lambda>_. False) (\<lambda>_. True) b = (b', 0) \<and> fresh_files b b' (set file_ids)"
proof -
  let ?b1 = "map_initializeFile b"
  have 1: "fresh_files b ?b1 {STORE_FILE_MAP}"
    using map_initializeFile_ok [where b = b]
    by (intro fresh_files_step [of b b "{}"]) (simp_all add: fresh_files_def fresh_file_def)
  have 2: "fresh_files b (ni_initializeFile NamedRoots ?b1) {STORE_FILE_ROOTS, STORE_FILE_MAP}"
    using fresh_registry_step [OF 1, of NamedRoots] assms by (simp add: initial_page_count registries_def)
  let ?b2 = "ni_initializeFile NamedRoots ?b1"
  have z: "disk_pages ?b2 STORE_FILE_DEFAULT = 0"
    using 2 assms unfolding fresh_files_def by (auto dest: spec [of _ STORE_FILE_DEFAULT] simp: store_consts)
  have 3: "fresh_files b (pm_initializeFile ?b2) {STORE_FILE_DEFAULT, STORE_FILE_ROOTS, STORE_FILE_MAP}"
    by (rule fresh_files_step [OF 2]) (use pm_initializeFile_ok [OF z] in \<open>simp_all add: fresh_file_def store_consts\<close>)
  note 4 = fresh_registry_step [OF 3, of Views]
  note 5 = fresh_registry_step [OF 4, of Classes]
  note 6 = fresh_registry_step [OF 5, of Interfaces]
  note 7 = fresh_registry_step [OF 6, of StoreSchemas]
  have ids: "set file_ids = {STORE_FILE_SCHEMAS, STORE_FILE_INTERFACES, STORE_FILE_CLASSES, STORE_FILE_VIEWS,
      STORE_FILE_DEFAULT, STORE_FILE_ROOTS, STORE_FILE_MAP}"
    by (auto simp: file_ids_def)
  show ?thesis
    using 7 assms
    by (simp add: file_start_def open_or_init_def views_initializeFile_def ids initial_page_count registries_def)
qed

lemma new_database:
  fixes b :: storage
  assumes "buffer_hash b = []" "\<not> started b" "\<forall>f. disk_len b f = 0" "map_header b = None" "timer_ok (idSeq b)"
  shows "\<exists>s. sm_start (\<lambda>_. False) (\<lambda>_. True) n b = (s, 0) \<and> store_at s (\<lambda>_. []) (\<lambda>_. None) \<and> regs_rep s (\<lambda>_. [])
    \<and> map_last s = 0 \<and> idSeq s = idSeq b \<and> (\<forall>f\<in>set file_ids. fresh_file s f)"
proof -
  obtain b1 where b1: "file_start (\<lambda>_. False) (\<lambda>_. True) b = (b1, 0)" "fresh_files b b1 (set file_ids)"
    using file_start_new [of b] assms(3) by (auto simp: disk_pages_def)
  define s where "s = b1\<lparr>started := True, dirty_pages := 0, max_dirty := (case n of Some k \<Rightarrow> k | None \<Rightarrow> 16)\<rparr>"
  have "bufpool.more b1 = bufpool.more b"
    using b1(2) by (simp add: fresh_files_def)
  then have m: "map_header s = None" "idSeq s = idSeq b"
    using storage_more [of b1 b] assms(4) by (auto simp: s_def same_log_def)
  have l: "\<forall>f. 0 \<le> disk_len s f \<and> disk_len s f \<le> 1073741824" and h: "buffer_hash s = []" "started s"
    using b1(2) assms(1,3) by (simp_all add: s_def fresh_files_def)
  have d: "on_disk s = on_disk b1" "disk_pages s = disk_pages b1"
    by (simp_all add: s_def on_disk_def disk_pages_def disk_page_def fun_eq_iff)
  have ff: "fresh_file b1 f" if "f \<in> set file_ids" for f
    using b1(2) that by (auto simp: fresh_files_def)
  have "fresh_file b1 STORE_FILE_MAP" "fresh_file b1 STORE_FILE_DEFAULT"
    by (rule ff, simp add: file_ids_def)+
  then have "store_at s (\<lambda>_. []) (\<lambda>_. None)" "map_last s = 0"
    by (intro new_store_ok; simp add: h l m d fresh_file_def)+
  moreover have "reg_rep s f []" if f: "f \<in> registry_files" for f
  proof -
    have "fresh_file b1 f"
      using f by (intro ff) (auto simp: registry_files_def file_ids_def)
    then obtain r where "disk_pages s f = 2" "on_disk s f 1 (clip (ni_entry_page r 1))"
      using f by (auto simp: fresh_file_def d)
    with f h l m(2) assms(5) show ?thesis
      by (intro new_registry_ok [of s f r]) simp_all
  qed
  moreover have "sm_start (\<lambda>_. False) (\<lambda>_. True) n b = (s, 0)"
    using assms(2) b1(1) by (simp add: sm_start_def buf_start_def s_def)
  moreover have "fresh_file s f" if "f \<in> set file_ids" for f
    using ff [OF that] unfolding fresh_file_def d .
  ultimately show ?thesis
    using m(2) by (auto simp: regs_rep_def)
qed

end
