(* ===== verification/LogRecords.thy ===== *)
theory LogRecords
  imports StoreRegistries
begin

text \<open>
  The records of the log and their format in the log file (\<^verbatim>\<open>Log/LogRecord.cpp\<close>, \<^verbatim>\<open>Log/LogRecord.h\<close>, \<^verbatim>\<open>Log/LogIO.cpp\<close>,
  \<^verbatim>\<open>Log/LogIO.h\<close>). A record is written as its type, its number, its fields and its length, so that the file can be read
  forward and backward. Reading is a function of the bytes of the file and the position in it; a record that is read
  takes a number from the sequence \<open>LogRecord::idSeq\<close> before the number in the file replaces it.
  A record written to the file is read back in both directions, wherever it is in the file.
\<close>

section \<open>Records\<close>

definition UNEXPECTED_EOF_ERROR :: int where "UNEXPECTED_EOF_ERROR = 100001"
definition LOG_RECORD_LENGTH_MISMATCH_ERROR :: int where "LOG_RECORD_LENGTH_MISMATCH_ERROR = 200003"
definition LOG_INCORRECT_RECORD_FORMAT :: int where "LOG_INCORRECT_RECORD_FORMAT = 200004"

text \<open>The code of \<open>lseek\<close> for a position before the start of the file.\<close>

definition EINVAL :: int where "EINVAL = 22"

datatype LogRecord =
    BeginTransactionRecord int
  | CommitRecord int
  | RollbackRecord int
  | CkptRecord "int list"
  | EndCkptRecord
  | WriteRec int "lid option" string "DBDataValue option" "DBDataValue option" bool
  | ShutdownRecord
  | AddRootRecord int "lid option"
  | RemoveRootRecord int "lid option"
  | RedoLogsRecord

fun rec_type :: "LogRecord \<Rightarrow> int" where
  "rec_type (BeginTransactionRecord _) = 1"
| "rec_type (CommitRecord _) = 2"
| "rec_type (RollbackRecord _) = 3"
| "rec_type (CkptRecord _) = 4"
| "rec_type EndCkptRecord = 5"
| "rec_type (WriteRec _ _ _ _ _ _) = 6"
| "rec_type ShutdownRecord = 7"
| "rec_type (AddRootRecord _ _) = 8"
| "rec_type (RemoveRootRecord _ _) = 9"
| "rec_type RedoLogsRecord = 10"

section \<open>Writing\<close>

definition writeInt :: "int \<Rightarrow> byte list" where
  "writeInt v = le_bytes 4 v"

definition writeString :: "byte list \<Rightarrow> byte list" where
  "writeString buffer = writeInt (int (length buffer)) @ buffer"

definition writeLogicalID :: "lid option \<Rightarrow> byte list" where
  "writeLogicalID l =
     (case l of None \<Rightarrow> writeInt 0 | Some l \<Rightarrow> writeString (ser_content (lid_serialize l)))"

definition writeTransactionIDVector :: "int list \<Rightarrow> byte list" where
  "writeTransactionIDVector tids = writeInt (int (length tids)) @ concat (map writeInt tids)"

text \<open>The string that the constructor of a write record makes of a value.\<close>

definition valS :: "DBDataValue option \<Rightarrow> byte list" where
  "valS v = (case v of None \<Rightarrow> [] | Some v \<Rightarrow> ser_content (dv_serialize v))"

fun rec_write :: "LogRecord \<Rightarrow> byte list" where
  "rec_write (BeginTransactionRecord tid) = writeInt tid"
| "rec_write (CommitRecord tid) = writeInt tid"
| "rec_write (RollbackRecord tid) = writeInt tid"
| "rec_write (CkptRecord tids) = writeTransactionIDVector tids"
| "rec_write EndCkptRecord = []"
| "rec_write (WriteRec tid l nm oldVal newVal newLID) =
     writeInt tid @ writeLogicalID l @ writeString (map byte_of_char nm)
     @ writeString (valS oldVal) @ writeString (valS newVal) @ writeInt (if newLID then 1 else 0)"
| "rec_write ShutdownRecord = []"
| "rec_write (AddRootRecord tid l) = writeInt tid @ writeLogicalID l"
| "rec_write (RemoveRootRecord tid l) = writeInt tid @ writeLogicalID l"
| "rec_write RedoLogsRecord = []"

definition writeLogRecord :: "int \<times> LogRecord \<Rightarrow> byte list" where
  "writeLogRecord r =
     (let b = writeInt (rec_type (snd r)) @ writeInt (fst r) @ rec_write (snd r)
      in b @ writeInt (int (length b) + 4))"

section \<open>Reading\<close>

text \<open>A read ends with an error code, or with an exception or a failed assertion.\<close>

datatype log_error = Code int | Fault fault

text \<open>The position in the file and the sequence of the numbers of records.\<close>

record log_fd =
  fpos :: int
  fseq :: int

type_synonym 'a reader = "byte list \<Rightarrow> log_fd \<Rightarrow> log_fd \<times> (log_error + 'a)"

definition rd_return :: "'a \<Rightarrow> 'a reader" where
  "rd_return x f d = (d, Inr x)"

definition rd_error :: "log_error \<Rightarrow> 'a reader" where
  "rd_error e f d = (d, Inl e)"

definition rd_bind :: "'a reader \<Rightarrow> ('a \<Rightarrow> 'b reader) \<Rightarrow> 'b reader" where
  "rd_bind m k f d = (case m f d of (d', Inl e) \<Rightarrow> (d', Inl e) | (d', Inr x) \<Rightarrow> k x f d')"

text \<open>\<open>::read\<close> until \<open>n\<close> bytes are there; at the end of the file it returns 0.\<close>

definition read_bytes :: "nat \<Rightarrow> byte list reader" where
  "read_bytes n f d =
     (if n = 0 then (d, Inr [])
      else if nat (fpos d) + n \<le> length f
      then (d\<lparr>fpos := fpos d + int n\<rparr>, Inr (take n (drop (nat (fpos d)) f)))
      else (d\<lparr>fpos := max (fpos d) (int (length f))\<rparr>, Inl (Code UNEXPECTED_EOF_ERROR)))"

definition lseek_cur :: "int \<Rightarrow> unit reader" where
  "lseek_cur k f d =
     (if fpos d + k < 0 then (d, Inl (Code EINVAL)) else (d\<lparr>fpos := fpos d + k\<rparr>, Inr ()))"

definition getFilePos :: "int reader" where
  "getFilePos f d = (d, Inr (fpos d))"

definition readInt :: "int reader" where
  "readInt = rd_bind (read_bytes 4) (\<lambda>bs. rd_return (s32 (le_int bs)))"

text \<open>Allocating a negative number of bytes throws.\<close>

definition readString :: "byte list reader" where
  "readString = rd_bind readInt (\<lambda>len.
     if len < 0 then rd_error (Fault LengthError) else read_bytes (nat len))"

text \<open>A string in memory, for the functions that decode it; they must not read past its end.\<close>

definition mem_of :: "byte list \<Rightarrow> mem" where
  "mem_of bs = putbytes (\<lambda>_. 0) 0 bs"

text \<open>Without a store (\<open>sm\<close> is null) the pointers in the record are left as they are; the two callers that do this look at the
  type and the number only.\<close>

definition readLogicalID :: "bool \<Rightarrow> lid option reader" where
  "readLogicalID sm = rd_bind readString (\<lambda>s.
     if s = [] then rd_return None
     else if \<not> sm then rd_return None
     else if length s < 4 then rd_error (Fault IndeterminateRead)
     else rd_return (Some (fst (lid_deserialize (mem_of s) 0))))"

definition readDataValue :: "bool \<Rightarrow> DBDataValue option reader" where
  "readDataValue sm = rd_bind readString (\<lambda>s.
     if s = [] then rd_return None
     else if \<not> sm then rd_return None
     else (case snd (dv_deserialize (\<lambda>s i. (s, 0, None)) () (mem_of s) 0 False) of
             Inl e \<Rightarrow> rd_error (Fault e)
           | Inr (used, v) \<Rightarrow>
               if used > int (length s) \<or> v = None then rd_error (Fault IndeterminateRead)
               else rd_return v))"

primrec read_tids :: "nat \<Rightarrow> int list \<Rightarrow> int list reader" where
  "read_tids 0 acc = rd_return acc"
| "read_tids (Suc n) acc = rd_bind readInt (\<lambda>tid. read_tids n (acc @ [tid]))"

definition readTransactionIDVector :: "int list reader" where
  "readTransactionIDVector = rd_bind readInt (\<lambda>size.
     if size < 0 then rd_error (Fault LengthError) else read_tids (nat size) [])"

definition read_write_record :: "bool \<Rightarrow> LogRecord reader" where
  "read_write_record sm =
     rd_bind readInt (\<lambda>tid. rd_bind (readLogicalID sm) (\<lambda>l. rd_bind readString (\<lambda>nm.
     rd_bind (readDataValue sm) (\<lambda>oldVal. rd_bind (readDataValue sm) (\<lambda>newVal. rd_bind readInt (\<lambda>flag.
     rd_return (WriteRec tid l (map char_of_byte nm) oldVal newVal (flag > 0))))))))"

definition read_root_record :: "(int \<Rightarrow> lid option \<Rightarrow> LogRecord) \<Rightarrow> bool \<Rightarrow> LogRecord reader" where
  "read_root_record mk sm = rd_bind readInt (\<lambda>tid. rd_bind (readLogicalID sm) (\<lambda>l. rd_return (mk tid l)))"

text \<open>The virtual method \<open>read\<close> of the record made for a type.\<close>

definition rec_read :: "int \<Rightarrow> bool \<Rightarrow> LogRecord reader" where
  "rec_read recordType sm =
     (if recordType = 1 then rd_bind readInt (\<lambda>tid. rd_return (BeginTransactionRecord tid))
      else if recordType = 2 then rd_bind readInt (\<lambda>tid. rd_return (CommitRecord tid))
      else if recordType = 3 then rd_bind readInt (\<lambda>tid. rd_return (RollbackRecord tid))
      else if recordType = 4 then rd_bind readTransactionIDVector (\<lambda>tids. rd_return (CkptRecord tids))
      else if recordType = 5 then rd_return EndCkptRecord
      else if recordType = 6 then read_write_record sm
      else if recordType = 7 then rd_return ShutdownRecord
      else if recordType = 8 then read_root_record AddRootRecord sm
      else if recordType = 9 then read_root_record RemoveRootRecord sm
      else rd_return RedoLogsRecord)"

text \<open>The constructor takes the next number.\<close>

definition next_id :: "unit reader" where
  "next_id f d = (d\<lparr>fseq := u32 (fseq d + 1)\<rparr>, Inr ())"

definition readLogRecordForward :: "bool \<Rightarrow> (int \<times> LogRecord) reader" where
  "readLogRecordForward sm =
     rd_bind getFilePos (\<lambda>filePosBegin. rd_bind readInt (\<lambda>recordType.
       if recordType < 1 \<or> 10 < recordType then rd_error (Fault AssertionFailure)
       else rd_bind next_id (\<lambda>_. rd_bind readInt (\<lambda>recordId. rd_bind (rec_read recordType sm) (\<lambda>result.
            rd_bind readInt (\<lambda>recordLen. rd_bind getFilePos (\<lambda>filePosEnd.
              if filePosEnd - filePosBegin \<noteq> recordLen then rd_error (Code LOG_RECORD_LENGTH_MISMATCH_ERROR)
              else rd_return (u32 recordId, result))))))))"

definition readLogRecordBackward :: "bool \<Rightarrow> (int \<times> LogRecord) reader" where
  "readLogRecordBackward sm =
     rd_bind (lseek_cur (-4)) (\<lambda>_. rd_bind readInt (\<lambda>recordLen.
       rd_bind (lseek_cur (- recordLen)) (\<lambda>_. rd_bind (readLogRecordForward sm) (\<lambda>result.
         rd_bind (lseek_cur (- recordLen)) (\<lambda>_. rd_return result)))))"

section \<open>Reading what was written\<close>

text \<open>The bytes \<open>bs\<close> are in the file at position \<open>p\<close>.\<close>

definition at :: "byte list \<Rightarrow> int \<Rightarrow> byte list \<Rightarrow> bool" where
  "at f p bs \<longleftrightarrow> 0 \<le> p \<and> (\<exists>xs ys. f = xs @ bs @ ys \<and> int (length xs) = p)"

lemma at_append: "at f p (xs @ ys) \<longleftrightarrow> at f p xs \<and> at f (p + int (length xs)) ys"
proof
  show "at f p (xs @ ys) \<Longrightarrow> at f p xs \<and> at f (p + int (length xs)) ys"
    unfolding at_def by (metis append.assoc length_append of_nat_0_le_iff of_nat_add)
next
  assume "at f p xs \<and> at f (p + int (length xs)) ys"
  then obtain a b c e where *: "f = a @ xs @ b" "int (length a) = p" "f = c @ ys @ e"
    "int (length c) = p + int (length xs)"
    unfolding at_def by blast
  then have "(a @ xs) @ b = c @ ys @ e" "length (a @ xs) = length c"
    by auto
  then have "c = a @ xs" "b = ys @ e"
    by (metis append_eq_append_conv)+
  with * show "at f p (xs @ ys)"
    by (auto simp: at_def)
qed

text \<open>\<open>m\<close> reads \<open>x\<close> from the bytes \<open>bs\<close> and stops after them.\<close>

definition reads :: "'a reader \<Rightarrow> byte list \<Rightarrow> 'a \<Rightarrow> bool" where
  "reads m bs x \<longleftrightarrow> (\<forall>f d. at f (fpos d) bs \<longrightarrow> m f d = (d\<lparr>fpos := fpos d + int (length bs)\<rparr>, Inr x))"

lemma reads_return [simp]: "reads (rd_return x) [] x"
  by (simp add: reads_def rd_return_def)

lemma reads_bind: "reads m xs x \<Longrightarrow> reads (k x) ys y \<Longrightarrow> reads (rd_bind m k) (xs @ ys) y"
  by (auto simp: reads_def rd_bind_def at_append algebra_simps)

lemma reads_map: "reads m xs x \<Longrightarrow> reads (rd_bind m (\<lambda>x. rd_return (g x))) xs (g x)"
  using reads_bind [of m xs x "\<lambda>x. rd_return (g x)" "[]" "g x"] by simp

lemma reads_bytes: "reads (read_bytes (length bs)) bs bs"
  by (auto simp: reads_def read_bytes_def at_def)

text \<open>A format with its reader, and the formats of sequences.\<close>

locale stream_codec =
  fixes ok :: "'a \<Rightarrow> bool" and enc :: "'a \<Rightarrow> byte list" and rd :: "'b reader" and nf :: "'a \<Rightarrow> 'b"
  assumes law: "ok x \<Longrightarrow> reads rd (enc x) (nf x)"
begin

lemma then_reads: "ok x \<Longrightarrow> reads (k (nf x)) ys y \<Longrightarrow> reads (rd_bind rd k) (enc x @ ys) y"
  by (rule reads_bind [OF law])

lemma last_reads: "ok x \<Longrightarrow> reads (k (nf x)) [] y \<Longrightarrow> reads (rd_bind rd k) (enc x) y"
  using then_reads [of x k "[]" y] by simp

end

definition int_ok :: "int \<Rightarrow> bool" where
  "int_ok v \<longleftrightarrow> -2147483648 \<le> v \<and> v < 2147483648"

definition str_ok :: "byte list \<Rightarrow> bool" where
  "str_ok s \<longleftrightarrow> length s < 2147483648"

definition lid_opt_ok :: "lid option \<Rightarrow> bool" where
  "lid_opt_ok l \<longleftrightarrow> (case l of None \<Rightarrow> True | Some l \<Rightarrow> lid_wf l)"

definition dv_opt_ok :: "DBDataValue option \<Rightarrow> bool" where
  "dv_opt_ok v \<longleftrightarrow> (case v of None \<Rightarrow> True | Some v \<Rightarrow> dv_ok v \<and> length (dv_bytes v) < 2147483648)"

interpretation ints: stream_codec "\<lambda>v. True" writeInt readInt s32
proof
  fix v
  have "le_int (le_bytes 4 v) = v mod 4294967296"
    using le_int_le_bytes [of 4 v] by simp
  then show "reads readInt (writeInt v) (s32 v)"
    using reads_map [OF reads_bytes [of "le_bytes 4 v"], of "\<lambda>bs. s32 (le_int bs)"]
    by (simp add: readInt_def writeInt_def)
qed

interpretation strs: stream_codec str_ok writeString readString "\<lambda>s. s"
proof
  fix s assume "str_ok s"
  then have "s32 (int (length s)) = int (length s)"
    by (simp add: str_ok_def s32_id)
  then show "reads readString (writeString s) s"
    unfolding readString_def writeString_def by (intro ints.then_reads) (simp_all add: reads_bytes)
qed

interpretation lids: stream_codec lid_opt_ok writeLogicalID "readLogicalID True" "map_option lid_nf"
proof
  fix l assume l: "lid_opt_ok l"
  show "reads (readLogicalID True) (writeLogicalID l) (map_option lid_nf l)"
  proof (cases l)
    case None
    have "writeLogicalID l = writeString []"
      by (simp add: None writeLogicalID_def writeString_def)
    with None show ?thesis
      unfolding readLogicalID_def by (auto simp: str_ok_def intro!: strs.last_reads)
  next
    case (Some x)
    have "lid_deserialize (mem_of (le_bytes 4 (lvalue x))) 0 = (lid_nf x, 4)"
      using l Some lidc.decode [of x "mem_of (le_bytes 4 (lvalue x))" 0]
      by (simp add: lid_opt_ok_def lid_bytes_def mem_of_def)
    with Some show ?thesis
      unfolding readLogicalID_def writeLogicalID_def
      by (auto simp: lid_serialize_def str_ok_def le_bytes_numeral intro!: strs.last_reads)
  qed
qed

interpretation vals: stream_codec dv_opt_ok "\<lambda>v. writeString (valS v)" "readDataValue True"
  "map_option (dv_nf (\<lambda>_. True))"
proof
  fix v assume v: "dv_opt_ok v"
  show "reads (readDataValue True) (writeString (valS v)) (map_option (dv_nf (\<lambda>_. True)) v)"
  proof (cases v)
    case None
    then show ?thesis
      unfolding readDataValue_def by (auto simp: str_ok_def valS_def intro!: strs.last_reads)
  next
    case (Some x)
    with v have x: "dv_ok x" "length (dv_bytes x) < 2147483648"
      by (simp_all add: dv_opt_ok_def)
    have "dv_deserialize (\<lambda>s i. (s, 0, None)) () (mem_of (dv_bytes x)) 0 False
        = ((), Inr (int (length (dv_bytes x)), Some (dv_nf (\<lambda>_. True) x)))"
      using dv_deserialize_simple [OF x(1), of "mem_of (dv_bytes x)" 0 False] by (simp add: mem_of_def)
    with Some x dv_bytes_pos [of x] show ?thesis
      unfolding readDataValue_def
      by (auto simp: str_ok_def valS_def dv_serialize_bytes intro!: strs.last_reads)
  qed
qed

text \<open>The records that the file can hold, and what reading makes of them: values and identifiers lose what is not
  serialised.\<close>

fun rec_ok :: "LogRecord \<Rightarrow> bool" where
  "rec_ok (BeginTransactionRecord tid) = int_ok tid"
| "rec_ok (CommitRecord tid) = int_ok tid"
| "rec_ok (RollbackRecord tid) = int_ok tid"
| "rec_ok (CkptRecord tids) \<longleftrightarrow> length tids < 2147483648 \<and> (\<forall>tid\<in>set tids. int_ok tid)"
| "rec_ok (WriteRec tid l nm oldVal newVal newLID) \<longleftrightarrow>
     int_ok tid \<and> lid_opt_ok l \<and> length nm < 2147483648 \<and> dv_opt_ok oldVal \<and> dv_opt_ok newVal"
| "rec_ok (AddRootRecord tid l) \<longleftrightarrow> int_ok tid \<and> lid_opt_ok l"
| "rec_ok (RemoveRootRecord tid l) \<longleftrightarrow> int_ok tid \<and> lid_opt_ok l"
| "rec_ok EndCkptRecord = True"
| "rec_ok ShutdownRecord = True"
| "rec_ok RedoLogsRecord = True"

fun rec_nf :: "LogRecord \<Rightarrow> LogRecord" where
  "rec_nf (WriteRec tid l nm oldVal newVal newLID) = WriteRec tid (map_option lid_nf l) nm
     (map_option (dv_nf (\<lambda>_. True)) oldVal) (map_option (dv_nf (\<lambda>_. True)) newVal) newLID"
| "rec_nf (AddRootRecord tid l) = AddRootRecord tid (map_option lid_nf l)"
| "rec_nf (RemoveRootRecord tid l) = RemoveRootRecord tid (map_option lid_nf l)"
| "rec_nf r = r"

definition log_entry_ok :: "int \<times> LogRecord \<Rightarrow> bool" where
  "log_entry_ok e \<longleftrightarrow> 0 \<le> fst e \<and> fst e < 4294967296 \<and> rec_ok (snd e) \<and> length (writeLogRecord e) < 2147483648"

lemma int_ok_s32 [simp]: "int_ok v \<Longrightarrow> s32 v = v"
  by (simp add: int_ok_def s32_id)

lemma reads_tids: "\<forall>tid\<in>set tids. int_ok tid \<Longrightarrow> reads (read_tids (length tids) acc) (concat (map writeInt tids)) (acc @ tids)"
proof (induction tids arbitrary: acc)
  case Nil
  then show ?case by simp
next
  case (Cons tid tids)
  then have "reads (read_tids (length tids) (acc @ [s32 tid])) (concat (map writeInt tids)) (acc @ tid # tids)"
    using Cons.IH [of "acc @ [tid]"] by simp
  then show ?case
    by (simp add: ints.then_reads)
qed

lemma reads_tid_vector:
  assumes "length tids < 2147483648" "\<forall>tid\<in>set tids. int_ok tid"
  shows "reads readTransactionIDVector (writeTransactionIDVector tids) tids"
proof -
  have "s32 (int (length tids)) = int (length tids)"
    using assms(1) by (simp add: s32_id)
  then show ?thesis
    unfolding readTransactionIDVector_def writeTransactionIDVector_def
    using reads_tids [OF assms(2), of "[]"] by (intro ints.then_reads) simp_all
qed

lemma s32_flag [simp]: "s32 0 = 0" "s32 1 = 1"
  by (simp_all add: s32_id)

lemma rec_read_write:
  assumes "rec_ok r"
  shows "reads (rec_read (rec_type r) True) (rec_write r) (rec_nf r)"
proof (cases r)
  case (CkptRecord tids)
  with assms show ?thesis
    using reads_map [OF reads_tid_vector, of tids CkptRecord] by (simp add: rec_read_def)
next
  case (WriteRec tid l nm oldVal newVal newLID)
  with assms show ?thesis
    by (auto simp: rec_read_def read_write_record_def str_ok_def
        intro!: ints.then_reads lids.then_reads strs.then_reads vals.then_reads ints.last_reads)
next
  case (AddRootRecord tid l)
  with assms show ?thesis
    by (auto simp: rec_read_def read_root_record_def intro!: ints.then_reads lids.last_reads)
next
  case (RemoveRootRecord tid l)
  with assms show ?thesis
    by (auto simp: rec_read_def read_root_record_def intro!: ints.then_reads lids.last_reads)
qed (use assms in \<open>auto simp: rec_read_def intro!: ints.last_reads\<close>)

lemma rec_type_range: "1 \<le> rec_type r" "rec_type r \<le> 10" "s32 (rec_type r) = rec_type r"
  by (cases r; simp add: s32_def)+

lemma length_writeInt [simp]: "length (writeInt v) = 4"
  by (simp add: writeInt_def)

text \<open>The bytes of a record in four parts.\<close>

lemma writeLogRecord_parts:
  "writeLogRecord e = writeInt (rec_type (snd e)) @ writeInt (fst e) @ rec_write (snd e)
     @ writeInt (int (length (writeLogRecord e)))"
  "length (writeLogRecord e) = 12 + length (rec_write (snd e))"
  by (simp_all add: writeLogRecord_def Let_def algebra_simps)

lemma readsD: "reads m bs x \<Longrightarrow> at f (fpos d) bs \<Longrightarrow> m f d = (d\<lparr>fpos := fpos d + int (length bs)\<rparr>, Inr x)"
  by (simp add: reads_def)

lemma read_forward:
  assumes e: "log_entry_ok e" and p: "at f (fpos d) (writeLogRecord e)"
  shows "readLogRecordForward True f d
    = (d\<lparr>fpos := fpos d + int (length (writeLogRecord e)), fseq := u32 (fseq d + 1)\<rparr>, Inr (fst e, rec_nf (snd e)))"
proof -
  let ?n = "int (length (writeLogRecord e))" and ?b = "rec_write (snd e)"
  let ?p = "fpos d" and ?q = "fseq d"
  have n: "?n = 12 + int (length ?b)"
    using writeLogRecord_parts(2) [of e] by simp
  have a: "at f ?p (writeInt (rec_type (snd e)))" "at f (?p + 4) (writeInt (fst e))" "at f (?p + 8) ?b"
    "at f (?p + 8 + int (length ?b)) (writeInt ?n)"
    using p by (subst (asm) writeLogRecord_parts(1), simp add: at_append algebra_simps)+
  have r: "readInt f d = (d\<lparr>fpos := ?p + 4\<rparr>, Inr (rec_type (snd e)))"
    "readInt f (d\<lparr>fpos := ?p + 4, fseq := u32 (?q + 1)\<rparr>) = (d\<lparr>fpos := ?p + 8, fseq := u32 (?q + 1)\<rparr>, Inr (s32 (fst e)))"
    "rec_read (rec_type (snd e)) True f (d\<lparr>fpos := ?p + 8, fseq := u32 (?q + 1)\<rparr>)
      = (d\<lparr>fpos := ?p + 8 + int (length ?b), fseq := u32 (?q + 1)\<rparr>, Inr (rec_nf (snd e)))"
    "readInt f (d\<lparr>fpos := ?p + 8 + int (length ?b), fseq := u32 (?q + 1)\<rparr>)
      = (d\<lparr>fpos := ?p + ?n, fseq := u32 (?q + 1)\<rparr>, Inr (s32 ?n))"
    using readsD [OF ints.law [OF TrueI] a(1)] rec_type_range(3) [of "snd e"]
      readsD [OF ints.law [OF TrueI], of f "d\<lparr>fpos := ?p + 4, fseq := u32 (?q + 1)\<rparr>" "fst e"]
      readsD [OF rec_read_write, of "snd e" f "d\<lparr>fpos := ?p + 8, fseq := u32 (?q + 1)\<rparr>"]
      readsD [OF ints.law [OF TrueI], of f "d\<lparr>fpos := ?p + 8 + int (length ?b), fseq := u32 (?q + 1)\<rparr>" ?n] a e n
    by (simp_all add: log_entry_ok_def)
  have "s32 ?n = ?n"
    using e by (simp add: log_entry_ok_def s32_id)
  moreover have "u32 (fst e) = fst e"
    using e by (simp add: log_entry_ok_def u32_id)
  ultimately show ?thesis
    using rec_type_range [of "snd e"]
    by (simp add: r readLogRecordForward_def rd_bind_def getFilePos_def next_id_def rd_return_def log_entry_ok_def)
qed

lemma read_backward:
  assumes e: "log_entry_ok e" and f: "f = xs @ writeLogRecord e @ ys" and p: "fpos d = int (length (xs @ writeLogRecord e))"
  shows "readLogRecordBackward True f d
    = (d\<lparr>fpos := int (length xs), fseq := u32 (fseq d + 1)\<rparr>, Inr (fst e, rec_nf (snd e)))"
proof -
  let ?n = "int (length (writeLogRecord e))"
  have s: "s32 ?n = ?n" and n: "12 \<le> ?n"
    using e writeLogRecord_parts(2) [of e] by (simp_all add: log_entry_ok_def s32_id)
  have a: "at f (int (length xs)) (writeLogRecord e)"
    by (auto simp: at_def f)
  then have "at f (fpos d - 4) (writeInt ?n)"
    using p writeLogRecord_parts(2) [of e] by (subst (asm) writeLogRecord_parts(1)) (simp add: at_append algebra_simps)
  then have "readInt f (d\<lparr>fpos := fpos d - 4\<rparr>) = (d, Inr ?n)"
    using readsD [OF ints.law [OF TrueI], of f "d\<lparr>fpos := fpos d - 4\<rparr>" ?n] s by simp
  moreover have "readLogRecordForward True f (d\<lparr>fpos := int (length xs)\<rparr>)
      = (d\<lparr>fpos := fpos d, fseq := u32 (fseq d + 1)\<rparr>, Inr (fst e, rec_nf (snd e)))"
    using read_forward [OF e, of f "d\<lparr>fpos := int (length xs)\<rparr>"] a p by simp
  ultimately show ?thesis
    using p n by (simp add: readLogRecordBackward_def rd_bind_def lseek_cur_def rd_return_def)
qed

text \<open>Before the first record there is nothing to read: the position would become negative.\<close>

lemma read_backward_start: "fpos d < 4 \<Longrightarrow> readLogRecordBackward sm f d = (d, Inl (Code EINVAL))"
  by (simp add: readLogRecordBackward_def rd_bind_def lseek_cur_def)

lemma read_forward_end:
  "fpos d = int (length f) \<Longrightarrow> readLogRecordForward sm f d = (d, Inl (Code UNEXPECTED_EOF_ERROR))"
  by (simp add: readLogRecordForward_def rd_bind_def getFilePos_def readInt_def read_bytes_def)

section \<open>Properties\<close>

text \<open>(C11) Whatever is before and after it in the log file, a record that has been written is read back: forward from its
  first byte, ending after it, and backward from the byte after it, ending before it.\<close>

theorem log_record_roundtrip:
  assumes "log_entry_ok e" "f = xs @ writeLogRecord e @ ys"
  shows "readLogRecordForward True f \<lparr>fpos = int (length xs), fseq = q\<rparr>
      = (\<lparr>fpos = int (length xs) + int (length (writeLogRecord e)), fseq = u32 (q + 1)\<rparr>, Inr (fst e, rec_nf (snd e)))
    \<and> readLogRecordBackward True f \<lparr>fpos = int (length xs) + int (length (writeLogRecord e)), fseq = q\<rparr>
      = (\<lparr>fpos = int (length xs), fseq = u32 (q + 1)\<rparr>, Inr (fst e, rec_nf (snd e)))"
proof -
  have "at f (int (length xs)) (writeLogRecord e)"
    by (auto simp: at_def assms(2))
  then show ?thesis
    using read_forward [OF assms(1), of f "\<lparr>fpos = int (length xs), fseq = q\<rparr>"]
      read_backward [OF assms, of "\<lparr>fpos = int (length xs) + int (length (writeLogRecord e)), fseq = q\<rparr>"]
    by simp
qed

definition sample_record :: "int \<times> LogRecord" where
  "sample_record = (7, WriteRec 3 (Some (lid_new 5)) ''name'' None (Some (dv_new_int 42)) False)"

lemma sample_ok: "log_entry_ok sample_record"
  by (simp add: sample_record_def log_entry_ok_def int_ok_def lid_opt_ok_def dv_opt_ok_def dv_ok_def dv_new_int_def dv_setInt_def
      p_init_def lids_opt_ok_def value_ok_def s32_def dv_bytes_def value_bytes_def dv_getType_def lids_bytes_def
      writeLogRecord_def Let_def writeLogicalID_def writeString_def valS_def dv_serialize_bytes lid_serialize_def)

theorem log_record_roundtrip_witness:
  "\<exists>d. readLogRecordForward True (writeLogRecord (6, EndCkptRecord) @ writeLogRecord sample_record) \<lparr>fpos = 12, fseq = 9\<rparr>
     = (d, Inr (7, rec_nf (snd sample_record)))"
  using log_record_roundtrip [OF sample_ok, of "writeLogRecord (6, EndCkptRecord) @ writeLogRecord sample_record"
      "writeLogRecord (6, EndCkptRecord)" "[]" 9]
  by (simp add: writeLogRecord_parts(2) sample_record_def)

end
