(* ===== verification/TransactionLog.thy ===== *)
theory TransactionLog
  imports LogRecords
begin

text \<open>
  The log manager (\<^verbatim>\<open>Log/Logs.cpp\<close>), its thread (\<^verbatim>\<open>Log/LogThread.cpp\<close>) and what the records do when a transaction is rolled
  back or committed again (\<^verbatim>\<open>Log/LogRecord.cpp\<close>). Records go through a queue to the thread that writes them to the file; a
  flush waits until the queue is empty. A rollback flushes, reads the file backward from its end and undoes the records of the
  transaction until it finds the record of its beginning.

  Opening and writing the log file do not fail here.
\<close>

section \<open>State\<close>

record Logs =
  lg_store :: storage
  lg_queue :: "(int \<times> LogRecord) list"
  lg_file :: "byte list"

definition rec_of_write :: "WriteRecord \<Rightarrow> int \<times> LogRecord" where
  "rec_of_write w = (wr_id w, WriteRec (wr_tid w) (Some (wr_lid w)) (wr_name w) (wr_oldVal w) (wr_newVal w) False)"

text \<open>\<open>pushLogable\<close> for the records that the store has handed over with \<open>LogManager::write\<close>: those without a transaction are
  dropped.\<close>

definition pushLogable :: "Logs \<Rightarrow> Logs" where
  "pushLogable st =
     st\<lparr>lg_queue := lg_queue st @ map rec_of_write (filter (\<lambda>w. 0 \<le> wr_tid w) (rev (wlog (lg_store st)))),
        lg_store := (lg_store st)\<lparr>wlog := []\<rparr>\<rparr>"

text \<open>A new record takes the next number and goes to the queue.\<close>

definition log_push :: "Logs \<Rightarrow> LogRecord \<Rightarrow> Logs \<times> int" where
  "log_push st r =
     (let i = u32 (idSeq (lg_store st) + 1)
      in (st\<lparr>lg_store := (lg_store st)\<lparr>idSeq := i\<rparr>, lg_queue := lg_queue st @ [(i, r)]\<rparr>, i))"

text \<open>One round of the loop of the thread.\<close>

definition thread_step :: "Logs \<Rightarrow> Logs" where
  "thread_step st =
     (case lg_queue st of
        [] \<Rightarrow> st
      | e # q \<Rightarrow> st\<lparr>lg_queue := q, lg_file := lg_file st @ writeLogRecord e\<rparr>)"

definition flushLog :: "Logs \<Rightarrow> Logs" where
  "flushLog st = st\<lparr>lg_queue := [], lg_file := lg_file st @ concat (map writeLogRecord (lg_queue st))\<rparr>"

lemma flushLog_thread: "(thread_step ^^ length (lg_queue st)) st = flushLog st"
proof (induction "lg_queue st" arbitrary: st)
  case Nil
  then show ?case
    by (cases st) (simp add: flushLog_def)
next
  case (Cons e q)
  define st' where "st' = thread_step st"
  have q: "lg_queue st = e # q" and st': "st' = st\<lparr>lg_queue := q, lg_file := lg_file st @ writeLogRecord e\<rparr>"
    using Cons.hyps(2) by (simp_all add: st'_def thread_step_def flip: Cons.hyps(2))
  then have "(thread_step ^^ length q) st' = flushLog st'"
    using Cons.hyps(1) [of st'] by simp
  then show ?case
    by (simp add: q funpow_swap1 flip: st'_def) (simp add: st' q flushLog_def)
qed

section \<open>Operations\<close>

definition beginTransaction :: "Logs \<Rightarrow> int \<Rightarrow> Logs \<times> int" where
  "beginTransaction st tid = log_push st (BeginTransactionRecord tid)"

definition push_and_flush :: "Logs \<Rightarrow> LogRecord \<Rightarrow> Logs \<times> int" where
  "push_and_flush st r = (let (st, i) = log_push st r in (flushLog st, i))"

definition commitTransaction :: "Logs \<Rightarrow> int \<Rightarrow> Logs \<times> int" where
  "commitTransaction st tid = push_and_flush st (CommitRecord tid)"

definition log_checkpoint :: "Logs \<Rightarrow> int list \<Rightarrow> Logs \<times> int" where
  "log_checkpoint st tids = push_and_flush st (CkptRecord tids)"

definition endCheckpoint :: "Logs \<Rightarrow> Logs \<times> int" where
  "endCheckpoint st = push_and_flush st EndCkptRecord"

definition log_shutdown :: "Logs \<Rightarrow> Logs \<times> int" where
  "log_shutdown st = push_and_flush st ShutdownRecord"

definition printRollbackSign :: "Logs \<Rightarrow> int \<Rightarrow> Logs" where
  "printRollbackSign st tid = fst (log_push st (RollbackRecord tid))"

definition log_addRoot :: "Logs \<Rightarrow> int \<Rightarrow> lid option \<Rightarrow> Logs \<times> int" where
  "log_addRoot st tid l =
     (let (st', i) = log_push st (AddRootRecord tid l) in (if tid \<ge> 0 then st' else st'\<lparr>lg_queue := lg_queue st\<rparr>, i))"

definition log_removeRoot :: "Logs \<Rightarrow> int \<Rightarrow> lid option \<Rightarrow> Logs \<times> int" where
  "log_removeRoot st tid l =
     (let (st', i) = log_push st (RemoveRootRecord tid l) in (if tid \<ge> 0 then st' else st'\<lparr>lg_queue := lg_queue st\<rparr>, i))"

section \<open>Undoing and redoing a record\<close>

text \<open>The operations on the store run without a transaction, with number -1. A null identifier or value is dereferenced when
  the object pointer is made.\<close>

definition deleteFromStore :: "storage \<Rightarrow> lid option \<Rightarrow> string \<Rightarrow> DBDataValue option \<Rightarrow> storage \<times> (fault + int)" where
  "deleteFromStore s l nm dv =
     (case (l, dv) of
        (Some l, Some v) \<Rightarrow> deleteObject s (-1) (op_new nm v (lid_clone l))
      | _ \<Rightarrow> (s, Inl NullDereference))"

definition addToStore :: "storage \<Rightarrow> lid option \<Rightarrow> string \<Rightarrow> DBDataValue option \<Rightarrow> storage \<times> (fault + int)" where
  "addToStore s l nm dv =
     (case (l, dv) of
        (Some l, Some v) \<Rightarrow>
          sbind (createObject s (-1) nm v (Some (lid_clone l)) False) (\<lambda>s (rc, _). (s, Inr rc))
      | _ \<Rightarrow> (s, Inl NullDereference))"

text \<open>\<open>changeValue\<close> sets the value of the pointer it has read, and \<open>setValue\<close> of an object pointer replaces the object in the
  store (\<open>replaceDV\<close>, as transaction 99999 and without the root flag).\<close>

definition changeValue ::
  "system_views \<Rightarrow> storage \<Rightarrow> lid option \<Rightarrow> string \<Rightarrow> DBDataValue option \<Rightarrow> storage \<times> (fault + int)" where
  "changeValue sysviews s l nm dv =
     (case l of
        None \<Rightarrow> (s, Inl NullDereference)
      | Some lv \<Rightarrow>
          sbind (getObject sysviews s (lid_clone lv)) (\<lambda>s (err, op).
            if err = 0
            then (case (op, dv) of
                    (Some ob, Some v) \<Rightarrow> sbind (replaceDV s ob v) (\<lambda>s _. (s, Inr 0))
                  | _ \<Rightarrow> (s, Inl NullDereference))
            else addToStore s l nm dv))"

text \<open>The pointer has no value, so the store dereferences a null pointer when it rewrites the object; after that it would
  read the null transaction.\<close>

definition rewrite_root :: "bool \<Rightarrow> storage \<Rightarrow> lid option \<Rightarrow> storage \<times> (fault + int)" where
  "rewrite_root root s l =
     (case l of
        None \<Rightarrow> (s, Inl NullDereference)
      | Some l \<Rightarrow>
          (let op = op_setIsRoot (op_new_lid (lid_clone l)) root
           in case val op of
                None \<Rightarrow> (s, Inl NullDereference)
              | Some v \<Rightarrow> sbind (modifyObject s (-1) op v) (\<lambda>s _. (s, Inl NullDereference))))"

definition removeRootFromStore :: "storage \<Rightarrow> lid option \<Rightarrow> storage \<times> (fault + int)" where
  "removeRootFromStore s l = rewrite_root False s l"

definition addRootToStore :: "storage \<Rightarrow> lid option \<Rightarrow> storage \<times> (fault + int)" where
  "addRootToStore s l = rewrite_root True s l"

definition write_rollBack ::
  "system_views \<Rightarrow> storage \<Rightarrow> lid option \<Rightarrow> string \<Rightarrow> DBDataValue option \<Rightarrow> DBDataValue option \<Rightarrow> storage \<times> (fault + int)" where
  "write_rollBack sysviews s l nm oldVal newVal =
     (if oldVal = None \<and> newVal = None then (s, Inr LOG_INCORRECT_RECORD_FORMAT)
      else if oldVal = None then deleteFromStore s l nm newVal
      else if newVal = None then addToStore s l nm oldVal
      else changeValue sysviews s l nm oldVal)"

text \<open>The virtual method \<open>rollBack\<close>; \<open>possible\<close> is false in the phase of crash recovery that only collects
  transactions.\<close>

fun rec_rollBack ::
  "system_views \<Rightarrow> bool \<Rightarrow> LogRecord \<Rightarrow> int set \<Rightarrow> storage \<Rightarrow> storage \<times> int set \<times> (fault + int)" where
  "rec_rollBack sysviews possible (BeginTransactionRecord tid) tids s = (s, tids - {tid}, Inr 0)"
| "rec_rollBack sysviews possible (WriteRec tid l nm oldVal newVal newLID) tids s =
     (if possible \<and> tid \<in> tids
      then (let (s, r) = write_rollBack sysviews s l nm oldVal newVal in (s, tids, r))
      else (s, tids, Inr 0))"
| "rec_rollBack sysviews possible (AddRootRecord tid l) tids s =
     (if possible \<and> tid \<in> tids then (let (s, r) = removeRootFromStore s l in (s, tids, r)) else (s, tids, Inr 0))"
| "rec_rollBack sysviews possible (RemoveRootRecord tid l) tids s =
     (if possible \<and> tid \<in> tids then (let (s, r) = addRootToStore s l in (s, tids, r)) else (s, tids, Inr 0))"
| "rec_rollBack sysviews possible _ tids s = (s, tids, Inr 0)"

fun rec_commit ::
  "system_views \<Rightarrow> LogRecord \<Rightarrow> int set \<Rightarrow> storage \<Rightarrow> storage \<times> int set \<times> (fault + int)" where
  "rec_commit sysviews (CommitRecord tid) tids s = (s, tids - {tid}, Inr 0)"
| "rec_commit sysviews (WriteRec tid l nm oldVal newVal newLID) tids s =
     (if tid \<in> tids
      then (let (s, r) = (if oldVal = None \<and> newVal = None then (s, Inr LOG_INCORRECT_RECORD_FORMAT)
                          else if oldVal = None then addToStore s l nm newVal
                          else if newVal = None then deleteFromStore s l nm oldVal
                          else changeValue sysviews s l nm newVal)
            in (s, tids, r))
      else (s, tids, Inr 0))"
| "rec_commit sysviews (AddRootRecord tid l) tids s =
     (if tid \<in> tids then (let (s, r) = addRootToStore s l in (s, tids, r)) else (s, tids, Inr 0))"
| "rec_commit sysviews (RemoveRootRecord tid l) tids s =
     (if tid \<in> tids then (let (s, r) = removeRootFromStore s l in (s, tids, r)) else (s, tids, Inr 0))"
| "rec_commit sysviews _ tids s = (s, tids, Inr 0)"

section \<open>Rollback\<close>

text \<open>Reading shares its sequence of numbers with the store.\<close>

definition read_log ::
  "(int \<times> LogRecord) reader \<Rightarrow> byte list \<Rightarrow> int \<Rightarrow> storage \<Rightarrow> storage \<times> int \<times> (log_error + int \<times> LogRecord)" where
  "read_log rd f p s = (case rd f \<lparr>fpos = p, fseq = idSeq s\<rparr> of (d, r) \<Rightarrow> (s\<lparr>idSeq := fseq d\<rparr>, fpos d, r))"

text \<open>All error codes of reading are positive.\<close>

partial_function (option) rollback_loop ::
  "system_views \<Rightarrow> byte list \<Rightarrow> int set \<Rightarrow> int \<Rightarrow> storage \<Rightarrow> (storage \<times> (fault + int)) option" where
  "rollback_loop sysviews f tids p s =
     (if tids = {} then Some (s, Inr 0)
      else (case read_log (readLogRecordBackward True) f p s of
              (s, p, Inl (Code e)) \<Rightarrow> Some (s, Inr e)
            | (s, p, Inl (Fault e)) \<Rightarrow> Some (s, Inl e)
            | (s, p, Inr (_, r)) \<Rightarrow>
                (case rec_rollBack sysviews True r tids s of
                   (s, tids, Inl e) \<Rightarrow> Some (s, Inl e)
                 | (s, tids, Inr err) \<Rightarrow>
                     if err > 0 then Some (s, Inr err) else rollback_loop sysviews f tids p s)))"

text \<open>The code and, if it is 0, the number of the rollback record.\<close>

definition rollbackTransaction :: "system_views \<Rightarrow> Logs \<Rightarrow> int \<Rightarrow> (Logs \<times> (fault + int \<times> int option)) option" where
  "rollbackTransaction sysviews st tid =
     (let st = flushLog st in
      case rollback_loop sysviews (lg_file st) {tid} (int (length (lg_file st))) (lg_store st) of
        None \<Rightarrow> None
      | Some (s, Inl e) \<Rightarrow> Some (pushLogable (st\<lparr>lg_store := s\<rparr>), Inl e)
      | Some (s, Inr err) \<Rightarrow>
          let st = pushLogable (st\<lparr>lg_store := s\<rparr>) in
          if err > 0 then Some (st, Inr (err, None))
          else (let (st, i) = log_push st (RollbackRecord tid) in Some (st, Inr (0, Some i))))"

section \<open>Starting\<close>

text \<open>\<open>LogRecord::initialize\<close> makes one record of each of the ten kinds and then continues the numbers of the log file, if the
  file has a last record that can be read.\<close>

definition LogRecord_initialize :: "byte list option \<Rightarrow> storage \<Rightarrow> storage \<times> (fault + int)" where
  "LogRecord_initialize fd s =
     (let s = s\<lparr>idSeq := 10\<rparr> in
      case fd of
        None \<Rightarrow> (s, Inr 0)
      | Some f \<Rightarrow>
          (case read_log (readLogRecordBackward False) f (int (length f)) s of
             (s, p, Inl (Code e)) \<Rightarrow> (s, Inr 0)
           | (s, p, Inl (Fault e)) \<Rightarrow> (s, Inl e)
           | (s, p, Inr (i, _)) \<Rightarrow> (s\<lparr>idSeq := u32 (i + 1)\<rparr>, Inr 0)))"

text \<open>\<open>checkForBackup\<close> on an existing log file: the flag \<open>cleanClosed\<close>, if it is set, and whether the backup is restored. An
  unreadable end of the log leaves the flag, which starts as true, and restores nothing.\<close>

definition checkForBackup :: "byte list \<Rightarrow> storage \<Rightarrow> storage \<times> (fault + bool \<times> bool)" where
  "checkForBackup f s =
     (case read_log (readLogRecordBackward False) f (int (length f)) s of
        (s, p, Inl (Code e)) \<Rightarrow> (s, Inr (True, False))
      | (s, p, Inl (Fault e)) \<Rightarrow> (s, Inl e)
      | (s, p, Inr (_, r)) \<Rightarrow>
          if rec_type r = 7 then (s, Inr (True, False))
          else (case LogRecord_initialize (Some f) s of
                  (s, Inl e) \<Rightarrow> (s, Inl e)
                | (s, Inr _) \<Rightarrow> (s, Inr (False, True))))"

end
