(* ===== verification/Rollback.thy ===== *)
theory Rollback
  imports TransactionLog
begin

text \<open>
  Rolling a transaction back with the log. On the map of objects that the store represents, undoing a write record removes the
  object that was created or puts back the one that was deleted (\<open>undo\<close>); the loop over the log file is shown to do this for
  every record of the transaction, newest first. Then, if the records describe what the transaction has done and no other
  transaction has written the same objects, the objects of the transaction are what they were before it, except that the root
  flag is lost, and all other objects are unchanged.

  A rollback needs room in the store: an empty page for each record is enough.
\<close>

section \<open>Values that were read from the log\<close>

abbreviation reread :: "DBDataValue \<Rightarrow> DBDataValue" where
  "reread \<equiv> dv_nf (\<lambda>_. True)"

lemma lid_nf_wf [simp]: "lid_wf l \<Longrightarrow> u32 (lvalue l) = lvalue l" "lid_wf l \<Longrightarrow> lid_bytes (lid_nf l) = lid_bytes l"
  by (simp_all add: lid_wf_def u32_id lid_bytes_def)

lemma lids_nf_same:
  assumes "lids_opt_ok ls"
  shows "lids_opt_ok (Some (lids_opt_nf ls))" "lids_bytes (Some (lids_opt_nf ls)) = lids_bytes ls"
proof -
  have eq: "map (lvalue \<circ> lid_nf) l = map lvalue l" "map (lid_bytes \<circ> lid_nf) l = map lid_bytes l" if "lids_inv l" for l
    using that by (auto simp: lids_inv_def intro!: map_cong)
  show "lids_opt_ok (Some (lids_opt_nf ls))" "lids_bytes (Some (lids_opt_nf ls)) = lids_bytes ls"
    using assms by (auto simp: lids_opt_ok_def lids_opt_nf_def lids_bytes_def lids_inv_def eq split: option.splits)
qed

lemma value_nf_same:
  assumes "value_ok v"
  shows "value_ok (value_nf (\<lambda>_. True) v)" "value_bytes (value_nf (\<lambda>_. True) v) = value_bytes v"
proof -
  have eq: "map (lid_bytes \<circ> lid_nf) l = map lid_bytes l" if "\<forall>x\<in>set l. lid_wf x" for l
    using that by (auto intro!: map_cong)
  show "value_ok (value_nf (\<lambda>_. True) v)" "value_bytes (value_nf (\<lambda>_. True) v) = value_bytes v"
    using assms by (auto simp: value_ok_def value_nf_def value_bytes_def eq split: complex_value.splits)
qed

lemma reread_same:
  assumes "dv_ok v"
  shows "dv_ok (reread v)" "dv_bytes (reread v) = dv_bytes v"
proof -
  have "dv_getType (reread v) = dv_getType v"
    by (simp add: dv_nf_def dv_getType_def value_nf_def split: complex_value.splits)
  with assms show "dv_ok (reread v)" "dv_bytes (reread v) = dv_bytes v"
    using lids_nf_same [of "classMarks v"] lids_nf_same [of "subclasses v"] value_nf_same [of "dvalue v"]
    by (auto simp: dv_ok_def dv_bytes_def dv_nf_def) (simp add: lids_opt_ok_def)
qed

lemma reread_refs: "dvalue (reread v) = vector_value ls \<Longrightarrow> x \<in> set ls \<Longrightarrow> dv_ok v \<Longrightarrow>
  \<exists>ms. dvalue v = vector_value ms \<and> lvalue x \<in> lvalue ` set ms"
  by (auto simp: dv_nf_def value_nf_def dv_ok_def value_ok_def split: complex_value.splits)

lemma reread_obj:
  assumes "obj_ok n (r, nm, v)"
  shows "obj_ok n (r', nm, reread v)" "obj_bytes i (r', nm, reread v) = obj_bytes i (r', nm, v)"
  using assms reread_same [of v] reread_refs [of v]
  by (fastforce simp: obj_ok_def obj_bytes_def op_bytes_def)+

section \<open>Room\<close>

definition empty_pages :: "storage \<Rightarrow> nat" where
  "empty_pages s = card {p. is_data p \<and> free_space (data_page s p) = 16364}"

lemma empty_pages_T:
  assumes "pages_ok s T"
  shows "empty_pages s = card {p. is_data p \<and> T p = []}"
proof -
  have "free_space (data_page s p) = 16364 \<longleftrightarrow> T p = []" if "is_data p" for p
    using assms that page_reprD(2) [of "data_page s p" "T p"] tot_nonneg [of "T p"]
    by (cases "T p") (auto simp: pages_ok_def)
  then show ?thesis
    unfolding empty_pages_def by (metis (no_types, lifting))
qed

lemma finite_data: "finite {p. is_data p \<and> P p}"
  by (rule finite_subset [of _ "{0..65536}"]) (auto simp: is_data_def)

text \<open>An operation that changes one page leaves at most one empty page fewer.\<close>

lemma empty_pages_update:
  assumes "pages_ok s T" "pages_ok s' T'" "T' = T(q := ys)"
  shows "empty_pages s \<le> Suc (empty_pages s')"
proof -
  have "card {p. is_data p \<and> T p = []} \<le> card (insert q {p. is_data p \<and> T' p = []})"
    using assms(3) by (intro card_mono) (auto simp: finite_data)
  also have "\<dots> \<le> Suc (card {p. is_data p \<and> T' p = []})"
    by (rule card_insert_le_m1) simp_all
  finally show ?thesis
    using empty_pages_T [OF assms(1)] empty_pages_T [OF assms(2)] by simp
qed

lemma empty_pages_room:
  assumes "pages_ok s T" "0 < empty_pages s" "n \<le> 16360"
  shows "has_room s n"
proof -
  have "{p. is_data p \<and> T p = []} \<noteq> {}"
    using assms(2) empty_pages_T [OF assms(1)] by force
  then obtain p where "is_data p" "T p = []"
    by blast
  with assms(3) show ?thesis
    unfolding has_room_T [OF assms(1)] by (auto simp: room_def intro!: exI [of _ p])
qed

section \<open>One record\<close>

text \<open>The store represents \<open>\<sigma>\<close> and can take \<open>n\<close> more changes.\<close>

definition ready :: "nat \<Rightarrow> storage \<Rightarrow> (int \<Rightarrow> obj option) \<Rightarrow> bool" where
  "ready n s \<sigma> \<longleftrightarrow> store_rep s \<sigma> \<and> n \<le> empty_pages s"

lemma ready_mono: "ready n s \<sigma> \<Longrightarrow> m \<le> n \<Longrightarrow> ready m s \<sigma>"
  by (simp add: ready_def)

text \<open>Only objects have changed, and nothing has been handed to the log for a transaction.\<close>

definition quiet :: "storage \<Rightarrow> storage \<Rightarrow> bool" where
  "quiet s s' \<longleftrightarrow> objs_only s s'
     \<and> filter (\<lambda>w. 0 \<le> wr_tid w) (wlog s') = filter (\<lambda>w. 0 \<le> wr_tid w) (wlog s)"

definition silent :: "storage \<Rightarrow> storage \<Rightarrow> bool" where
  "silent s s' \<longleftrightarrow> quiet s s' \<and> map_last s' = map_last s"

lemma quiet_refl [simp]: "quiet s s" "silent s s"
  by (simp_all add: silent_def quiet_def objs_only_def)

lemma quiet_trans: "quiet s t \<Longrightarrow> quiet t u \<Longrightarrow> quiet s u"
  by (auto simp: quiet_def objs_only_def)

lemma silent_trans: "silent s t \<Longrightarrow> silent t u \<Longrightarrow> silent s u"
  by (auto simp: silent_def intro: quiet_trans)

text \<open>The operations take at most \<open>k\<close> numbers of the sequence.\<close>

definition ticks :: "nat \<Rightarrow> storage \<Rightarrow> storage \<Rightarrow> bool" where
  "ticks k s s' \<longleftrightarrow> (0 \<le> idSeq s \<and> idSeq s + int k < 4294967296 \<longrightarrow> idSeq s \<le> idSeq s' \<and> idSeq s' \<le> idSeq s + int k)"

lemma ticks_refl [simp]: "ticks k s s"
  by (simp add: ticks_def)

lemma ticks_trans: "ticks k s t \<Longrightarrow> ticks m t u \<Longrightarrow> ticks (k + m) s u"
  by (auto simp: ticks_def)

lemma ticks_mono: "ticks k s t \<Longrightarrow> k \<le> m \<Longrightarrow> ticks m s t"
  by (auto simp: ticks_def)

lemma ticks_one: "idSeq s' = u32 (idSeq s + 1) \<Longrightarrow> ticks 1 s s'"
  by (simp add: ticks_def u32_def)

lemma readyI:
  assumes "ready (Suc n) s \<sigma>0" "store_at s T \<sigma>0" "store_at s' T' \<sigma>" "\<exists>q ys. T' = T(q := ys)"
  shows "ready n s' \<sigma>"
  using assms empty_pages_update [OF store_atD(3) [OF assms(2)] store_atD(3) [OF assms(3)]]
  by (fastforce simp: ready_def store_rep_def)

lemma op_new_fields: "lid_of (op_new n v l) = Some (lid_clone l)" "val (op_new n v l) = Some (dv_clone v)"
  "name (op_new n v l) = n"
  by (simp_all add: op_new_def)

lemma deleteFromStore_ok:
  assumes "ready (Suc n) s \<sigma>" "\<sigma> (lvalue l) \<noteq> None"
  shows "\<exists>s'. deleteFromStore s (Some l) nm (Some v) = (s', Inr 0) \<and> ready n s' (\<sigma>(lvalue l := None)) \<and> silent s s' \<and> ticks 1 s s'"
proof -
  obtain T where T: "store_at s T \<sigma>"
    using assms(1) by (auto simp: ready_def store_rep_def)
  obtain old where "\<sigma> (lvalue (lid_clone (lid_clone l))) = Some old"
    using assms(2) by auto
  from deleteObject_present [OF T op_new_fields(1,2) this, of "-1" nm v]
  obtain s' T' w where s': "deleteObject s (-1) (op_new nm v (lid_clone l)) = (s', Inr 0)"
    "store_at s' T' (\<sigma>(lvalue l := None))" "map_last s' = map_last s" "\<exists>q ys. T' = T(q := ys)" "objs_only s s'"
    "wlog s' = w # wlog s" "wr_tid w = -1" "idSeq s' = u32 (idSeq s + 1)"
    unfolding lid_clone_simps by (metis WriteRecord.select_convs(1))
  with readyI [OF assms(1) T s'(2,4)] ticks_one show ?thesis
    by (auto simp: deleteFromStore_def silent_def quiet_def)
qed

lemma addToStore_any:
  assumes "ready (Suc n) s \<sigma>" "lid_wf l" "0 < lvalue l" "lvalue l \<le> 10000000"
    "obj_ok (max (map_last s) (lvalue l)) (False, nm, v)" "length (obj_bytes (lvalue l) (False, nm, v)) \<le> 16360"
  shows "\<exists>s'. addToStore s (Some l) nm (Some v) = (s', Inr 0) \<and> ready n s' (\<sigma>(lvalue l \<mapsto> (False, nm, v)))
    \<and> quiet s s' \<and> map_last s' = max (map_last s) (lvalue l) \<and> ticks 1 s s'"
proof -
  obtain T where T: "store_at s T \<sigma>"
    using assms(1) by (auto simp: ready_def store_rep_def)
  have "has_room s (int (length (obj_bytes (lvalue l) (False, nm, v))))"
    using assms(1,6) by (intro empty_pages_room [OF store_atD(3) [OF T]]) (auto simp: ready_def)
  with createObject_any [OF T, of "lid_clone l" False nm v "-1"] assms(2-5)
  obtain s' T' w where s': "createObject s (-1) nm v (Some (lid_clone l)) False
      = (s', Inr (0, op_setIsRoot (op_new nm v (lid_clone l)) False))"
    "store_at s' T' (\<sigma>(lvalue l \<mapsto> (False, nm, v)))" "map_last s' = max (map_last s) (lvalue l)"
    "\<exists>q ys. T' = T(q := ys)" "objs_only s s'" "wlog s' = w # wlog s" "wr_tid w = -1" "idSeq s' = u32 (idSeq s + 1)"
    unfolding lid_clone_simps by (metis WriteRecord.select_convs(1))
  with readyI [OF assms(1) T s'(2,4)] ticks_one show ?thesis
    by (auto simp: addToStore_def quiet_def)
qed

lemma addToStore_ok:
  assumes "ready (Suc n) s \<sigma>" "lid_wf l" "0 < lvalue l" "lvalue l \<le> map_last s" "obj_ok (map_last s) (False, nm, v)"
    "length (obj_bytes (lvalue l) (False, nm, v)) \<le> 16360"
  shows "\<exists>s'. addToStore s (Some l) nm (Some v) = (s', Inr 0) \<and> ready n s' (\<sigma>(lvalue l \<mapsto> (False, nm, v))) \<and> silent s s' \<and> ticks 1 s s'"
proof -
  have m: "max (map_last s) (lvalue l) = map_last s"
    using assms(4) by simp
  have "map_last s \<le> 10000000"
    using assms(1) store_atD(4) by (auto simp: ready_def store_rep_def)
  with addToStore_any [OF assms(1-3), of nm v] assms(4-6) show ?thesis
    unfolding m by (auto simp: silent_def)
qed

section \<open>Undoing on the map of objects\<close>

fun writes :: "int set \<Rightarrow> LogRecord \<Rightarrow> bool" where
  "writes tids (WriteRec tid l nm oldVal newVal newLID) = (tid \<in> tids)"
| "writes tids _ = False"

fun drop_begun :: "LogRecord \<Rightarrow> int set \<Rightarrow> int set" where
  "drop_begun (BeginTransactionRecord tid) tids = tids - {tid}"
| "drop_begun _ tids = tids"

fun undo :: "int set \<Rightarrow> LogRecord \<Rightarrow> (int \<Rightarrow> obj option) \<Rightarrow> (int \<Rightarrow> obj option)" where
  "undo tids (WriteRec tid (Some l) nm None (Some v) newLID) \<sigma> = (if tid \<in> tids then \<sigma>(lvalue l := None) else \<sigma>)"
| "undo tids (WriteRec tid (Some l) nm (Some v) None newLID) \<sigma> =
     (if tid \<in> tids then \<sigma>(lvalue l \<mapsto> (False, nm, reread v)) else \<sigma>)"
| "undo tids _ \<sigma> = \<sigma>"

text \<open>The records that can be undone in \<open>\<sigma>\<close>, when identifiers up to \<open>n\<close> are assigned: a creation whose object is there, a
  deletion whose object fits on a page.\<close>

definition fits :: "int \<Rightarrow> lid \<Rightarrow> string \<Rightarrow> DBDataValue \<Rightarrow> bool" where
  "fits n l nm v \<longleftrightarrow> 0 < lvalue l \<and> lvalue l \<le> n \<and> obj_ok n (False, nm, v)
     \<and> length (obj_bytes (lvalue l) (False, nm, v)) \<le> 16360"

fun undoable :: "int \<Rightarrow> int set \<Rightarrow> LogRecord \<Rightarrow> (int \<Rightarrow> obj option) \<Rightarrow> bool" where
  "undoable n tids (WriteRec tid l nm oldVal newVal newLID) \<sigma> \<longleftrightarrow>
     (tid \<notin> tids \<or>
      (case (l, oldVal, newVal) of
         (Some l, None, Some v) \<Rightarrow> \<sigma> (lvalue l) \<noteq> None
       | (Some l, Some v, None) \<Rightarrow> fits n l nm v
       | _ \<Rightarrow> False))"
| "undoable n tids (AddRootRecord tid l) \<sigma> \<longleftrightarrow> tid \<notin> tids"
| "undoable n tids (RemoveRootRecord tid l) \<sigma> \<longleftrightarrow> tid \<notin> tids"
| "undoable n tids _ \<sigma> \<longleftrightarrow> True"

text \<open>A list of records, newest first.\<close>

fun undo_all :: "int set \<Rightarrow> LogRecord list \<Rightarrow> (int \<Rightarrow> obj option) \<Rightarrow> (int \<Rightarrow> obj option)" where
  "undo_all tids [] \<sigma> = \<sigma>"
| "undo_all tids (r # rs) \<sigma> = undo_all (drop_begun r tids) rs (undo tids r \<sigma>)"

fun undo_ok :: "int \<Rightarrow> int set \<Rightarrow> LogRecord list \<Rightarrow> (int \<Rightarrow> obj option) \<Rightarrow> bool" where
  "undo_ok n tids [] \<sigma> = True"
| "undo_ok n tids (r # rs) \<sigma> \<longleftrightarrow> undoable n tids r \<sigma> \<and> undo_ok n (drop_begun r tids) rs (undo tids r \<sigma>)"

abbreviation num_writes :: "int set \<Rightarrow> LogRecord list \<Rightarrow> nat" where
  "num_writes tids rs \<equiv> length (filter (writes tids) rs)"

lemma undo_other: "\<not> writes tids r \<Longrightarrow> undo tids r \<sigma> = \<sigma>"
  by (cases "(tids, r, \<sigma>)" rule: undo.cases) auto

lemma undo_nothing [simp]: "undo {} r \<sigma> = \<sigma>" "drop_begun r {} = {}"
  by (cases r; simp add: undo_other)+

lemma undo_all_nothing [simp]: "undo_all {} rs \<sigma> = \<sigma>"
  by (induction rs) auto

lemma num_writes_mono: "num_writes (drop_begun r tids) rs \<le> num_writes tids rs"
proof -
  have "writes (drop_begun r tids) x \<Longrightarrow> writes tids x" for x
    by (cases r; cases x) auto
  then have "filter (writes (drop_begun r tids)) rs = filter (writes (drop_begun r tids)) (filter (writes tids) rs)"
    by (auto intro: filter_cong)
  then show ?thesis
    by (metis length_filter_le)
qed

lemma rec_rollBack_ok:
  assumes "ready (n + num_writes tids [r]) s \<sigma>" "undoable (map_last s) tids r \<sigma>" "rec_ok r"
  shows "\<exists>s'. rec_rollBack sysviews True (rec_nf r) tids s = (s', drop_begun r tids, Inr 0)
    \<and> ready n s' (undo tids r \<sigma>) \<and> silent s s' \<and> ticks 1 s s'"
proof (cases "writes tids r")
  case True
  then obtain tid l nm oldVal newVal newLID where r: "r = WriteRec tid l nm oldVal newVal newLID" and tid: "tid \<in> tids"
    by (cases r) auto
  have s: "ready (Suc n) s \<sigma>"
    using assms(1) True by simp
  consider x v where "l = Some x" "oldVal = None" "newVal = Some v" "\<sigma> (lvalue x) \<noteq> None" "lid_wf x"
    | x v where "l = Some x" "oldVal = Some v" "newVal = None" "fits (map_last s) x nm v" "lid_wf x" "dv_ok v"
    using assms(2,3) r tid by (auto simp: lid_opt_ok_def dv_opt_ok_def split: option.splits)
  then show ?thesis
  proof cases
    case 1
    with deleteFromStore_ok [OF s, of "lid_nf x" nm "reread v"] show ?thesis
      by (auto simp: r tid write_rollBack_def)
  next
    case 2
    then have "obj_ok (map_last s) (False, nm, v)"
      by (simp add: fits_def)
    from reread_obj [OF this, where r' = False] 2 addToStore_ok [OF s, of "lid_nf x" nm "reread v"] show ?thesis
      by (auto simp: r tid write_rollBack_def fits_def)
  qed
next
  case False
  with assms show ?thesis
    by (cases r) (auto simp: undo_other)
qed

section \<open>The log file\<close>

abbreviation log_bytes :: "(int \<times> LogRecord) list \<Rightarrow> byte list" where
  "log_bytes es \<equiv> concat (map writeLogRecord es)"

text \<open>The transactions whose beginning is among the records.\<close>

definition begun :: "LogRecord list \<Rightarrow> int set" where
  "begun rs = {tid. BeginTransactionRecord tid \<in> set rs}"

lemma begun_Cons [simp]: "begun (r # rs) = (UNIV - drop_begun r UNIV) \<union> begun rs"
  by (cases r) (auto simp: begun_def)

lemma drop_begun_eq: "drop_begun r tids = tids - (UNIV - drop_begun r UNIV)"
  by (cases r) auto

text \<open>Reading takes a number of the sequence but changes nothing that matters to the objects.\<close>

lemma seq_irrelevant [simp]:
  "store_rep (s\<lparr>idSeq := n\<rparr>) = store_rep s" "empty_pages (s\<lparr>idSeq := n\<rparr>) = empty_pages s"
  "ready k (s\<lparr>idSeq := n\<rparr>) = ready k s" "map_last (s\<lparr>idSeq := n\<rparr>) = map_last s" "silent s (s\<lparr>idSeq := n\<rparr>)"
proof -
  have "store_at (s\<lparr>idSeq := n, wlog := wlog s\<rparr>) = store_at s" "map_last (s\<lparr>idSeq := n, wlog := wlog s\<rparr>) = map_last s"
    by (rule log_irrelevant)+
  then show "store_rep (s\<lparr>idSeq := n\<rparr>) = store_rep s" "map_last (s\<lparr>idSeq := n\<rparr>) = map_last s"
    by (simp_all add: store_rep_def fun_eq_iff)
  then show "empty_pages (s\<lparr>idSeq := n\<rparr>) = empty_pages s" "ready k (s\<lparr>idSeq := n\<rparr>) = ready k s"
    "silent s (s\<lparr>idSeq := n\<rparr>)"
    by (simp_all add: empty_pages_def ready_def silent_def quiet_def objs_only_def fun_eq_iff)
qed

lemma read_log_backward:
  assumes "log_entry_ok e" "f = xs @ writeLogRecord e @ ys"
  shows "read_log (readLogRecordBackward True) f (int (length (xs @ writeLogRecord e))) s
    = (s\<lparr>idSeq := u32 (idSeq s + 1)\<rparr>, int (length xs), Inr (fst e, rec_nf (snd e)))"
  using read_backward [OF assms, of "\<lparr>fpos = int (length (xs @ writeLogRecord e)), fseq = idSeq s\<rparr>"]
  by (simp add: read_log_def)

lemma rollback_loop_ok:
  assumes "f = xs @ log_bytes (rev es) @ rest" "\<forall>e\<in>set es. log_entry_ok e" "tids \<subseteq> begun (map snd es)"
    "ready (n + num_writes tids (map snd es)) s \<sigma>" "undo_ok (map_last s) tids (map snd es) \<sigma>"
  shows "\<exists>s'. rollback_loop sysviews f tids (int (length (xs @ log_bytes (rev es)))) s = Some (s', Inr 0)
    \<and> ready n s' (undo_all tids (map snd es) \<sigma>) \<and> silent s s' \<and> ticks (2 * length es) s s'"
  using assms
proof (induction es arbitrary: tids s \<sigma> rest)
  case Nil
  then show ?case
    by (auto simp: begun_def rollback_loop.simps)
next
  case (Cons e es)
  show ?case
  proof (cases "tids = {}")
    case True
    with Cons.prems(4) ready_mono show ?thesis
      by (auto simp: rollback_loop.simps)
  next
    case False
    let ?s = "s\<lparr>idSeq := u32 (idSeq s + 1)\<rparr>" and ?m = "n + num_writes tids (map snd es)"
    have rd: "read_log (readLogRecordBackward True) f (int (length (xs @ log_bytes (rev (e # es))))) s
        = (?s, int (length (xs @ log_bytes (rev es))), Inr (fst e, rec_nf (snd e)))"
      using read_log_backward [of e f "xs @ log_bytes (rev es)" rest s] Cons.prems(1,2) by simp
    have "ready (?m + num_writes tids [snd e]) ?s \<sigma>"
      using Cons.prems(4) by (simp split: if_splits)
    from rec_rollBack_ok [OF this, of sysviews] Cons.prems(2,5)
    obtain s1 where s1: "rec_rollBack sysviews True (rec_nf (snd e)) tids ?s = (s1, drop_begun (snd e) tids, Inr 0)"
      "ready ?m s1 (undo tids (snd e) \<sigma>)" "silent ?s s1" "ticks 1 ?s s1"
      by (auto simp: log_entry_ok_def)
    have "ready (n + num_writes (drop_begun (snd e) tids) (map snd es)) s1 (undo tids (snd e) \<sigma>)"
      using num_writes_mono [of "snd e" tids "map snd es"] by (intro ready_mono [OF s1(2)]) simp
    with Cons.IH [of "writeLogRecord e @ rest" "drop_begun (snd e) tids" s1 "undo tids (snd e) \<sigma>"] Cons.prems s1(3)
      drop_begun_eq [of "snd e" tids]
    obtain s' where s': "rollback_loop sysviews f (drop_begun (snd e) tids) (int (length (xs @ log_bytes (rev es)))) s1 = Some (s', Inr 0)"
      "ready n s' (undo_all (drop_begun (snd e) tids) (map snd es) (undo tids (snd e) \<sigma>))" "silent s1 s'"
      "ticks (2 * length es) s1 s'"
      by (auto simp: silent_def)
    moreover have "ticks (2 * length (e # es)) s s'"
      using ticks_trans [OF ticks_trans [OF ticks_one [of ?s s] s1(4)] s'(4)] by simp
    ultimately show ?thesis
      using False rd s1 silent_trans [OF silent_trans [OF _ s1(3)] s'(3), of s]
      by (subst rollback_loop.simps) simp
  qed
qed

section \<open>What a rollback restores\<close>

text \<open>What the log describes: a record of a write goes with a creation or a deletion. The value in the record of a deletion is
  the one that the transaction has read.\<close>

inductive write_step :: "LogRecord \<Rightarrow> (int \<Rightarrow> obj option) \<Rightarrow> (int \<Rightarrow> obj option) \<Rightarrow> bool" where
  created: "\<sigma> (lvalue l) = None \<Longrightarrow>
     write_step (WriteRec tid (Some l) nm None (Some v) newLID) \<sigma> (\<sigma>(lvalue l \<mapsto> (root, nm, w)))"
| deleted: "\<sigma> (lvalue l) = Some (root, nm, w) \<Longrightarrow> reread v = reread w \<Longrightarrow>
     write_step (WriteRec tid (Some l) nm (Some v) None newLID) \<sigma> (\<sigma>(lvalue l := None))"
| no_write: "\<not> writes UNIV r \<Longrightarrow> write_step r \<sigma> \<sigma>"

inductive write_steps :: "LogRecord list \<Rightarrow> (int \<Rightarrow> obj option) \<Rightarrow> (int \<Rightarrow> obj option) \<Rightarrow> bool" where
  steps_nil: "write_steps [] \<sigma> \<sigma>"
| steps_snoc: "write_steps rs \<sigma> \<sigma>1 \<Longrightarrow> write_step r \<sigma>1 \<sigma>2 \<Longrightarrow> write_steps (rs @ [r]) \<sigma> \<sigma>2"

text \<open>The object that a record of a transaction writes.\<close>

fun written :: "(int \<Rightarrow> bool) \<Rightarrow> LogRecord \<Rightarrow> int set" where
  "written own (WriteRec tid (Some l) nm oldVal newVal newLID) = (if own tid then {lvalue l} else {})"
| "written own _ = {}"

abbreviation written_by :: "(int \<Rightarrow> bool) \<Rightarrow> LogRecord list \<Rightarrow> int set" where
  "written_by own rs \<equiv> (\<Union>r\<in>set rs. written own r)"

text \<open>An object without its root flag, as it is read from the log.\<close>

definition flat :: "obj \<Rightarrow> obj" where
  "flat ob = (case ob of (root, nm, v) \<Rightarrow> (False, nm, reread v))"

lemma lid_nf_nf [simp]: "lid_nf (lid_nf l) = lid_nf l"
  by (simp add: lid_nf_def lid_new_def u32_def)

lemma reread_reread [simp]: "reread (reread v) = reread v"
  by (simp add: dv_nf_def lids_opt_nf_def value_nf_def comp_def split: option.splits complex_value.splits)

lemma flat_flat [simp]: "flat (flat ob) = flat ob"
  by (simp add: flat_def split: prod.splits)

lemma undo_at: "i \<notin> written (\<lambda>t. t \<in> tids) r \<Longrightarrow> undo tids r \<sigma> i = \<sigma> i"
  by (cases "(tids, r, \<sigma>)" rule: undo.cases) auto

lemma undo_all_at: "i \<notin> written_by (\<lambda>t. t \<in> tids) rs \<Longrightarrow> undo_all tids rs \<sigma> i = \<sigma> i"
proof (induction rs arbitrary: tids \<sigma>)
  case (Cons r rs)
  have "written (\<lambda>t. t \<in> drop_begun r tids) x \<subseteq> written (\<lambda>t. t \<in> tids) x" for x
    by (cases "(\<lambda>t. t \<in> tids, x)" rule: written.cases; cases r) auto
  then have "i \<notin> written_by (\<lambda>t. t \<in> drop_begun r tids) rs"
    using Cons.prems by auto
  with Cons.IH [of "drop_begun r tids" "undo tids r \<sigma>"] Cons.prems undo_at show ?case
    by auto
qed simp

text \<open>One step back at an object.\<close>

lemma undo_write_step:
  assumes "write_step r \<sigma>1 \<sigma>2" "i \<in> written (\<lambda>t. t \<in> tids) r"
  shows "undo tids r \<sigma> i = map_option flat (\<sigma>1 i)"
  using assms(1)
proof (cases rule: write_step.cases)
  case no_write
  with assms(2) show ?thesis by (cases r) auto
qed (use assms(2) in \<open>auto simp: flat_def split: if_splits\<close>)

lemma write_step_at: "write_step r \<sigma>1 \<sigma>2 \<Longrightarrow> i \<notin> written (\<lambda>t. True) r \<Longrightarrow> \<sigma>2 i = \<sigma>1 i"
  by (cases rule: write_step.cases) auto

lemma written_split: "i \<in> written (\<lambda>t. True) r \<Longrightarrow> i \<in> written (\<lambda>t. t \<in> tids) r \<or> i \<in> written (\<lambda>t. t \<notin> tids) r"
  by (cases "(\<lambda>t :: int. True, r)" rule: written.cases) auto

lemma undo_all_flat:
  assumes "write_steps rs \<sigma>0 \<sigma>" "i \<notin> written_by (\<lambda>t. t \<noteq> tid) rs" "BeginTransactionRecord tid \<notin> set rs"
    "map_option flat (\<sigma>' i) = map_option flat (\<sigma> i)"
  shows "map_option flat (undo_all {tid} (rev rs) \<sigma>' i) = map_option flat (\<sigma>0 i)
    \<and> (i \<in> written_by (\<lambda>t. t = tid) rs \<longrightarrow> undo_all {tid} (rev rs) \<sigma>' i = map_option flat (\<sigma>0 i))"
  using assms
proof (induction arbitrary: \<sigma>' rule: write_steps.induct)
  case (steps_nil \<sigma>)
  then show ?case by simp
next
  case (steps_snoc rs \<sigma>0 \<sigma>1 r \<sigma>2)
  have d: "drop_begun r {tid} = {tid}"
    using steps_snoc.prems(2) by (cases r) auto
  show ?case
  proof (cases "i \<in> written (\<lambda>t. t = tid) r")
    case True
    then have u: "undo {tid} r \<sigma>' i = map_option flat (\<sigma>1 i)"
      using undo_write_step [OF steps_snoc.hyps(2), of i "{tid}"] by simp
    then have *: "map_option flat (undo {tid} r \<sigma>' i) = map_option flat (\<sigma>1 i)"
      by (simp add: option.map_comp comp_def)
    have "undo_all {tid} (rev rs) (undo {tid} r \<sigma>') i = map_option flat (\<sigma>0 i)"
    proof (cases "i \<in> written_by (\<lambda>t. t = tid) rs")
      case True
      with steps_snoc.IH [of "undo {tid} r \<sigma>'"] * steps_snoc.prems show ?thesis by auto
    next
      case False
      then have "undo_all {tid} (rev rs) (undo {tid} r \<sigma>') i = undo {tid} r \<sigma>' i"
        by (intro undo_all_at) simp
      with u steps_snoc.IH [of "undo {tid} r \<sigma>'"] * steps_snoc.prems show ?thesis
        by (auto simp: option.map_comp comp_def)
    qed
    then show ?thesis
      by (simp add: d option.map_comp comp_def)
  next
    case False
    then have "i \<notin> written (\<lambda>t. True) r"
      using written_split [of i r "{tid}"] steps_snoc.prems(1) by auto
    then have "\<sigma>2 i = \<sigma>1 i" "undo {tid} r \<sigma>' i = \<sigma>' i"
      using write_step_at [OF steps_snoc.hyps(2)] undo_at [of i "{tid}" r] False by auto
    with steps_snoc.IH [of "undo {tid} r \<sigma>'"] steps_snoc.prems False show ?thesis
      by (auto simp: d)
  qed
qed

text \<open>The records after the beginning of transaction \<open>tid\<close>: no other transaction has written its objects, and what it has deleted
  can be stored again.\<close>

definition tail_ok :: "int \<Rightarrow> int \<Rightarrow> LogRecord list \<Rightarrow> bool" where
  "tail_ok n tid rs \<longleftrightarrow> BeginTransactionRecord tid \<notin> set rs
     \<and> (\<forall>l. AddRootRecord tid l \<notin> set rs \<and> RemoveRootRecord tid l \<notin> set rs)
     \<and> (\<forall>l nm v newLID. WriteRec tid (Some l) nm (Some v) None newLID \<in> set rs \<longrightarrow> fits n l nm v)
     \<and> written_by (\<lambda>t. t = tid) rs \<inter> written_by (\<lambda>t. t \<noteq> tid) rs = {}"

lemma undo_ok_tail:
  assumes "write_steps rs \<sigma>0 \<sigma>" "tail_ok n tid rs"
    "\<forall>i\<in>written_by (\<lambda>t. t = tid) rs. (\<sigma>' i = None) = (\<sigma> i = None)"
  shows "undo_ok n {tid} (rev rs) \<sigma>'"
  using assms
proof (induction arbitrary: \<sigma>' rule: write_steps.induct)
  case (steps_nil \<sigma>)
  then show ?case by simp
next
  case (steps_snoc rs \<sigma>0 \<sigma>1 r \<sigma>2)
  have d: "drop_begun r {tid} = {tid}"
    using steps_snoc.prems(1) by (cases r) (auto simp: tail_ok_def)
  have tail: "tail_ok n tid rs" and r: "tail_ok n tid [r]"
    using steps_snoc.prems(1) by (auto simp: tail_ok_def)
  have "(undo {tid} r \<sigma>' i = None) = (\<sigma>1 i = None)" if i: "i \<in> written_by (\<lambda>t. t = tid) rs" for i
  proof (cases "i \<in> written (\<lambda>t. t = tid) r")
    case True
    with undo_write_step [OF steps_snoc.hyps(2), of i "{tid}"] show ?thesis by simp
  next
    case False
    then have "i \<notin> written (\<lambda>t. True) r"
      using written_split [of i r "{tid}"] steps_snoc.prems(1) i by (auto simp: tail_ok_def)
    with write_step_at [OF steps_snoc.hyps(2)] undo_at [of i "{tid}" r] False steps_snoc.prems(2) i show ?thesis
      by auto
  qed
  then have "undo_ok n {tid} (rev rs) (undo {tid} r \<sigma>')"
    using steps_snoc.IH [OF tail] by blast
  moreover have "undoable n {tid} r \<sigma>'"
    using steps_snoc.hyps(2)
  proof (cases rule: write_step.cases)
    case no_write
    with r show ?thesis by (cases r) (auto simp: tail_ok_def)
  qed (use r steps_snoc.prems(2) in \<open>auto simp: tail_ok_def\<close>)
  ultimately show ?case
    by (simp add: d)
qed

lemma undo_ok_begin: "undo_ok n tids rs \<sigma> \<Longrightarrow> undo_ok n tids (rs @ [BeginTransactionRecord tid]) \<sigma>"
  by (induction n tids rs \<sigma> rule: undo_ok.induct) auto

lemma undo_all_begin: "undo_all tids (rs @ [BeginTransactionRecord tid]) \<sigma> = undo_all tids rs \<sigma>"
  by (induction tids rs \<sigma> rule: undo_all.induct) auto

text \<open>What the records of a transaction undo, when they are at the end of the log.\<close>

lemma undo_all_tail:
  assumes "write_steps rs \<sigma>0 \<sigma>" "tail_ok n tid rs"
  shows "undo_all {tid} (rev rs) \<sigma> = (\<lambda>i. if i \<in> written_by (\<lambda>t. t = tid) rs then map_option flat (\<sigma>0 i) else \<sigma> i)"
proof
  fix i
  show "undo_all {tid} (rev rs) \<sigma> i = (if i \<in> written_by (\<lambda>t. t = tid) rs then map_option flat (\<sigma>0 i) else \<sigma> i)"
  proof (cases "i \<in> written_by (\<lambda>t. t = tid) rs")
    case True
    then have "i \<notin> written_by (\<lambda>t. t \<noteq> tid) rs"
      using assms(2) by (auto simp: tail_ok_def)
    with undo_all_flat [OF assms(1) this, of \<sigma>] assms(2) True show ?thesis
      by (auto simp: tail_ok_def)
  next
    case False
    then show ?thesis
      using undo_all_at [of i "{tid}" "rev rs" \<sigma>] by simp
  qed
qed

lemma log_wlog [simp]: "store_rep (s\<lparr>wlog := w\<rparr>) = store_rep s" "store_rep (s\<lparr>idSeq := n, wlog := w\<rparr>) = store_rep s"
proof -
  show "store_rep (s\<lparr>idSeq := n, wlog := w\<rparr>) = store_rep s" for n
    using log_irrelevant(6) [where s = s and n = n and w = w] by (simp add: store_rep_def fun_eq_iff)
  from this [of "idSeq s"] show "store_rep (s\<lparr>wlog := w\<rparr>) = store_rep s"
    by simp
qed

section \<open>Properties\<close>

text \<open>Rolling back a transaction whose records are at the end of the log (in the file or still in the queue, mixed with the
  records of other transactions) ends without error. Every object that it has written is again what it was before the
  transaction, except that it has no root flag; all other objects are unchanged. The log is on the disk and a rollback
  record is queued.\<close>

lemma rollback_restores:
  assumes st: "store_rep (lg_store st) \<sigma>" "wlog (lg_store st) = []"
    and log: "lg_file st @ log_bytes (lg_queue st) = xs @ log_bytes ((k, BeginTransactionRecord tid) # post)"
      "\<forall>e\<in>set ((k, BeginTransactionRecord tid) # post). log_entry_ok e"
    and ran: "write_steps (map snd post) \<sigma>0 \<sigma>" "tail_ok (map_last (lg_store st)) tid (map snd post)"
    and room: "num_writes {tid} (map snd post) \<le> empty_pages (lg_store st)"
  shows "\<exists>st' j. rollbackTransaction sysviews st tid = Some (st', Inr (0, Some j))
    \<and> store_rep (lg_store st') (\<lambda>i. if i \<in> written_by (\<lambda>t. t = tid) (map snd post) then map_option flat (\<sigma>0 i) else \<sigma> i)
    \<and> lg_file st' = lg_file st @ log_bytes (lg_queue st) \<and> lg_queue st' = [(j, RollbackRecord tid)]
    \<and> objs_only (lg_store st) (lg_store st') \<and> wlog (lg_store st') = []
    \<and> ticks (2 * length post + 3) (lg_store st) (lg_store st')"
proof -
  let ?f = "lg_file st @ log_bytes (lg_queue st)" and ?es = "rev post @ [(k, BeginTransactionRecord tid)]"
  let ?s = "lg_store st" and ?rs = "map snd post"
  let ?\<sigma> = "\<lambda>i. if i \<in> written_by (\<lambda>t. t = tid) ?rs then map_option flat (\<sigma>0 i) else \<sigma> i"
  have undone: "undo_all {tid} (map snd ?es) \<sigma> = ?\<sigma>"
    using undo_all_tail [OF ran] by (simp add: undo_all_begin rev_map)
  have "ready (0 + num_writes {tid} (map snd ?es)) ?s \<sigma>" "undo_ok (map_last ?s) {tid} (map snd ?es) \<sigma>"
    using st(1) room undo_ok_begin [OF undo_ok_tail [OF ran, of \<sigma>]]
    by (simp_all add: ready_def rev_map flip: rev_filter)
  moreover have f: "?f = xs @ log_bytes (rev ?es) @ []" "{tid} \<subseteq> begun (map snd ?es)" "\<forall>e\<in>set ?es. log_entry_ok e"
    using log by (auto simp: begun_def)
  ultimately obtain s' where s': "rollback_loop sysviews ?f {tid} (int (length ?f)) ?s = Some (s', Inr 0)"
    "ready 0 s' ?\<sigma>" "silent ?s s'" "ticks (2 * length ?es) ?s s'"
    using rollback_loop_ok [OF f(1,3,2), of 0 ?s \<sigma> sysviews] log(1) unfolding undone by auto
  have "filter (\<lambda>w. 0 \<le> wr_tid w) (wlog s') = []"
    using s'(3) st(2) by (simp add: silent_def quiet_def)
  then have "filter (\<lambda>w. 0 \<le> wr_tid w) (rev (wlog s')) = []"
    by (simp add: filter_empty_conv)
  moreover have "ticks (2 * length post + 3) ?s (s'\<lparr>wlog := [], idSeq := u32 (idSeq s' + 1)\<rparr>)"
    using ticks_trans [OF s'(4) ticks_one, of "s'\<lparr>wlog := [], idSeq := u32 (idSeq s' + 1)\<rparr>"] by (simp add: numeral_3_eq_3)
  ultimately show ?thesis
    using s' by (auto simp: rollbackTransaction_def flushLog_def pushLogable_def log_push_def Let_def ready_def silent_def quiet_def
        objs_only_def log_wlog)
qed

text \<open>A root object that transaction 7 has deleted.\<close>

definition one_root :: "int \<Rightarrow> obj option" where
  "one_root = (\<lambda>_. None)(1 \<mapsto> (True, ''x'', dv_new_int 5))"

definition deletion_log :: "(int \<times> LogRecord) list" where
  "deletion_log = [(2, WriteRec 7 (Some (lid_new 1)) ''x'' (Some (dv_new_int 5)) None False)]"

lemma small_value: "dv_ok (dv_new_int 5)" "length (dv_bytes (dv_new_int 5)) = 16"
  by (simp_all add: dv_ok_def dv_new_int_def dv_setInt_def p_init_def lids_opt_ok_def value_ok_def dv_bytes_def
      lids_bytes_def value_bytes_def s32_def)

lemma deletion_log_ok:
  "\<forall>e\<in>set ((1, BeginTransactionRecord 7) # deletion_log). log_entry_ok e"
  "write_steps (map snd deletion_log) one_root (one_root(1 := None))"
  "1 \<le> n \<Longrightarrow> tail_ok n 7 (map snd deletion_log)"
proof -
  have one: "lvalue (lid_new 1) = 1"
    by (simp add: u32_def)
  show "\<forall>e\<in>set ((1, BeginTransactionRecord 7) # deletion_log). log_entry_ok e"
    using small_value by (simp add: deletion_log_def log_entry_ok_def int_ok_def lid_opt_ok_def dv_opt_ok_def writeLogRecord_parts(2)
        writeLogicalID_def writeString_def valS_def dv_serialize_bytes lid_serialize_def)
  have "one_root (lvalue (lid_new 1)) = Some (True, ''x'', dv_new_int 5)"
    by (simp add: one one_root_def)
  from steps_snoc [OF steps_nil deleted [where \<sigma> = one_root and v = "dv_new_int 5", OF this refl]]
  show "write_steps (map snd deletion_log) one_root (one_root(1 := None))"
    by (simp add: deletion_log_def one)
  show "1 \<le> n \<Longrightarrow> tail_ok n 7 (map snd deletion_log)"
    using small_object(1) [of n False] small_object(2) [of 1 False]
    by (auto simp: tail_ok_def deletion_log_def fits_def one)
qed

lemma deleted_root_store:
  assumes "store_at s0 (\<lambda>_. []) (\<lambda>_. None)" "map_last s0 = 0" "idSeq s0 = 0"
  shows "\<exists>s. store_rep s (one_root(1 := None)) \<and> 1 \<le> map_last s \<and> 1 \<le> empty_pages s \<and> wlog s = [] \<and> objs_only s0 s \<and> idSeq s = 2"
proof -
  have "is_data 1" "is_data 2" "is_data 3"
    by (simp_all add: is_data_def)
  then have "has_room s0 (int (length (obj_bytes (map_last s0 + 1) (True, ''x'', dv_new_int 5))))"
    using small_object(2) [of "map_last s0 + 1" True] has_room_T [OF store_atD(3) [OF assms(1)]]
    by (auto simp: room_def intro!: exI [of _ 1])
  with createObject_new [OF assms(1), of True "''x''" "dv_new_int 5" 6]
  obtain s q ys where s: "store_at s ((\<lambda>_. [])(q := ys)) one_root" "map_last s = 1" "objs_only s0 s" "idSeq s = 1"
    using small_object(1) assms(2,3) by (auto simp: one_root_def u32_def)
  have one: "lvalue (lid_clone (lid_new 1)) = 1"
    by (simp add: u32_def)
  then have "one_root (lvalue (lid_clone (lid_new 1))) = Some (True, ''x'', dv_new_int 5)"
    by (simp add: one_root_def)
  from deleteObject_present [OF s(1) op_new_fields(1,2) this, of 7 "''x''" "dv_new_int 5"]
  obtain s' T' where d: "store_at s' T' (one_root(1 := None))" "map_last s' = map_last s"
    "\<exists>q' ys'. T' = (\<lambda>_. [])(q := ys, q' := ys')" "objs_only s s'" "idSeq s' = 2"
    unfolding one s(4) by (auto simp: u32_def)
  then obtain q' ys' where s': "store_at s' ((\<lambda>_. [])(q := ys, q' := ys')) (one_root(1 := None))" "map_last s' = 1"
    using s(2) by auto
  have "\<exists>p\<in>{1, 2, 3 :: int}. p \<noteq> q \<and> p \<noteq> q'"
    by auto
  then have "\<exists>p. is_data p \<and> ((\<lambda>_. [])(q := ys, q' := ys')) p = []"
    using \<open>is_data 1\<close> \<open>is_data 2\<close> \<open>is_data 3\<close> by (metis (no_types, lifting) fun_upd_other insertE singletonD)
  then have "{p. is_data p \<and> ((\<lambda>_. [])(q := ys, q' := ys')) p = []} \<noteq> {}"
    by blast
  then have "0 < empty_pages s'"
    unfolding empty_pages_T [OF store_atD(3) [OF s'(1)]] by (simp add: card_gt_0_iff finite_data)
  moreover have "store_rep (s'\<lparr>wlog := []\<rparr>) (one_root(1 := None))"
    using s'(1) by (auto simp: store_rep_def [of s'])
  moreover have "map_last (s'\<lparr>wlog := []\<rparr>) = 1"
    using s'(2) log_irrelevant(1) [where s = s' and n = "idSeq s'" and w = "[]"] by simp
  ultimately show ?thesis
    using objs_only_trans [OF s(3) d(4)] d(5)
    by (intro exI [of _ "s'\<lparr>wlog := []\<rparr>"]) (simp add: empty_pages_def objs_only_def)
qed

end
