(* ===== verification/Semaphores.thy ===== *)
theory Semaphores
  imports Prelude
begin

text \<open>
  The read-write semaphores of \<^verbatim>\<open>Util/Concurrency.cpp\<close>. A semaphore is a monitor: every operation runs under its
  mutex and may wait on a condition variable in the middle. Here an operation is a function from the fields of
  the semaphore to an \<open>outcome\<close>, and the part of an operation after its wait is a second function.
  \<open>RWSemaphore\<close> orders the transactions that work on the store, \<open>RWUJSemaphore\<close> (with upgrades of a reader to
  a writer) is the lock of one object.
\<close>

section \<open>The operations\<close>

datatype LockMode = SemRead | SemWrite | SemNone | SemUpgrade

datatype cond_var = reader_cond | writer_cond | upgrader_cond

datatype wake = Signal cond_var | Broadcast cond_var

text \<open>The counters are \<open>unsigned short\<close>.\<close>

record rwsem =
  writers_waiting :: int
  readers_waiting :: int
  inside :: int
  sem_mode :: LockMode

text \<open>A critical section ends in a failed assertion, in an exception, by returning (with the call that wakes other
  threads on the way) or by waiting on a condition variable.\<close>

datatype ('s, 'r) outcome =
    AssertFails
  | Throws 's
  | Returns "wake option" 's 'r
  | Waits "wake option" 's cond_var

definition assert_that :: "bool \<Rightarrow> ('s, 'r) outcome \<Rightarrow> ('s, 'r) outcome" where
  "assert_that p k = (if p then k else AssertFails)"

text \<open>\<open>fails c\<close> stands for an error of the call that signals on \<open>c\<close>, which \<open>CondVar\<close> turns into an exception;
  \<open>ok\<close> for a wait that returned without an error.\<close>

definition RWSemaphore_new :: rwsem where
  "RWSemaphore_new = \<lparr>writers_waiting = 0, readers_waiting = 0, inside = 0, sem_mode = SemNone\<rparr>"

definition rw_lock_read :: "'a rwsem_scheme \<Rightarrow> ('a rwsem_scheme, bool) outcome" where
  "rw_lock_read s =
     assert_that (sem_mode s \<noteq> SemNone \<or> inside s = 0)
     (if sem_mode s = SemNone \<or> sem_mode s = SemRead \<and> writers_waiting s = 0 then
        assert_that (writers_waiting s = 0)
        (assert_that (inside s = 0 \<or> sem_mode s = SemRead)
        (assert_that (readers_waiting s = 0)
        (assert_that (sem_mode s = SemNone \<or> sem_mode s = SemRead)
        (assert_that (inside s < 65535)
        (Returns None (s\<lparr>sem_mode := SemRead, inside := u16 (inside s + 1)\<rparr>) True)))))
      else
        assert_that (sem_mode s = SemWrite \<or> writers_waiting s \<noteq> 0)
        (assert_that (readers_waiting s < 65535)
        (Waits None (s\<lparr>readers_waiting := u16 (readers_waiting s + 1)\<rparr>) reader_cond)))"

definition rw_read_woken :: "bool \<Rightarrow> 'a rwsem_scheme \<Rightarrow> ('a rwsem_scheme, bool) outcome" where
  "rw_read_woken ok s =
     (if \<not> ok then Throws (s\<lparr>readers_waiting := u16 (readers_waiting s - 1)\<rparr>)
      else assert_that (inside s > 0) (assert_that (sem_mode s = SemRead) (Returns None s True)))"

definition rw_lock_write :: "'a rwsem_scheme \<Rightarrow> ('a rwsem_scheme, bool) outcome" where
  "rw_lock_write s =
     assert_that (sem_mode s \<noteq> SemNone \<or> inside s = 0)
     (if sem_mode s = SemNone then
        assert_that (inside s = 0)
        (assert_that (readers_waiting s = 0 \<and> writers_waiting s = 0)
        (Returns None (s\<lparr>sem_mode := SemWrite, inside := 1\<rparr>) True))
      else Waits None (s\<lparr>writers_waiting := u16 (writers_waiting s + 1)\<rparr>) writer_cond)"

definition rw_write_woken :: "bool \<Rightarrow> 'a rwsem_scheme \<Rightarrow> ('a rwsem_scheme, bool) outcome" where
  "rw_write_woken ok s =
     (if \<not> ok then Throws (s\<lparr>writers_waiting := u16 (writers_waiting s - 1)\<rparr>)
      else assert_that (inside s = 1 \<and> sem_mode s = SemWrite) (Returns None s True))"

definition rw_unlock :: "(cond_var \<Rightarrow> bool) \<Rightarrow> 'a rwsem_scheme \<Rightarrow> ('a rwsem_scheme, bool) outcome" where
  "rw_unlock fails s =
     assert_that (inside s > 0 \<and> (sem_mode s = SemRead \<or> sem_mode s = SemWrite))
     (let s = s\<lparr>inside := u16 (inside s - 1)\<rparr> in
      if inside s = 0 then
        (if readers_waiting s > 0 then
           (if sem_mode s = SemRead then
              assert_that (writers_waiting s > 0)
              (let s' = s\<lparr>sem_mode := SemWrite, writers_waiting := u16 (writers_waiting s - 1), inside := 1\<rparr> in
               if fails writer_cond then
                 assert_that (inside s' = 1)
                 (Throws (s'\<lparr>writers_waiting := u16 (writers_waiting s' + 1), sem_mode := SemRead\<rparr>))
               else Returns (Some (Signal writer_cond)) s' True)
            else
              assert_that (sem_mode s = SemWrite)
              (let old_readers_waiting = readers_waiting s;
                   s' = s\<lparr>sem_mode := SemRead, inside := readers_waiting s, readers_waiting := 0\<rparr> in
               if fails reader_cond then
                 Throws (s'\<lparr>inside := 1, sem_mode := SemWrite, readers_waiting := old_readers_waiting\<rparr>)
               else Returns (Some (Broadcast reader_cond)) s' True))
         else if writers_waiting s > 0 then
           assert_that (readers_waiting s = 0)
           (let old_mode = sem_mode s;
                s' = s\<lparr>sem_mode := SemWrite, writers_waiting := u16 (writers_waiting s - 1), inside := 1\<rparr> in
            if fails writer_cond then
              assert_that (inside s' = 1)
              (Throws (s'\<lparr>sem_mode := old_mode, writers_waiting := u16 (writers_waiting s' + 1)\<rparr>))
            else Returns (Some (Signal writer_cond)) s' True)
         else
           assert_that (readers_waiting s = 0 \<and> writers_waiting s = 0)
           (Returns None (s\<lparr>sem_mode := SemNone\<rparr>) True))
      else assert_that (sem_mode s = SemRead) (Returns None s True))"

text \<open>\<open>RWUJSemaphore\<close>: the fields of the upgrade.\<close>

record rwujsem = rwsem +
  upgrader_waiting :: bool
  best_upgrader :: int

definition NO_UPGRADER :: int where "NO_UPGRADER = -1"

definition RWUJSemaphore_new :: rwujsem where
  "RWUJSemaphore_new = \<lparr>writers_waiting = 0, readers_waiting = 0, inside = 0, sem_mode = SemNone,
     upgrader_waiting = False, best_upgrader = NO_UPGRADER\<rparr>"

definition rwuj_lock_read :: "rwujsem \<Rightarrow> (rwujsem, bool) outcome" where
  "rwuj_lock_read s =
     assert_that (sem_mode s \<noteq> SemNone \<or> inside s = 0)
     (if sem_mode s = SemNone \<or> sem_mode s = SemRead \<and> writers_waiting s = 0 \<and> \<not> upgrader_waiting s then
        assert_that (best_upgrader s = NO_UPGRADER)
        (assert_that (writers_waiting s = 0)
        (assert_that (\<not> upgrader_waiting s)
        (assert_that (inside s = 0 \<or> sem_mode s = SemRead)
        (assert_that (readers_waiting s = 0)
        (assert_that (sem_mode s = SemNone \<or> sem_mode s = SemRead)
        (assert_that (inside s < 65535)
        (Returns None (s\<lparr>sem_mode := SemRead, inside := u16 (inside s + 1)\<rparr>) True)))))))
      else
        assert_that (sem_mode s = SemWrite \<or> writers_waiting s > 0 \<or> upgrader_waiting s)
        (assert_that (upgrader_waiting s \<or> best_upgrader s = NO_UPGRADER)
        (assert_that (readers_waiting s < 65535)
        (Waits None (s\<lparr>readers_waiting := u16 (readers_waiting s + 1)\<rparr>) reader_cond))))"

definition rwuj_lock_write :: "rwujsem \<Rightarrow> (rwujsem, bool) outcome" where
  "rwuj_lock_write s =
     assert_that (sem_mode s \<noteq> SemNone \<or> inside s = 0)
     (if sem_mode s = SemNone then
        assert_that (inside s = 0)
        (assert_that (readers_waiting s = 0 \<and> writers_waiting s = 0 \<and> \<not> upgrader_waiting s)
        (assert_that (best_upgrader s = NO_UPGRADER)
        (Returns None (s\<lparr>sem_mode := SemWrite, inside := 1\<rparr>) True)))
      else Waits None (s\<lparr>writers_waiting := u16 (writers_waiting s + 1)\<rparr>) writer_cond)"

text \<open>\<open>try_lock_write\<close> does not take the mutex.\<close>

definition rwuj_try_lock_write :: "rwujsem \<Rightarrow> (rwujsem, bool) outcome" where
  "rwuj_try_lock_write s =
     assert_that (sem_mode s \<noteq> SemNone \<or> inside s = 0)
     (if sem_mode s = SemNone then
        assert_that (inside s = 0)
        (assert_that (readers_waiting s = 0 \<and> writers_waiting s = 0 \<and> \<not> upgrader_waiting s)
        (assert_that (best_upgrader s = NO_UPGRADER)
        (Returns None (s\<lparr>sem_mode := SemWrite, inside := 1\<rparr>) True)))
      else Returns None s False)"

text \<open>\<open>_unlock\<close>, with the value its caller returns.\<close>

definition rwuj_unlock_as :: "bool \<Rightarrow> (cond_var \<Rightarrow> bool) \<Rightarrow> rwujsem \<Rightarrow> (rwujsem, bool) outcome" where
  "rwuj_unlock_as r fails s =
     assert_that (inside s > 0 \<and> (sem_mode s = SemRead \<or> sem_mode s = SemWrite))
     (let s = s\<lparr>inside := u16 (inside s - 1)\<rparr> in
      if inside s = 0 then
        (if readers_waiting s > 0 then
           (if sem_mode s = SemRead then
              assert_that (writers_waiting s > 0 \<or> upgrader_waiting s)
              (let s = s\<lparr>inside := 1\<rparr> in
               if fails writer_cond then Throws s
               else Returns (Some (Signal writer_cond))
                      (s\<lparr>writers_waiting := u16 (writers_waiting s - 1), sem_mode := SemWrite\<rparr>) r)
            else
              assert_that (sem_mode s = SemWrite)
              (if fails reader_cond then Throws (s\<lparr>inside := 1\<rparr>)
               else Returns (Some (Broadcast reader_cond))
                      (s\<lparr>inside := readers_waiting s, sem_mode := SemRead, readers_waiting := 0\<rparr>) r))
         else if writers_waiting s > 0 then
           assert_that (readers_waiting s = 0)
           (let s = s\<lparr>inside := 1\<rparr> in
            if fails writer_cond then Throws s
            else Returns (Some (Signal writer_cond))
                   (s\<lparr>sem_mode := SemWrite, writers_waiting := u16 (writers_waiting s - 1)\<rparr>) r)
         else
           assert_that (readers_waiting s = 0 \<and> writers_waiting s = 0)
           (Returns None (s\<lparr>sem_mode := SemNone\<rparr>) r))
      else if inside s = 1 then
        assert_that (sem_mode s = SemRead)
        (if upgrader_waiting s then
           assert_that (best_upgrader s \<noteq> NO_UPGRADER)
           (if fails upgrader_cond then Throws s
            else Returns (Some (Signal upgrader_cond)) (s\<lparr>sem_mode := SemWrite\<rparr>) r)
         else Returns None s r)
      else assert_that (sem_mode s = SemRead) (Returns None s r))"

definition rwuj_unlock :: "(cond_var \<Rightarrow> bool) \<Rightarrow> rwujsem \<Rightarrow> (rwujsem, bool) outcome" where
  "rwuj_unlock fails s = rwuj_unlock_as True fails s"

definition rwuj_lock_upgrade :: "(cond_var \<Rightarrow> bool) \<Rightarrow> int \<Rightarrow> rwujsem \<Rightarrow> (rwujsem, bool) outcome" where
  "rwuj_lock_upgrade fails prio s =
     assert_that (sem_mode s \<noteq> SemNone \<or> inside s = 0)
     (if sem_mode s = SemRead \<and> inside s = 1 then
        Returns None (s\<lparr>sem_mode := SemWrite, upgrader_waiting := False, best_upgrader := NO_UPGRADER\<rparr>) True
      else if upgrader_waiting s then
        assert_that (best_upgrader s \<noteq> NO_UPGRADER)
        (assert_that (best_upgrader s \<noteq> prio)
        (if best_upgrader s > prio then
           (if fails upgrader_cond then Throws s
            else Waits (Some (Signal upgrader_cond)) (s\<lparr>best_upgrader := prio\<rparr>) upgrader_cond)
         else rwuj_unlock_as False fails s))
      else
        assert_that (best_upgrader s = NO_UPGRADER)
        (Waits None (s\<lparr>upgrader_waiting := True, best_upgrader := prio\<rparr>) upgrader_cond))"

text \<open>The part after the wait. The handler of an exception from the wait resets the two fields of the upgrade only
  if the caller was the first to wait; otherwise the exception passes through (\<open>first\<close> tells which of the two
  waits it was).\<close>

definition rwuj_upgrade_woken ::
  "bool \<Rightarrow> bool \<Rightarrow> (cond_var \<Rightarrow> bool) \<Rightarrow> int \<Rightarrow> rwujsem \<Rightarrow> (rwujsem, bool) outcome" where
  "rwuj_upgrade_woken ok first fails prio s =
     (if \<not> ok then
        Throws (if first then s\<lparr>upgrader_waiting := False, best_upgrader := NO_UPGRADER\<rparr> else s)
      else
        assert_that (upgrader_waiting s)
        (if best_upgrader s = prio then
           assert_that (sem_mode s = SemWrite)
           (assert_that (inside s = 1)
           (Returns None (s\<lparr>upgrader_waiting := False, best_upgrader := NO_UPGRADER\<rparr>) True))
         else assert_that (best_upgrader s \<noteq> NO_UPGRADER) (rwuj_unlock_as False fails s)))"

end
