(* ===== verification/SemaphoreSystem.thy ===== *)
theory SemaphoreSystem
  imports Semaphores
begin

text \<open>
  Threads that use one semaphore, as a step relation. A thread is outside, holds the semaphore (reading or writing),
  waits on a condition variable, or has been woken and has not yet run the rest of its operation. A signal wakes one
  of the threads that wait on the condition variable, a broadcast all of them. POSIX also allows a wait to return
  without a signal; the code has no loop around its waits and relies on this not happening.
\<close>

section \<open>Steps\<close>

datatype status = Outside | Reading | Writing | WaitRead | WokenRead | WaitWrite | WokenWrite | WaitUpgrade | WokenUpgrade

fun waits_on :: "cond_var \<Rightarrow> status \<Rightarrow> bool" where
  "waits_on reader_cond x = (x = WaitRead)"
| "waits_on writer_cond x = (x = WaitWrite)"
| "waits_on upgrader_cond x = (x = WaitUpgrade)"

fun woken :: "status \<Rightarrow> status" where
  "woken WaitRead = WokenRead"
| "woken WaitWrite = WokenWrite"
| "woken WaitUpgrade = WokenUpgrade"
| "woken x = x"

text \<open>The operations of a kind of semaphore; upgrades are optional.\<close>

record 's sem_ops =
  o_lock_read :: "'s \<Rightarrow> ('s, bool) outcome"
  o_read_woken :: "'s \<Rightarrow> ('s, bool) outcome"
  o_lock_write :: "'s \<Rightarrow> ('s, bool) outcome"
  o_write_woken :: "'s \<Rightarrow> ('s, bool) outcome"
  o_unlock :: "'s \<Rightarrow> ('s, bool) outcome"
  o_upgrades :: bool
  o_upgrade :: "int \<Rightarrow> 's \<Rightarrow> ('s, bool) outcome"
  o_upgrade_woken :: "int \<Rightarrow> 's \<Rightarrow> ('s, bool) outcome"

definition no_error :: "cond_var \<Rightarrow> bool" where "no_error c = False"

definition rw_ops :: "rwsem sem_ops" where
  "rw_ops = \<lparr>o_lock_read = rw_lock_read, o_read_woken = rw_read_woken True, o_lock_write = rw_lock_write,
     o_write_woken = rw_write_woken True, o_unlock = rw_unlock no_error, o_upgrades = False,
     o_upgrade = (\<lambda>p s. AssertFails), o_upgrade_woken = (\<lambda>p s. AssertFails)\<rparr>"

definition rwuj_ops :: "rwujsem sem_ops" where
  "rwuj_ops = \<lparr>o_lock_read = rwuj_lock_read, o_read_woken = rw_read_woken True, o_lock_write = rwuj_lock_write,
     o_write_woken = rw_write_woken True, o_unlock = rwuj_unlock no_error, o_upgrades = True,
     o_upgrade = rwuj_lock_upgrade no_error, o_upgrade_woken = rwuj_upgrade_woken True True no_error\<rparr>"

text \<open>The state: the semaphore, the threads, and whether an assertion has failed.\<close>

record ('t, 's) system =
  sem :: 's
  st :: "'t \<Rightarrow> status"
  failed :: bool

inductive wake_up :: "wake option \<Rightarrow> ('t \<Rightarrow> status) \<Rightarrow> ('t \<Rightarrow> status) \<Rightarrow> bool" where
  no_call: "wake_up None q q"
| signal_one: "waits_on c (q t) \<Longrightarrow> wake_up (Some (Signal c)) q (q(t := woken (q t)))"
| signal_lost: "\<forall>t. \<not> waits_on c (q t) \<Longrightarrow> wake_up (Some (Signal c)) q q"
| broadcast: "wake_up (Some (Broadcast c)) q (\<lambda>t. if waits_on c (q t) then woken (q t) else q t)"

text \<open>How a section of thread \<open>t\<close> with a given outcome changes the system: \<open>yes\<close> and \<open>no\<close> are the states of the
  thread when the operation returns true and false, \<open>w\<close> the one while it waits.\<close>

inductive settle :: "('s, bool) outcome \<Rightarrow> 't \<Rightarrow> status \<Rightarrow> status \<Rightarrow> status \<Rightarrow> ('t, 's) system \<Rightarrow> ('t, 's) system \<Rightarrow> bool"
  for oc t yes no w z where
  settle_returns: "oc = Returns k s' r \<Longrightarrow> wake_up k (st z) q
     \<Longrightarrow> settle oc t yes no w z (z\<lparr>sem := s', st := q(t := (if r then yes else no))\<rparr>)"
| settle_waits: "oc = Waits k s' c \<Longrightarrow> wake_up k (st z) q
     \<Longrightarrow> settle oc t yes no w z (z\<lparr>sem := s', st := q(t := w)\<rparr>)"
| settle_fails: "oc = AssertFails \<Longrightarrow> settle oc t yes no w z (z\<lparr>failed := True\<rparr>)"

text \<open>Steps that ask for the semaphore, and steps that only go on: a woken thread runs the rest of its operation, a
  holder releases.\<close>

inductive request_step :: "'s sem_ops \<Rightarrow> ('t \<Rightarrow> int) \<Rightarrow> 't set \<Rightarrow> ('t, 's) system \<Rightarrow> ('t, 's) system \<Rightarrow> bool"
  for ops prio T z z' where
  ask_read: "t \<in> T \<Longrightarrow> st z t = Outside \<Longrightarrow> settle (o_lock_read ops (sem z)) t Reading Outside WaitRead z z'
     \<Longrightarrow> request_step ops prio T z z'"
| ask_write: "t \<in> T \<Longrightarrow> st z t = Outside \<Longrightarrow> settle (o_lock_write ops (sem z)) t Writing Outside WaitWrite z z'
     \<Longrightarrow> request_step ops prio T z z'"
| ask_upgrade: "t \<in> T \<Longrightarrow> o_upgrades ops \<Longrightarrow> st z t = Reading
     \<Longrightarrow> settle (o_upgrade ops (prio t) (sem z)) t Writing Outside WaitUpgrade z z' \<Longrightarrow> request_step ops prio T z z'"

inductive release_step :: "'s sem_ops \<Rightarrow> ('t \<Rightarrow> int) \<Rightarrow> 't set \<Rightarrow> ('t, 's) system \<Rightarrow> ('t, 's) system \<Rightarrow> bool"
  for ops prio T z z' where
  go_read: "t \<in> T \<Longrightarrow> st z t = WokenRead \<Longrightarrow> settle (o_read_woken ops (sem z)) t Reading Outside WaitRead z z'
     \<Longrightarrow> release_step ops prio T z z'"
| go_write: "t \<in> T \<Longrightarrow> st z t = WokenWrite \<Longrightarrow> settle (o_write_woken ops (sem z)) t Writing Outside WaitWrite z z'
     \<Longrightarrow> release_step ops prio T z z'"
| go_upgrade: "t \<in> T \<Longrightarrow> st z t = WokenUpgrade
     \<Longrightarrow> settle (o_upgrade_woken ops (prio t) (sem z)) t Writing Outside WaitUpgrade z z' \<Longrightarrow> release_step ops prio T z z'"
| leave: "t \<in> T \<Longrightarrow> st z t = Reading \<or> st z t = Writing
     \<Longrightarrow> settle (o_unlock ops (sem z)) t Outside Outside WaitRead z z' \<Longrightarrow> release_step ops prio T z z'"

inductive reachable :: "'s sem_ops \<Rightarrow> ('t \<Rightarrow> int) \<Rightarrow> 't set \<Rightarrow> 's \<Rightarrow> ('t, 's) system \<Rightarrow> bool"
  for ops prio T s0 where
  reach_start: "reachable ops prio T s0 \<lparr>sem = s0, st = (\<lambda>_. Outside), failed = False\<rparr>"
| reach_request: "reachable ops prio T s0 z \<Longrightarrow> request_step ops prio T z z' \<Longrightarrow> reachable ops prio T s0 z'"
| reach_release: "reachable ops prio T s0 z \<Longrightarrow> release_step ops prio T z z' \<Longrightarrow> reachable ops prio T s0 z'"

inductive_simps settle_Returns: "settle (Returns k s' r) t yes no w z z'"
inductive_simps settle_Waits: "settle (Waits k s' c) t yes no w z z'"
inductive_simps settle_AssertFails: "settle AssertFails t yes no w z z'"
inductive_simps wake_None [simp]: "wake_up None q q'"
inductive_simps wake_Broadcast [simp]: "wake_up (Some (Broadcast c)) q q'"
inductive_simps wake_Signal: "wake_up (Some (Signal c)) q q'"

end
