(* ===== verification/LockManager.thy ===== *)
theory LockManager
  imports SemaphoreSystem NamedItems
begin

text \<open>
  The lock manager of \<^verbatim>\<open>Lock/Lock.cpp\<close>, the locks of single objects of \<^verbatim>\<open>Lock/SingleLock.cpp\<close> and the comparisons of
  \<^verbatim>\<open>Lock/Comparator.cpp\<close>. A transaction is known by its identifier, a \<open>SingleLock\<close> object by its number. A call runs
  up to the wait on the semaphore of the lock (\<open>lock_primitive\<close>), and goes on after it (\<open>lock_woken\<close>), without a step of
  another thread in between. In the code other threads may run between its sections: neither the mutex of the manager nor that of
  the lock is held all the time. The theory \<open>LockSteps\<close> splits the calls into these sections. The counters \<open>inside\<close> and \<open>waiting\<close> of a lock and
  the numbers of the locks are \<open>int\<close> in the code; their overflow would need two billion requests and is undefined there.
\<close>

datatype AccessMode = Read | Write

definition ErrTManager :: int where "ErrTManager = 41943040"
definition EDeadlock :: int where "EDeadlock = 9216"
definition ENoFile :: int where "ENoFile = 256"

section \<open>Comparisons\<close>

text \<open>The three comparisons are the orders of the sets and maps. The page number is truncated to 16 bits. A null pointer
  compares as less than a null pointer.\<close>

definition DBPhysicalIDCmp :: "physical_id option \<Rightarrow> physical_id option \<Rightarrow> bool" where
  "DBPhysicalIDCmp db1 db2 =
     (case (db1, db2) of
        (None, _) \<Rightarrow> db2 = None
      | (_, None) \<Rightarrow> db1 = None
      | (Some x, Some y) \<Rightarrow>
          let f1 = file_id x; f2 = file_id y; p1 = u16 (page_id x); p2 = u16 (page_id y) in
          if f1 \<noteq> f2 then f1 < f2
          else if p1 \<noteq> p2 then p1 < p2
          else offset x < offset y)"

definition TransactionIDCmp :: "TransactionID option \<Rightarrow> TransactionID option \<Rightarrow> bool" where
  "TransactionIDCmp tid1 tid2 =
     (case (tid1, tid2) of
        (None, _) \<Rightarrow> tid2 = None
      | (_, None) \<Rightarrow> tid1 = None
      | (Some x, Some y) \<Rightarrow> tid_id x > tid_id y)"

text \<open>Two keys are the same for a \<open>map\<close> if neither is less than the other.\<close>

definition lock_key :: "physical_id \<Rightarrow> int \<times> int \<times> int" where
  "lock_key p = (file_id p, u16 (page_id p), offset p)"

lemma DBPhysicalIDCmp_key:
  "\<not> DBPhysicalIDCmp (Some x) (Some y) \<and> \<not> DBPhysicalIDCmp (Some y) (Some x) \<longleftrightarrow> lock_key x = lock_key y"
  by (auto simp: DBPhysicalIDCmp_def lock_key_def Let_def)

lemma TransactionIDCmp_key:
  "\<not> TransactionIDCmp (Some x) (Some y) \<and> \<not> TransactionIDCmp (Some y) (Some x) \<longleftrightarrow> tid_id x = tid_id y"
  by (auto simp: TransactionIDCmp_def)

section \<open>The lock of an object\<close>

record SingleLock =
  currentRead :: "int set"
  currentWrite :: "int set"
  sl_inside :: int
  sl_waiting :: int
  sl_tid :: TransactionID
  sl_id :: int
  sl_sem :: rwujsem
  phid :: physical_id

text \<open>\<open>SingleLock\<close>: a new semaphore is locked at once.\<close>

definition SingleLock_new ::
  "TransactionID \<Rightarrow> AccessMode \<Rightarrow> rwujsem \<Rightarrow> int \<Rightarrow> physical_id \<Rightarrow> (SingleLock, int) outcome" where
  "SingleLock_new t md sm i p =
     (case (if md = Read then rwuj_lock_read sm else rwuj_lock_write sm) of
        Returns k sm' _ \<Rightarrow>
          Returns k \<lparr>currentRead = (if md = Read then {tid_id t} else {}),
            currentWrite = (if md = Read then {} else {tid_id t}), sl_inside = 1, sl_waiting = 0,
            sl_tid = t, sl_id = i, sl_sem = sm', phid = p\<rparr> 0
      | _ \<Rightarrow> AssertFails)"

definition preventDeadlock :: "SingleLock \<Rightarrow> TransactionID \<Rightarrow> int" where
  "preventDeadlock sl t =
     (if tid_priority (sl_tid sl) < tid_priority t then or ErrTManager EDeadlock else 0)"

text \<open>What \<open>wait_for_lock\<close> asks of the semaphore: nothing, because the transaction holds the lock already or because
  the request is refused to prevent a deadlock, or one of its three operations.\<close>

datatype sem_request = Held | Refuse int | AskRead | AskWrite | AskUpgrade

definition unless_deadlock :: "SingleLock \<Rightarrow> TransactionID \<Rightarrow> sem_request \<Rightarrow> sem_request" where
  "unless_deadlock sl t r = (if preventDeadlock sl t = 0 then r else Refuse (preventDeadlock sl t))"

text \<open>The first section of \<open>wait_for_lock\<close>, under the mutex of the lock, and the choice of the request, for which the mutex is
  not held.\<close>

definition sl_count :: "SingleLock \<Rightarrow> TransactionID \<Rightarrow> SingleLock \<times> bool \<times> bool" where
  "sl_count sl t =
     (sl\<lparr>sl_waiting := sl_waiting sl + 1\<rparr>, tid_id t \<in> currentRead sl, tid_id t \<in> currentWrite sl)"

definition sl_decide :: "SingleLock \<Rightarrow> TransactionID \<Rightarrow> AccessMode \<Rightarrow> bool \<Rightarrow> bool \<Rightarrow> sem_request" where
  "sl_decide sl t md isCurrentRead isCurrentWrite =
     (if md = Read \<and> \<not> isCurrentRead \<and> \<not> isCurrentWrite then
        (if currentWrite sl = {} then AskRead else unless_deadlock sl t AskRead)
      else if md = Read \<and> isCurrentRead then Held
      else if md = Read \<and> isCurrentWrite then Held
      else if md = Write \<and> \<not> isCurrentRead \<and> \<not> isCurrentWrite then unless_deadlock sl t AskWrite
      else if md = Write \<and> isCurrentWrite then Held
      else unless_deadlock sl t AskUpgrade)"

definition lock_request :: "SingleLock \<Rightarrow> TransactionID \<Rightarrow> AccessMode \<Rightarrow> sem_request" where
  "lock_request sl t md = (case sl_count sl t of (sl, isCurrentRead, isCurrentWrite) \<Rightarrow> sl_decide sl t md isCurrentRead isCurrentWrite)"

lemmas lock_request_defs = lock_request_def sl_count_def sl_decide_def

text \<open>The end of \<open>wait_for_lock\<close>. The result of the upgrade is taken as an error code: true is 1.\<close>

definition lock_received :: "SingleLock \<Rightarrow> TransactionID \<Rightarrow> AccessMode \<Rightarrow> int \<Rightarrow> SingleLock" where
  "lock_received sl t md errorCode =
     (if errorCode = 0 then
        sl\<lparr>sl_waiting := sl_waiting sl - 1,
           currentRead := (if md = Read then insert (tid_id t) (currentRead sl) else currentRead sl),
           currentWrite := (if md = Read then currentWrite sl else insert (tid_id t) (currentWrite sl)),
           sl_tid := (if tid_priority t < tid_priority (sl_tid sl) then t else sl_tid sl),
           sl_inside := sl_inside sl + 1\<rparr>
      else sl)"

definition after_sem ::
  "SingleLock \<Rightarrow> TransactionID \<Rightarrow> AccessMode \<Rightarrow> bool \<Rightarrow> (rwujsem, bool) outcome \<Rightarrow> (SingleLock, int) outcome" where
  "after_sem sl t md upgrade oc =
     (case oc of
        AssertFails \<Rightarrow> AssertFails
      | Throws s \<Rightarrow> Throws (sl\<lparr>sl_sem := s\<rparr>)
      | Waits k s c \<Rightarrow> Waits k (sl\<lparr>sl_sem := s\<rparr>) c
      | Returns k s r \<Rightarrow>
          let errorCode = (if upgrade then of_bool r else 0)
          in Returns k (lock_received (sl\<lparr>sl_sem := s\<rparr>) t md errorCode) errorCode)"

definition wait_for_lock :: "SingleLock \<Rightarrow> TransactionID \<Rightarrow> AccessMode \<Rightarrow> (SingleLock, int) outcome" where
  "wait_for_lock sl t md =
     (let req = lock_request sl t md; sl = sl\<lparr>sl_waiting := sl_waiting sl + 1\<rparr> in
      case req of
        Held \<Rightarrow> Returns None (sl\<lparr>sl_waiting := sl_waiting sl - 1\<rparr>) 0
      | Refuse e \<Rightarrow> Returns None sl e
      | AskRead \<Rightarrow> after_sem sl t md False (rwuj_lock_read (sl_sem sl))
      | AskWrite \<Rightarrow> after_sem sl t md False (rwuj_lock_write (sl_sem sl))
      | AskUpgrade \<Rightarrow> after_sem sl t md True (rwuj_lock_upgrade no_error (tid_priority t) (sl_sem sl)))"

text \<open>The rest of \<open>wait_for_lock\<close> when the wait in the semaphore has returned.\<close>

definition wait_for_lock_woken :: "SingleLock \<Rightarrow> TransactionID \<Rightarrow> AccessMode \<Rightarrow> status \<Rightarrow> (SingleLock, int) outcome" where
  "wait_for_lock_woken sl t md x =
     (case x of
        WokenRead \<Rightarrow> after_sem sl t md False (rw_read_woken True (sl_sem sl))
      | WokenWrite \<Rightarrow> after_sem sl t md False (rw_write_woken True (sl_sem sl))
      | _ \<Rightarrow> after_sem sl t md True (rwuj_upgrade_woken True True no_error (tid_priority t) (sl_sem sl)))"

text \<open>\<open>SingleLock::unlock\<close>: the section under the mutex of the lock, and the whole. The result tells whether the lock is to be
  deleted.\<close>

definition sl_leave :: "SingleLock \<Rightarrow> TransactionID \<Rightarrow> SingleLock \<times> bool" where
  "sl_leave sl t =
     (let sl = sl\<lparr>sl_inside := sl_inside sl - 1, currentRead := currentRead sl - {tid_id t},
            currentWrite := currentWrite sl - {tid_id t}\<rparr>
      in (sl, sl_inside sl = 0 \<and> sl_waiting sl = 0))"

definition sl_unlock :: "SingleLock \<Rightarrow> TransactionID \<Rightarrow> (SingleLock, bool) outcome" where
  "sl_unlock sl t =
     (let (sl, delete_lock) = sl_leave sl t
      in case rwuj_unlock no_error (sl_sem sl) of
           Returns k s _ \<Rightarrow> Returns k (sl\<lparr>sl_sem := s\<rparr>) delete_lock
         | Waits k s c \<Rightarrow> Waits k (sl\<lparr>sl_sem := s\<rparr>) c
         | Throws s \<Rightarrow> Throws (sl\<lparr>sl_sem := s\<rparr>)
         | AssertFails \<Rightarrow> AssertFails)"

definition setPHID :: "SingleLock \<Rightarrow> physical_id \<Rightarrow> SingleLock" where
  "setPHID sl p = sl\<lparr>phid := p\<rparr>"

section \<open>The manager\<close>

record LockManager =
  map_of_locks :: "int \<times> int \<times> int \<Rightarrow> int option"
  locks :: "int \<Rightarrow> SingleLock option"
  transaction_locks :: "int \<Rightarrow> int list option"
  single_lock_id :: int

definition LockManager_new :: LockManager where
  "LockManager_new = \<lparr>map_of_locks = (\<lambda>_. None), locks = (\<lambda>_. None), transaction_locks = (\<lambda>_. None), single_lock_id = 0\<rparr>"

text \<open>\<open>SingleLockCmp\<close> orders the locks of a transaction by descending number.\<close>

fun insert_lock :: "int \<Rightarrow> int list \<Rightarrow> int list" where
  "insert_lock x [] = [x]"
| "insert_lock x (y # ys) = (if x > y then x # y # ys else if y > x then y # insert_lock x ys else y # ys)"

definition add_lock :: "LockManager \<Rightarrow> TransactionID \<Rightarrow> int \<Rightarrow> LockManager" where
  "add_lock lm t l =
     lm\<lparr>transaction_locks := (transaction_locks lm)(tid_id t \<mapsto>
          insert_lock l (case transaction_locks lm (tid_id t) of None \<Rightarrow> [] | Some ls \<Rightarrow> ls))\<rparr>"

text \<open>Storing the state of a lock back, and the end of \<open>lock_primitive\<close>.\<close>

definition lock_done :: "LockManager \<Rightarrow> TransactionID \<Rightarrow> int \<Rightarrow> (SingleLock, int) outcome \<Rightarrow> (LockManager, int) outcome" where
  "lock_done lm t l oc =
     (let put = (\<lambda>sl. lm\<lparr>locks := (locks lm)(l \<mapsto> sl)\<rparr>) in
      case oc of
        AssertFails \<Rightarrow> AssertFails
      | Throws sl \<Rightarrow> Throws (put sl)
      | Waits k sl c \<Rightarrow> Waits k (put sl) c
      | Returns k sl errorNumber \<Rightarrow>
          if errorNumber \<noteq> 0 then Returns k (put sl) errorNumber
          else Returns k (add_lock (put sl) t l) 0)"

text \<open>\<open>lock_primitive\<close>, with the physical identifier that the store gives for the object. A lock in the map that is not
  there any more would be a use of freed memory.\<close>

definition lock_primitive ::
  "LockManager \<Rightarrow> physical_id option \<Rightarrow> TransactionID \<Rightarrow> AccessMode \<Rightarrow> (LockManager, int) outcome" where
  "lock_primitive lm p t md =
     (case p of
        None \<Rightarrow> Returns None lm ENoFile
      | Some p \<Rightarrow>
          (case map_of_locks lm (lock_key p) of
             None \<Rightarrow>
               (let l = single_lock_id lm in
                lock_done (lm\<lparr>single_lock_id := l + 1, map_of_locks := (map_of_locks lm)(lock_key p \<mapsto> l)\<rparr>) t l
                  (SingleLock_new t md RWUJSemaphore_new l p))
           | Some l \<Rightarrow>
               (case locks lm l of
                  None \<Rightarrow> AssertFails
                | Some sl \<Rightarrow> lock_done lm t l (wait_for_lock sl t md))))"

definition lock_woken :: "LockManager \<Rightarrow> int \<Rightarrow> TransactionID \<Rightarrow> AccessMode \<Rightarrow> status \<Rightarrow> (LockManager, int) outcome" where
  "lock_woken lm l t md x =
     (case locks lm l of
        None \<Rightarrow> AssertFails
      | Some sl \<Rightarrow> lock_done lm t l (wait_for_lock_woken sl t md x))"

text \<open>One round of the loop of \<open>unlockAll\<close>, and the loop. The result collects the calls that wake other transactions.\<close>

definition unlock_one :: "LockManager \<Rightarrow> TransactionID \<Rightarrow> int \<Rightarrow> (LockManager \<times> (int \<times> wake option)) option" where
  "unlock_one lm t l =
     (case locks lm l of
        None \<Rightarrow> None
      | Some sl \<Rightarrow>
          (case sl_unlock sl t of
             Returns k sl' delete_lock \<Rightarrow>
               Some (if delete_lock
                     then lm\<lparr>map_of_locks := (map_of_locks lm)(lock_key (phid sl') := None), locks := (locks lm)(l := None)\<rparr>
                     else lm\<lparr>locks := (locks lm)(l \<mapsto> sl')\<rparr>, (l, k))
           | _ \<Rightarrow> None))"

fun unlock_each :: "LockManager \<Rightarrow> TransactionID \<Rightarrow> int list \<Rightarrow> (LockManager \<times> (int \<times> wake option) list) option" where
  "unlock_each lm t [] = Some (lm, [])"
| "unlock_each lm t (l # ls) =
     (case unlock_one lm t l of
        None \<Rightarrow> None
      | Some (lm', k) \<Rightarrow>
          (case unlock_each lm' t ls of
             None \<Rightarrow> None
           | Some (lm'', ks) \<Rightarrow> Some (lm'', k # ks)))"

definition unlockAll :: "LockManager \<Rightarrow> TransactionID \<Rightarrow> (LockManager \<times> (int \<times> wake option) list) option" where
  "unlockAll lm t =
     (case transaction_locks lm (tid_id t) of
        None \<Rightarrow> Some (lm, [])
      | Some ls \<Rightarrow>
          (case unlock_each lm t ls of
             None \<Rightarrow> None
           | Some (lm', ks) \<Rightarrow> Some (lm'\<lparr>transaction_locks := (transaction_locks lm')(tid_id t := None)\<rparr>, ks)))"

text \<open>\<open>lockAll\<close> does not advance its iterator: the loop asks for the first lock of the set again and again.\<close>

partial_function (option) lockAll ::
  "LockManager \<Rightarrow> physical_id option list \<Rightarrow> TransactionID \<Rightarrow> AccessMode \<Rightarrow> (LockManager, int) outcome option" where
  "lockAll lm lock_set t md =
     (case lock_set of
        [] \<Rightarrow> Some (Returns None lm 0)
      | p # _ \<Rightarrow>
          (case lock_primitive lm p t md of
             Returns k lm' errorCode \<Rightarrow>
               if errorCode \<noteq> 0 then Some (Returns k lm' errorCode) else lockAll lm' lock_set t md
           | oc \<Rightarrow> Some oc))"

definition modifyLockLID :: "LockManager \<Rightarrow> physical_id \<Rightarrow> physical_id \<Rightarrow> LockManager \<times> int" where
  "modifyLockLID lm oldPHID newPHID =
     (case map_of_locks lm (lock_key oldPHID) of
        None \<Rightarrow> (lm, -1)
      | Some l \<Rightarrow>
          (lm\<lparr>map_of_locks := (map_of_locks lm)(lock_key oldPHID := None, lock_key newPHID \<mapsto> l),
              locks := (locks lm)(l := map_option (\<lambda>sl. setPHID sl newPHID) (locks lm l))\<rparr>, 0))"

end
