(* ===== verification/IndexVisibility.thy ===== *)
theory IndexVisibility
  imports Prelude
begin

text \<open>
  Which entries of an index a transaction sees. \<^verbatim>\<open>Indexes/VisibilityResolver.cpp\<close> keeps the commit times of transactions, the
  transactions that were rolled back, and a \<open>horizon\<close>: the commit times of transactions that ended before every running
  one began are forgotten. The running transactions form a ring of \<^verbatim>\<open>TransactionImpact\<close> objects in the order in which they
  began; the object that is not used yet is the tail. \<^verbatim>\<open>Indexes/EntrySieve.cpp\<close> picks the entries of a lookup.

  The objects are in a heap, a map from addresses. The counters of entries are \<^typ>\<open>int\<close>: they have 64 bits and do not
  overflow.
\<close>

section \<open>The ring of transactions\<close>

definition ROLLED_BACK :: int where "ROLLED_BACK = -2"
definition BEYOND_HORIZON :: int where "BEYOND_HORIZON = -3"

record TransactionImpact =
  entryCounter :: "int \<rightharpoonup> int"
  ti_next :: "nat option"
  ti_prev :: "nat option"
  finishedBefore :: "int set option"
  ti_horizon :: int

definition TransactionImpact_new :: "nat \<Rightarrow> TransactionImpact" where
  "TransactionImpact_new this = \<lparr>entryCounter = Map.empty, ti_next = Some this, ti_prev = Some this,
     finishedBefore = Some {}, ti_horizon = 0\<rparr>"

text \<open>\<open>addFinished\<close> writes through the pointer to the set.\<close>

definition addFinished :: "int \<Rightarrow> TransactionImpact \<Rightarrow> fault + TransactionImpact" where
  "addFinished i n =
     (case finishedBefore n of
        None \<Rightarrow> Inl NullDereference
      | Some F \<Rightarrow> Inr (n\<lparr>finishedBefore := Some (insert i F), ti_horizon := (if i > ti_horizon n then i else ti_horizon n)\<rparr>))"

definition forgetFinishedBefore :: "TransactionImpact \<Rightarrow> TransactionImpact" where
  "forgetFinishedBefore n = n\<lparr>finishedBefore := None\<rparr>"

type_synonym impact_heap = "nat \<rightharpoonup> TransactionImpact"

definition set_next :: "nat \<Rightarrow> nat option \<Rightarrow> impact_heap \<Rightarrow> impact_heap" where
  "set_next a x h = h(a := map_option (\<lambda>n. n\<lparr>ti_next := x\<rparr>) (h a))"

definition set_prev :: "nat \<Rightarrow> nat option \<Rightarrow> impact_heap \<Rightarrow> impact_heap" where
  "set_prev a x h = h(a := map_option (\<lambda>n. n\<lparr>ti_prev := x\<rparr>) (h a))"

text \<open>An access through a null pointer or to an object that is not there any more.\<close>

definition deref :: "impact_heap \<Rightarrow> nat option \<Rightarrow> fault + nat \<times> TransactionImpact" where
  "deref h p =
     (case p of
        None \<Rightarrow> Inl NullDereference
      | Some a \<Rightarrow> (case h a of None \<Rightarrow> Inl IndeterminateRead | Some n \<Rightarrow> Inr (a, n)))"

definition fbind :: "fault + 'a \<Rightarrow> ('a \<Rightarrow> fault + 'b) \<Rightarrow> fault + 'b" where
  "fbind m k = (case m of Inl e \<Rightarrow> Inl e | Inr x \<Rightarrow> k x)"

lemma fbind_simps [simp]: "fbind (Inl e) k = Inl e" "fbind (Inr x) k = k x"
  by (simp_all add: fbind_def)

definition insertAfter :: "nat \<Rightarrow> nat \<Rightarrow> impact_heap \<Rightarrow> fault + impact_heap" where
  "insertAfter this tr h =
     fbind (deref h (Some this)) (\<lambda>(_, n).
     fbind (deref h (ti_next n)) (\<lambda>(nx, _).
     fbind (deref h (Some tr)) (\<lambda>_.
       let h = set_prev nx (Some tr) h;
           h = set_next this (Some tr) h;
           h = set_prev tr (Some this) h
       in Inr (set_next tr (Some nx) h))))"

definition impact_remove :: "nat \<Rightarrow> impact_heap \<Rightarrow> fault + impact_heap" where
  "impact_remove this h =
     fbind (deref h (Some this)) (\<lambda>(_, n).
     fbind (deref h (ti_next n)) (\<lambda>(nx, _).
     fbind (deref h (ti_prev n)) (\<lambda>(pv, _).
       let h = set_prev nx (ti_prev n) h;
           h = set_next pv (ti_next n) h;
           h = set_prev this None h
       in Inr (set_next this None h))))"

section \<open>The resolver\<close>

record VisibilityResolver =
  rolledBack :: "int \<rightharpoonup> (int \<rightharpoonup> int)"
  active :: "int \<rightharpoonup> nat"
  commitTs :: "int \<rightharpoonup> int"
  vr_horizon :: int
  vr_tail :: nat
  impacts :: impact_heap
  fresh_addr :: nat

definition VisibilityResolver_new :: VisibilityResolver where
  "VisibilityResolver_new = \<lparr>rolledBack = Map.empty, active = Map.empty, commitTs = Map.empty, vr_horizon = 0, vr_tail = 0,
     impacts = [0 \<mapsto> TransactionImpact_new 0], fresh_addr = 1\<rparr>"

definition isRolledBack :: "VisibilityResolver \<Rightarrow> int \<Rightarrow> int \<Rightarrow> bool" where
  "isRolledBack v tid index =
     (tid = ROLLED_BACK \<or> (case rolledBack v index of None \<Rightarrow> False | Some m \<Rightarrow> m tid \<noteq> None))"

definition isBeyondHorizon :: "VisibilityResolver \<Rightarrow> int \<Rightarrow> bool" where
  "isBeyondHorizon v tid = (tid \<le> vr_horizon v)"

definition isVisible :: "VisibilityResolver \<Rightarrow> int \<Rightarrow> int \<Rightarrow> int \<Rightarrow> bool" where
  "isVisible v from begin_ts index =
     (if from = BEYOND_HORIZON then True
      else if isRolledBack v from index then False
      else case commitTs v from of
             None \<Rightarrow> isBeyondHorizon v from
           | Some commitTime \<Rightarrow> commitTime < begin_ts)"

text \<open>\<open>map::insert\<close> keeps an entry that is there.\<close>

definition map_insert :: "('k \<rightharpoonup> 'v) \<Rightarrow> 'k \<Rightarrow> 'v \<Rightarrow> ('k \<rightharpoonup> 'v)" where
  "map_insert m k x = (if m k = None then m(k \<mapsto> x) else m)"

definition vr_begin :: "int \<Rightarrow> VisibilityResolver \<Rightarrow> fault + VisibilityResolver" where
  "vr_begin i v =
     (let t = vr_tail v; a = fresh_addr v in
      fbind (insertAfter t a ((impacts v)(a \<mapsto> TransactionImpact_new a))) (\<lambda>h.
        Inr (v\<lparr>active := map_insert (active v) i t, impacts := h, fresh_addr := a + 1, vr_tail := a\<rparr>)))"

definition prepare2finish :: "int \<Rightarrow> VisibilityResolver \<Rightarrow> fault + VisibilityResolver \<times> nat" where
  "prepare2finish i v =
     (case active v i of
        None \<Rightarrow> Inl EndIteratorDereference
      | Some tr \<Rightarrow>
          fbind (deref (impacts v) (Some (vr_tail v))) (\<lambda>(t, n).
          fbind (addFinished i n) (\<lambda>n.
            Inr (v\<lparr>active := (active v)(i := None), impacts := (impacts v)(t \<mapsto> n)\<rparr>, tr))))"

definition vr_finish :: "nat \<Rightarrow> VisibilityResolver \<Rightarrow> fault + VisibilityResolver" where
  "vr_finish tr v =
     fbind (deref (impacts v) (Some tr)) (\<lambda>(_, n).
     fbind (deref (impacts v) (ti_next n)) (\<lambda>(nextTr, nn).
     fbind (if ti_prev n = Some (vr_tail v) then
              (case finishedBefore nn of
                 None \<Rightarrow> Inl NullDereference
               | Some F \<Rightarrow>
                   Inr (v\<lparr>vr_horizon := ti_horizon nn, commitTs := commitTs v |` (- F),
                          impacts := (impacts v)(nextTr \<mapsto> forgetFinishedBefore nn)\<rparr>))
            else Inr v) (\<lambda>v.
     fbind (impact_remove tr (impacts v)) (\<lambda>h.
       Inr (v\<lparr>impacts := h(tr := None)\<rparr>)))))"

text \<open>\<open>rolledBack[it->first]\<close> makes an empty map where there is none.\<close>

definition vr_abort :: "int \<Rightarrow> VisibilityResolver \<Rightarrow> fault + VisibilityResolver" where
  "vr_abort i v =
     fbind (prepare2finish i v) (\<lambda>(v, tr).
     fbind (deref (impacts v) (Some tr)) (\<lambda>(_, n).
     let tmp = entryCounter n in
     fbind (vr_finish tr (v\<lparr>impacts := (impacts v)(tr \<mapsto> n\<lparr>entryCounter := Map.empty\<rparr>)\<rparr>)) (\<lambda>v.
       Inr (v\<lparr>rolledBack := (\<lambda>index.
         case tmp index of
           None \<Rightarrow> rolledBack v index
         | Some c \<Rightarrow> Some (map_insert (case rolledBack v index of None \<Rightarrow> Map.empty | Some m \<Rightarrow> m) i c))\<rparr>))))"

definition vr_commit :: "int \<Rightarrow> int \<Rightarrow> VisibilityResolver \<Rightarrow> fault + VisibilityResolver" where
  "vr_commit i timestamp v =
     fbind (prepare2finish i v) (\<lambda>(v, tr).
     fbind (deref (impacts v) (Some tr)) (\<lambda>(_, n).
       vr_finish tr (if entryCounter n \<noteq> Map.empty then v\<lparr>commitTs := map_insert (commitTs v) i timestamp\<rparr> else v)))"

definition indexDropped :: "int \<Rightarrow> VisibilityResolver \<Rightarrow> VisibilityResolver" where
  "indexDropped index v = v\<lparr>rolledBack := (rolledBack v)(index := None)\<rparr>"

datatype TransactionEntryStatus = ACTIVE_ENTRY | ROLLED_BACK_ENTRY

definition entryDropped :: "int \<Rightarrow> int \<Rightarrow> TransactionEntryStatus \<Rightarrow> VisibilityResolver \<Rightarrow> fault + VisibilityResolver" where
  "entryDropped tid index st v =
     (case st of
        ACTIVE_ENTRY \<Rightarrow>
          (case active v tid of
             None \<Rightarrow> Inl AssertionFailure
           | Some a \<Rightarrow>
               fbind (deref (impacts v) (Some a)) (\<lambda>(_, n).
                 case entryCounter n index of
                   None \<Rightarrow> Inl AssertionFailure
                 | Some c \<Rightarrow>
                     Inr (v\<lparr>impacts := (impacts v)(a \<mapsto> n\<lparr>entryCounter :=
                       (entryCounter n)(index := (if c = 1 then None else Some (c - 1)))\<rparr>)\<rparr>)))
      | ROLLED_BACK_ENTRY \<Rightarrow>
          if tid = ROLLED_BACK then Inr v
          else (case rolledBack v index of
                  None \<Rightarrow> Inl AssertionFailure
                | Some m \<Rightarrow>
                    (case m tid of
                       None \<Rightarrow> Inl AssertionFailure
                     | Some c \<Rightarrow>
                         let m' = m(tid := (if c = 1 then None else Some (c - 1)))
                         in Inr (v\<lparr>rolledBack := (rolledBack v)(index := (if c = 1 \<and> m' = Map.empty then None else Some m'))\<rparr>))))"

definition entryAdded :: "int \<Rightarrow> int \<Rightarrow> VisibilityResolver \<Rightarrow> fault + VisibilityResolver" where
  "entryAdded tid index v =
     (case active v tid of
        None \<Rightarrow> Inl AssertionFailure
      | Some a \<Rightarrow>
          fbind (deref (impacts v) (Some a)) (\<lambda>(_, n).
            Inr (v\<lparr>impacts := (impacts v)(a \<mapsto> n\<lparr>entryCounter :=
              (entryCounter n)(index \<mapsto> (case entryCounter n index of None \<Rightarrow> 0 | Some c \<Rightarrow> c) + 1)\<rparr>)\<rparr>)))"

end
