(* ===== verification/StoreCalls.thy ===== *)
theory StoreCalls
  imports Rollback LockManager IndexVisibility
begin

text \<open>
  What the calls of a transaction have in common: the state of the transaction manager with the components it uses
  (log and store, locks, visibility of index entries, list of indexes), the two semaphores and the lock manager as
  seen by a call that may have to wait, and running an operation of the store.

  A call runs until it returns, waits on a condition variable, or the process stops; a call that waits carries what it
  does when it has been woken, as a function of the state it then finds.
\<close>

section \<open>Calls\<close>

datatype which_sem = StoreSem | IndexListSem

datatype wait_place = AtSem which_sem | ObjectLock int

datatype (dead 's, 'a) call =
    Done 's 'a
  | Blocked 's wait_place cond_var "'s \<Rightarrow> ('s, 'a) call"
  | Crashed 's fault
  | Endless

primrec cbind :: "('s, 'a) call \<Rightarrow> ('s \<Rightarrow> 'a \<Rightarrow> ('s, 'b) call) \<Rightarrow> ('s, 'b) call" where
  "cbind (Done s x) k = k s x"
| "cbind (Blocked s pl c r) k = Blocked s pl c (\<lambda>s. cbind (r s) k)"
| "cbind (Crashed s e) k = Crashed s e"
| "cbind Endless k = Endless"

text \<open>How a call ends: other transactions may have changed the state in any way when a wait is over.\<close>

inductive ends_in :: "('s, 'a) call \<Rightarrow> 's \<Rightarrow> 'a \<Rightarrow> bool" where
  run_done: "ends_in (Done s x) s x"
| run_woken: "ends_in (r s') t x \<Longrightarrow> ends_in (Blocked s pl c r) t x"

inductive_simps ends_simps [simp]: "ends_in (Done s x) t y" "ends_in (Blocked s pl c r) t y" "ends_in (Crashed s e) t y" "ends_in Endless t y"

lemma ends_cbind: "ends_in (cbind c k) t y \<longleftrightarrow> (\<exists>s x. ends_in c s x \<and> ends_in (k s x) t y)"
  by (induction c) auto

lemma cbind_Done: "cbind c k = Done t y \<longleftrightarrow> (\<exists>s x. c = Done s x \<and> k s x = Done t y)"
  by (cases c) auto

section \<open>State\<close>

text \<open>\<open>ix_indexes\<close> is the map from the names of roots and fields to the indexes, \<open>ix_trees\<close> what the indexes hold. The
  signals sent so far are noted in \<open>tm_wakes\<close>.\<close>

record 'x tmanager =
  tm_log :: Logs
  tm_locks :: LockManager
  tm_sem :: rwujsem
  transactions :: "TransactionID list"
  transactionId :: int
  tm_resolver :: VisibilityResolver
  indexListSem :: rwujsem
  ix_indexes :: "string \<rightharpoonup> (string \<times> nat) list"
  ix_trees :: 'x
  tm_wakes :: "(wait_place \<times> wake) list"

abbreviation tm_store :: "('x, 'y) tmanager_scheme \<Rightarrow> storage" where
  "tm_store tm \<equiv> lg_store (tm_log tm)"

definition note_wake :: "wait_place \<Rightarrow> wake option \<Rightarrow> ('x, 'y) tmanager_scheme \<Rightarrow> ('x, 'y) tmanager_scheme" where
  "note_wake pl k tm = (case k of None \<Rightarrow> tm | Some w \<Rightarrow> tm\<lparr>tm_wakes := tm_wakes tm @ [(pl, w)]\<rparr>)"

section \<open>The semaphores\<close>

fun sem_at :: "which_sem \<Rightarrow> ('x, 'y) tmanager_scheme \<Rightarrow> rwujsem" where
  "sem_at StoreSem tm = tm_sem tm"
| "sem_at IndexListSem tm = indexListSem tm"

fun put_sem :: "which_sem \<Rightarrow> rwujsem \<Rightarrow> ('x, 'y) tmanager_scheme \<Rightarrow> ('x, 'y) tmanager_scheme" where
  "put_sem StoreSem m tm = tm\<lparr>tm_sem := m\<rparr>"
| "put_sem IndexListSem m tm = tm\<lparr>indexListSem := m\<rparr>"

text \<open>No signal fails, so that no exception is thrown; \<open>rest\<close> is the remainder of the operation after the wait.\<close>

definition sem_result ::
  "which_sem \<Rightarrow> (rwujsem, bool) outcome \<Rightarrow> (rwujsem \<Rightarrow> (rwujsem, bool) outcome) \<Rightarrow> ('x, 'y) tmanager_scheme
     \<Rightarrow> (('x, 'y) tmanager_scheme, unit) call" where
  "sem_result w oc rest tm =
     (case oc of
        Returns k m _ \<Rightarrow> Done (note_wake (AtSem w) k (put_sem w m tm)) ()
      | Waits k m c \<Rightarrow>
          Blocked (note_wake (AtSem w) k (put_sem w m tm)) (AtSem w) c
            (\<lambda>tm. case rest (sem_at w tm) of
                    Returns k m _ \<Rightarrow> Done (note_wake (AtSem w) k (put_sem w m tm)) ()
                  | _ \<Rightarrow> Crashed tm AssertionFailure)
      | _ \<Rightarrow> Crashed tm AssertionFailure)"

definition sem_lock_read :: "which_sem \<Rightarrow> ('x, 'y) tmanager_scheme \<Rightarrow> (('x, 'y) tmanager_scheme, unit) call" where
  "sem_lock_read w tm = sem_result w (rwuj_lock_read (sem_at w tm)) (rw_read_woken True) tm"

definition sem_lock_write :: "which_sem \<Rightarrow> ('x, 'y) tmanager_scheme \<Rightarrow> (('x, 'y) tmanager_scheme, unit) call" where
  "sem_lock_write w tm = sem_result w (rwuj_lock_write (sem_at w tm)) (rw_write_woken True) tm"

definition sem_unlock :: "which_sem \<Rightarrow> ('x, 'y) tmanager_scheme \<Rightarrow> (('x, 'y) tmanager_scheme, unit) call" where
  "sem_unlock w tm = sem_result w (rwuj_unlock no_error (sem_at w tm)) (rwuj_unlock no_error) tm"

type_synonym ('x, 'a) tcall = "'x tmanager \<Rightarrow> ('x tmanager, 'a) call"

definition under_read :: "which_sem \<Rightarrow> ('x, 'a) tcall \<Rightarrow> ('x, 'a) tcall" where
  "under_read w body tm =
     cbind (sem_lock_read w tm) (\<lambda>tm _. cbind (body tm) (\<lambda>tm x. cbind (sem_unlock w tm) (\<lambda>tm _. Done tm x)))"

definition under_write :: "which_sem \<Rightarrow> ('x, 'a) tcall \<Rightarrow> ('x, 'a) tcall" where
  "under_write w body tm =
     cbind (sem_lock_write w tm) (\<lambda>tm _. cbind (body tm) (\<lambda>tm x. cbind (sem_unlock w tm) (\<lambda>tm _. Done tm x)))"

section \<open>Locks\<close>

fun status_after :: "cond_var \<Rightarrow> status" where
  "status_after reader_cond = WokenRead"
| "status_after writer_cond = WokenWrite"
| "status_after upgrader_cond = WokenUpgrade"

text \<open>\<open>LockManager::lock\<close> asks the store for the physical identifier of the object.\<close>

definition lock_result :: "int \<Rightarrow> TransactionID \<Rightarrow> AccessMode \<Rightarrow> (LockManager, int) outcome \<Rightarrow> ('x, int) tcall" where
  "lock_result i t md oc tm =
     (case oc of
        Returns k lm rc \<Rightarrow> Done (note_wake (ObjectLock i) k (tm\<lparr>tm_locks := lm\<rparr>)) rc
      | Waits k lm c \<Rightarrow>
          Blocked (note_wake (ObjectLock i) k (tm\<lparr>tm_locks := lm\<rparr>)) (ObjectLock i) c
            (\<lambda>tm. case lock_woken (tm_locks tm) i t md (status_after c) of
                    Returns k lm rc \<Rightarrow> Done (note_wake (ObjectLock i) k (tm\<lparr>tm_locks := lm\<rparr>)) rc
                  | _ \<Rightarrow> Crashed tm AssertionFailure)
      | _ \<Rightarrow> Crashed tm AssertionFailure)"

definition put_store :: "storage \<Rightarrow> 'x tmanager \<Rightarrow> 'x tmanager" where
  "put_store s tm = tm\<lparr>tm_log := (tm_log tm)\<lparr>lg_store := s\<rparr>\<rparr>"

definition lock_number :: "LockManager \<Rightarrow> physical_id option \<Rightarrow> int" where
  "lock_number lm p =
     (case p of
        None \<Rightarrow> single_lock_id lm
      | Some q \<Rightarrow> (case map_of_locks lm (lock_key q) of None \<Rightarrow> single_lock_id lm | Some i \<Rightarrow> i))"

definition lm_lock :: "lid option \<Rightarrow> TransactionID \<Rightarrow> AccessMode \<Rightarrow> ('x, int) tcall" where
  "lm_lock l t md tm =
     (case l of
        None \<Rightarrow> Crashed tm NullDereference
      | Some l \<Rightarrow>
          (case store_getPhysicalID (tm_store tm) l of
             (s, Inl e) \<Rightarrow> Crashed (put_store s tm) e
           | (s, Inr p) \<Rightarrow>
               lock_result (lock_number (tm_locks tm) p) t md (lock_primitive (tm_locks tm) p t md) (put_store s tm)))"

section \<open>The store\<close>

text \<open>An operation of the store hands its records to the log.\<close>

definition in_store :: "(storage \<Rightarrow> (storage \<times> (fault + 'a)) option) \<Rightarrow> ('x, 'a) tcall" where
  "in_store f tm =
     (case f (tm_store tm) of
        None \<Rightarrow> Endless
      | Some (s, r) \<Rightarrow>
          (let tm = tm\<lparr>tm_log := pushLogable ((tm_log tm)\<lparr>lg_store := s\<rparr>)\<rparr>
           in case r of Inl e \<Rightarrow> Crashed tm e | Inr x \<Rightarrow> Done tm x))"

end
