(* ===== verification/IndexMetadata.thy ===== *)
theory IndexMetadata
  imports IndexVisibility
begin

text \<open>
  The file with the data of the indexes that is written at a clean shutdown and read at the next start
  (\<^verbatim>\<open>Indexes/NonloggedDataSerializer.cpp\<close>): the addresses of free nodes, the root of every tree, and the transactions that
  were rolled back. The writer writes a \<open>size_t\<close> and an \<open>unsigned long\<close> where the reader reads an \<open>unsigned int\<close>; \<open>W\<close> is
  the size of the two types. A read at the end of the file leaves the value undefined, and the code goes on with it.
\<close>

definition ErrIndexes :: int where "ErrIndexes = 69206016"
definition EMetaIncorrect :: int where "EMetaIncorrect = 12288"
definition EBadFile_ix :: int where "EBadFile_ix = 2048"

record index_params =
  nextFreeNodeAddr :: int
  droppedNode :: int
  droppedLastNode :: int

record index_meta =
  im_lid :: int
  im_rootAddr :: int
  im_rootLevel :: int
  im_firstNode :: int
  im_lastNode :: int

type_synonym rolled = "(int \<times> (int \<times> int) list) list"

section \<open>Writing\<close>

definition ser_index :: "index_meta \<Rightarrow> byte list" where
  "ser_index m = le_bytes 4 (im_lid m) @ le_bytes 4 (im_rootAddr m) @ le_bytes 4 (im_rootLevel m) @ le_bytes 4 (im_firstNode m)
     @ le_bytes 4 (im_lastNode m)"

definition ser_inner :: "nat \<Rightarrow> int \<times> int \<Rightarrow> byte list" where
  "ser_inner W x = le_bytes 4 (fst x) @ le_bytes W (snd x)"

definition ser_rolled :: "nat \<Rightarrow> int \<times> (int \<times> int) list \<Rightarrow> byte list" where
  "ser_rolled W x = le_bytes 4 (fst x) @ le_bytes W (int (length (snd x))) @ concat (map (ser_inner W) (snd x))"

definition meta_serialize :: "nat \<Rightarrow> index_params \<Rightarrow> index_meta list \<Rightarrow> rolled \<Rightarrow> byte list" where
  "meta_serialize W p ms rb =
     le_bytes 4 (nextFreeNodeAddr p) @ le_bytes 4 (droppedNode p) @ le_bytes 4 (droppedLastNode p)
     @ concat (map ser_index ms) @ le_bytes 4 (int (length rb)) @ concat (map (ser_rolled W) rb)"

section \<open>Reading\<close>

definition deserializeValue :: "byte list \<Rightarrow> fault + int \<times> byte list" where
  "deserializeValue bs = (if length bs < 4 then Inl IndeterminateRead else Inr (le_int (take 4 bs), drop 4 bs))"

text \<open>\<open>known\<close> are the identifiers of the indexes that were loaded from the store. The result of the loop is the error code.\<close>

fun read_indexes :: "(int \<Rightarrow> bool) \<Rightarrow> nat \<Rightarrow> (int \<rightharpoonup> index_meta) \<Rightarrow> byte list \<Rightarrow> fault + int \<times> (int \<rightharpoonup> index_meta) \<times> byte list" where
  "read_indexes known 0 ms bs = Inr (0, ms, bs)"
| "read_indexes known (Suc n) ms bs =
     fbind (deserializeValue bs) (\<lambda>(i, bs).
     if \<not> known (s32 i) then Inr (or EMetaIncorrect ErrIndexes, ms, bs)
     else
       fbind (deserializeValue bs) (\<lambda>(rootAddr, bs).
       fbind (deserializeValue bs) (\<lambda>(rootLevel, bs).
       fbind (deserializeValue bs) (\<lambda>(firstNode, bs).
       fbind (deserializeValue bs) (\<lambda>(lastNode, bs).
         read_indexes known n
           (ms(s32 i \<mapsto> \<lparr>im_lid = s32 i, im_rootAddr = u32 (s32 rootAddr), im_rootLevel = s32 rootLevel,
                       im_firstNode = u32 (s32 firstNode), im_lastNode = lastNode\<rparr>)) bs)))))"

fun read_inner :: "nat \<Rightarrow> (int \<rightharpoonup> int) \<Rightarrow> byte list \<Rightarrow> fault + (int \<rightharpoonup> int) \<times> byte list" where
  "read_inner 0 m bs = Inr (m, bs)"
| "read_inner (Suc n) m bs =
     fbind (deserializeValue bs) (\<lambda>(tid, bs).
     fbind (deserializeValue bs) (\<lambda>(c, bs). read_inner n (m(s32 tid \<mapsto> c)) bs))"

fun read_rolled :: "nat \<Rightarrow> (int \<rightharpoonup> (int \<rightharpoonup> int)) \<Rightarrow> byte list \<Rightarrow> fault + (int \<rightharpoonup> (int \<rightharpoonup> int)) \<times> byte list" where
  "read_rolled 0 rb bs = Inr (rb, bs)"
| "read_rolled (Suc n) rb bs =
     fbind (deserializeValue bs) (\<lambda>(l, bs).
     fbind (deserializeValue bs) (\<lambda>(innerSize, bs).
     fbind (read_inner (nat innerSize) Map.empty bs) (\<lambda>(m, bs). read_rolled n (rb(l \<mapsto> m)) bs)))"

text \<open>\<open>deserialize\<close>: the error code and the new state. Without a file the state keeps its values.\<close>

definition meta_deserialize ::
  "(int \<Rightarrow> bool) \<Rightarrow> nat \<Rightarrow> byte list option \<Rightarrow> index_params \<times> (int \<rightharpoonup> index_meta) \<times> (int \<rightharpoonup> (int \<rightharpoonup> int))
     \<Rightarrow> fault + int \<times> index_params \<times> (int \<rightharpoonup> index_meta) \<times> (int \<rightharpoonup> (int \<rightharpoonup> int))" where
  "meta_deserialize known n f st =
     (case f of
        None \<Rightarrow> Inr (0, st)
      | Some bs \<Rightarrow>
          if bs = [] then Inr (or EBadFile_ix ErrIndexes, st)
          else
            (case st of (p, ms, rb) \<Rightarrow>
               fbind (deserializeValue bs) (\<lambda>(a, bs).
               fbind (deserializeValue bs) (\<lambda>(b, bs).
               fbind (deserializeValue bs) (\<lambda>(c, bs).
               let p = \<lparr>nextFreeNodeAddr = a, droppedNode = b, droppedLastNode = c\<rparr> in
               fbind (read_indexes known n ms bs) (\<lambda>(err, ms, bs).
               if err \<noteq> 0 then Inr (err, p, ms, rb)
               else fbind (deserializeValue bs) (\<lambda>(size, bs).
                    fbind (read_rolled (nat size) rb bs) (\<lambda>(rb, _). Inr (0, p, ms, rb)))))))))"

section \<open>Round trip\<close>

definition u32_ok :: "int \<Rightarrow> bool" where "u32_ok x \<longleftrightarrow> 0 \<le> x \<and> x < 4294967296"
definition s32_ok :: "int \<Rightarrow> bool" where "s32_ok x \<longleftrightarrow> -2147483648 \<le> x \<and> x < 2147483648"

definition params_ok :: "index_params \<Rightarrow> bool" where
  "params_ok p \<longleftrightarrow> u32_ok (nextFreeNodeAddr p) \<and> u32_ok (droppedNode p) \<and> u32_ok (droppedLastNode p)"

definition meta_ok :: "index_meta \<Rightarrow> bool" where
  "meta_ok m \<longleftrightarrow> s32_ok (im_lid m) \<and> u32_ok (im_rootAddr m) \<and> s32_ok (im_rootLevel m) \<and> u32_ok (im_firstNode m) \<and> u32_ok (im_lastNode m)"

definition rolled_ok :: "rolled \<Rightarrow> bool" where
  "rolled_ok rb \<longleftrightarrow> u32_ok (int (length rb)) \<and> (\<forall>(l, xs)\<in>set rb. u32_ok l \<and> u32_ok (int (length xs)) \<and> (\<forall>(t, c)\<in>set xs. s32_ok t \<and> u32_ok c))"

definition rolled_map :: "rolled \<Rightarrow> (int \<rightharpoonup> (int \<rightharpoonup> int))" where
  "rolled_map rb = map_of (map (\<lambda>(l, xs). (l, map_of xs)) rb)"

lemma deserialize_le [simp]: "deserializeValue (le_bytes 4 x @ bs) = Inr (u32 x, bs)"
  using le_int_le_bytes [of 4 x] by (simp add: deserializeValue_def u32_def)

lemma deserialize_le_last [simp]: "deserializeValue (le_bytes 4 x) = Inr (u32 x, [])"
  using deserialize_le [of x "[]"] by simp

lemma le_bytes_add: "le_bytes (n + k) x = le_bytes n x @ le_bytes k (x div 256 ^ n)"
  by (induction n arbitrary: x) (simp_all add: zdiv_zmult2_eq)

lemma read_indexes_ok:
  assumes "\<forall>m\<in>set ms. meta_ok m \<and> known (im_lid m)" "distinct (map im_lid ms)"
  shows "read_indexes known (length ms) ms0 (concat (map ser_index ms) @ bs)
    = Inr (0, ms0 ++ map_of (map (\<lambda>m. (im_lid m, m)) ms), bs)"
  using assms
proof (induction ms arbitrary: ms0)
  case (Cons m ms)
  have m: "s32 (im_lid m) = im_lid m" "s32 (im_rootLevel m) = im_rootLevel m" "u32 (im_rootAddr m) = im_rootAddr m"
    "u32 (im_firstNode m) = im_firstNode m" "u32 (im_lastNode m) = im_lastNode m" "known (im_lid m)"
    using Cons.prems(1) by (simp_all add: meta_ok_def s32_ok_def u32_ok_def s32_id u32_id)
  have "im_lid m \<notin> dom (map_of (map (\<lambda>m. (im_lid m, m)) ms))"
    using Cons.prems(2) by (simp add: dom_map_of_conv_image_fst image_image)
  then have upd: "ms0(im_lid m \<mapsto> m) ++ map_of (map (\<lambda>m. (im_lid m, m)) ms) = ms0 ++ map_of (map (\<lambda>m. (im_lid m, m)) (m # ms))"
    by (simp add: map_add_upd_left)
  have "read_indexes known (length (m # ms)) ms0 (concat (map ser_index (m # ms)) @ bs)
      = read_indexes known (length ms) (ms0(im_lid m \<mapsto> m)) (concat (map ser_index ms) @ bs)"
    using m by (cases m) (simp add: ser_index_def)
  also have "\<dots> = Inr (0, ms0(im_lid m \<mapsto> m) ++ map_of (map (\<lambda>m. (im_lid m, m)) ms), bs)"
    using Cons by simp
  finally show ?case
    unfolding upd .
qed simp

lemma read_inner_ok:
  assumes "\<forall>(t, c)\<in>set xs. s32_ok t \<and> u32_ok c" "distinct (map fst xs)"
  shows "read_inner (length xs) m (concat (map (ser_inner 4) xs) @ bs) = Inr (m ++ map_of xs, bs)"
  using assms
proof (induction xs arbitrary: m)
  case (Cons x xs)
  obtain t c where x: "x = (t, c)"
    by fastforce
  have tc: "s32 t = t" "u32 c = c"
    using Cons.prems(1) by (simp_all add: x s32_ok_def u32_ok_def s32_id u32_id)
  have "t \<notin> dom (map_of xs)"
    using Cons.prems(2) by (simp add: x dom_map_of_conv_image_fst)
  then have upd: "m(t \<mapsto> c) ++ map_of xs = m ++ map_of (x # xs)"
    by (simp add: x map_add_upd_left)
  have "read_inner (length (x # xs)) m (concat (map (ser_inner 4) (x # xs)) @ bs)
      = read_inner (length xs) (m(t \<mapsto> c)) (concat (map (ser_inner 4) xs) @ bs)"
    using tc by (simp add: x ser_inner_def)
  also have "\<dots> = Inr (m(t \<mapsto> c) ++ map_of xs, bs)"
    using Cons by simp
  finally show ?case
    unfolding upd .
qed simp

lemma read_rolled_ok:
  assumes "\<forall>(l, xs)\<in>set rb. u32_ok l \<and> u32_ok (int (length xs)) \<and> (\<forall>(t, c)\<in>set xs. s32_ok t \<and> u32_ok c)"
    "distinct (map fst rb)" "\<forall>(l, xs)\<in>set rb. distinct (map fst xs)"
  shows "read_rolled (length rb) m (concat (map (ser_rolled 4) rb) @ bs) = Inr (m ++ rolled_map rb, bs)"
  using assms
proof (induction rb arbitrary: m)
  case (Cons x rb)
  obtain l xs where x: "x = (l, xs)"
    by fastforce
  have l: "u32 l = l" "u32 (int (length xs)) = int (length xs)"
    using Cons.prems(1) by (simp_all add: x u32_ok_def u32_id)
  have inner: "read_inner (length xs) Map.empty (concat (map (ser_inner 4) xs) @ concat (map (ser_rolled 4) rb) @ bs)
      = Inr (map_of xs, concat (map (ser_rolled 4) rb) @ bs)"
    using Cons.prems by (subst read_inner_ok) (auto simp: x)
  have "l \<notin> dom (rolled_map rb)"
    using Cons.prems(2) by (simp add: x rolled_map_def dom_map_of_conv_image_fst image_image case_prod_beta)
  then have upd: "m(l \<mapsto> map_of xs) ++ rolled_map rb = m ++ rolled_map (x # rb)"
    by (simp add: x rolled_map_def map_add_upd_left)
  have "read_rolled (length (x # rb)) m (concat (map (ser_rolled 4) (x # rb)) @ bs)
      = read_rolled (length rb) (m(l \<mapsto> map_of xs)) (concat (map (ser_rolled 4) rb) @ bs)"
    using l inner by (simp add: x ser_rolled_def)
  also have "\<dots> = Inr (m(l \<mapsto> map_of xs) ++ rolled_map rb, bs)"
    using Cons by simp
  finally show ?case
    unfolding upd .
qed (simp add: rolled_map_def)

text \<open>(C35) Where \<open>unsigned long\<close> has 32 bits, what was written at the shutdown is read back at the start.\<close>

theorem index_metadata_roundtrip:
  assumes "params_ok p" "\<forall>m\<in>set ms. meta_ok m \<and> known (im_lid m)" "distinct (map im_lid ms)"
    "rolled_ok rb" "distinct (map fst rb)" "\<forall>(l, xs)\<in>set rb. distinct (map fst xs)"
  shows "meta_deserialize known (length ms) (Some (meta_serialize 4 p ms rb)) (p0, Map.empty, Map.empty)
    = Inr (0, p, map_of (map (\<lambda>m. (im_lid m, m)) ms), rolled_map rb)"
proof -
  have "read_rolled (length rb) Map.empty (concat (map (ser_rolled 4) rb)) = Inr (rolled_map rb, [])"
    using read_rolled_ok [of rb Map.empty "[]"] assms(4-6) by (simp add: rolled_ok_def)
  moreover have "le_bytes 4 (nextFreeNodeAddr p) \<noteq> []"
    by (simp add: numeral_eq_Suc)
  ultimately show ?thesis
    using assms by (simp add: meta_deserialize_def meta_serialize_def read_indexes_ok params_ok_def rolled_ok_def u32_ok_def u32_id Let_def)
qed

theorem index_metadata_roundtrip_witness:
  "meta_deserialize (\<lambda>i. i = 9) 1 (Some (meta_serialize 4 \<lparr>nextFreeNodeAddr = 1, droppedNode = 2, droppedLastNode = 3\<rparr>
       [\<lparr>im_lid = 9, im_rootAddr = 8192, im_rootLevel = 0, im_firstNode = 8192, im_lastNode = 8192\<rparr>] [(9, [(12, 3)])]))
     (\<lparr>nextFreeNodeAddr = 0, droppedNode = 0, droppedLastNode = 0\<rparr>, Map.empty, Map.empty)
   = Inr (0, \<lparr>nextFreeNodeAddr = 1, droppedNode = 2, droppedLastNode = 3\<rparr>,
       [9 \<mapsto> \<lparr>im_lid = 9, im_rootAddr = 8192, im_rootLevel = 0, im_firstNode = 8192, im_lastNode = 8192\<rparr>], [9 \<mapsto> [12 \<mapsto> 3]])"
  using index_metadata_roundtrip [of "\<lparr>nextFreeNodeAddr = 1, droppedNode = 2, droppedLastNode = 3\<rparr>"
      "[\<lparr>im_lid = 9, im_rootAddr = 8192, im_rootLevel = 0, im_firstNode = 8192, im_lastNode = 8192\<rparr>]" "\<lambda>i. i = 9" "[(9, [(12, 3)])]"
      "\<lparr>nextFreeNodeAddr = 0, droppedNode = 0, droppedLastNode = 0\<rparr>"]
  by (simp add: params_ok_def meta_ok_def rolled_ok_def u32_ok_def s32_ok_def rolled_map_def)

text \<open>(C36) Where \<open>unsigned long\<close> has 64 bits, the reader takes the high half of a length for a transaction and the transaction for its
  counter: after a restart the transaction that was rolled back is not known as such, and transaction 0 is.\<close>

theorem rolled_back_forgotten:
  assumes "params_ok p" "\<forall>m\<in>set ms. meta_ok m \<and> known (im_lid m)" "distinct (map im_lid ms)"
    "u32_ok l" "u32_ok t" "u32_ok c"
  shows "meta_deserialize known (length ms) (Some (meta_serialize 8 p ms [(l, [(t, c)])])) (p0, Map.empty, Map.empty)
    = Inr (0, p, map_of (map (\<lambda>m. (im_lid m, m)) ms), [l \<mapsto> [0 \<mapsto> t]])"
proof -
  have w: "le_bytes 8 x = le_bytes 4 x @ le_bytes 4 (x div 4294967296)" for x
    using le_bytes_add [of 4 4 x] by simp
  have "le_bytes 4 (nextFreeNodeAddr p) \<noteq> []"
    by (simp add: numeral_eq_Suc)
  moreover have "read_rolled 1 Map.empty (ser_rolled 8 (l, [(t, c)])) = Inr ([l \<mapsto> [0 \<mapsto> u32 (s32 t)]], le_bytes 4 c @ le_bytes 4 (c div 4294967296))"
    using assms(4) by (simp add: ser_rolled_def ser_inner_def w u32_ok_def u32_id s32_id numeral_eq_Suc [of num.One])
  ultimately show ?thesis
    using assms by (simp add: meta_deserialize_def meta_serialize_def read_indexes_ok params_ok_def u32_ok_def u32_id Let_def)
qed

theorem rolled_back_forgotten_witness:
  "meta_deserialize (\<lambda>i. i = 9) 1 (Some (meta_serialize 8 \<lparr>nextFreeNodeAddr = 1, droppedNode = 2, droppedLastNode = 3\<rparr>
       [\<lparr>im_lid = 9, im_rootAddr = 8192, im_rootLevel = 0, im_firstNode = 8192, im_lastNode = 8192\<rparr>] [(9, [(12, 3)])]))
     (\<lparr>nextFreeNodeAddr = 0, droppedNode = 0, droppedLastNode = 0\<rparr>, Map.empty, Map.empty)
   = Inr (0, \<lparr>nextFreeNodeAddr = 1, droppedNode = 2, droppedLastNode = 3\<rparr>,
       [9 \<mapsto> \<lparr>im_lid = 9, im_rootAddr = 8192, im_rootLevel = 0, im_firstNode = 8192, im_lastNode = 8192\<rparr>], [9 \<mapsto> [0 \<mapsto> 12]])"
  using rolled_back_forgotten [of "\<lparr>nextFreeNodeAddr = 1, droppedNode = 2, droppedLastNode = 3\<rparr>"
      "[\<lparr>im_lid = 9, im_rootAddr = 8192, im_rootLevel = 0, im_firstNode = 8192, im_lastNode = 8192\<rparr>]" "\<lambda>i. i = 9" 9 12 3
      "\<lparr>nextFreeNodeAddr = 0, droppedNode = 0, droppedLastNode = 0\<rparr>"]
  by (simp add: params_ok_def meta_ok_def u32_ok_def s32_ok_def)

end
