(* ===== verification/IndexUpdates.thy ===== *)
theory IndexUpdates
  imports StoreCalls IndexMetadata
begin

text \<open>
  How the list of indexes is kept up to date with the objects (\<^verbatim>\<open>Indexes/Metadata.cpp\<close>): the four operations that the
  transactions call. An index is a number; adding an entry to its tree is a parameter, because the trees are not
  modelled, and so are the system views and the reading of the data model at the start of a transaction.
\<close>

definition EBadValue :: int where "EBadValue = 7168"
definition ENoIndexedField :: int where "ENoIndexedField = 11520"
definition EIndexedFieldDuplicated :: int where "EIndexedFieldDuplicated = 11776"
definition ERemoveIndexed :: int where "ERemoveIndexed = 12032"
definition STORE_IXR_NULLVALUE :: int where "STORE_IXR_NULLVALUE = -1"

record 'x outside =
  sys_views :: system_views
  view_items :: "string \<Rightarrow> int list"
  tree_addEntry :: "nat \<Rightarrow> DBDataValue option \<Rightarrow> RootEntry \<Rightarrow> bool \<Rightarrow> 'x \<times> VisibilityResolver \<Rightarrow> ('x \<times> VisibilityResolver) \<times> (fault + int)"
  dml_init :: "TransactionID \<Rightarrow> 'x tmanager \<Rightarrow> ('x tmanager, unit) call"

definition ih_addEntry :: "'x outside \<Rightarrow> nat \<Rightarrow> DBDataValue option \<Rightarrow> RootEntry \<Rightarrow> bool \<Rightarrow> ('x, int) tcall" where
  "ih_addEntry env ih v entry building tm =
     (case tree_addEntry env ih v entry building (ix_trees tm, tm_resolver tm) of
        ((x, vr), r) \<Rightarrow>
          let tm = tm\<lparr>ix_trees := x, tm_resolver := vr\<rparr>
          in case r of Inl e \<Rightarrow> Crashed tm e | Inr err \<Rightarrow> Done tm err)"

text \<open>\<open>getObject\<close> as a call to the store that ends.\<close>

definition store_getObject :: "'x outside \<Rightarrow> lid \<Rightarrow> storage \<Rightarrow> (storage \<times> (fault + int \<times> DBObjectPointer option)) option" where
  "store_getObject env l s = Some (getObject (sys_views env) s l)"

text \<open>Reading an object into a pointer: an error leaves the pointer as it was, which may be not initialised.\<close>

definition get_into ::
  "'x outside \<Rightarrow> lid \<Rightarrow> DBObjectPointer option option \<Rightarrow> ('x, int \<times> DBObjectPointer option option) tcall" where
  "get_into env l old tm =
     cbind (in_store (store_getObject env l) tm)
       (\<lambda>tm (err, p). Done tm (err, if err = 0 then Some p else old))"

definition deref_op :: "DBObjectPointer option option \<Rightarrow> (DBObjectPointer \<Rightarrow> ('x, 'a) tcall) \<Rightarrow> ('x, 'a) tcall" where
  "deref_op p k tm =
     (case p of
        None \<Rightarrow> Crashed tm IndeterminateRead
      | Some None \<Rightarrow> Crashed tm NullDereference
      | Some (Some ob) \<Rightarrow> k ob tm)"

section \<open>Removing a root\<close>

fun ix_remove_fields ::
  "'x outside \<Rightarrow> TransactionID \<Rightarrow> int \<Rightarrow> (string \<times> nat) list \<Rightarrow> lid list \<Rightarrow> ('x, int) tcall" where
  "ix_remove_fields env t root_lid flds [] tm = Done tm 0"
| "ix_remove_fields env t root_lid flds (l # ls) tm =
     cbind (get_into env l None tm) (\<lambda>tm (err, p).
       if err \<noteq> 0 then Done tm err
       else deref_op p (\<lambda>optr tm.
         case map_of flds (name optr) of
           None \<Rightarrow> ix_remove_fields env t root_lid flds ls tm
         | Some ih \<Rightarrow>
             cbind (ih_addEntry env ih (val optr) \<lparr>re_addTime = STORE_IXR_NULLVALUE, re_delTime = s32 (tid_timeStamp t),
                      re_modyfierTransactionId = tid_id t, re_logicalID = root_lid\<rparr> False tm)
               (\<lambda>tm _. ix_remove_fields env t root_lid flds ls tm)) tm)"

text \<open>The vector of an object and the number of its identifier, dereferenced; the callers have used the identifier before.\<close>

definition with_vector :: "DBObjectPointer \<Rightarrow> (lid list \<Rightarrow> int \<Rightarrow> ('x, 'a) tcall) \<Rightarrow> ('x, 'a) tcall" where
  "with_vector ob k tm =
     (case (Option.bind (val ob) dv_getVector, lid_of ob) of
        (Some content, Some l) \<Rightarrow> k content (s32 (lid_toInteger l)) tm
      | _ \<Rightarrow> Crashed tm NullDereference)"

definition ix_removeRoot_at :: "'x outside \<Rightarrow> TransactionID \<Rightarrow> DBObjectPointer \<Rightarrow> (string \<times> nat) list \<Rightarrow> ('x, int) tcall" where
  "ix_removeRoot_at env t ob flds = with_vector ob (\<lambda>content i. ix_remove_fields env t i flds content)"

definition ix_removeRoot :: "'x outside \<Rightarrow> TransactionID \<Rightarrow> DBObjectPointer \<Rightarrow> ('x, int) tcall" where
  "ix_removeRoot env t ob =
     under_write IndexListSem (\<lambda>tm.
       case ix_indexes tm (name ob) of
         None \<Rightarrow> Done tm 0
       | Some flds \<Rightarrow> ix_removeRoot_at env t ob flds tm)"

section \<open>Adding a root\<close>

text \<open>The loop of \<open>addDataValue\<close>. The results of the lock and of the reading are not tested; after an error the pointer
  keeps the object of the round before.\<close>

fun ix_add_fields ::
  "'x outside \<Rightarrow> TransactionID \<Rightarrow> (string \<times> nat) list \<Rightarrow> RootEntry \<Rightarrow> nat option \<Rightarrow> string list \<Rightarrow> DBObjectPointer option option
     \<Rightarrow> lid list \<Rightarrow> ('x, int) tcall" where
  "ix_add_fields env t flds entry toWhichIndex notUpdated innerOp [] tm =
     Done tm (if notUpdated = [] then 0 else or ENoIndexedField ErrIndexes)"
| "ix_add_fields env t flds entry toWhichIndex notUpdated innerOp (l # ls) tm =
     cbind (lm_lock (Some l) t Read tm) (\<lambda>tm _.
     cbind (get_into env l innerOp tm) (\<lambda>tm (_, innerOp).
       deref_op innerOp (\<lambda>ob tm.
         case map_of flds (name ob) of
           None \<Rightarrow> ix_add_fields env t flds entry toWhichIndex notUpdated innerOp ls tm
         | Some ih \<Rightarrow>
             if name ob \<notin> set notUpdated then Done tm (or EIndexedFieldDuplicated ErrIndexes)
             else
               let notUpdated = filter (\<lambda>f. f \<noteq> name ob) notUpdated
               in if toWhichIndex \<noteq> None \<and> toWhichIndex \<noteq> Some ih
                  then ix_add_fields env t flds entry toWhichIndex notUpdated innerOp ls tm
                  else cbind (ih_addEntry env ih (val ob) entry (toWhichIndex \<noteq> None) tm) (\<lambda>tm err.
                         if err \<noteq> 0 then Done tm err
                         else ix_add_fields env t flds entry toWhichIndex notUpdated innerOp ls tm)) tm))"

definition addDataValue ::
  "'x outside \<Rightarrow> TransactionID \<Rightarrow> (string \<times> nat) list \<Rightarrow> DBDataValue \<Rightarrow> RootEntry \<Rightarrow> nat option \<Rightarrow> ('x, int) tcall" where
  "addDataValue env t flds db_value entry toWhichIndex tm =
     (case dv_getVector db_value of
        None \<Rightarrow> Done tm (or EBadValue ErrIndexes)
      | Some ls \<Rightarrow> ix_add_fields env t flds entry toWhichIndex (map fst flds) None ls tm)"

definition new_root_entry :: "TransactionID \<Rightarrow> int \<Rightarrow> storage \<Rightarrow> RootEntry" where
  "new_root_entry t i s = \<lparr>re_addTime = s32 (idSeq s), re_delTime = STORE_IXR_NULLVALUE, re_modyfierTransactionId = tid_id t, re_logicalID = i\<rparr>"

definition ix_addRoot :: "'x outside \<Rightarrow> TransactionID \<Rightarrow> DBObjectPointer \<Rightarrow> nat option \<Rightarrow> ('x, int) tcall" where
  "ix_addRoot env t ob toWhichIndex tm =
     (case ix_indexes tm (name ob) of
        None \<Rightarrow> Done tm 0
      | Some flds \<Rightarrow>
          (case (val ob, lid_of ob) of
             (Some db_value, Some l) \<Rightarrow>
               addDataValue env t flds db_value (new_root_entry t (s32 (lid_toInteger l)) (tm_store tm)) toWhichIndex tm
           | _ \<Rightarrow> Crashed tm NullDereference))"

text \<open>\<open>buildIndex\<close> adds the roots that there are to a new index.\<close>

fun build_each :: "'x outside \<Rightarrow> TransactionID \<Rightarrow> nat \<Rightarrow> int list \<Rightarrow> ('x, int) tcall" where
  "build_each env t ih [] tm = Done tm 0"
| "build_each env t ih (i # is) tm =
     cbind (get_into env (lid_new i) None tm) (\<lambda>tm (err, p).
       if err \<noteq> 0 then Done tm err
       else deref_op p (\<lambda>optr tm.
         cbind (ix_addRoot env t optr (Some ih) tm) (\<lambda>tm err.
           if err \<noteq> 0 then Done tm err else build_each env t ih is tm)) tm)"

definition buildIndex :: "'x outside \<Rightarrow> nat \<Rightarrow> TransactionID \<Rightarrow> ('x, int) tcall" where
  "buildIndex env ih t tm =
     cbind (in_store (\<lambda>s. getItems NamedRoots s t [] (Some [])) tm) (\<lambda>tm fd.
       build_each env t ih (case indexContent fd of None \<Rightarrow> [] | Some es \<Rightarrow> map re_logicalID es) tm)"

section \<open>Changing and deleting an object\<close>

text \<open>The iterator into the list of indexes is used after the semaphore has been released; nothing waits in between.\<close>

definition ix_modifyObject :: "'x outside \<Rightarrow> TransactionID \<Rightarrow> DBObjectPointer \<Rightarrow> DBDataValue \<Rightarrow> ('x, int) tcall" where
  "ix_modifyObject env t ob v tm =
     (case isRoot ob of
        None \<Rightarrow> Crashed tm IndeterminateRead
      | Some False \<Rightarrow> Done tm 0
      | Some True \<Rightarrow>
          cbind (under_write IndexListSem (\<lambda>tm.
              case ix_indexes tm (name ob) of
                None \<Rightarrow> Done tm None
              | Some flds \<Rightarrow> cbind (ix_removeRoot_at env t ob flds tm) (\<lambda>tm err2. Done tm (Some (flds, err2)))) tm)
            (\<lambda>tm r. case r of
                None \<Rightarrow> Done tm 0
              | Some (flds, err2) \<Rightarrow>
                  if err2 \<noteq> 0 then Done tm err2
                  else (case lid_of ob of
                          None \<Rightarrow> Crashed tm NullDereference
                        | Some l \<Rightarrow>
                            addDataValue env t flds v (new_root_entry t (s32 (lid_toInteger l)) (tm_store tm)) None tm)))"

definition ix_deleteObject :: "DBObjectPointer \<Rightarrow> ('x, int) tcall" where
  "ix_deleteObject ob tm =
     Done tm (if opParentRoot ob \<noteq> [] \<and> (case ix_indexes tm (opParentRoot ob) of None \<Rightarrow> False | Some flds \<Rightarrow> map_of flds (name ob) \<noteq> None)
              then or ERemoveIndexed ErrIndexes else 0)"

end
