(* ===== verification/TransactionManager.thy ===== *)
theory TransactionManager
  imports IndexUpdates
begin

text \<open>
  The transaction manager (\<^verbatim>\<open>TransactionManager/Transaction.cpp\<close>): the life of a transaction and the operations that
  the query executor calls. Each operation takes the locks it needs, works on the store under the store semaphore and
  aborts the transaction when it has failed. A transaction is known by its number; the list holds the current value of
  its \<open>TransactionID\<close>. The statistics are left out.
\<close>

definition ENoObject :: int where "ENoObject = 12800"

section \<open>The life of a transaction\<close>

definition addTransaction :: "TransactionID \<Rightarrow> 'x tmanager \<Rightarrow> 'x tmanager" where
  "addTransaction t tm = tm\<lparr>transactions := transactions tm @ [t]\<rparr>"

definition remove_from_list :: "TransactionID \<Rightarrow> 'x tmanager \<Rightarrow> 'x tmanager" where
  "remove_from_list t tm = tm\<lparr>transactions := filter (\<lambda>x. tid_id x \<noteq> tid_id t) (transactions tm)\<rparr>"

definition getTransactions :: "int \<Rightarrow> 'x tmanager \<Rightarrow> TransactionID list" where
  "getTransactions garbage tm = map (\<lambda>t. TransactionID_clone t garbage) (transactions tm)"

definition getTransactionsIds :: "'x tmanager \<Rightarrow> int list" where
  "getTransactionsIds tm = map tid_id (transactions tm)"

definition in_resolver :: "(VisibilityResolver \<Rightarrow> fault + VisibilityResolver) \<Rightarrow> ('x, unit) tcall" where
  "in_resolver f tm =
     (case f (tm_resolver tm) of Inl e \<Rightarrow> Crashed tm e | Inr vr \<Rightarrow> Done (tm\<lparr>tm_resolver := vr\<rparr>) ())"

definition in_log :: "(Logs \<Rightarrow> Logs \<times> int) \<Rightarrow> ('x, int) tcall" where
  "in_log f tm = (let (lg, i) = f (tm_log tm) in Done (tm\<lparr>tm_log := lg\<rparr>) i)"

text \<open>\<open>unlockAll\<close> returns 0.\<close>

definition tm_unlockAll :: "TransactionID \<Rightarrow> ('x, int) tcall" where
  "tm_unlockAll t tm =
     (case unlockAll (tm_locks tm) t of
        None \<Rightarrow> Crashed tm AssertionFailure
      | Some (lm, ks) \<Rightarrow> Done (fold (\<lambda>(i, k). note_wake (ObjectLock i) k) ks (tm\<lparr>tm_locks := lm\<rparr>)) 0)"

text \<open>\<open>Transaction::init\<close>.\<close>

definition set_stamp :: "TransactionID \<Rightarrow> 'x tmanager \<Rightarrow> 'x tmanager" where
  "set_stamp t tm = tm\<lparr>transactions := map (\<lambda>x. if tid_id x = tid_id t then t else x) (transactions tm)\<rparr>"

definition tr_init :: "'x outside \<Rightarrow> TransactionID \<Rightarrow> ('x, int \<times> TransactionID) tcall" where
  "tr_init env t tm =
     cbind (in_log (\<lambda>lg. beginTransaction lg (tid_id t)) tm) (\<lambda>tm i.
       let t = setTimeStamp t i in
       cbind (dml_init env t (set_stamp t tm)) (\<lambda>tm _. Done tm (0, t)))"

text \<open>The time stamp is not initialised before \<open>init\<close>.\<close>

definition createTransaction_prio :: "'x outside \<Rightarrow> int \<Rightarrow> int \<Rightarrow> int \<Rightarrow> ('x, int \<times> TransactionID) tcall" where
  "createTransaction_prio env garbage sessionId prio tm =
     (let currentId = transactionId tm;
          t = (if prio > -1 then TransactionID_new sessionId currentId prio garbage else TransactionID_new0 currentId garbage)
      in cbind (in_resolver (vr_begin currentId) (addTransaction t (tm\<lparr>transactionId := s32 (currentId + 1)\<rparr>)))
           (\<lambda>tm _. tr_init env t tm))"

definition createTransaction :: "'x outside \<Rightarrow> int \<Rightarrow> int \<Rightarrow> ('x, int \<times> TransactionID) tcall" where
  "createTransaction env garbage sessionId = createTransaction_prio env garbage sessionId (-1)"

text \<open>\<open>TransactionManager::commit\<close>: the record in the log, and what comes after it.\<close>

definition tm_commit_record :: "TransactionID \<Rightarrow> ('x, int) tcall" where
  "tm_commit_record t tm = in_log (\<lambda>lg. commitTransaction lg (tid_id t)) tm"

definition tm_commit_rest :: "TransactionID \<Rightarrow> int \<Rightarrow> ('x, int) tcall" where
  "tm_commit_rest t i tm =
     cbind (tm_unlockAll t tm) (\<lambda>tm errorNumber.
     cbind (in_store (\<lambda>s. sm_commitTransaction s t) tm) (\<lambda>tm _.
     cbind (in_resolver (vr_commit (tid_id t) (s32 i)) (remove_from_list t tm)) (\<lambda>tm _.
       Done tm errorNumber)))"

definition tm_commit :: "TransactionID \<Rightarrow> ('x, int) tcall" where
  "tm_commit t tm = cbind (tm_commit_record t tm) (\<lambda>tm i. tm_commit_rest t i tm)"

definition tm_rollback :: "'x outside \<Rightarrow> TransactionID \<Rightarrow> ('x, int) tcall" where
  "tm_rollback env t tm =
     (case rollbackTransaction (sys_views env) (tm_log tm) (tid_id t) of
        None \<Rightarrow> Endless
      | Some (lg, Inl e) \<Rightarrow> Crashed (tm\<lparr>tm_log := lg\<rparr>) e
      | Some (lg, Inr (errorNumber, _)) \<Rightarrow> Done (tm\<lparr>tm_log := lg\<rparr>) errorNumber)"

text \<open>The abort does not take the store semaphore. Its result is that of \<open>unlockAll\<close>.\<close>

definition tm_abort :: "'x outside \<Rightarrow> TransactionID \<Rightarrow> ('x, int) tcall" where
  "tm_abort env t tm =
     cbind (tm_rollback env t tm) (\<lambda>tm _.
     cbind (tm_unlockAll t tm) (\<lambda>tm errorNumber.
     cbind (in_store (\<lambda>s. sm_abortTransaction s t) tm) (\<lambda>tm _.
     cbind (in_resolver (vr_abort (tid_id t)) (remove_from_list t tm)) (\<lambda>tm _.
       Done tm errorNumber))))"

section \<open>Objects\<close>

text \<open>\<open>if (errorNumber) abort();\<close> at the end of an operation.\<close>

definition or_abort_if :: "(int \<Rightarrow> bool) \<Rightarrow> 'x outside \<Rightarrow> TransactionID \<Rightarrow> ('x tmanager, int \<times> 'a) call \<Rightarrow> ('x tmanager, int \<times> 'a) call" where
  "or_abort_if bad env t c =
     cbind c (\<lambda>tm (errorNumber, x).
       if bad errorNumber then cbind (tm_abort env t tm) (\<lambda>tm _. Done tm (errorNumber, x)) else Done tm (errorNumber, x))"

abbreviation or_abort :: "'x outside \<Rightarrow> TransactionID \<Rightarrow> ('x tmanager, int \<times> 'a) call \<Rightarrow> ('x tmanager, int \<times> 'a) call" where
  "or_abort \<equiv> or_abort_if (\<lambda>errorNumber. errorNumber \<noteq> 0)"

text \<open>The next step, if there has been no error so far.\<close>

definition if_ok :: "('x tmanager, int \<times> 'a) call \<Rightarrow> ('a \<Rightarrow> ('x, int \<times> 'a) tcall) \<Rightarrow> ('x tmanager, int \<times> 'a) call" where
  "if_ok c k = cbind c (\<lambda>tm (errorNumber, x). if errorNumber = 0 then k x tm else Done tm (errorNumber, x))"

definition with_code :: "'a \<Rightarrow> ('x tmanager, int) call \<Rightarrow> ('x tmanager, int \<times> 'a) call" where
  "with_code x c = cbind c (\<lambda>tm errorNumber. Done tm (errorNumber, x))"

definition read_store :: "(storage \<Rightarrow> (storage \<times> (fault + 'a)) option) \<Rightarrow> ('x, 'a) tcall" where
  "read_store f = under_read StoreSem (in_store f)"

definition tr_getObjectPointer ::
  "'x outside \<Rightarrow> TransactionID \<Rightarrow> lid \<Rightarrow> AccessMode \<Rightarrow> bool \<Rightarrow> ('x, int \<times> DBObjectPointer option) tcall" where
  "tr_getObjectPointer env t l mode allowNullObject tm =
     cbind (or_abort env t
        (if lid_toInteger l div 16777216 mod 256 \<noteq> 0 then read_store (store_getObject env l) tm
         else if_ok (with_code None (lm_lock (Some l) t mode tm)) (\<lambda>_. read_store (store_getObject env l))))
       (\<lambda>tm (errorNumber, p).
          if errorNumber = 0 \<and> p = None \<and> \<not> allowNullObject
          then or_abort env t (Done tm (or ENoObject ErrTManager, None))
          else Done tm (errorNumber, p))"

text \<open>The object that the operations of the store change is passed by reference.\<close>

definition tr_modifyObject :: "'x outside \<Rightarrow> TransactionID \<Rightarrow> DBObjectPointer \<Rightarrow> DBDataValue \<Rightarrow> ('x, int \<times> DBObjectPointer) tcall" where
  "tr_modifyObject env t ob dv tm =
     or_abort env t
       (if_ok (with_code ob (lm_lock (lid_of ob) t Write tm)) (\<lambda>ob.
          under_write StoreSem (\<lambda>tm.
            if_ok (if_ok (with_code ob (ix_modifyObject env t ob dv tm))
                     (\<lambda>ob. in_store (\<lambda>s. Some (modifyObject s (tid_id t) ob dv))))
              (\<lambda>ob tm. with_code ob (lm_lock (lid_of ob) t Write tm)))))"

definition tr_createObject :: "'x outside \<Rightarrow> TransactionID \<Rightarrow> string \<Rightarrow> DBDataValue \<Rightarrow> ('x, int \<times> DBObjectPointer) tcall" where
  "tr_createObject env t nm v tm =
     or_abort env t
       (under_write StoreSem (\<lambda>tm.
          if_ok (in_store (\<lambda>s. Some (createObject s (tid_id t) nm v None False)) tm)
            (\<lambda>p tm. with_code p (lm_lock (lid_of p) t Write tm))) tm)"

definition tr_deleteObject :: "'x outside \<Rightarrow> TransactionID \<Rightarrow> DBObjectPointer \<Rightarrow> ('x, int \<times> unit) tcall" where
  "tr_deleteObject env t ob tm =
     or_abort env t
       (if_ok (with_code () (lm_lock (lid_of ob) t Write tm)) (\<lambda>_.
          under_write StoreSem (\<lambda>tm.
            if_ok (with_code () (ix_deleteObject ob tm))
              (\<lambda>_ tm. with_code () (in_store (\<lambda>s. Some (deleteObject s (tid_id t) ob)) tm)))))"

section \<open>Roots\<close>

fun lock_each :: "TransactionID \<Rightarrow> DBObjectPointer option list \<Rightarrow> ('x, int) tcall" where
  "lock_each t [] tm = Done tm 0"
| "lock_each t (p # ps) tm =
     (case p of
        None \<Rightarrow> Crashed tm NullDereference
      | Some ob \<Rightarrow>
          cbind (lm_lock (lid_of ob) t Read tm) (\<lambda>tm errorNumber.
            if errorNumber \<noteq> 0 then Done tm errorNumber else lock_each t ps tm))"

definition tr_getRoots_all :: "'x outside \<Rightarrow> TransactionID \<Rightarrow> ('x, int \<times> DBObjectPointer option list) tcall" where
  "tr_getRoots_all env t tm =
     or_abort env t
       (if_ok (read_store (\<lambda>s. sm_getRoots_all (sys_views env) s t) tm) (\<lambda>p tm. with_code p (lock_each t p tm)))"

definition tr_getRoots :: "'x outside \<Rightarrow> TransactionID \<Rightarrow> string \<Rightarrow> ('x, int \<times> DBObjectPointer option list) tcall" where
  "tr_getRoots env t nm tm =
     or_abort env t
       (if_ok (read_store (\<lambda>s. sm_getRoots (sys_views env) s t nm) tm) (\<lambda>p tm. with_code p (lock_each t p tm)))"

definition tr_addRoot :: "'x outside \<Rightarrow> TransactionID \<Rightarrow> DBObjectPointer \<Rightarrow> ('x, int \<times> DBObjectPointer) tcall" where
  "tr_addRoot env t p tm =
     or_abort env t
       (under_write StoreSem (\<lambda>tm.
          if_ok (if_ok (in_store (\<lambda>s. sm_addRoot s t p) tm)
                   (\<lambda>p tm. with_code p (ix_addRoot env t p None tm)))
            (\<lambda>p tm. with_code p (lm_lock (lid_of p) t Write tm))) tm)"

definition tr_removeRoot :: "'x outside \<Rightarrow> TransactionID \<Rightarrow> DBObjectPointer \<Rightarrow> ('x, int \<times> DBObjectPointer) tcall" where
  "tr_removeRoot env t p tm =
     or_abort env t
       (if_ok (if_ok (with_code p (lm_lock (lid_of p) t Write tm))
                 (\<lambda>p. under_write StoreSem (in_store (\<lambda>s. sm_removeRoot s t p))))
          (\<lambda>p tm. with_code p (ix_removeRoot env t p tm)))"

section \<open>Lookups of identifiers\<close>

text \<open>A lookup under the store semaphore, without locks.\<close>

definition look_up :: "'x outside \<Rightarrow> TransactionID \<Rightarrow> (storage \<Rightarrow> (storage \<times> (fault + int \<times> 'a)) option) \<Rightarrow> ('x, int \<times> 'a) tcall" where
  "look_up env t f tm = or_abort env t (read_store f tm)"

definition tr_getRootsLID_all :: "'x outside \<Rightarrow> TransactionID \<Rightarrow> ('x, int \<times> lid list) tcall" where
  "tr_getRootsLID_all env t = look_up env t (\<lambda>s. sm_getRootsLID_all s t)"

definition tr_getRootsLID :: "'x outside \<Rightarrow> TransactionID \<Rightarrow> string \<Rightarrow> ('x, int \<times> lid list) tcall" where
  "tr_getRootsLID env t nm = look_up env t (\<lambda>s. sm_getRootsLID s t nm)"

definition tr_getRootsLIDWithBegin :: "'x outside \<Rightarrow> TransactionID \<Rightarrow> string \<Rightarrow> ('x, int \<times> lid list) tcall" where
  "tr_getRootsLIDWithBegin env t nameBegin = look_up env t (\<lambda>s. sm_getRootsLIDWithBegin s t nameBegin)"

definition tr_getViewsLID_all :: "'x outside \<Rightarrow> TransactionID \<Rightarrow> ('x, int \<times> lid list) tcall" where
  "tr_getViewsLID_all env t = look_up env t (\<lambda>s. sm_getViewsLID_all s t)"

definition tr_getViewsLID :: "'x outside \<Rightarrow> TransactionID \<Rightarrow> string \<Rightarrow> ('x, int \<times> lid list) tcall" where
  "tr_getViewsLID env t nm = look_up env t (\<lambda>s. sm_getViewsLID s t nm)"

definition tr_getClassesLID_all :: "'x outside \<Rightarrow> TransactionID \<Rightarrow> ('x, int \<times> lid list) tcall" where
  "tr_getClassesLID_all env t = look_up env t (\<lambda>s. sm_getClassesLID_all s t)"

definition tr_getClassesLID :: "'x outside \<Rightarrow> TransactionID \<Rightarrow> string \<Rightarrow> ('x, int \<times> lid list) tcall" where
  "tr_getClassesLID env t nm = look_up env t (\<lambda>s. sm_getClassesLID s t nm)"

definition tr_getClassesLIDByInvariant :: "'x outside \<Rightarrow> TransactionID \<Rightarrow> string \<Rightarrow> ('x, int \<times> lid list) tcall" where
  "tr_getClassesLIDByInvariant env t invariantName = look_up env t (\<lambda>s. sm_getClassesLIDByInvariant s t invariantName)"

definition tr_getInterfacesLID_all :: "'x outside \<Rightarrow> TransactionID \<Rightarrow> ('x, int \<times> lid list) tcall" where
  "tr_getInterfacesLID_all env t = look_up env t (\<lambda>s. sm_getInterfacesLID_all s t)"

definition tr_getInterfacesLID :: "'x outside \<Rightarrow> TransactionID \<Rightarrow> string \<Rightarrow> ('x, int \<times> lid list) tcall" where
  "tr_getInterfacesLID env t nm = look_up env t (\<lambda>s. sm_getInterfacesLID s t nm)"

definition tr_getSchemasLID_all :: "'x outside \<Rightarrow> TransactionID \<Rightarrow> ('x, int \<times> lid list) tcall" where
  "tr_getSchemasLID_all env t = look_up env t (\<lambda>s. sm_getSchemasLID_all s t)"

definition tr_getSchemasLID :: "'x outside \<Rightarrow> TransactionID \<Rightarrow> string \<Rightarrow> ('x, int \<times> lid list) tcall" where
  "tr_getSchemasLID env t nm = look_up env t (\<lambda>s. sm_getSchemasLID s t nm)"

definition sm_getSystemViewsLID :: "'x outside \<Rightarrow> string \<Rightarrow> storage \<Rightarrow> (storage \<times> (fault + int \<times> lid list)) option" where
  "sm_getSystemViewsLID env nm s = Some (s, Inr (0, map lid_new (view_items env nm)))"

definition sm_getSystemViewsLID_all :: "'x outside \<Rightarrow> storage \<Rightarrow> (storage \<times> (fault + int \<times> lid list)) option" where
  "sm_getSystemViewsLID_all env = sm_getSystemViewsLID env []"

definition tr_getSystemViewsLID_all :: "'x outside \<Rightarrow> TransactionID \<Rightarrow> ('x, int \<times> lid list) tcall" where
  "tr_getSystemViewsLID_all env t = look_up env t (sm_getSystemViewsLID_all env)"

definition tr_getSystemViewsLID :: "'x outside \<Rightarrow> TransactionID \<Rightarrow> string \<Rightarrow> ('x, int \<times> lid list) tcall" where
  "tr_getSystemViewsLID env t nm = look_up env t (sm_getSystemViewsLID env nm)"

text \<open>An unknown interface is an error that does not abort the transaction.\<close>

definition tr_getInterfaceBindForObjectName ::
  "'x outside \<Rightarrow> TransactionID \<Rightarrow> string \<Rightarrow> ('x, int \<times> (string \<times> string) option) tcall" where
  "tr_getInterfaceBindForObjectName env t objectName tm =
     or_abort_if (\<lambda>errorNumber. errorNumber \<noteq> 0 \<and> errorNumber \<noteq> no_interface) env t
       (read_store (\<lambda>s. sm_getInterfaceBindForObjectName s t objectName) tm)"

section \<open>Views, classes, interfaces, schemas\<close>

text \<open>Adding works on the registry and takes the lock inside the store semaphore, removing takes the lock first.\<close>

definition add_named ::
  "'x outside \<Rightarrow> TransactionID \<Rightarrow> (storage \<Rightarrow> (storage \<times> (fault + int)) option) \<Rightarrow> DBObjectPointer \<Rightarrow> ('x, int \<times> unit) tcall" where
  "add_named env t f p tm =
     or_abort env t
       (under_write StoreSem (\<lambda>tm.
          if_ok (with_code () (in_store f tm)) (\<lambda>_ tm. with_code () (lm_lock (lid_of p) t Write tm))) tm)"

definition remove_named ::
  "'x outside \<Rightarrow> TransactionID \<Rightarrow> (storage \<Rightarrow> (storage \<times> (fault + int)) option) \<Rightarrow> DBObjectPointer \<Rightarrow> ('x, int \<times> unit) tcall" where
  "remove_named env t f p tm =
     or_abort env t
       (if_ok (with_code () (lm_lock (lid_of p) t Write tm))
          (\<lambda>_. under_write StoreSem (\<lambda>tm. with_code () (in_store f tm))))"

definition tr_addView :: "'x outside \<Rightarrow> TransactionID \<Rightarrow> string \<Rightarrow> DBObjectPointer \<Rightarrow> ('x, int \<times> unit) tcall" where
  "tr_addView env t nm p = add_named env t (\<lambda>s. sm_addView s t nm p) p"

definition tr_removeView :: "'x outside \<Rightarrow> TransactionID \<Rightarrow> DBObjectPointer \<Rightarrow> ('x, int \<times> unit) tcall" where
  "tr_removeView env t p = remove_named env t (\<lambda>s. sm_removeView s t p) p"

definition tr_addClass :: "'x outside \<Rightarrow> TransactionID \<Rightarrow> string \<Rightarrow> string \<Rightarrow> DBObjectPointer \<Rightarrow> ('x, int \<times> unit) tcall" where
  "tr_addClass env t nm invariantName p = add_named env t (\<lambda>s. sm_addClass s t nm invariantName p) p"

definition tr_removeClass :: "'x outside \<Rightarrow> TransactionID \<Rightarrow> DBObjectPointer \<Rightarrow> ('x, int \<times> unit) tcall" where
  "tr_removeClass env t p = remove_named env t (\<lambda>s. sm_removeClass s t p) p"

definition tr_addInterface :: "'x outside \<Rightarrow> TransactionID \<Rightarrow> string \<Rightarrow> string \<Rightarrow> DBObjectPointer \<Rightarrow> ('x, int \<times> unit) tcall" where
  "tr_addInterface env t nm objectName p = add_named env t (\<lambda>s. sm_addInterface s t nm objectName p) p"

definition tr_removeInterface :: "'x outside \<Rightarrow> TransactionID \<Rightarrow> DBObjectPointer \<Rightarrow> ('x, int \<times> unit) tcall" where
  "tr_removeInterface env t p = remove_named env t (\<lambda>s. sm_removeInterface s t p) p"

definition tr_addSchema :: "'x outside \<Rightarrow> TransactionID \<Rightarrow> string \<Rightarrow> DBObjectPointer \<Rightarrow> ('x, int \<times> unit) tcall" where
  "tr_addSchema env t nm p = add_named env t (\<lambda>s. sm_addSchema s t nm p) p"

definition tr_removeSchema :: "'x outside \<Rightarrow> TransactionID \<Rightarrow> DBObjectPointer \<Rightarrow> ('x, int \<times> unit) tcall" where
  "tr_removeSchema env t p = remove_named env t (\<lambda>s. sm_removeSchema s t p) p"

text \<open>\<open>bindInterface\<close> returns 0 in any case.\<close>

definition tr_bindInterface :: "'x outside \<Rightarrow> TransactionID \<Rightarrow> string \<Rightarrow> string \<Rightarrow> ('x, int \<times> unit) tcall" where
  "tr_bindInterface env t nm bindName tm =
     cbind (or_abort env t (under_write StoreSem (\<lambda>tm. with_code () (in_store (\<lambda>s. sm_bindInterface s t nm bindName) tm)) tm))
       (\<lambda>tm _. Done tm (0, ()))"

section \<open>Values\<close>

definition sm_createIntValue :: "int \<Rightarrow> DBDataValue" where "sm_createIntValue v = dv_new_int v"
definition sm_createDoubleValue :: "64 word \<Rightarrow> DBDataValue" where "sm_createDoubleValue v = dv_new_double v"
definition sm_createStringValue :: "string \<Rightarrow> DBDataValue" where "sm_createStringValue v = dv_new_string v"
definition sm_createPointerValue :: "lid \<Rightarrow> DBDataValue" where "sm_createPointerValue v = dv_new_pointer v"
definition sm_createVectorValue :: "lid list \<Rightarrow> DBDataValue" where "sm_createVectorValue v = dv_new_vector v"

definition tr_createIntValue :: "int \<Rightarrow> ('x, int \<times> DBDataValue) tcall" where
  "tr_createIntValue v tm = Done tm (0, sm_createIntValue v)"

definition tr_createDoubleValue :: "64 word \<Rightarrow> ('x, int \<times> DBDataValue) tcall" where
  "tr_createDoubleValue v tm = Done tm (0, sm_createDoubleValue v)"

definition tr_createStringValue :: "string \<Rightarrow> ('x, int \<times> DBDataValue) tcall" where
  "tr_createStringValue v tm = Done tm (0, sm_createStringValue v)"

definition tr_createVectorValue :: "lid list \<Rightarrow> ('x, int \<times> DBDataValue) tcall" where
  "tr_createVectorValue v = under_write StoreSem (\<lambda>tm. Done tm (0, sm_createVectorValue v))"

definition tr_createPointerValue :: "lid \<Rightarrow> ('x, int \<times> DBDataValue) tcall" where
  "tr_createPointerValue v = under_write StoreSem (\<lambda>tm. Done tm (0, sm_createPointerValue v))"

section \<open>The manager\<close>

record tm_config =
  minimalTransactionId :: int
  semaphoresTimeout :: bool
  readerTimeout :: int
  writerTimeout :: int
  boostAfterDeadlock :: int

text \<open>\<open>loadConfig\<close>; the two arguments stand for \<open>getInt\<close> and \<open>getString\<close> of the configuration.\<close>

definition loadConfig :: "(string \<Rightarrow> int option) \<Rightarrow> (string \<Rightarrow> string option) \<Rightarrow> 'x tmanager \<Rightarrow> 'x tmanager \<times> tm_config" where
  "loadConfig getInt getString tm =
     (let int_or = (\<lambda>k d. case getInt k of None \<Rightarrow> d | Some i \<Rightarrow> i) in
      (tm\<lparr>transactionId := s32 (idSeq (tm_store tm))\<rparr>,
       \<lparr>minimalTransactionId = int_or ''minimal_transaction_id'' 1,
        semaphoresTimeout = (getString ''semaphores_timeout'' = Some ''on''),
        readerTimeout = int_or ''reader_timeout'' 30,
        writerTimeout = int_or ''writer_timeout'' 40,
        boostAfterDeadlock = int_or ''boost_after_deadlock'' 10\<rparr>))"

text \<open>\<open>TransactionManager::init\<close> on a store, a log and an index manager that have started.\<close>

definition tm_new :: "Logs \<Rightarrow> VisibilityResolver \<Rightarrow> (string \<rightharpoonup> (string \<times> nat) list) \<Rightarrow> 'x \<Rightarrow> 'x tmanager" where
  "tm_new lg vr ixs x = \<lparr>tm_log = lg, tm_locks = LockManager_new, tm_sem = RWUJSemaphore_new, transactions = [],
     transactionId = 0, tm_resolver = vr, indexListSem = RWUJSemaphore_new, ix_indexes = ixs, ix_trees = x, tm_wakes = []\<rparr>"

text \<open>The destructor releases the locks of the transactions that are still running.\<close>

fun unlock_unfinished :: "TransactionID list \<Rightarrow> ('x, unit) tcall" where
  "unlock_unfinished [] tm = Done tm ()"
| "unlock_unfinished (t # ts) tm = cbind (tm_unlockAll t tm) (\<lambda>tm _. unlock_unfinished ts tm)"

definition tm_destroy :: "('x, unit) tcall" where
  "tm_destroy tm = unlock_unfinished (transactions tm) tm"

definition sm_checkpoint :: "('x, int) tcall" where
  "sm_checkpoint tm = in_log (\<lambda>lg. log_checkpoint lg (getTransactionsIds tm)) tm"

definition sm_endCheckpoint :: "('x, int) tcall" where
  "sm_endCheckpoint tm = in_log endCheckpoint tm"

end
