(* ===== verification/TransactionCalls.thy ===== *)
theory TransactionCalls
  imports TransactionManager
begin

text \<open>
  The operations of a transaction as one interface: a request and the code with which it is answered. What holds for all
  requests about errors.
\<close>

datatype request =
    GetObjectPointer lid AccessMode bool
  | ModifyObject DBObjectPointer DBDataValue
  | CreateObject string DBDataValue
  | DeleteObject DBObjectPointer
  | GetRoots_all
  | GetRoots string
  | GetRootsLID_all
  | GetRootsLID string
  | GetRootsLIDWithBegin string
  | AddRoot DBObjectPointer
  | RemoveRoot DBObjectPointer
  | GetViewsLID_all
  | GetViewsLID string
  | AddView string DBObjectPointer
  | RemoveView DBObjectPointer
  | GetClassesLID_all
  | GetClassesLID string
  | GetClassesLIDByInvariant string
  | AddClass string string DBObjectPointer
  | RemoveClass DBObjectPointer
  | GetInterfacesLID_all
  | GetInterfacesLID string
  | GetSystemViewsLID_all
  | GetSystemViewsLID string
  | AddInterface string string DBObjectPointer
  | BindInterface string string
  | GetInterfaceBindForObjectName string
  | RemoveInterface DBObjectPointer
  | AddSchema string DBObjectPointer
  | RemoveSchema DBObjectPointer
  | GetSchemasLID_all
  | GetSchemasLID string
  | CreateIntValue int
  | CreateDoubleValue "64 word"
  | CreateStringValue string
  | CreateVectorValue "lid list"
  | CreatePointerValue lid

definition code :: "('x tmanager, int \<times> 'a) call \<Rightarrow> ('x tmanager, int) call" where
  "code c = cbind c (\<lambda>tm (errorNumber, _). Done tm errorNumber)"

fun perform :: "'x outside \<Rightarrow> TransactionID \<Rightarrow> request \<Rightarrow> ('x, int) tcall" where
  "perform env t (GetObjectPointer l md n) tm = code (tr_getObjectPointer env t l md n tm)"
| "perform env t (ModifyObject p dv) tm = code (tr_modifyObject env t p dv tm)"
| "perform env t (CreateObject nm v) tm = code (tr_createObject env t nm v tm)"
| "perform env t (DeleteObject p) tm = code (tr_deleteObject env t p tm)"
| "perform env t GetRoots_all tm = code (tr_getRoots_all env t tm)"
| "perform env t (GetRoots nm) tm = code (tr_getRoots env t nm tm)"
| "perform env t GetRootsLID_all tm = code (tr_getRootsLID_all env t tm)"
| "perform env t (GetRootsLID nm) tm = code (tr_getRootsLID env t nm tm)"
| "perform env t (GetRootsLIDWithBegin nm) tm = code (tr_getRootsLIDWithBegin env t nm tm)"
| "perform env t (AddRoot p) tm = code (tr_addRoot env t p tm)"
| "perform env t (RemoveRoot p) tm = code (tr_removeRoot env t p tm)"
| "perform env t GetViewsLID_all tm = code (tr_getViewsLID_all env t tm)"
| "perform env t (GetViewsLID nm) tm = code (tr_getViewsLID env t nm tm)"
| "perform env t (AddView nm p) tm = code (tr_addView env t nm p tm)"
| "perform env t (RemoveView p) tm = code (tr_removeView env t p tm)"
| "perform env t GetClassesLID_all tm = code (tr_getClassesLID_all env t tm)"
| "perform env t (GetClassesLID nm) tm = code (tr_getClassesLID env t nm tm)"
| "perform env t (GetClassesLIDByInvariant nm) tm = code (tr_getClassesLIDByInvariant env t nm tm)"
| "perform env t (AddClass nm iname p) tm = code (tr_addClass env t nm iname p tm)"
| "perform env t (RemoveClass p) tm = code (tr_removeClass env t p tm)"
| "perform env t GetInterfacesLID_all tm = code (tr_getInterfacesLID_all env t tm)"
| "perform env t (GetInterfacesLID nm) tm = code (tr_getInterfacesLID env t nm tm)"
| "perform env t GetSystemViewsLID_all tm = code (tr_getSystemViewsLID_all env t tm)"
| "perform env t (GetSystemViewsLID nm) tm = code (tr_getSystemViewsLID env t nm tm)"
| "perform env t (AddInterface nm obn p) tm = code (tr_addInterface env t nm obn p tm)"
| "perform env t (BindInterface nm bn) tm = code (tr_bindInterface env t nm bn tm)"
| "perform env t (GetInterfaceBindForObjectName nm) tm = code (tr_getInterfaceBindForObjectName env t nm tm)"
| "perform env t (RemoveInterface p) tm = code (tr_removeInterface env t p tm)"
| "perform env t (AddSchema nm p) tm = code (tr_addSchema env t nm p tm)"
| "perform env t (RemoveSchema p) tm = code (tr_removeSchema env t p tm)"
| "perform env t GetSchemasLID_all tm = code (tr_getSchemasLID_all env t tm)"
| "perform env t (GetSchemasLID nm) tm = code (tr_getSchemasLID env t nm tm)"
| "perform env t (CreateIntValue i) tm = code (tr_createIntValue i tm)"
| "perform env t (CreateDoubleValue d) tm = code (tr_createDoubleValue d tm)"
| "perform env t (CreateStringValue x) tm = code (tr_createStringValue x tm)"
| "perform env t (CreateVectorValue ls) tm = code (tr_createVectorValue ls tm)"
| "perform env t (CreatePointerValue l) tm = code (tr_createPointerValue l tm)"

section \<open>A failed request ends the transaction\<close>

definition ended :: "TransactionID \<Rightarrow> 'x tmanager \<Rightarrow> bool" where
  "ended t tm \<longleftrightarrow> tid_id t \<notin> tid_id ` set (transactions tm) \<and> transaction_locks (tm_locks tm) (tid_id t) = None"

lemma note_wake_sel [simp]:
  "tm_log (note_wake pl k tm) = tm_log tm" "tm_locks (note_wake pl k tm) = tm_locks tm"
  "tm_sem (note_wake pl k tm) = tm_sem tm" "transactions (note_wake pl k tm) = transactions tm"
  "indexListSem (note_wake pl k tm) = indexListSem tm" "tm_resolver (note_wake pl k tm) = tm_resolver tm"
  "transactionId (note_wake pl k tm) = transactionId tm" "ix_indexes (note_wake pl k tm) = ix_indexes tm"
  by (simp_all add: note_wake_def split: option.split)

lemma fold_note_wake [simp]:
  "tm_log (fold (\<lambda>(i, k). note_wake (ObjectLock i) k) ks tm) = tm_log tm"
  "tm_locks (fold (\<lambda>(i, k). note_wake (ObjectLock i) k) ks tm) = tm_locks tm"
  "tm_sem (fold (\<lambda>(i, k). note_wake (ObjectLock i) k) ks tm) = tm_sem tm"
  "transactions (fold (\<lambda>(i, k). note_wake (ObjectLock i) k) ks tm) = transactions tm"
  "indexListSem (fold (\<lambda>(i, k). note_wake (ObjectLock i) k) ks tm) = indexListSem tm"
  "tm_resolver (fold (\<lambda>(i, k). note_wake (ObjectLock i) k) ks tm) = tm_resolver tm"
  "transactionId (fold (\<lambda>(i, k). note_wake (ObjectLock i) k) ks tm) = transactionId tm"
  "ix_indexes (fold (\<lambda>(i, k). note_wake (ObjectLock i) k) ks tm) = ix_indexes tm"
  by (induction ks arbitrary: tm) (auto split: prod.split)

text \<open>The steps of an abort do not wait.\<close>

lemma ends_in_store:
  "ends_in (in_store f tm) tm' x \<longleftrightarrow>
     (\<exists>s. f (tm_store tm) = Some (s, Inr x) \<and> tm' = tm\<lparr>tm_log := pushLogable ((tm_log tm)\<lparr>lg_store := s\<rparr>)\<rparr>)"
  by (auto simp: in_store_def Let_def split: option.splits sum.splits)

lemma ends_in_resolver: "ends_in (in_resolver f tm) tm' u \<longleftrightarrow> (\<exists>vr. f (tm_resolver tm) = Inr vr \<and> tm' = tm\<lparr>tm_resolver := vr\<rparr>)"
  by (auto simp: in_resolver_def split: sum.splits)

lemma unlockAll_none: "unlockAll lm t = Some (lm', ks) \<Longrightarrow> transaction_locks lm' (tid_id t) = None"
  by (auto simp: unlockAll_def split: option.splits)

lemma ends_unlockAll:
  "ends_in (tm_unlockAll t tm) tm' rc \<longleftrightarrow> rc = 0 \<and> (\<exists>lm ks. unlockAll (tm_locks tm) t = Some (lm, ks)
     \<and> tm' = fold (\<lambda>(i, k). note_wake (ObjectLock i) k) ks (tm\<lparr>tm_locks := lm\<rparr>))"
  by (auto simp: tm_unlockAll_def split: option.splits)

lemma ends_abort_ended:
  assumes "ends_in (tm_abort env t tm) tm' rc"
  shows "ended t tm' \<and> rc = 0"
proof -
  have "rc = 0 \<and> (\<exists>lm ks. unlockAll lm t = Some (tm_locks tm', ks)) \<and> tid_id t \<notin> tid_id ` set (transactions tm')"
    using assms by (auto simp: tm_abort_def ends_cbind ends_in_store ends_in_resolver ends_unlockAll remove_from_list_def
        intro!: exI)
  then show ?thesis
    using unlockAll_none by (auto simp: ended_def)
qed

lemma ends_or_abort:
  assumes "ends_in (or_abort_if bad env t c) tm' (rc, x)" "bad rc"
  shows "ended t tm'"
  using assms ends_abort_ended by (fastforce simp: or_abort_if_def ends_cbind split: if_splits prod.splits)

lemma ends_code: "ends_in (code c) tm' rc \<longleftrightarrow> (\<exists>x. ends_in c tm' (rc, x))"
  by (auto simp: code_def ends_cbind split: prod.splits)

lemma getObjectPointer_ended:
  assumes "ends_in (tr_getObjectPointer env t l md n tm) tm' (rc, p)" "rc \<noteq> 0"
  shows "ended t tm'"
proof -
  obtain tm1 e q where 1: "ends_in (or_abort env t
        (if lid_toInteger l div 16777216 mod 256 \<noteq> 0 then read_store (store_getObject env l) tm
         else if_ok (with_code None (lm_lock (Some l) t md tm)) (\<lambda>_. read_store (store_getObject env l)))) tm1 (e, q)"
    and 2: "ends_in (if e = 0 \<and> q = None \<and> \<not> n then or_abort env t (Done tm1 (or ENoObject ErrTManager, None)) else Done tm1 (e, q)) tm' (rc, p)"
    using assms(1) unfolding tr_getObjectPointer_def ends_cbind by (metis (no_types, lifting) case_prod_conv surj_pair)
  show ?thesis
  proof (cases "e = 0 \<and> q = None \<and> \<not> n")
    case True
    then have "ends_in (or_abort env t (Done tm1 (or ENoObject ErrTManager, None))) tm' (rc, p)"
      using 2 by simp
    from ends_or_abort [OF this assms(2)] show ?thesis .
  next
    case False
    then have "tm' = tm1" "e = rc"
      using 2 unfolding if_not_P [OF False] by simp_all
    with ends_or_abort [OF 1] assms(2) show ?thesis by simp
  qed
qed

lemmas checked_defs = tr_modifyObject_def tr_createObject_def tr_deleteObject_def tr_getRoots_all_def tr_getRoots_def
  tr_addRoot_def tr_removeRoot_def look_up_def add_named_def remove_named_def

lemmas lookup_defs = tr_getRootsLID_all_def tr_getRootsLID_def tr_getRootsLIDWithBegin_def tr_getViewsLID_all_def tr_getViewsLID_def
  tr_getClassesLID_all_def tr_getClassesLID_def tr_getClassesLIDByInvariant_def tr_getInterfacesLID_all_def tr_getInterfacesLID_def
  tr_getSchemasLID_all_def tr_getSchemasLID_def tr_getSystemViewsLID_all_def tr_getSystemViewsLID_def

lemmas named_defs = tr_addView_def tr_removeView_def tr_addClass_def tr_removeClass_def tr_addInterface_def tr_removeInterface_def
  tr_addSchema_def tr_removeSchema_def

lemmas checked_ended = ends_or_abort [where bad = "\<lambda>errorNumber. errorNumber \<noteq> 0"]

text \<open>Values are made without errors.\<close>

lemma ends_under_write: "ends_in (under_write w body tm) tm' x \<Longrightarrow> \<exists>u v. ends_in (body u) v x"
  by (auto simp: under_write_def ends_cbind)

end
