(* ===== verification/CallFrames.thy ===== *)
theory CallFrames
  imports TransactionCalls
begin

text \<open>
  What the calls of a transaction leave alone. The locale \<open>call_frame\<close> takes a relation between states that all the steps
  of a call respect and shows that every operation respects it; it is used for the semaphores, which are released again,
  and for what belongs to other transactions.
\<close>

section \<open>The interface\<close>

locale call_frame =
  fixes t :: TransactionID and R :: "'x tmanager \<Rightarrow> 'x tmanager \<Rightarrow> bool"
  assumes R_refl: "R tm tm"
    and R_trans: "R tm tm1 \<Longrightarrow> R tm1 tm2 \<Longrightarrow> R tm tm2"
    and R_log: "R tm (tm\<lparr>tm_log := lg\<rparr>)"
    and R_locks: "R tm (tm\<lparr>tm_locks := lm\<rparr>)"
    and R_wakes: "R tm (tm\<lparr>tm_wakes := ws\<rparr>)"
    and R_trees: "R tm (tm\<lparr>ix_trees := x, tm_resolver := vr\<rparr>)"
    and R_resolver: "R tm (tm\<lparr>tm_resolver := vr\<rparr>)"
    and R_remove: "R tm (remove_from_list t tm)"
    and R_read: "rwuj_lock_read (sem_at w tm) = Returns k m r \<Longrightarrow> R (put_sem w m tm) tm1
      \<Longrightarrow> rwuj_unlock no_error (sem_at w tm1) = Returns k' m' r' \<Longrightarrow> R tm (put_sem w m' tm1)"
    and R_write: "rwuj_lock_write (sem_at w tm) = Returns k m r \<Longrightarrow> R (put_sem w m tm) tm1
      \<Longrightarrow> rwuj_unlock no_error (sem_at w tm1) = Returns k' m' r' \<Longrightarrow> R tm (put_sem w m' tm1)"
begin

definition kept :: "'x tmanager \<Rightarrow> ('x tmanager, 'a) call \<Rightarrow> bool" where
  "kept tm c \<longleftrightarrow> (\<forall>tm' x. c = Done tm' x \<longrightarrow> R tm tm')"

lemma kept_Done: "kept tm (Done tm x)"
  by (simp add: kept_def R_refl)

lemma kept_Crashed: "kept tm (Crashed tm' e)"
  by (simp add: kept_def)

lemma kept_cbind:
  assumes "kept tm c" "\<And>tm x. kept tm (k tm x)"
  shows "kept tm (cbind c k)"
  using assms unfolding kept_def cbind_Done by (metis R_trans)

lemma R_note: "R tm tm1 \<Longrightarrow> R tm (note_wake pl k tm1)"
  unfolding note_wake_def by (auto intro: R_trans R_wakes split: option.split)

lemma R_notes: "R tm tm1 \<Longrightarrow> R tm (fold (\<lambda>(i, k). note_wake (ObjectLock i) k) ks tm1)"
  by (induction ks arbitrary: tm1) (auto intro: R_note split: prod.split)

lemma sem_at_note [simp]: "sem_at w (note_wake pl k tm) = sem_at w tm"
  by (cases w) (simp_all add: note_wake_def split: option.split)

lemma sem_result_Done:
  "sem_result w oc rest tm = Done tm' u \<longleftrightarrow> (\<exists>k m r. oc = Returns k m r \<and> tm' = note_wake (AtSem w) k (put_sem w m tm))"
  by (auto simp: sem_result_def split: outcome.splits)

lemma lock_outcome: "rwuj_lock_read m = Returns k m' r \<Longrightarrow> k = None" "rwuj_lock_write m = Returns k m' r \<Longrightarrow> k = None"
  by (auto simp: rwuj_lock_read_def rwuj_lock_write_def assert_that_def split: if_splits)

lemma kept_under_read:
  assumes "\<And>tm. kept tm (body tm)"
  shows "kept tm (under_read w body tm)"
  unfolding kept_def
proof (intro allI impI)
  fix tm' x
  assume "under_read w body tm = Done tm' x"
  then obtain k m r tm1 k' m' r' where 1: "rwuj_lock_read (sem_at w tm) = Returns k m r"
    "body (note_wake (AtSem w) k (put_sem w m tm)) = Done tm1 x"
    "rwuj_unlock no_error (sem_at w tm1) = Returns k' m' r'" "tm' = note_wake (AtSem w) k' (put_sem w m' tm1)"
    by (auto simp: under_read_def cbind_Done sem_lock_read_def sem_unlock_def sem_result_Done)
  have "R (put_sem w m tm) tm1"
    using assms 1(2) lock_outcome(1) [OF 1(1)] by (simp add: kept_def note_wake_def)
  with R_read [OF 1(1) _ 1(3)] 1(4) show "R tm tm'"
    by (simp add: R_note)
qed

lemma kept_under_write:
  assumes "\<And>tm. kept tm (body tm)"
  shows "kept tm (under_write w body tm)"
  unfolding kept_def
proof (intro allI impI)
  fix tm' x
  assume "under_write w body tm = Done tm' x"
  then obtain k m r tm1 k' m' r' where 1: "rwuj_lock_write (sem_at w tm) = Returns k m r"
    "body (note_wake (AtSem w) k (put_sem w m tm)) = Done tm1 x"
    "rwuj_unlock no_error (sem_at w tm1) = Returns k' m' r'" "tm' = note_wake (AtSem w) k' (put_sem w m' tm1)"
    by (auto simp: under_write_def cbind_Done sem_lock_write_def sem_unlock_def sem_result_Done)
  have "R (put_sem w m tm) tm1"
    using assms 1(2) lock_outcome(2) [OF 1(1)] by (simp add: kept_def note_wake_def)
  with R_write [OF 1(1) _ 1(3)] 1(4) show "R tm tm'"
    by (simp add: R_note)
qed

text \<open>The steps.\<close>

lemma kept_in_store: "kept tm (in_store f tm)"
  by (auto simp: kept_def in_store_def Let_def R_log split: option.splits sum.splits)

lemma kept_lock: "kept tm (lm_lock l t' md tm)"
  by (auto simp: kept_def lm_lock_def lock_result_def put_store_def intro!: R_note intro: R_trans [OF R_log R_locks]
      split: option.splits prod.splits sum.splits outcome.splits)

lemma kept_addEntry: "kept tm (ih_addEntry env ih v e b tm)"
  by (auto simp: kept_def ih_addEntry_def Let_def R_trees split: prod.splits sum.splits)

lemma kept_resolver: "kept tm (in_resolver f tm)"
  by (auto simp: kept_def in_resolver_def R_resolver split: sum.splits)

lemma kept_unlockAll: "kept tm (tm_unlockAll t' tm)"
  by (auto simp: kept_def tm_unlockAll_def intro: R_notes R_locks split: option.splits)

lemma kept_rollback: "kept tm (tm_rollback env t' tm)"
  by (auto simp: kept_def tm_rollback_def R_log split: option.splits prod.splits sum.splits)

lemma kept_remove: "kept (remove_from_list t tm) c \<Longrightarrow> kept tm c"
  unfolding kept_def by (metis R_remove R_trans)

lemma kept_deref: "(\<And>ob. kept tm (k ob tm)) \<Longrightarrow> kept tm (deref_op p k tm)"
  by (simp add: deref_op_def kept_Crashed split: option.split)

lemma kept_vector: "(\<And>xs i. kept tm (k xs i tm)) \<Longrightarrow> kept tm (with_vector ob k tm)"
  by (simp add: with_vector_def kept_Crashed split: option.split)

lemmas kept_steps = kept_Done kept_Crashed kept_cbind kept_under_read kept_under_write kept_in_store kept_lock kept_addEntry
  kept_resolver kept_unlockAll kept_rollback kept_deref kept_vector

lemma kept_get_into: "kept tm (get_into env l old tm)"
  by (auto simp: get_into_def intro!: kept_steps)

lemma kept_remove_fields: "kept tm (ix_remove_fields env t' i flds ls tm)"
proof (induction ls arbitrary: tm)
  case (Cons l ls)
  then show ?case
    by (auto intro!: kept_steps kept_get_into split: prod.split option.split)
qed (simp add: kept_Done)

lemma kept_add_fields: "kept tm (ix_add_fields env t' flds e to nu old ls tm)"
proof (induction ls arbitrary: tm nu old)
  case (Cons l ls)
  then show ?case
    by (auto simp: Let_def intro!: kept_steps kept_get_into split: prod.split option.split)
qed (simp add: kept_Done)

lemma kept_addDataValue: "kept tm (addDataValue env t' flds v e to tm)"
  by (auto simp: addDataValue_def intro: kept_Done kept_add_fields split: option.split)

lemma kept_ix_addRoot: "kept tm (ix_addRoot env t' ob to tm)"
  by (auto simp: ix_addRoot_def intro: kept_Done kept_Crashed kept_addDataValue split: option.split)

lemma kept_removeRoot_at: "kept tm (ix_removeRoot_at env t' ob flds tm)"
  unfolding ix_removeRoot_at_def by (intro kept_vector kept_remove_fields)

lemma kept_ix_removeRoot: "kept tm (ix_removeRoot env t' ob tm)"
  by (auto simp: ix_removeRoot_def intro!: kept_under_write intro: kept_Done kept_removeRoot_at split: option.split)

lemma kept_ix_modify: "kept tm (ix_modifyObject env t' ob v tm)"
  by (auto simp: ix_modifyObject_def intro!: kept_cbind kept_under_write
      intro: kept_Done kept_Crashed kept_removeRoot_at kept_addDataValue split: option.split prod.split bool.split)

lemma kept_ix_delete: "kept tm (ix_deleteObject ob tm)"
  by (simp add: ix_deleteObject_def kept_Done)

lemma kept_abort: "kept tm (tm_abort env t tm)"
  unfolding tm_abort_def by (intro kept_cbind kept_Done kept_rollback kept_unlockAll kept_in_store kept_remove [OF kept_resolver])

lemma kept_or_abort: "kept tm c \<Longrightarrow> kept tm (or_abort_if bad env t c)"
  by (auto simp: or_abort_if_def intro!: kept_cbind kept_Done kept_abort split: prod.split)

lemma kept_if_ok: "kept tm c \<Longrightarrow> (\<And>x tm. kept tm (k x tm)) \<Longrightarrow> kept tm (if_ok c k)"
  by (auto simp: if_ok_def intro!: kept_cbind kept_Done split: prod.split)

lemma kept_with_code: "kept tm c \<Longrightarrow> kept tm (with_code x c)"
  by (auto simp: with_code_def intro!: kept_cbind kept_Done)

lemma kept_code: "kept tm c \<Longrightarrow> kept tm (code c)"
  by (auto simp: code_def intro!: kept_cbind kept_Done split: prod.split)

lemma kept_read_store: "kept tm (read_store f tm)"
  unfolding read_store_def by (intro kept_under_read kept_in_store)

lemma kept_lock_each: "kept tm (lock_each t' ps tm)"
proof (induction ps arbitrary: tm)
  case (Cons p ps)
  then show ?case
    by (auto intro!: kept_cbind kept_lock kept_Done kept_Crashed split: option.split)
qed (simp add: kept_Done)

lemmas kept_rules = kept_or_abort kept_if_ok kept_with_code kept_code kept_read_store kept_lock_each kept_lock kept_in_store
  kept_under_write kept_Done kept_ix_modify kept_ix_delete kept_ix_addRoot kept_ix_removeRoot

lemma kept_getObjectPointer: "kept tm (tr_getObjectPointer env t l md n tm)"
  unfolding tr_getObjectPointer_def
  by (intro kept_cbind kept_or_abort) (auto intro!: kept_rules split: prod.split)

lemma kept_bind: "kept tm (tr_bindInterface env t nm bn tm)"
  unfolding tr_bindInterface_def by (intro kept_cbind kept_rules)

lemma kept_perform: "kept tm (perform env t req tm)"
  by (cases req)
    (simp_all only: perform.simps lookup_defs named_defs checked_defs tr_createIntValue_def tr_createDoubleValue_def
      tr_createStringValue_def tr_createVectorValue_def tr_createPointerValue_def tr_getInterfaceBindForObjectName_def,
     (intro kept_rules kept_getObjectPointer kept_bind)+)

lemmas perform_frame = kept_perform [unfolded kept_def, rule_format]

end

section \<open>Semaphores\<close>

definition sem_sane :: "rwujsem \<Rightarrow> bool" where
  "sem_sane m \<longleftrightarrow> 0 \<le> inside m \<and> inside m < 65536 \<and> (sem_mode m = SemNone \<longleftrightarrow> inside m = 0)"

lemma assert_that_Returns: "assert_that p c = Returns k m r \<longleftrightarrow> p \<and> c = Returns k m r"
  by (simp add: assert_that_def)

lemma read_then_unlock:
  assumes "sem_sane m" "rwuj_lock_read m = Returns k m1 r"
  shows "sem_sane m1" "rwuj_unlock no_error m1 = Returns k' m2 r' \<Longrightarrow> m2 = m"
  using assms
  by (auto simp: sem_sane_def rwuj_lock_read_def rwuj_unlock_def rwuj_unlock_as_def assert_that_Returns u16_def Let_def split: if_splits)

lemma write_then_unlock:
  assumes "sem_sane m" "rwuj_lock_write m = Returns k m1 r"
  shows "sem_sane m1" "rwuj_unlock no_error m1 = Returns k' m2 r' \<Longrightarrow> m2 = m"
  using assms
  by (auto simp: sem_sane_def rwuj_lock_write_def rwuj_unlock_def rwuj_unlock_as_def assert_that_Returns u16_def Let_def split: if_splits)

definition same_sems :: "'x tmanager \<Rightarrow> 'x tmanager \<Rightarrow> bool" where
  "same_sems tm tm' \<longleftrightarrow>
     (sem_sane (tm_sem tm) \<and> sem_sane (indexListSem tm) \<longrightarrow> tm_sem tm' = tm_sem tm \<and> indexListSem tm' = indexListSem tm)"

interpretation sems: call_frame t same_sems for t
proof (unfold_locales, goal_cases)
  case (9 w tm k m r tm1 k' m' r')
  then show ?case
    by (cases w) (auto simp: same_sems_def dest: read_then_unlock)
next
  case (10 w tm k m r tm1 k' m' r')
  then show ?case
    by (cases w) (auto simp: same_sems_def dest: write_then_unlock)
qed (auto simp: same_sems_def remove_from_list_def)

section \<open>Other transactions\<close>

definition same_others :: "TransactionID \<Rightarrow> 'x tmanager \<Rightarrow> 'x tmanager \<Rightarrow> bool" where
  "same_others t tm tm' \<longleftrightarrow> transactionId tm' = transactionId tm \<and> ix_indexes tm' = ix_indexes tm
     \<and> filter (\<lambda>x. tid_id x \<noteq> tid_id t) (transactions tm') = filter (\<lambda>x. tid_id x \<noteq> tid_id t) (transactions tm)"

interpretation others: call_frame t "same_others t" for t
proof (unfold_locales, goal_cases)
  case (9 w tm k m r tm1 k' m' r')
  then show ?case
    by (cases w) (auto simp: same_others_def)
next
  case (10 w tm k m r tm1 k' m' r')
  then show ?case
    by (cases w) (auto simp: same_others_def)
qed (auto simp: same_others_def remove_from_list_def)

end
