(* ===== verification/RegistryProperties.thy ===== *)
theory RegistryProperties
  imports StoreRegistries
begin

text \<open>
  The properties of the registries and of the store manager's use of them: refinement of each
  operation, what transactions may rely on, the end of a transaction over all registries, a new
  database, and a case in which an abort does not restore the registry.
\<close>

section \<open>Shared facts\<close>

lemma reg_room_small:
  assumes "reg_rep s f es" "n + esize es \<le> 16364"
  shows "reg_room s f n"
proof -
  obtain ps where ps: "reg_at s f ps" "es = concat ps"
    using assms(1) by (auto simp: reg_rep_def)
  have "n \<le> ip_free (page_view s f 1)"
  proof (cases ps)
    case Nil
    with ps(1) assms(2) esize_nonneg [of es] show ?thesis
      by (auto simp: reg_at_def ni_page_def dest: spec [of _ 1])
  next
    case (Cons p qs)
    have "ni_page (page_view s f 1) p"
      using ps(1) Cons by (auto simp: reg_at_def dest: spec [of _ "0 :: nat"])
    moreover have "esize p \<le> esize es"
      using ps(2) Cons esize_nonneg [of "concat qs"] by simp
    ultimately show ?thesis
      using assms(2) by (simp add: ni_page_def)
  qed
  then show ?thesis
    by (auto simp: reg_room_def intro!: exI [of _ 1])
qed

text \<open>A transaction and a new database for the concrete instances.\<close>

definition sample_tid :: TransactionID where
  "sample_tid = \<lparr>tid_id = 1, tid_priority = 1, tid_sessionId = 0, tid_timeStamp = 5\<rparr>"

definition stopped_empty :: storage where
  "stopped_empty = (empty_disk (\<lambda>_ _ _. 0))\<lparr>started := False\<rparr>"

lemma sample_tid_ok: "tid_ok sample_tid" "tid_id sample_tid = 1" "tid_timeStamp sample_tid = 5"
  by (simp_all add: tid_ok_def sample_tid_def)

lemma sample_new_database:
  "\<exists>s. sm_start (\<lambda>_. False) (\<lambda>_. True) None stopped_empty = (s, 0) \<and> store_at s (\<lambda>_. []) (\<lambda>_. None)
    \<and> regs_rep s (\<lambda>_. []) \<and> map_last s = 0 \<and> idSeq s = 0"
proof -
  have "buffer_hash stopped_empty = []" "\<not> started stopped_empty" "\<forall>f. disk_len stopped_empty f = 0"
    "map_header stopped_empty = None" "timer_ok (idSeq stopped_empty)" "idSeq stopped_empty = 0"
    by (simp_all add: stopped_empty_def empty_disk_def timer_ok_def)
  then show ?thesis
    using new_database [of stopped_empty None] by auto
qed

lemma sample_roots: "\<exists>s. reg_rep s STORE_FILE_ROOTS [] \<and> idSeq s = 0"
  using sample_new_database by (auto simp: regs_rep_def)

lemma name_fits_x [simp]: "name_fits NamedRoots ''x''" "length (cstr ''x'') = 1"
proof -
  have "byte_of_char CHR ''x'' \<noteq> 0"
    by (simp add: byte_of_char_def)
  then show "name_fits NamedRoots ''x''" "length (cstr ''x'') = 1"
    by (simp_all add: name_fits_def cstr_def NamedRoots_def)
qed

section \<open>The operations\<close>

text \<open>(C22) Adding a named item refines inserting a pending entry of the transaction into the list of
  entries of the registry: the call succeeds, every other entry and every other file keeps its contents.\<close>

theorem addItem_refines:
  assumes "reg_ok r" "STORE_FILE r \<noteq> STORE_FILE_CLASSES" "tid_ok t" "lid_ok lid" "reg_rep s (STORE_FILE r) es"
    "name_fits r nm" "reg_room s (STORE_FILE r) (21 + int (length (cstr nm)))"
  shows "\<exists>s' xs ys. addItem r s t lid nm = Some (s', Inr 0) \<and> es = xs @ ys
    \<and> reg_rep s' (STORE_FILE r) (xs @ new_entry t lid (c_text nm) # ys) \<and> only_file (STORE_FILE r) s s'"
  by (rule addItem_rep [OF assms])

theorem addItem_refines_witness:
  "\<exists>s s'. reg_rep s STORE_FILE_ROOTS [] \<and> addItem NamedRoots s sample_tid 7 ''x'' = Some (s', Inr 0)
    \<and> reg_rep s' STORE_FILE_ROOTS [new_entry sample_tid 7 (c_text ''x'')]"
proof -
  obtain s where s: "reg_rep s STORE_FILE_ROOTS []"
    using sample_roots by blast
  from addItem_refines [OF registries_ok(1) _ sample_tid_ok(1), of 7 s "[]" "''x''"] s
    reg_room_small [OF s, of "21 + int (length (cstr ''x''))"]
  show ?thesis by (auto simp: lid_ok_def)
qed

text \<open>(C23) Removing an item refines the removal on the list of entries: the first entry with the identifier
  is marked as removed by the transaction if it is settled and is taken out if it is pending; the
  call returns 0 whether or not there is such an entry, and changes nothing else.\<close>

theorem removeItem_refines:
  assumes "reg_ok r" "tid_ok t" "reg_rep s (STORE_FILE r) es"
  shows "\<exists>s'. removeItem r s t lid = Some (s', Inr 0) \<and> reg_rep s' (STORE_FILE r) (es_remove t lid es)
    \<and> only_file (STORE_FILE r) s s'"
  by (rule removeItem_rep [OF assms])

theorem removeItem_refines_witness:
  "\<exists>s s'. reg_rep s STORE_FILE_ROOTS [] \<and> removeItem NamedRoots s sample_tid 7 = Some (s', Inr 0)
    \<and> reg_rep s' STORE_FILE_ROOTS []"
proof -
  obtain s where s: "reg_rep s STORE_FILE_ROOTS []"
    using sample_roots by blast
  from removeItem_refines [OF registries_ok(1) sample_tid_ok(1), of s "[]" 7] s show ?thesis by auto
qed

text \<open>(C24) A lookup by name returns the identifiers of exactly the entries that have the name (all names if
  it is empty), were added by the start of the transaction, are not removed, and are settled or the
  transaction's own, in the order of the registry; the content for the indexes is every entry. Nothing
  changes.\<close>

theorem getItems_refines:
  assumes "reg_ok r" "tid_ok t" "reg_rep s (STORE_FILE r) es"
  shows "\<exists>s' fd. getItems r s t nm ix = Some (s', Inr fd)
    \<and> roots fd = map l_id (filter (\<lambda>e. named nm e \<and> visible t e) es)
    \<and> indexContent fd = map_option (\<lambda>ix. ix @ map root_entry es) ix
    \<and> reg_rep s' (STORE_FILE r) es \<and> only_file (STORE_FILE r) s s'"
  by (rule getItems_rep [OF assms])

theorem getItems_refines_witness:
  "\<exists>s s' fd. reg_rep s STORE_FILE_ROOTS [] \<and> getItems NamedRoots s sample_tid ''x'' None = Some (s', Inr fd)
    \<and> roots fd = []"
proof -
  obtain s where s: "reg_rep s STORE_FILE_ROOTS []"
    using sample_roots by blast
  from getItems_refines [OF registries_ok(1) sample_tid_ok(1), of s "[]" "''x''" None] s show ?thesis by auto
qed

section \<open>Transactions\<close>

text \<open>(C19) An abort takes back additions and proper removals. A transaction has nothing pending in a registry other than
  that of the classes; it adds any items and removes only entries that are live and either settled or its own (\<open>session\<close>). After
  its abort the registry holds the entries it held before. \<open>removeItem\<close> does not check this condition on removals; others are
  not taken back (see the removal of a removed item below).\<close>

theorem abort_undoes_session:
  assumes "reg_ok r" "STORE_FILE r \<noteq> STORE_FILE_CLASSES" "tid_ok t" "reg_rep s (STORE_FILE r) es" "idle t es"
    "session (\<lambda>s. reg_rep s (STORE_FILE r)) (item_fits r) (addItem r) (removeItem r) t s s1"
  shows "\<exists>s'. ni_abortTransaction r s1 t = Some (s', Inr 0) \<and> reg_rep s' (STORE_FILE r) es"
  by (rule registry_laws.abort_undoes [OF item_registry_laws [OF assms(1,2)] assms(6,4,5,3)])

theorem abort_undoes_session_witness:
  "\<exists>s s1 s'. reg_rep s STORE_FILE_ROOTS [] \<and> addItem NamedRoots s sample_tid 7 ''x'' = Some (s1, Inr 0)
    \<and> ni_abortTransaction NamedRoots s1 sample_tid = Some (s', Inr 0) \<and> reg_rep s' STORE_FILE_ROOTS []"
proof -
  obtain s where s: "reg_rep s STORE_FILE_ROOTS []"
    using sample_roots by blast
  have fits: "item_fits NamedRoots s ''x''"
    using reg_room_small [OF s] by (simp add: item_fits_def)
  then obtain s1 where s1: "addItem NamedRoots s sample_tid 7 ''x'' = Some (s1, Inr 0)"
    using addItem_rep [OF registries_ok(1) _ sample_tid_ok(1), of 7 s "[]" "''x''"] s
    by (auto simp: item_fits_def lid_ok_def)
  have ss: "session (\<lambda>s. reg_rep s (STORE_FILE NamedRoots)) (item_fits NamedRoots) (addItem NamedRoots)
      (removeItem NamedRoots) sample_tid s s1"
    by (rule session_add [OF session_start, where n = "''x''" and lid = 7]) (use fits s1 in \<open>simp_all add: lid_ok_def\<close>)
  show ?thesis
    using abort_undoes_session [OF registries_ok(1) _ sample_tid_ok(1) _ _ ss, of "[]"] s s1
    by (auto simp: idle_def)
qed

text \<open>(C20) A commit publishes exactly what the transaction saw: a lookup by any transaction that starts
  after the commit and has nothing pending itself finds the identifiers that the committing
  transaction found before, when all settled entries were settled before the committing transaction
  started (\<open>started_after\<close>).\<close>

theorem commit_publishes_changes:
  assumes "reg_ok r" "STORE_FILE r \<noteq> STORE_FILE_CLASSES" "reg_rep s (STORE_FILE r) es" "started_after t es"
    "tid_timeStamp t \<le> tid_timeStamp t'" "idSeq s \<le> tid_timeStamp t'" "tid_id t' = tid_id t \<or> idle t' es"
    "tid_ok t" "tid_ok t'"
  shows "\<exists>s1 s2 s3 fd fd'. ni_lookup r s t nm = Some (s1, Inr fd) \<and> ni_commitTransaction r s t = Some (s2, Inr 0)
    \<and> ni_lookup r s2 t' nm = Some (s3, Inr fd') \<and> roots fd' = roots fd"
  by (rule registry_laws.commit_publishes [OF item_registry_laws [OF assms(1,2)] assms(3-)])

theorem commit_publishes_changes_witness:
  "\<exists>s s1 s2 s3 fd fd'. reg_rep s STORE_FILE_ROOTS [new_entry sample_tid 7 (c_text ''x'')]
    \<and> ni_lookup NamedRoots s sample_tid ''x'' = Some (s1, Inr fd)
    \<and> ni_commitTransaction NamedRoots s sample_tid = Some (s2, Inr 0)
    \<and> ni_lookup NamedRoots s2 (sample_tid\<lparr>tid_id := 2, tid_timeStamp := 9\<rparr>) ''x'' = Some (s3, Inr fd')
    \<and> roots fd' = roots fd"
proof -
  obtain s0 where s0: "reg_rep s0 STORE_FILE_ROOTS []" "idSeq s0 = 0"
    using sample_roots by blast
  obtain s where s: "reg_rep s STORE_FILE_ROOTS [new_entry sample_tid 7 (c_text ''x'')]" "idSeq s = 0"
    using addItem_rep [OF registries_ok(1) _ sample_tid_ok(1), of 7 s0 "[]" "''x''"] s0
      reg_room_small [OF s0(1), of 22] by (auto simp: lid_ok_def dest!: only_file_timer)
  let ?t = "sample_tid\<lparr>tid_id := 2, tid_timeStamp := 9\<rparr>"
  have "started_after sample_tid [new_entry sample_tid 7 (c_text ''x'')]" "idle ?t [new_entry sample_tid 7 (c_text ''x'')]"
    "tid_ok ?t"
    by (simp_all add: started_after_def idle_def new_entry_def sample_tid_def tid_ok_def)
  with commit_publishes_changes [OF registries_ok(1) _ _ _ _ _ _ sample_tid_ok(1),
      of s "[new_entry sample_tid 7 (c_text ''x'')]" ?t "''x''"] s
  have "\<exists>s1 s2 s3 fd fd'. ni_lookup NamedRoots s sample_tid ''x'' = Some (s1, Inr fd)
      \<and> ni_commitTransaction NamedRoots s sample_tid = Some (s2, Inr 0)
      \<and> ni_lookup NamedRoots s2 ?t ''x'' = Some (s3, Inr fd') \<and> roots fd' = roots fd"
    by (simp add: sample_tid_ok)
  with s(1) show ?thesis by blast
qed

text \<open>(C21) Isolation of additions: what another transaction finds in a registry is the same before and
  after an item is added and not yet committed, and the transaction itself finds its item.\<close>

theorem addItem_isolated:
  assumes "reg_ok r" "STORE_FILE r \<noteq> STORE_FILE_CLASSES" "reg_rep s (STORE_FILE r) es" "tid_ok t" "tid_ok u"
    "tid_id u \<noteq> tid_id t" "lid_ok lid" "item_fits r s nm"
  shows "\<exists>s0 s1 s2 s3 fd0 fd1 fd2. ni_lookup r s u nm = Some (s0, Inr fd0)
    \<and> addItem r s t lid nm = Some (s1, Inr 0) \<and> ni_lookup r s1 u nm = Some (s2, Inr fd1) \<and> roots fd1 = roots fd0
    \<and> ni_lookup r s1 t nm = Some (s3, Inr fd2) \<and> lid \<in> set (roots fd2)"
proof -
  note laws = item_registry_laws [OF assms(1,2)]
  obtain s0 fd0 where 0: "ni_lookup r s u nm = Some (s0, Inr fd0)" "roots fd0 = seen u nm es"
    using registry_laws.lookup_law [OF laws assms(3,5)] by blast
  have n: "named nm (new_entry t lid (c_text nm))"
    using e_name_new [of t lid nm "[]"] by (simp add: named_def)
  from registry_laws.add_isolated [OF laws assms(3,4,5,6,7,8), of nm]
    registry_laws.add_seen [OF laws assms(3,4,7,8) n] 0 show ?thesis
    by auto
qed

theorem addItem_isolated_witness:
  "\<exists>s s1 s2 fd1. reg_rep s STORE_FILE_ROOTS [] \<and> addItem NamedRoots s sample_tid 7 ''x'' = Some (s1, Inr 0)
    \<and> ni_lookup NamedRoots s1 sample_tid ''x'' = Some (s2, Inr fd1) \<and> 7 \<in> set (roots fd1)"
proof -
  obtain s where s: "reg_rep s STORE_FILE_ROOTS []"
    using sample_roots by blast
  have f: "item_fits NamedRoots s ''x''"
    using reg_room_small [OF s] by (simp add: item_fits_def)
  have u: "tid_ok (sample_tid\<lparr>tid_id := 2\<rparr>)" "tid_id (sample_tid\<lparr>tid_id := 2\<rparr>) \<noteq> tid_id sample_tid"
    by (simp_all add: tid_ok_def sample_tid_def)
  show ?thesis
    using addItem_isolated [OF registries_ok(1) _ _ sample_tid_ok(1) u _ f, of "[]" 7] s by (auto simp: lid_ok_def)
qed

text \<open>The end of a transaction: the commit and the abort of the store manager succeed, settle or take
  back the changes of the transaction in all five registries at the time of the logical timer, and
  change no object. That the commit calls the interfaces twice has no effect.\<close>

lemma end_of_transaction:
  assumes "store_rep s \<sigma>" "regs_rep s R" "tid_ok t"
  shows "(\<exists>s'. sm_commitTransaction s t = Some (s', Inr 0) \<and> store_rep s' \<sigma>
      \<and> regs_rep s' (\<lambda>f. es_modify (idSeq s) t 0 (R f)))
    \<and> (\<exists>s'. sm_abortTransaction s t = Some (s', Inr 0) \<and> store_rep s' \<sigma>
      \<and> regs_rep s' (\<lambda>f. es_modify (idSeq s) t 1 (R f)))"
  using sm_end_regs [OF assms(2,3)] store_rep_outside [OF assms(1)] by blast

text \<open>(C25) Starting the store with no files present creates and initialises all seven on the disk (the header and
  fifteen empty pages of the map of identifiers, the header of the objects, the header and the first page of each registry), and the
  database is empty: no object, no identifier assigned, and no entry in any registry.\<close>

theorem new_database_empty:
  assumes "buffer_hash b = []" "\<not> started b" "\<forall>f. disk_len b f = 0" "map_header b = None" "timer_ok (idSeq b)"
  shows "\<exists>s. sm_start (\<lambda>_. False) (\<lambda>_. True) n b = (s, 0) \<and> store_rep s (\<lambda>_. None) \<and> map_last s = 0
    \<and> regs_rep s (\<lambda>_. [])
    \<and> on_disk s STORE_FILE_MAP 0 (clip map_header_page)
    \<and> (\<forall>i\<in>{1..15}. on_disk s STORE_FILE_MAP i (clip (map_empty_page i)))
    \<and> on_disk s STORE_FILE_DEFAULT 0 (clip pm_header_page)
    \<and> (\<forall>r\<in>{NamedRoots, Views, Classes, Interfaces, StoreSchemas}. disk_pages s (STORE_FILE r) = 2
         \<and> on_disk s (STORE_FILE r) 0 (clip (ni_header_page r)) \<and> on_disk s (STORE_FILE r) 1 (clip (ni_entry_page r 1)))"
proof -
  obtain s where s: "sm_start (\<lambda>_. False) (\<lambda>_. True) n b = (s, 0)" "store_at s (\<lambda>_. []) (\<lambda>_. None)" "regs_rep s (\<lambda>_. [])"
    "map_last s = 0" "\<forall>f\<in>set file_ids. fresh_file s f"
    using new_database [OF assms, of n] by auto
  have "fresh_file s STORE_FILE_MAP" "fresh_file s STORE_FILE_DEFAULT"
    by (rule s(5) [rule_format], simp add: file_ids_def)+
  have "disk_pages s (STORE_FILE r) = 2 \<and> on_disk s (STORE_FILE r) 0 (clip (ni_header_page r))
      \<and> on_disk s (STORE_FILE r) 1 (clip (ni_entry_page r 1))" if r: "r \<in> {NamedRoots, Views, Classes, Interfaces, StoreSchemas}" for r
  proof -
    have f: "STORE_FILE r \<in> set file_ids" "STORE_FILE r \<in> registry_files"
      using r by (auto simp: file_ids_def)
    have "r' = r" if "r' \<in> set registries" "STORE_FILE r' = STORE_FILE r" for r'
      using that r by (auto simp: registries_def store_consts)
    note unique = this
    have "disk_pages s (STORE_FILE r) = 2 \<and> (\<exists>r'\<in>set registries. STORE_FILE r' = STORE_FILE r
        \<and> on_disk s (STORE_FILE r) 0 (clip (ni_header_page r')) \<and> on_disk s (STORE_FILE r) 1 (clip (ni_entry_page r' 1)))"
      using s(5) [rule_format, OF f(1)] registry_file_ne [OF f(2)] by (simp add: fresh_file_def)
    then show ?thesis
      using unique by blast
  qed
  note registry = this
  have map: "on_disk s STORE_FILE_MAP 0 (clip map_header_page)" "\<forall>i\<in>{1..15}. on_disk s STORE_FILE_MAP i (clip (map_empty_page i))"
    using \<open>fresh_file s STORE_FILE_MAP\<close> by (simp_all add: fresh_file_def)
  have objects: "on_disk s STORE_FILE_DEFAULT 0 (clip pm_header_page)"
    using \<open>fresh_file s STORE_FILE_DEFAULT\<close> by (simp add: fresh_file_def store_consts)
  have "store_rep s (\<lambda>_. None)"
    using s(2) by (auto simp: store_rep_def)
  then show ?thesis
    using s(1,3,4) map objects registry by blast
qed

theorem new_database_empty_witness:
  "\<exists>s. sm_start (\<lambda>_. False) (\<lambda>_. True) (Some 4) stopped_empty = (s, 0) \<and> store_rep s (\<lambda>_. None)
    \<and> on_disk s STORE_FILE_ROOTS 1 (clip (ni_entry_page NamedRoots 1))"
  using new_database_empty [of stopped_empty "Some 4"]
  by (auto simp: stopped_empty_def empty_disk_def timer_ok_def)

section \<open>Roots\<close>

text \<open>Work on objects leaves the registries alone.\<close>

lemma regs_rep_objs:
  assumes "regs_rep s R" "objs_only s s'" "pool_inv s'" "timer_ok (idSeq s')"
  shows "regs_rep s' R"
proof -
  have "page_view s' f = page_view s f" if "f \<in> registry_files" for f
    using assms(2) that by (simp add: objs_only_def)
  with assms show ?thesis
    by (auto simp: regs_rep_def reg_rep_def reg_at_def)
qed

text \<open>(C26) Making an object a root: the object is rewritten with the root flag set, all other objects stay,
  and the registry of roots gets a pending entry with the object's name and identifier.\<close>

theorem addRoot_refines:
  assumes "store_rep s \<sigma>" "regs_rep s R" "tid_ok t" "lid_of object = Some l" "val object = Some v" "lid_wf l"
    "\<sigma> (lvalue l) = Some old" "obj_ok (map_last s) (True, name object, v)"
    "\<forall>s1. deleteObject s (tid_id t) (op_setIsRoot object True) = (s1, Inr 0) \<longrightarrow>
       has_room s1 (int (length (obj_bytes (lvalue l) (True, name object, v))))"
    "idSeq s < 2147483646" "name_fits NamedRoots (name object)"
    "reg_room s STORE_FILE_ROOTS (21 + int (length (cstr (name object))))"
  shows "\<exists>s' ob' xs ys. sm_addRoot s t object = Some (s', Inr (0, ob'))
    \<and> store_rep s' (\<sigma>(lvalue l \<mapsto> (True, name object, v))) \<and> R STORE_FILE_ROOTS = xs @ ys
    \<and> regs_rep s' (R(STORE_FILE_ROOTS := xs @ new_entry t (lvalue l) (c_text (name object)) # ys))"
proof -
  obtain T where T: "store_at s T \<sigma>"
    using assms(1) by (auto simp: store_rep_def)
  let ?o = "op_setIsRoot object True"
  have o: "lid_of ?o = Some l" "val ?o = Some v" "isRoot ?o = Some True" "name ?o = name object"
    using assms(4,5) by (simp_all add: op_setIsRoot_def)
  obtain s1 T1 ob' where 1: "modifyObject s (tid_id t) ?o v = (s1, Inr (0, ob'))"
    "store_at s1 T1 (\<sigma>(lvalue l \<mapsto> (True, name object, v)))" "name ob' = name object" "objs_only s s1"
    "idSeq s1 = u32 (u32 (idSeq s + 1) + 1)"
    using modifyObject_present [OF T o(1-3) assms(6,7), of v "tid_id t"] assms(8,9) o(4)
    by (auto simp: op_setParentRoot_def op_setIsRoot_def op_new_def)
  have "timer_ok (idSeq s)"
    using assms(2) by (auto simp: regs_rep_def registry_files_def intro: reg_rep_timer)
  then have "timer_ok (idSeq s1)"
    using 1(5) assms(10) by (simp add: timer_ok_def u32_def)
  then have r1: "regs_rep s1 R"
    by (rule regs_rep_objs [OF assms(2) 1(4) store_atD(2) [OF 1(2)]])
  then have rr: "reg_rep s1 STORE_FILE_ROOTS (R STORE_FILE_ROOTS)"
    by (simp add: regs_rep_def)
  have i: "0 < lvalue l" "lvalue l \<le> 10000000"
    using store_atD(4) [OF T] store_atD(5) [OF T assms(7)] by auto
  have "page_view s1 STORE_FILE_ROOTS = page_view s STORE_FILE_ROOTS"
    using 1(4) by (simp add: objs_only_def)
  then have room: "reg_room s1 STORE_FILE_ROOTS (21 + int (length (cstr (name object))))"
    using assms(12) by (simp add: reg_room_def)
  obtain s2 xs ys where 2: "addItem NamedRoots s1 t (lvalue l) (name object) = Some (s2, Inr 0)"
    "R STORE_FILE_ROOTS = xs @ ys"
    "reg_rep s2 STORE_FILE_ROOTS (xs @ new_entry t (lvalue l) (c_text (name object)) # ys)" "only_file STORE_FILE_ROOTS s1 s2"
    using addItem_rep [OF registries_ok(1) _ assms(3), of "lvalue l" s1 "R STORE_FILE_ROOTS" "name object"]
      rr room assms(11) i by (auto simp: lid_ok_def)
  have "store_rep s2 (\<sigma>(lvalue l \<mapsto> (True, name object, v)))"
    using store_rep_outside [OF _ only_file_objects [OF 2(4)]] 1(2) by (auto simp: store_rep_def)
  moreover have "regs_rep s2 (R(STORE_FILE_ROOTS := xs @ new_entry t (lvalue l) (c_text (name object)) # ys))"
    by (rule regs_rep_update [OF r1 2(4,3)])
  moreover have "sm_addRoot s t object = Some (s2, Inr (0, ob'))"
    using i 1(1,3) 2(1) o by (simp add: sm_addRoot_def with_lid_def assms(4) lid_toInteger_def s32_id)
  ultimately show ?thesis
    using 2(2) by blast
qed

text \<open>A new database with one object in it.\<close>

lemma one_object_database:
  "\<exists>s T. store_at s T ((\<lambda>_. None)(1 \<mapsto> (False, ''x'', dv_new_int 5))) \<and> (\<exists>q ys. T = (\<lambda>_. [])(q := ys))
    \<and> regs_rep s (\<lambda>_. []) \<and> map_last s = 1 \<and> idSeq s = 1"
proof -
  obtain b where b: "store_at b (\<lambda>_. []) (\<lambda>_. None)" "regs_rep b (\<lambda>_. [])" "map_last b = 0" "idSeq b = 0"
    using sample_new_database by blast
  have "store_at b ((\<lambda>_. [])(1 := [], 1 := [])) (\<lambda>_. None)"
    using b(1) by (simp only: fun_upd_triv [of "\<lambda>_. []"])
  from almost_fresh_has_room [OF this]
  have "has_room b (int (length (obj_bytes 1 (False, ''x'', dv_new_int 5))))"
    using small_object(2) [of 1 False] by simp
  then obtain s T where s: "store_at s T ((\<lambda>_. None)(1 \<mapsto> (False, ''x'', dv_new_int 5)))" "map_last s = 1"
    "\<exists>q ys. T = (\<lambda>_. [])(q := ys)" "objs_only b s" "idSeq s = 1"
    using createObject_new [OF b(1), of False "''x''" "dv_new_int 5" 7] small_object(1) b(3,4)
    by (auto simp: u32_def)
  moreover have "regs_rep s (\<lambda>_. [])"
    using regs_rep_objs [OF b(2) s(4) store_atD(2) [OF s(1)]] s(5) by (simp add: timer_ok_def)
  ultimately show ?thesis
    by blast
qed

theorem addRoot_refines_witness:
  "\<exists>s s' ob' xs ys. sm_addRoot s sample_tid (op_new ''x'' (dv_new_int 5) (lid_new 1)) = Some (s', Inr (0, ob'))
    \<and> store_rep s' ((\<lambda>_. None)(1 \<mapsto> (True, ''x'', dv_clone (dv_new_int 5)))) \<and> [] = xs @ ys
    \<and> regs_rep s' ((\<lambda>_. [])(STORE_FILE_ROOTS := xs @ new_entry sample_tid 1 (c_text ''x'') # ys))"
proof -
  let ?ob = "op_new ''x'' (dv_new_int 5) (lid_new 1)" and ?v = "dv_clone (dv_new_int 5)"
  let ?\<sigma> = "(\<lambda>_. None)(1 \<mapsto> (False, ''x'', dv_new_int 5))"
  obtain s T where s: "store_at s T ?\<sigma>" "\<exists>q ys. T = (\<lambda>_. [])(q := ys)"
    "regs_rep s (\<lambda>_. [])" "map_last s = 1" "idSeq s = 1"
    using one_object_database by blast
  have ob: "lid_of ?ob = Some (lid_clone (lid_new 1))" "val ?ob = Some ?v" "name ?ob = ''x''"
    "lid_of (op_setIsRoot ?ob True) = Some (lid_clone (lid_new 1))" "val (op_setIsRoot ?ob True) = Some ?v"
    and one: "lvalue (lid_clone (lid_new 1)) = 1"
    by (simp_all add: op_new_def op_setIsRoot_def u32_def)
  have v: "obj_ok 1 (True, ''x'', ?v)" "length (obj_bytes 1 (True, ''x'', ?v)) \<le> 200"
    using small_object(1) [of 1 True] small_object(2) [of 1 True]
    by (simp_all add: dv_new_int_def dv_setInt_def p_init_def dv_clone_def dv_copy_def dv_setSubtype_def cloneSetOfLid_def)
  have here: "?\<sigma> (lvalue (lid_clone (lid_new 1))) = Some (False, ''x'', dv_new_int 5)"
    by (simp add: one)
  have room: "has_room s1 (int (length (obj_bytes 1 (True, ''x'', ?v))))"
    if "deleteObject s (tid_id sample_tid) (op_setIsRoot ?ob True) = (s1, Inr 0)" for s1
    using almost_fresh_has_room deleteObject_present [OF s(1) ob(4,5) here, of "tid_id sample_tid"] s(2) that v(2)
    by force
  have "reg_room s STORE_FILE_ROOTS 22"
    using reg_room_small [of s STORE_FILE_ROOTS "[]" 22] s(3) by (simp add: regs_rep_def)
  moreover have "store_rep s ?\<sigma>"
    using s(1) by (auto simp: store_rep_def)
  ultimately show ?thesis
    using addRoot_refines [where s = s and \<sigma> = ?\<sigma> and R = "\<lambda>_. []" and t = sample_tid and object = ?ob
        and l = "lid_clone (lid_new 1)" and v = ?v and old = "(False, ''x'', dv_new_int 5)"]
      here sample_tid_ok(1) s(3-5) v(1) room ob(1-3) one
    by - (rule exI [of _ s], simp)
qed

section \<open>An abort that brings an item back\<close>

text \<open>(C27) Entries whose removal is committed stay in the registry. If a removed item is removed again, the
  first entry with its identifier is marked, and an abort of that transaction clears the mark
  together with the old removal: the removed item is back.\<close>

theorem removed_item_resurrected:
  assumes "reg_ok r" "tid_ok t" "reg_rep s (STORE_FILE r) (xs @ e # ys)" "\<forall>x\<in>set xs. l_id x \<noteq> l_id e"
    "cur_tran e = -1" "del_t e \<noteq> -1" "idle t (xs @ ys)"
  shows "\<exists>s1 s2. removeItem r s t (l_id e) = Some (s1, Inr 0) \<and> ni_abortTransaction r s1 t = Some (s2, Inr 0)
    \<and> reg_rep s2 (STORE_FILE r) (xs @ e\<lparr>del_t := -1\<rparr> # ys)"
proof -
  have m: "mark_removed t e = e\<lparr>cur_tran := tid_id t, del_t := tid_timeStamp t\<rparr>"
    by (simp add: mark_removed_def)
  have rm: "es_remove t (l_id e) (xs @ e # ys) = xs @ mark_removed t e # ys"
    using assms(4,5) by (auto simp: es_remove_append)
  obtain s1 where 1: "removeItem r s t (l_id e) = Some (s1, Inr 0)" "reg_rep s1 (STORE_FILE r) (xs @ mark_removed t e # ys)"
    using removeItem_rep [OF assms(1-3), of "l_id e"] rm by auto
  have "es_modify k t 1 (xs @ mark_removed t e # ys) = xs @ e\<lparr>del_t := -1\<rparr> # ys" for k
    using assms(2,5,7) es_modify_idle [of t xs] es_modify_idle [of t ys]
    by (cases e) (simp add: es_modify_Cons modify_entry_def mark_removed_def tid_ok_def idle_def)
  with modifyTransaction_rep [OF assms(1,2) _ 1(2), of 1] 1(1) show ?thesis
    by (auto simp: ni_abortTransaction_def)
qed

lemma sample_dead_entry:
  "\<exists>s e. reg_rep s STORE_FILE_ROOTS [e] \<and> cur_tran e = -1 \<and> del_t e \<noteq> -1 \<and> l_id e = 7"
proof -
  obtain s0 where s0: "reg_rep s0 STORE_FILE_ROOTS []" "idSeq s0 = 0"
    using sample_roots by blast
  let ?e = "new_entry sample_tid 7 (c_text ''x'')"
  obtain s1 where s1: "reg_rep s1 STORE_FILE_ROOTS [?e]" "idSeq s1 = 0"
    using addItem_rep [OF registries_ok(1) _ sample_tid_ok(1), of 7 s0 "[]" "''x''"] s0
      reg_room_small [OF s0(1), of 22] by (auto simp: lid_ok_def dest!: only_file_timer)
  have "es_modify 0 sample_tid 0 [?e] = [?e\<lparr>add_t := 0, cur_tran := -1\<rparr>]"
    by (simp add: es_modify_Cons modify_entry_def new_entry_def sample_tid_def)
  then obtain s2 where s2: "reg_rep s2 STORE_FILE_ROOTS [?e\<lparr>add_t := 0, cur_tran := -1\<rparr>]" "idSeq s2 = 0"
    using modifyTransaction_rep [OF registries_ok(1) sample_tid_ok(1), of 0 s1 "[?e]"] s1
    by (auto dest!: only_file_timer)
  let ?m = "mark_removed sample_tid (?e\<lparr>add_t := 0, cur_tran := -1\<rparr>)"
  obtain s3 where s3: "reg_rep s3 STORE_FILE_ROOTS [?m]" "idSeq s3 = 0"
    using removeItem_rep [OF registries_ok(1) sample_tid_ok(1), of s2 _ 7] s2
    by (fastforce simp: new_entry_def dest!: only_file_timer)
  have "es_modify 0 sample_tid 0 [?m] = [?m\<lparr>del_t := 0, cur_tran := -1\<rparr>]"
    by (simp add: es_modify_Cons modify_entry_def mark_removed_def sample_tid_def)
  then obtain s4 where "reg_rep s4 STORE_FILE_ROOTS [?m\<lparr>del_t := 0, cur_tran := -1\<rparr>]"
    using modifyTransaction_rep [OF registries_ok(1) sample_tid_ok(1), of 0 s3 "[?m]"] s3
    by (auto dest!: only_file_timer)
  then show ?thesis
    by (intro exI [of _ s4] exI [of _ "?m\<lparr>del_t := 0, cur_tran := -1\<rparr>"]) (simp add: mark_removed_def new_entry_def)
qed

theorem removed_item_resurrected_witness:
  "\<exists>s e s1 s2. reg_rep s STORE_FILE_ROOTS [e] \<and> del_t e \<noteq> -1 \<and> removeItem NamedRoots s sample_tid 7 = Some (s1, Inr 0)
    \<and> ni_abortTransaction NamedRoots s1 sample_tid = Some (s2, Inr 0) \<and> reg_rep s2 STORE_FILE_ROOTS [e\<lparr>del_t := -1\<rparr>]"
proof -
  obtain s e where s: "reg_rep s STORE_FILE_ROOTS [e]" "cur_tran e = -1" "del_t e \<noteq> -1" "l_id e = 7"
    using sample_dead_entry by blast
  from removed_item_resurrected [OF registries_ok(1) sample_tid_ok(1), of s "[]" e "[]"] s show ?thesis
    by (auto simp: idle_def)
qed

end
