(* ===== verification/LockSystem.thy ===== *)
theory LockSystem
  imports LockManager
begin

text \<open>
  Transactions that use the lock manager, as a step relation. A transaction asks for locks one after the other, may
  have to wait, and at its end releases all its locks with \<open>unlockAll\<close>. A request that returns an error dooms
  the transaction: the code of \<^verbatim>\<open>TransactionManager/Transaction.cpp\<close> aborts it, and the only step left is the release.
\<close>

text \<open>Beside the lock manager the state holds, for each lock and transaction, where the transaction is in the semaphore of
  the lock (\<open>hold\<close>), the lock it waits for (\<open>pend\<close>), the doomed transactions, and whether an assertion has failed.\<close>

record lock_system =
  lmgr :: LockManager
  hold :: "int \<Rightarrow> int \<Rightarrow> status"
  pend :: "int \<Rightarrow> (int \<times> AccessMode) option"
  doomed :: "int set"
  lock_failed :: bool

definition lock_start :: lock_system where
  "lock_start = \<lparr>lmgr = LockManager_new, hold = (\<lambda>_ _. Outside), pend = (\<lambda>_. None), doomed = {}, lock_failed = False\<rparr>"

text \<open>Where a transaction is in the semaphore after its call has returned with code \<open>e\<close>, and while it waits.\<close>

fun held_as :: "sem_request \<Rightarrow> int \<Rightarrow> status \<Rightarrow> status" where
  "held_as Held e x = x"
| "held_as (Refuse _) e x = x"
| "held_as AskRead e x = Reading"
| "held_as AskWrite e x = Writing"
| "held_as AskUpgrade e x = (if e = 0 then Outside else Writing)"

fun waits_as :: "sem_request \<Rightarrow> status" where
  "waits_as AskRead = WaitRead"
| "waits_as AskWrite = WaitWrite"
| "waits_as _ = WaitUpgrade"

fun woken_as :: "status \<Rightarrow> int \<Rightarrow> status" where
  "woken_as WokenRead e = Reading"
| "woken_as WokenWrite e = Writing"
| "woken_as x e = (if e = 0 then Outside else Writing)"

inductive wake_each :: "(int \<times> wake option) list \<Rightarrow> int \<Rightarrow> (int \<Rightarrow> int \<Rightarrow> status) \<Rightarrow> (int \<Rightarrow> int \<Rightarrow> status) \<Rightarrow> bool" where
  wake_nil: "wake_each [] i h h"
| wake_cons: "wake_up k (h l) q \<Longrightarrow> wake_each ks i (h(l := q(i := Outside))) h' \<Longrightarrow> wake_each ((l, k) # ks) i h h'"

text \<open>The steps. \<open>tr\<close> gives the identifier object of a transaction, \<open>allow\<close> the requests to a semaphore that the
  transactions make.\<close>

inductive lock_step ::
  "(sem_request \<Rightarrow> bool) \<Rightarrow> (int \<Rightarrow> TransactionID) \<Rightarrow> int set \<Rightarrow> lock_system \<Rightarrow> lock_system \<Rightarrow> bool"
  for allow tr T z where
  new_lock: "i \<in> T \<Longrightarrow> pend z i = None \<Longrightarrow> i \<notin> doomed z \<Longrightarrow> map_of_locks (lmgr z) (lock_key p) = None
     \<Longrightarrow> lock_primitive (lmgr z) (Some p) (tr i) md = Returns k lm' e
     \<Longrightarrow> lock_step allow tr T z (z\<lparr>lmgr := lm',
           hold := (hold z)(single_lock_id (lmgr z) := (\<lambda>_. Outside)(i := (if md = Read then Reading else Writing)))\<rparr>)"
| lock_returns: "i \<in> T \<Longrightarrow> pend z i = None \<Longrightarrow> i \<notin> doomed z \<Longrightarrow> map_of_locks (lmgr z) (lock_key p) = Some l
     \<Longrightarrow> locks (lmgr z) l = Some sl \<Longrightarrow> req = lock_request sl (tr i) md \<Longrightarrow> allow req
     \<Longrightarrow> lock_primitive (lmgr z) (Some p) (tr i) md = Returns k lm' e \<Longrightarrow> wake_up k (hold z l) q
     \<Longrightarrow> lock_step allow tr T z (z\<lparr>lmgr := lm', hold := (hold z)(l := q(i := held_as req e (q i))),
           doomed := (if e = 0 then doomed z else insert i (doomed z))\<rparr>)"
| lock_waits: "i \<in> T \<Longrightarrow> pend z i = None \<Longrightarrow> i \<notin> doomed z \<Longrightarrow> map_of_locks (lmgr z) (lock_key p) = Some l
     \<Longrightarrow> locks (lmgr z) l = Some sl \<Longrightarrow> req = lock_request sl (tr i) md \<Longrightarrow> allow req
     \<Longrightarrow> lock_primitive (lmgr z) (Some p) (tr i) md = Waits k lm' c \<Longrightarrow> wake_up k (hold z l) q
     \<Longrightarrow> lock_step allow tr T z (z\<lparr>lmgr := lm', hold := (hold z)(l := q(i := waits_as req)), pend := (pend z)(i \<mapsto> (l, md))\<rparr>)"
| lock_goes_on: "i \<in> T \<Longrightarrow> pend z i = Some (l, md) \<Longrightarrow> hold z l i \<in> {WokenRead, WokenWrite, WokenUpgrade}
     \<Longrightarrow> lock_woken (lmgr z) l (tr i) md (hold z l i) = Returns k lm' e \<Longrightarrow> wake_up k (hold z l) q
     \<Longrightarrow> lock_step allow tr T z (z\<lparr>lmgr := lm', hold := (hold z)(l := q(i := woken_as (hold z l i) e)), pend := (pend z)(i := None),
           doomed := (if e = 0 then doomed z else insert i (doomed z))\<rparr>)"
| release_all: "i \<in> T \<Longrightarrow> pend z i = None \<Longrightarrow> unlockAll (lmgr z) (tr i) = Some (lm', ks) \<Longrightarrow> wake_each ks i (hold z) h'
     \<Longrightarrow> lock_step allow tr T z (z\<lparr>lmgr := lm', hold := h', doomed := doomed z - {i}\<rparr>)"
| assertion: "i \<in> T \<Longrightarrow> pend z i = None \<Longrightarrow> i \<notin> doomed z
     \<Longrightarrow> (\<forall>l sl. map_of_locks (lmgr z) (lock_key p) = Some l \<and> locks (lmgr z) l = Some sl \<longrightarrow> allow (lock_request sl (tr i) md))
     \<Longrightarrow> lock_primitive (lmgr z) (Some p) (tr i) md = AssertFails \<Longrightarrow> lock_step allow tr T z (z\<lparr>lock_failed := True\<rparr>)"
| assertion_later: "i \<in> T \<Longrightarrow> pend z i = Some (l, md) \<Longrightarrow> hold z l i \<in> {WokenRead, WokenWrite, WokenUpgrade}
     \<Longrightarrow> lock_woken (lmgr z) l (tr i) md (hold z l i) = AssertFails \<Longrightarrow> lock_step allow tr T z (z\<lparr>lock_failed := True\<rparr>)"
| assertion_release: "i \<in> T \<Longrightarrow> pend z i = None \<Longrightarrow> unlockAll (lmgr z) (tr i) = None
     \<Longrightarrow> lock_step allow tr T z (z\<lparr>lock_failed := True\<rparr>)"

definition no_upgrade :: "sem_request \<Rightarrow> bool" where "no_upgrade r \<longleftrightarrow> r \<noteq> AskUpgrade"

abbreviation lock_reachable :: "(sem_request \<Rightarrow> bool) \<Rightarrow> (int \<Rightarrow> TransactionID) \<Rightarrow> int set \<Rightarrow> lock_system \<Rightarrow> bool" where
  "lock_reachable allow tr T z \<equiv> (lock_step allow tr T)\<^sup>*\<^sup>* lock_start z"

text \<open>The transactions carry the identifiers under which they are known, and priorities fit for the semaphores.\<close>

definition transactions_ok :: "(int \<Rightarrow> TransactionID) \<Rightarrow> int set \<Rightarrow> bool" where
  "transactions_ok tr T \<longleftrightarrow> finite T \<and> card T \<le> 65535 \<and> (\<forall>i\<in>T. tid_id (tr i) = i)
     \<and> inj_on (\<lambda>i. tid_priority (tr i)) T \<and> (\<forall>i\<in>T. tid_priority (tr i) \<noteq> NO_UPGRADER)"

end
