(* ===== verification/LockScenarios.thy ===== *)
theory LockScenarios
  imports LockSystem
begin

text \<open>
  Runs of the lock manager that go wrong. A run is a list of actions, executed by a function whose every step is a
  step of the relation \<open>lock_step\<close>.
\<close>

section \<open>Running actions\<close>

text \<open>Transaction \<open>i\<close> asks for a lock, goes on after its wait, or ends; \<open>u\<close> is the transaction that a signal wakes.\<close>

datatype action = Ask int physical_id AccessMode int | GoOn int int | End int int

fun wake_one :: "wake option \<Rightarrow> int \<Rightarrow> (int \<Rightarrow> status) \<Rightarrow> (int \<Rightarrow> status) option" where
  "wake_one None u q = Some q"
| "wake_one (Some (Signal c)) u q = (if waits_on c (q u) then Some (q(u := woken (q u))) else None)"
| "wake_one (Some (Broadcast c)) u q = Some (\<lambda>t. if waits_on c (q t) then woken (q t) else q t)"

fun wake_list :: "(int \<times> wake option) list \<Rightarrow> int \<Rightarrow> int \<Rightarrow> (int \<Rightarrow> int \<Rightarrow> status) \<Rightarrow> (int \<Rightarrow> int \<Rightarrow> status) option" where
  "wake_list [] u i h = Some h"
| "wake_list ((l, k) # ks) u i h =
     (case wake_one k u (h l) of None \<Rightarrow> None | Some q \<Rightarrow> wake_list ks u i (h(l := q(i := Outside))))"

fun act :: "(sem_request \<Rightarrow> bool) \<Rightarrow> (int \<Rightarrow> TransactionID) \<Rightarrow> action \<Rightarrow> lock_system \<Rightarrow> lock_system option" where
  "act allow tr (Ask i p md u) z =
     (if pend z i \<noteq> None \<or> i \<in> doomed z then None
      else case map_of_locks (lmgr z) (lock_key p) of
        None \<Rightarrow>
          (case lock_primitive (lmgr z) (Some p) (tr i) md of
             Returns k lm' e \<Rightarrow> Some (z\<lparr>lmgr := lm',
               hold := (hold z)(single_lock_id (lmgr z) := (\<lambda>_. Outside)(i := (if md = Read then Reading else Writing)))\<rparr>)
           | _ \<Rightarrow> None)
      | Some l \<Rightarrow>
          (case locks (lmgr z) l of
             None \<Rightarrow> None
           | Some sl \<Rightarrow>
               let req = lock_request sl (tr i) md in
               if \<not> allow req then None
               else (case lock_primitive (lmgr z) (Some p) (tr i) md of
                       Returns k lm' e \<Rightarrow>
                         (case wake_one k u (hold z l) of
                            None \<Rightarrow> None
                          | Some q \<Rightarrow> Some (z\<lparr>lmgr := lm', hold := (hold z)(l := q(i := held_as req e (q i))),
                              doomed := (if e = 0 then doomed z else insert i (doomed z))\<rparr>))
                     | Waits k lm' c \<Rightarrow>
                         (case wake_one k u (hold z l) of
                            None \<Rightarrow> None
                          | Some q \<Rightarrow> Some (z\<lparr>lmgr := lm', hold := (hold z)(l := q(i := waits_as req)),
                              pend := (pend z)(i \<mapsto> (l, md))\<rparr>))
                     | _ \<Rightarrow> None)))"
| "act allow tr (GoOn i u) z =
     (case pend z i of
        None \<Rightarrow> None
      | Some (l, md) \<Rightarrow>
          if hold z l i \<notin> {WokenRead, WokenWrite, WokenUpgrade} then None
          else case lock_woken (lmgr z) l (tr i) md (hold z l i) of
                 Returns k lm' e \<Rightarrow>
                   (case wake_one k u (hold z l) of
                      None \<Rightarrow> None
                    | Some q \<Rightarrow> Some (z\<lparr>lmgr := lm', hold := (hold z)(l := q(i := woken_as (hold z l i) e)),
                        pend := (pend z)(i := None), doomed := (if e = 0 then doomed z else insert i (doomed z))\<rparr>))
               | _ \<Rightarrow> None)"
| "act allow tr (End i u) z =
     (if pend z i \<noteq> None then None
      else case unlockAll (lmgr z) (tr i) of
             None \<Rightarrow> None
           | Some (lm', ks) \<Rightarrow>
               (case wake_list ks u i (hold z) of
                  None \<Rightarrow> None
                | Some h' \<Rightarrow> Some (z\<lparr>lmgr := lm', hold := h', doomed := doomed z - {i}\<rparr>)))"

fun acts :: "(sem_request \<Rightarrow> bool) \<Rightarrow> (int \<Rightarrow> TransactionID) \<Rightarrow> action list \<Rightarrow> lock_system \<Rightarrow> lock_system option" where
  "acts allow tr [] z = Some z"
| "acts allow tr (a # as) z = (case act allow tr a z of None \<Rightarrow> None | Some z' \<Rightarrow> acts allow tr as z')"

fun actor :: "action \<Rightarrow> int" where
  "actor (Ask i p md u) = i"
| "actor (GoOn i u) = i"
| "actor (End i u) = i"

lemma wake_one: "wake_one k u q = Some q' \<Longrightarrow> wake_up k q q'"
  by (induction k u q rule: wake_one.induct) (auto simp: wake_Signal split: if_splits)

lemma wake_list: "wake_list ks u i h = Some h' \<Longrightarrow> wake_each ks i h h'"
proof (induction ks arbitrary: h)
  case (Cons a ks)
  obtain l k where a: "a = (l, k)"
    by force
  with Cons.prems obtain q where "wake_one k u (h l) = Some q" "wake_list ks u i (h(l := q(i := Outside))) = Some h'"
    by (auto split: option.splits)
  with a Cons.IH show ?case
    by (auto intro: wake_cons [OF wake_one])
qed (simp add: wake_nil)

lemma act_step:
  assumes "act allow tr a z = Some z'" "actor a \<in> T"
  shows "lock_step allow tr T z z'"
proof (cases a)
  case (Ask i p md u)
  then have i: "i \<in> T" "pend z i = None" "i \<notin> doomed z"
    using assms by (cases "pend z i = None"; cases "i \<in> doomed z"; simp)+
  show ?thesis
  proof (cases "map_of_locks (lmgr z) (lock_key p)")
    case None
    with Ask assms i obtain k lm' e where "lock_primitive (lmgr z) (Some p) (tr i) md = Returns k lm' e"
      "z' = z\<lparr>lmgr := lm',
         hold := (hold z)(single_lock_id (lmgr z) := (\<lambda>_. Outside)(i := (if md = Read then Reading else Writing)))\<rparr>"
      by (cases "lock_primitive (lmgr z) (Some p) (tr i) md") simp_all
    then show ?thesis
      using new_lock [OF i None] by simp
  next
    case (Some l)
    with Ask assms i obtain sl where sl: "locks (lmgr z) l = Some sl" "allow (lock_request sl (tr i) md)"
      by (auto simp: Let_def split: option.splits if_splits)
    show ?thesis
      using Ask assms Some i sl lock_returns [where allow = allow and tr = tr and md = md, OF i Some sl(1) refl sl(2)]
        lock_waits [where allow = allow and tr = tr and md = md, OF i Some sl(1) refl sl(2)]
      by (cases "lock_primitive (lmgr z) (Some p) (tr i) md")
        (auto simp: Let_def intro: wake_one simp del: not_None_eq split: option.splits)
  qed
next
  case (GoOn i u)
  with assms obtain l md where i: "i \<in> T" "pend z i = Some (l, md)" "hold z l i \<in> {WokenRead, WokenWrite, WokenUpgrade}"
    by (auto split: option.splits if_splits)
  have "(hold z l i \<notin> {WokenRead, WokenWrite, WokenUpgrade}) = False"
    using i(3) by simp
  with i obtain k lm' e q where g: "lock_woken (lmgr z) l (tr i) md (hold z l i) = Returns k lm' e"
    "wake_one k u (hold z l) = Some q"
    "z' = z\<lparr>lmgr := lm', hold := (hold z)(l := q(i := woken_as (hold z l i) e)), pend := (pend z)(i := None),
       doomed := (if e = 0 then doomed z else insert i (doomed z))\<rparr>"
    using GoOn assms
    by (cases "lock_woken (lmgr z) l (tr i) md (hold z l i)") (simp_all del: insert_iff split: option.splits)
  show ?thesis
    unfolding g(3) by (rule lock_goes_on [where tr = tr, OF i g(1) wake_one [OF g(2)]])
next
  case (End i u)
  then have i: "i \<in> T" "pend z i = None"
    using assms by (cases "pend z i = None"; simp)+
  then obtain lm' ks h' where r: "unlockAll (lmgr z) (tr i) = Some (lm', ks)" "wake_list ks u i (hold z) = Some h'"
    "z' = z\<lparr>lmgr := lm', hold := h', doomed := doomed z - {i}\<rparr>"
    using End assms by (auto split: option.splits)
  show ?thesis
    unfolding r(3) by (rule release_all [where tr = tr, OF i r(1) wake_list [OF r(2)]])
qed

lemma acts_reach:
  assumes "acts allow tr as z = Some z'" "set (map actor as) \<subseteq> T" "lock_reachable allow tr T z"
  shows "lock_reachable allow tr T z'"
  using assms
proof (induction as arbitrary: z)
  case (Cons a as)
  then show ?case
    using act_step [of allow tr a z _ T] by (auto split: option.splits intro: rtranclp.rtrancl_into_rtrancl)
qed simp

section \<open>The scenarios\<close>

definition plain_tid :: "int \<Rightarrow> TransactionID" where
  "plain_tid i = \<lparr>tid_id = i, tid_priority = i, tid_sessionId = 0, tid_timeStamp = 0\<rparr>"

definition slot :: "int \<Rightarrow> physical_id" where
  "slot k = \<lparr>page_id = 1, file_id = 0, offset = k\<rparr>"

definition two_writers :: "action list" where
  "two_writers =
     [Ask 9 (slot 0) Write 0, Ask 6 (slot 0) Read 0, Ask 5 (slot 0) Read 0, End 9 0, GoOn 6 0, Ask 6 (slot 0) Write 0,
      GoOn 5 0, Ask 5 (slot 0) Write 6, GoOn 6 5, GoOn 5 0, End 5 0, Ask 3 (slot 0) Write 0]"

definition circle :: "action list" where
  "circle =
     [Ask 5 (slot 1) Write 0, Ask 9 (slot 0) Write 0, Ask 5 (slot 0) Write 0, Ask 3 (slot 0) Write 0, End 9 3, GoOn 3 0,
      Ask 3 (slot 1) Write 0]"

text \<open>A set of transactions of which each waits for a lock that is held, and held only by transactions of the set.\<close>

definition waits_in :: "int set \<Rightarrow> lock_system \<Rightarrow> int \<Rightarrow> bool" where
  "waits_in D z i \<longleftrightarrow>
     (case pend z i of
        None \<Rightarrow> False
      | Some (l, md) \<Rightarrow>
          hold z l i \<in> {WaitRead, WaitWrite, WaitUpgrade} \<and>
          (case locks (lmgr z) l of
             None \<Rightarrow> False
           | Some sl \<Rightarrow> currentRead sl \<union> currentWrite sl \<noteq> {} \<and> currentRead sl \<union> currentWrite sl \<subseteq> D))"

definition all_wait :: "int list \<Rightarrow> lock_system option \<Rightarrow> bool" where
  "all_wait ds zo = (case zo of None \<Rightarrow> False | Some z \<Rightarrow> ds \<noteq> [] \<and> list_all (waits_in (set ds) z) ds)"

lemma circle_runs: "all_wait [3, 5] (acts no_upgrade plain_tid circle lock_start)"
  by code_simp

definition both_write :: "int \<Rightarrow> int \<Rightarrow> int \<Rightarrow> lock_system option \<Rightarrow> bool" where
  "both_write l i j zo =
     (case zo of
        None \<Rightarrow> False
      | Some z \<Rightarrow>
          i \<noteq> j \<and> pend z i = None \<and> pend z j = None \<and> i \<notin> doomed z \<and> j \<notin> doomed z \<and>
          (case locks (lmgr z) l of None \<Rightarrow> False | Some sl \<Rightarrow> i \<in> currentWrite sl \<and> j \<in> currentWrite sl))"

lemma two_writers_run: "both_write 0 3 6 (acts (\<lambda>r. True) plain_tid two_writers lock_start)"
  by code_simp

section \<open>Properties\<close>

text \<open>(C38) Upgrades break exclusion: the lock manager reads the result of an upgrade as an error code. A transaction
  whose upgrade has failed, and which therefore holds nothing, is recorded as a writer, and then another
  transaction gets the lock for writing too: two running transactions hold the same object for writing.\<close>

theorem upgrade_breaks_exclusion:
  "\<exists>z l sl i j. lock_reachable (\<lambda>r. True) plain_tid {3, 5, 6, 9} z \<and> locks (lmgr z) l = Some sl \<and> i \<noteq> j
    \<and> i \<in> currentWrite sl \<and> j \<in> currentWrite sl \<and> pend z i = None \<and> pend z j = None \<and> i \<notin> doomed z \<and> j \<notin> doomed z"
proof -
  obtain z where z: "acts (\<lambda>r. True) plain_tid two_writers lock_start = Some z" "both_write 0 3 6 (Some z)"
    using two_writers_run by (cases "acts (\<lambda>r. True) plain_tid two_writers lock_start") (auto simp: both_write_def)
  have "set (map actor two_writers) \<subseteq> {3, 5, 6, 9}"
    by (simp add: two_writers_def)
  with z(1) have "lock_reachable (\<lambda>r. True) plain_tid {3, 5, 6, 9} z"
    by (rule acts_reach) simp
  moreover obtain sl where "locks (lmgr z) 0 = Some sl" "3 \<in> currentWrite sl" "6 \<in> currentWrite sl"
    using z(2) by (auto simp: both_write_def split: option.splits)
  ultimately show ?thesis
    using z(2) by (intro exI [of _ z] exI [of _ 0] exI [of _ sl] exI [of _ 3] exI [of _ 6]) (simp add: both_write_def)
qed

text \<open>(C39) The prevention of deadlocks does not prevent them: it compares priorities only when a transaction
  starts to wait. A transaction that waits can be overtaken by an older one, which then waits for the first: two
  transactions each wait for a lock that only the other one holds.\<close>

theorem deadlock_reachable:
  "\<exists>z. lock_reachable no_upgrade plain_tid {3, 5, 9} z \<and> waits_in {3, 5} z 3 \<and> waits_in {3, 5} z 5"
proof -
  obtain z where z: "acts no_upgrade plain_tid circle lock_start = Some z" "all_wait [3, 5] (Some z)"
    using circle_runs by (cases "acts no_upgrade plain_tid circle lock_start") (auto simp: all_wait_def)
  have "set (map actor circle) \<subseteq> {3, 5, 9}"
    by (simp add: circle_def)
  with z(1) have "lock_reachable no_upgrade plain_tid {3, 5, 9} z"
    by (rule acts_reach) simp
  with z(2) show ?thesis
    by (auto simp: all_wait_def)
qed

text \<open>A transaction that locks an unused object for reading and then for writing gets error code 1 although its
  upgrade succeeds.\<close>

lemma read_then_write_fails:
  assumes "map_of_locks lm (lock_key p) = None"
  shows "\<exists>lm1 lm2. lock_primitive lm (Some p) t Read = Returns None lm1 0
    \<and> lock_primitive lm1 (Some p) t Write = Returns None lm2 1"
  using assms
  by (simp add: lock_primitive_def Let_def lock_done_def SingleLock_new_def rwuj_lock_read_def RWUJSemaphore_new_def
      assert_that_def u16_def add_lock_def wait_for_lock_def lock_request_defs unless_deadlock_def preventDeadlock_def
      after_sem_def rwuj_lock_upgrade_def lock_received_def)

text \<open>The transaction holds the lock that it asks for.\<close>

definition holds_lock :: "LockManager \<Rightarrow> physical_id \<Rightarrow> TransactionID \<Rightarrow> AccessMode \<Rightarrow> bool" where
  "holds_lock lm p t md \<longleftrightarrow>
     (case map_of_locks lm (lock_key p) of
        None \<Rightarrow> False
      | Some l \<Rightarrow> (case locks lm l of None \<Rightarrow> False | Some sl \<Rightarrow> lock_request sl t md = Held))"

lemma holds_lock_again:
  assumes "holds_lock lm p t md"
  shows "\<exists>lm'. lock_primitive lm (Some p) t md = Returns None lm' 0 \<and> holds_lock lm' p t md"
proof -
  obtain l sl where l: "map_of_locks lm (lock_key p) = Some l" "locks lm l = Some sl" "lock_request sl t md = Held"
    using assms by (auto simp: holds_lock_def split: option.splits)
  then show ?thesis
    by (simp add: lock_primitive_def lock_done_def wait_for_lock_def holds_lock_def add_lock_def)
qed

lemma lockAll_held:
  assumes "lockAll lm ls t md = Some r"
  shows "\<forall>p ps. ls = Some p # ps \<longrightarrow> \<not> holds_lock lm p t md"
proof (rule lockAll.raw_induct [OF _ assms])
  fix f lm ls t md r
  assume IH: "\<And>lm ls t md r. f lm ls t md = Some r \<Longrightarrow> \<forall>p ps. ls = Some p # ps \<longrightarrow> \<not> holds_lock lm p t md"
    and r: "(case ls of [] \<Rightarrow> Some (Returns None lm 0)
      | p # x \<Rightarrow>
          case lock_primitive lm p t md of
            Returns k lm' errorCode \<Rightarrow> if errorCode \<noteq> 0 then Some (Returns k lm' errorCode) else f lm' ls t md
          | oc \<Rightarrow> Some oc) = Some r"
  show "\<forall>p ps. ls = Some p # ps \<longrightarrow> \<not> holds_lock lm p t md"
  proof (intro allI impI notI)
    fix p ps
    assume ls: "ls = Some p # ps" and h: "holds_lock lm p t md"
    obtain lm' where "lock_primitive lm (Some p) t md = Returns None lm' 0" "holds_lock lm' p t md"
      using holds_lock_again [OF h] by blast
    with IH [of lm' ls t md] r ls show False
      by auto
  qed
qed

text \<open>(C40) \<open>lockAll\<close> never returns if nobody has locked the first object of its set: its loop locks it and does not advance.\<close>

theorem lockAll_diverges:
  assumes "map_of_locks lm (lock_key p) = None"
  shows "lockAll lm (Some p # ps) t md = None"
proof -
  have "\<exists>lm1. lock_primitive lm (Some p) t md = Returns None lm1 0 \<and> holds_lock lm1 p t md"
    using assms
    by (cases md) (simp_all add: lock_primitive_def Let_def lock_done_def SingleLock_new_def rwuj_lock_read_def
        rwuj_lock_write_def RWUJSemaphore_new_def assert_that_def add_lock_def holds_lock_def lock_request_defs)
  then obtain lm1 where "lock_primitive lm (Some p) t md = Returns None lm1 0" "holds_lock lm1 p t md"
    by blast
  moreover have "lockAll lm1 (Some p # ps) t md = None"
    using lockAll_held [of lm1 "Some p # ps" t md] calculation(2)
    by (cases "lockAll lm1 (Some p # ps) t md") auto
  ultimately show ?thesis
    by (subst lockAll.simps) simp
qed

theorem lockAll_diverges_witness: "lockAll LockManager_new [Some (slot 0)] (plain_tid 1) Read = None"
  using lockAll_diverges [of LockManager_new "slot 0" "[]" "plain_tid 1" Read] by (simp add: LockManager_new_def)

end
