(* ===== verification/SemaphoreProperties.thy ===== *)
theory SemaphoreProperties
  imports SemaphoreSystem
begin

text \<open>
  The invariant of the semaphores, the contract of a monitor as a locale, and the theorems: no assertion of the code
  fails, writers exclude everyone else, every waiting thread gets in, the counters do not wrap.
\<close>

section \<open>Counting threads\<close>

definition num :: "'t set \<Rightarrow> ('t \<Rightarrow> status) \<Rightarrow> status \<Rightarrow> int" where
  "num T q x = int (card {t \<in> T. q t = x})"

lemma num_nonneg: "0 \<le> num T q x"
  by (simp add: num_def)

lemma num_upd:
  assumes "finite T" "t \<in> T"
  shows "num T (q(t := y)) x = num T q x + of_bool (y = x) - of_bool (q t = x)"
proof -
  let ?A = "{u \<in> T. u \<noteq> t \<and> q u = x}"
  have fin: "finite ?A" "t \<notin> ?A"
    using assms(1) by auto
  have "{u \<in> T. (q(t := y)) u = x} = (if y = x then insert t ?A else ?A)"
    "{u \<in> T. q u = x} = (if q t = x then insert t ?A else ?A)"
    using assms(2) by (auto split: if_splits)
  with fin show ?thesis
    by (simp add: num_def)
qed

lemma num_broadcast:
  assumes "finite T"
  shows "num T (\<lambda>t. if q t = WaitRead then WokenRead else q t) x
    = (if x = WaitRead then 0 else if x = WokenRead then num T q WokenRead + num T q WaitRead else num T q x)"
proof -
  have "{t \<in> T. (if q t = WaitRead then WokenRead else q t) = WokenRead} = {t \<in> T. q t = WokenRead} \<union> {t \<in> T. q t = WaitRead}"
    by auto
  moreover have "card ({t \<in> T. q t = WokenRead} \<union> {t \<in> T. q t = WaitRead})
    = card {t \<in> T. q t = WokenRead} + card {t \<in> T. q t = WaitRead}"
    using assms by (intro card_Un_disjoint) auto
  moreover have "{t \<in> T. (if q t = WaitRead then WokenRead else q t) = WaitRead} = {}"
    by auto
  moreover have "{t \<in> T. (if q t = WaitRead then WokenRead else q t) = x} = {t \<in> T. q t = x}"
    if "x \<noteq> WaitRead" "x \<noteq> WokenRead"
    using that by auto
  ultimately show ?thesis
    by (simp add: num_def)
qed

lemma num_zero: "finite T \<Longrightarrow> num T q x = 0 \<longleftrightarrow> (\<forall>t\<in>T. q t \<noteq> x)"
  by (auto simp: num_def)

lemma num_pos: "finite T \<Longrightarrow> 0 < num T q x \<longleftrightarrow> (\<exists>t\<in>T. q t = x)"
  using num_zero [of T q x] num_nonneg [of T q x] by (metis less_le)

lemma num_here: "finite T \<Longrightarrow> t \<in> T \<Longrightarrow> 1 \<le> num T q (q t)"
  using num_pos [of T q "q t"] by force

lemma num_one: "finite T \<Longrightarrow> num T q x = 1 \<Longrightarrow> s \<in> T \<Longrightarrow> t \<in> T \<Longrightarrow> q s = x \<Longrightarrow> q t = x \<Longrightarrow> s = t"
  by (auto simp: num_def card_1_singleton_iff) (metis (mono_tags, lifting) mem_Collect_eq singletonD)

lemma num_total:
  assumes "finite T"
  shows "num T q Outside + num T q Reading + num T q Writing + num T q WaitRead + num T q WokenRead
    + num T q WaitWrite + num T q WokenWrite + num T q WaitUpgrade + num T q WokenUpgrade = int (card T)"
  using assms
proof (induction T)
  case empty
  show ?case by (simp add: num_def)
next
  case (insert t T)
  have "num (insert t T) q x = num T q x + of_bool (q t = x)" for x
  proof -
    have "{u \<in> insert t T. q u = x} = (if q t = x then insert t {u \<in> T. q u = x} else {u \<in> T. q u = x})"
      by auto
    with insert.hyps show ?thesis
      by (simp add: num_def)
  qed
  with insert show ?case
    by (cases "q t") simp_all
qed

lemmas num_bounds = num_nonneg [of _ _ Outside] num_nonneg [of _ _ Reading] num_nonneg [of _ _ Writing]
  num_nonneg [of _ _ WaitRead] num_nonneg [of _ _ WokenRead] num_nonneg [of _ _ WaitWrite]
  num_nonneg [of _ _ WokenWrite] num_nonneg [of _ _ WaitUpgrade] num_nonneg [of _ _ WokenUpgrade]

section \<open>The invariant\<close>

definition threads_ok :: "('t \<Rightarrow> int) \<Rightarrow> 't set \<Rightarrow> bool" where
  "threads_ok prio T \<longleftrightarrow> finite T \<and> card T \<le> 65535 \<and> inj_on prio T \<and> (\<forall>t\<in>T. prio t \<noteq> NO_UPGRADER)"

text \<open>Some thread in state \<open>x\<close> has priority \<open>p\<close>.\<close>

definition at_prio :: "('t \<Rightarrow> int) \<Rightarrow> 't set \<Rightarrow> ('t \<Rightarrow> status) \<Rightarrow> status \<Rightarrow> int \<Rightarrow> bool" where
  "at_prio prio T q x p \<longleftrightarrow> (\<exists>b\<in>T. q b = x \<and> p = prio b)"

lemma at_prio_upd [simp]:
  "q t \<noteq> x \<Longrightarrow> y \<noteq> x \<Longrightarrow> at_prio prio T (q(t := y)) x p \<longleftrightarrow> at_prio prio T q x p"
  by (force simp: at_prio_def)

definition only_in :: "'t set \<Rightarrow> ('t \<Rightarrow> status) \<Rightarrow> bool" where
  "only_in T q \<longleftrightarrow> (\<forall>t. t \<notin> T \<longrightarrow> q t = Outside)"

lemma only_in_simps [simp]:
  "only_in T q \<Longrightarrow> t \<in> T \<Longrightarrow> only_in T (q(t := x))"
  "only_in T q \<Longrightarrow> only_in T (\<lambda>t. if q t = WaitRead then WokenRead else q t)"
  by (auto simp: only_in_def)

definition sem_inv :: "('t \<Rightarrow> int) \<Rightarrow> 't set \<Rightarrow> rwujsem \<Rightarrow> ('t \<Rightarrow> status) \<Rightarrow> bool" where
  "sem_inv prio T s q \<longleftrightarrow>
     only_in T q
   \<and> readers_waiting s = num T q WaitRead \<and> writers_waiting s = num T q WaitWrite
   \<and> (case sem_mode s of
        SemNone \<Rightarrow> inside s = 0 \<and> num T q Outside = int (card T) \<and> \<not> upgrader_waiting s \<and> best_upgrader s = NO_UPGRADER
      | SemRead \<Rightarrow>
          inside s = num T q Reading + num T q WokenRead + num T q WaitUpgrade + num T q WokenUpgrade \<and> 1 \<le> inside s
        \<and> num T q Writing = 0 \<and> num T q WokenWrite = 0
        \<and> (if upgrader_waiting s
           then 2 \<le> inside s \<and> num T q WaitUpgrade = 1 \<and> at_prio prio T q WaitUpgrade (best_upgrader s)
           else best_upgrader s = NO_UPGRADER \<and> num T q WaitUpgrade = 0 \<and> num T q WokenUpgrade = 0
              \<and> (0 < readers_waiting s \<longrightarrow> 0 < writers_waiting s))
      | SemWrite \<Rightarrow>
          inside s = 1 \<and> num T q Reading = 0 \<and> num T q WokenRead = 0 \<and> num T q WaitUpgrade = 0
        \<and> num T q Writing + num T q WokenWrite + num T q WokenUpgrade = 1
        \<and> (if upgrader_waiting s then at_prio prio T q WokenUpgrade (best_upgrader s)
           else best_upgrader s = NO_UPGRADER \<and> num T q WokenUpgrade = 0)
      | SemUpgrade \<Rightarrow> False)"

text \<open>A section keeps the invariant if it returns or waits in a state that satisfies it, whatever thread is woken.\<close>

definition keeps :: "('s \<Rightarrow> ('t \<Rightarrow> status) \<Rightarrow> bool) \<Rightarrow> ('s, bool) outcome \<Rightarrow> 't \<Rightarrow> status \<Rightarrow> status \<Rightarrow> status
    \<Rightarrow> ('t \<Rightarrow> status) \<Rightarrow> bool" where
  "keeps I oc t yes no w q \<longleftrightarrow>
     (case oc of
        Returns k s' r \<Rightarrow> \<forall>q'. wake_up k q q' \<longrightarrow> I s' (q'(t := (if r then yes else no)))
      | Waits k s' c \<Rightarrow> \<forall>q'. wake_up k q q' \<longrightarrow> I s' (q'(t := w))
      | _ \<Rightarrow> False)"

lemma keeps_simps [simp]:
  "keeps I (Returns k s' r) t yes no w q \<longleftrightarrow> (\<forall>q'. wake_up k q q' \<longrightarrow> I s' (q'(t := (if r then yes else no))))"
  "keeps I (Waits k s' c) t yes no w q \<longleftrightarrow> (\<forall>q'. wake_up k q q' \<longrightarrow> I s' (q'(t := w)))"
  "\<not> keeps I AssertFails t yes no w q"
  "keeps I (assert_that p k') t yes no w q \<longleftrightarrow> p \<and> keeps I k' t yes no w q"
  by (simp_all add: keeps_def assert_that_def)

lemma settle_keeps:
  assumes "settle oc t yes no w z z'" "keeps I oc t yes no w (st z)"
  shows "I (sem z') (st z') \<and> failed z' = failed z"
  using assms by (cases rule: settle.cases) auto

lemma lock_read_keeps:
  assumes "threads_ok prio T" "sem_inv prio T s q" "t \<in> T" "q t = Outside"
  shows "keeps (sem_inv prio T) (rwuj_lock_read s) t Reading Outside WaitRead q"
proof -
  have fin: "finite T" and c: "int (card T) \<le> 65535"
    using assms(1) by (auto simp: threads_ok_def)
  have o: "1 \<le> num T q Outside"
    using num_pos [OF fin, of q Outside] assms(3,4) by force
  note nt = num_total [OF fin, of q] num_bounds [of T q]
  show ?thesis
    using assms(2-4) o c nt
    by (cases "sem_mode s") (auto simp: rwuj_lock_read_def sem_inv_def num_upd [OF fin] u16_id split: if_splits)
qed

lemma lock_write_keeps:
  assumes "threads_ok prio T" "sem_inv prio T s q" "t \<in> T" "q t = Outside"
  shows "keeps (sem_inv prio T) (rwuj_lock_write s) t Writing Outside WaitWrite q"
proof -
  have fin: "finite T" and c: "int (card T) \<le> 65535"
    using assms(1) by (auto simp: threads_ok_def)
  have o: "1 \<le> num T q Outside"
    using num_pos [OF fin, of q Outside] assms(3,4) by force
  note nt = num_total [OF fin, of q] num_bounds [of T q]
  show ?thesis
    using assms(2-4) o c nt
    by (cases "sem_mode s") (auto simp: rwuj_lock_write_def sem_inv_def num_upd [OF fin] u16_id split: if_splits)
qed

lemma read_woken_keeps:
  assumes "threads_ok prio T" "sem_inv prio T s q" "t \<in> T" "q t = WokenRead"
  shows "keeps (sem_inv prio T) (rw_read_woken True s) t Reading Outside WaitRead q"
proof -
  have fin: "finite T"
    using assms(1) by (auto simp: threads_ok_def)
  have o: "1 \<le> num T q WokenRead"
    using num_pos [OF fin, of q WokenRead] assms(3,4) by force
  note nt = num_total [OF fin, of q] num_bounds [of T q]
  show ?thesis
    using assms(2-4) o nt
    by (cases "sem_mode s") (auto simp: rw_read_woken_def sem_inv_def num_upd [OF fin] u16_id split: if_splits)
qed

lemma write_woken_keeps:
  assumes "threads_ok prio T" "sem_inv prio T s q" "t \<in> T" "q t = WokenWrite"
  shows "keeps (sem_inv prio T) (rw_write_woken True s) t Writing Outside WaitWrite q"
proof -
  have fin: "finite T"
    using assms(1) by (auto simp: threads_ok_def)
  have o: "1 \<le> num T q WokenWrite"
    using num_pos [OF fin, of q WokenWrite] assms(3,4) by force
  note nt = num_total [OF fin, of q] num_bounds [of T q]
  show ?thesis
    using assms(2-4) o nt
    by (cases "sem_mode s") (auto simp: rw_write_woken_def sem_inv_def num_upd [OF fin] u16_id split: if_splits)
qed

lemma at_prio_unique:
  assumes "finite T" "num T q x = 1" "at_prio prio T q x p" "q u = x" "u \<in> T"
  shows "p = prio u"
  using assms num_one [OF assms(1,2)] by (auto simp: at_prio_def)

lemma in_threads: "sem_inv prio T s q \<Longrightarrow> q u \<noteq> Outside \<Longrightarrow> u \<in> T"
  by (auto simp: sem_inv_def only_in_def)

text \<open>The last thread leaves: the states after a hand-over.\<close>

lemma hand_to_readers:
  assumes "finite T" "sem_inv prio T s q" "sem_mode s = SemWrite" "\<not> upgrader_waiting s" "0 < readers_waiting s"
    "t \<in> T" "q t = Writing"
  shows "sem_inv prio T (s\<lparr>inside := readers_waiting s, sem_mode := SemRead, readers_waiting := 0\<rparr>)
    ((\<lambda>u. if q u = WaitRead then WokenRead else q u)(t := Outside))"
  using num_pos [OF assms(1), of q Writing] assms(2-7) num_bounds [of T q] num_total [OF assms(1), of q]
  by (auto simp: sem_inv_def num_upd [OF assms(1)] num_broadcast [OF assms(1)])

lemma hand_to_writer:
  assumes "finite T" "sem_inv prio T s q" "inside s = 1" "\<not> upgrader_waiting s" "u \<in> T" "q u = WaitWrite"
    "t \<in> T" "q t = Writing \<or> q t = Reading" "card T \<le> 65535"
  shows "sem_inv prio T (s\<lparr>inside := 1, writers_waiting := u16 (writers_waiting s - 1), sem_mode := SemWrite\<rparr>)
    (q(u := WokenWrite, t := Outside))"
proof -
  have n: "1 \<le> num T q WaitWrite" "1 \<le> num T q (q t)" and "u \<noteq> t"
    using num_here [OF assms(1,5), of q] num_here [OF assms(1,7), of q] assms(6,8) by auto
  then show ?thesis
    using assms(2-9) num_bounds [of T q] num_total [OF assms(1), of q]
    by (cases "sem_mode s") (auto simp: sem_inv_def num_upd [OF assms(1)] u16_id)
qed

lemma mode_then_writers: "s\<lparr>sem_mode := m, writers_waiting := n\<rparr> = s\<lparr>writers_waiting := n, sem_mode := m\<rparr>"
  by simp

lemma hand_to_none:
  assumes "finite T" "sem_inv prio T s q" "inside s = 1" "\<not> upgrader_waiting s" "readers_waiting s = 0"
    "writers_waiting s = 0" "t \<in> T" "q t = Writing \<or> q t = Reading"
  shows "sem_inv prio T (s\<lparr>inside := 0, sem_mode := SemNone\<rparr>) (q(t := Outside))"
  using num_here [OF assms(1,7), of q] assms(2-8) num_bounds [of T q] num_total [OF assms(1), of q]
  by (cases "sem_mode s") (auto simp: sem_inv_def num_upd [OF assms(1)])

lemma hand_to_upgrader:
  assumes "finite T" "sem_inv prio T s q" "sem_mode s = SemRead" "inside s = 2" "upgrader_waiting s"
    "u \<in> T" "q u = WaitUpgrade" "t \<in> T" "q t = Reading \<or> q t = WokenUpgrade"
  shows "sem_inv prio T (s\<lparr>inside := 1, sem_mode := SemWrite\<rparr>) (q(u := WokenUpgrade, t := Outside))"
proof -
  have "best_upgrader s = prio u" "u \<noteq> t"
    using at_prio_unique [OF assms(1), of q WaitUpgrade prio "best_upgrader s" u] assms by (auto simp: sem_inv_def)
  then have "at_prio prio T (q(u := WokenUpgrade, t := Outside)) WokenUpgrade (best_upgrader s)"
    using assms(6) by (auto simp: at_prio_def)
  with \<open>u \<noteq> t\<close> show ?thesis
    using num_here [OF assms(1,8), of q] assms(2-9) num_bounds [of T q] num_total [OF assms(1), of q]
    by (auto simp: sem_inv_def num_upd [OF assms(1)])
qed

lemma reader_leaves:
  assumes "finite T" "sem_inv prio T s q" "sem_mode s = SemRead" "2 \<le> inside s" "upgrader_waiting s \<longrightarrow> inside s \<noteq> 2"
    "t \<in> T" "q t = Reading \<or> q t = WokenUpgrade"
  shows "sem_inv prio T (s\<lparr>inside := inside s - 1\<rparr>) (q(t := Outside))"
  using num_here [OF assms(1,6), of q] assms(2-7) num_bounds [of T q] num_total [OF assms(1), of q]
  by (auto simp: sem_inv_def num_upd [OF assms(1)] split: if_splits)

lemma signal_waiting:
  assumes "wake_up (Some (Signal c)) q q'" "sem_inv prio T s q" "\<exists>u. waits_on c (q u)"
  obtains u where "u \<in> T" "waits_on c (q u)" "q' = q(u := woken (q u))"
proof -
  obtain u where u: "waits_on c (q u)" "q' = q(u := woken (q u))"
    using assms(1,3) by (auto simp: wake_Signal)
  moreover have "u \<in> T"
    using in_threads [OF assms(2), of u] u(1) by (cases c) auto
  ultimately show ?thesis
    using that by blast
qed

lemma unlock_as_keeps:
  assumes ok: "threads_ok prio T" and s: "sem_inv prio T s q" and t: "t \<in> T"
    and q: "q t = Reading \<or> q t = Writing \<or> q t = WokenUpgrade \<and> sem_mode s = SemRead"
    and out: "(if r then yes else no) = Outside"
  shows "keeps (sem_inv prio T) (rwuj_unlock_as r no_error s) t yes no w q"
proof -
  have fin: "finite T" and c: "card T \<le> 65535"
    using ok by (auto simp: threads_ok_def)
  have m: "sem_mode s = SemRead \<and> q t \<noteq> Writing \<or> sem_mode s = SemWrite \<and> q t = Writing"
    using s q t num_here [OF fin t, of q] num_total [OF fin, of q] num_bounds [of T q]
    by (auto simp: sem_inv_def split: LockMode.splits)
  have ins: "1 \<le> inside s" "inside s < 65536" "sem_mode s = SemWrite \<Longrightarrow> inside s = 1"
    using s m c num_total [OF fin, of q] num_bounds [of T q] by (auto simp: sem_inv_def)
  have up: "\<not> upgrader_waiting s" if "inside s = 1"
    using s m that num_here [OF fin t, of q] num_pos [OF fin, of q WokenUpgrade] num_bounds [of T q]
    by (auto simp: sem_inv_def at_prio_def)
  have q': "q t = Writing \<or> q t = Reading" if "inside s = 1"
    using s m that up [OF that] q num_here [OF fin t, of q] by (auto simp: sem_inv_def)
  show ?thesis
  proof (cases "inside s = 1")
    case True
    note one = True up [OF True] q' [OF True]
    have toW: "sem_inv prio T (s\<lparr>inside := 1, writers_waiting := u16 (writers_waiting s - 1), sem_mode := SemWrite\<rparr>)
        (q'(t := Outside))" if wk: "wake_up (Some (Signal writer_cond)) q q'" and "0 < writers_waiting s" for q'
    proof -
      have "\<exists>u. waits_on writer_cond (q u)"
        using s that(2) num_pos [OF fin, of q WaitWrite] by (auto simp: sem_inv_def)
      from signal_waiting [OF wk s this] show ?thesis
        using hand_to_writer [OF fin s one(1,2) _ _ t one(3) c] by force
    qed
    have rd: "0 < writers_waiting s" if "0 < readers_waiting s" "sem_mode s = SemRead"
      using s that one(2) by (simp add: sem_inv_def)
    have nn: "0 \<le> readers_waiting s" "0 \<le> writers_waiting s"
      using s num_bounds [of T q] by (simp_all add: sem_inv_def)
    consider "0 < readers_waiting s" "sem_mode s = SemWrite" | "0 < readers_waiting s" "sem_mode s = SemRead"
      | "readers_waiting s = 0" "0 < writers_waiting s" | "readers_waiting s = 0" "writers_waiting s = 0"
      using nn m by fastforce
    then show ?thesis
    proof cases
      case 1
      then show ?thesis
        using hand_to_readers [OF fin s 1(2) one(2) 1(1) t] one out m
        by (simp add: rwuj_unlock_as_def Let_def no_error_def u16_def cong: if_cong)
    next
      case 2
      then show ?thesis
        using toW rd one out by (simp add: rwuj_unlock_as_def Let_def no_error_def u16_def)
    next
      case 3
      then show ?thesis
        using toW one out m by (auto simp: rwuj_unlock_as_def Let_def no_error_def u16_def mode_then_writers)
    next
      case 4
      then show ?thesis
        using hand_to_none [OF fin s one(1,2) 4 t] one out m
        by (auto simp: rwuj_unlock_as_def Let_def no_error_def u16_def)
    qed
  next
    case False
    then have f: "sem_mode s = SemRead" "2 \<le> inside s" "u16 (inside s - 1) = inside s - 1" "u16 (inside s - 1) \<noteq> 0"
      using ins m by (auto simp: u16_id)
    show ?thesis
    proof (cases "upgrader_waiting s \<and> inside s = 2")
      case True
      have "sem_inv prio T (s\<lparr>inside := 1, sem_mode := SemWrite\<rparr>) (q'(t := Outside))"
        if wk: "wake_up (Some (Signal upgrader_cond)) q q'" for q'
      proof -
        have "\<exists>u. waits_on upgrader_cond (q u)"
          using s f(1) True by (auto simp: sem_inv_def at_prio_def)
        from signal_waiting [OF wk s this] show ?thesis
          using hand_to_upgrader [OF fin s f(1) _ _ _ _ t] True m q f(1) by force
      qed
      moreover have "best_upgrader s \<noteq> NO_UPGRADER"
        using s True f(1) ok by (auto simp: sem_inv_def at_prio_def threads_ok_def)
      ultimately show ?thesis
        using True f out ins(1) by (simp add: rwuj_unlock_as_def Let_def no_error_def)
    next
      case False
      then show ?thesis
        using reader_leaves [OF fin s f(1,2) _ t] f out ins(1) m q
        by (auto simp: rwuj_unlock_as_def Let_def no_error_def)
    qed
  qed
qed

lemma reading_mode:
  assumes "finite T" "sem_inv prio T s q" "t \<in> T" "q t = Reading"
  shows "sem_mode s = SemRead"
  using assms num_here [OF assms(1,3), of q] num_total [OF assms(1), of q] num_bounds [of T q]
  by (auto simp: sem_inv_def split: LockMode.splits)

lemma new_upgrader:
  assumes "finite T" "sem_inv prio T s q" "t \<in> T" "q t = Reading" "inside s \<noteq> 1" "u \<in> T" "q u = WaitUpgrade"
    "upgrader_waiting s"
  shows "sem_inv prio T (s\<lparr>best_upgrader := prio t\<rparr>) (q(u := WokenUpgrade, t := WaitUpgrade))"
proof -
  have "at_prio prio T (q(u := WokenUpgrade, t := WaitUpgrade)) WaitUpgrade (prio t)" "u \<noteq> t"
    using assms(3,4,7) by (auto simp: at_prio_def)
  then show ?thesis
    using assms reading_mode [OF assms(1-4)] num_here [OF assms(1,3), of q] num_bounds [of T q]
    by (simp add: sem_inv_def num_upd [OF assms(1)])
qed

lemma lock_upgrade_keeps:
  assumes ok: "threads_ok prio T" and s: "sem_inv prio T s q" and t: "t \<in> T" "q t = Reading"
  shows "keeps (sem_inv prio T) (rwuj_lock_upgrade no_error (prio t) s) t Writing Outside WaitUpgrade q"
proof -
  have fin: "finite T"
    using ok by (simp add: threads_ok_def)
  note m = reading_mode [OF fin s t]
  note num = num_here [OF fin t(1), of q] num_bounds [of T q] num_total [OF fin, of q]
  consider "inside s = 1" | "inside s \<noteq> 1" "upgrader_waiting s" "prio t < best_upgrader s"
    | "inside s \<noteq> 1" "upgrader_waiting s" "\<not> prio t < best_upgrader s" | "inside s \<noteq> 1" "\<not> upgrader_waiting s"
    by blast
  then show ?thesis
  proof cases
    case 1
    then have "sem_inv prio T (s\<lparr>sem_mode := SemWrite, upgrader_waiting := False, best_upgrader := NO_UPGRADER\<rparr>) (q(t := Writing))"
      using s t m num by (auto simp: sem_inv_def num_upd [OF fin] split: if_splits)
    with 1 m show ?thesis
      by (simp add: rwuj_lock_upgrade_def)
  next
    case 4
    have "at_prio prio T (q(t := WaitUpgrade)) WaitUpgrade (prio t)"
      using t by (auto simp: at_prio_def)
    with 4 have "sem_inv prio T (s\<lparr>upgrader_waiting := True, best_upgrader := prio t\<rparr>) (q(t := WaitUpgrade))"
      using s t m num by (simp add: sem_inv_def num_upd [OF fin])
    with 4 m s show ?thesis
      by (simp add: rwuj_lock_upgrade_def sem_inv_def)
  next
    case 2
    obtain b where b: "b \<in> T" "q b = WaitUpgrade" "best_upgrader s = prio b"
      using s m 2(2) by (auto simp: sem_inv_def at_prio_def)
    have "sem_inv prio T (s\<lparr>best_upgrader := prio t\<rparr>) (q'(t := WaitUpgrade))"
      if wk: "wake_up (Some (Signal upgrader_cond)) q q'" for q'
      using signal_waiting [OF wk s] new_upgrader [OF fin s t 2(1) _ _ 2(2)] b(2) by force
    with 2 m b ok show ?thesis
      by (auto simp: rwuj_lock_upgrade_def threads_ok_def no_error_def)
  next
    case 3
    obtain b where b: "b \<in> T" "q b = WaitUpgrade" "best_upgrader s = prio b"
      using s m 3(2) by (auto simp: sem_inv_def at_prio_def)
    then have "best_upgrader s \<noteq> prio t" "best_upgrader s \<noteq> NO_UPGRADER"
      using ok t by (auto simp: threads_ok_def inj_on_def)
    with 3 m t show ?thesis
      using unlock_as_keeps [OF ok s t(1), of False] by (simp add: rwuj_lock_upgrade_def)
  qed
qed

lemma upgrade_woken_keeps:
  assumes ok: "threads_ok prio T" and s: "sem_inv prio T s q" and t: "t \<in> T" "q t = WokenUpgrade"
  shows "keeps (sem_inv prio T) (rwuj_upgrade_woken True f no_error (prio t) s) t Writing Outside WaitUpgrade q"
proof -
  have fin: "finite T"
    using ok by (simp add: threads_ok_def)
  note num = num_here [OF fin t(1), of q] num_bounds [of T q] num_total [OF fin, of q]
  show ?thesis
  proof (cases "sem_mode s")
    case SemRead
    then have "upgrader_waiting s"
      using s t num by (auto simp: sem_inv_def split: if_splits)
    then obtain b where b: "b \<in> T" "q b = WaitUpgrade" "best_upgrader s = prio b"
      using s SemRead by (auto simp: sem_inv_def at_prio_def)
    then have "best_upgrader s \<noteq> prio t" "best_upgrader s \<noteq> NO_UPGRADER"
      using ok t by (auto simp: threads_ok_def inj_on_def)
    with \<open>upgrader_waiting s\<close> show ?thesis
      using unlock_as_keeps [OF ok s t(1), of False] SemRead t by (simp add: rwuj_upgrade_woken_def)
  next
    case SemWrite
    then have u: "upgrader_waiting s" "num T q WokenUpgrade = 1" "at_prio prio T q WokenUpgrade (best_upgrader s)"
      using s t num by (auto simp: sem_inv_def split: if_splits)
    then have "best_upgrader s = prio t"
      using at_prio_unique [OF fin u(2,3) t(2,1)] by simp
    moreover have "sem_inv prio T (s\<lparr>upgrader_waiting := False, best_upgrader := NO_UPGRADER\<rparr>) (q(t := Writing))"
      using s t u SemWrite num by (simp add: sem_inv_def num_upd [OF fin])
    ultimately show ?thesis
      using s u(1) SemWrite by (simp add: rwuj_upgrade_woken_def sem_inv_def)
  qed (use s t num in \<open>auto simp: sem_inv_def\<close>)
qed

section \<open>The contract of a monitor\<close>

text \<open>What the operations of a semaphore promise about an invariant, and what follows for the threads that use it.\<close>

fun blocked :: "status \<Rightarrow> bool" where
  "blocked x = (x \<in> {Outside, WaitRead, WaitWrite, WaitUpgrade})"

fun can_write :: "status \<Rightarrow> bool" where
  "can_write x = (x = Writing \<or> x = WokenWrite)"

fun can_read :: "status \<Rightarrow> bool" where
  "can_read x = (x = Reading \<or> x = WokenRead)"

text \<open>How far a thread is from being outside again.\<close>

fun rank :: "status \<Rightarrow> nat" where
  "rank Outside = 0"
| "rank Reading = 1"
| "rank Writing = 1"
| "rank WokenRead = 2"
| "rank WokenWrite = 2"
| "rank WokenUpgrade = 2"
| "rank WaitRead = 3"
| "rank WaitWrite = 3"
| "rank WaitUpgrade = 3"

definition total_rank :: "'t set \<Rightarrow> ('t, 's) system \<Rightarrow> nat" where
  "total_rank T z = (\<Sum>t\<in>T. rank (st z t))"

lemma wake_up_rank:
  assumes "wake_up k q q'"
  shows "rank (q' t) \<le> rank (q t)" "\<not> blocked (q t) \<Longrightarrow> q' t = q t"
proof -
  have w: "rank (woken x) \<le> rank x" for x
    by (cases x) simp_all
  have b: "\<not> waits_on c x" if "\<not> blocked x" for c x
    using that by (cases c; cases x) simp_all
  show "rank (q' t) \<le> rank (q t)" "\<not> blocked (q t) \<Longrightarrow> q' t = q t"
    using assms w b by (cases; fastforce)+
qed

lemma wake_up_exists: "\<exists>q'. wake_up k q q'"
proof (cases k)
  case (Some x)
  then show ?thesis
    by (cases x) (auto simp: wake_Signal)
qed simp

lemma settle_rank:
  assumes "settle oc t yes no w z z'" "finite T" "t \<in> T" "\<not> blocked (st z t)" "\<And>k s' c. oc \<noteq> Waits k s' c"
    "oc \<noteq> AssertFails" "rank yes < rank (st z t)" "rank no < rank (st z t)"
  shows "total_rank T z' < total_rank T z"
  using assms(1)
proof cases
  case (settle_returns k s' r q)
  have "rank ((q(t := (if r then yes else no))) u) \<le> rank (st z u)" for u
    using wake_up_rank [OF settle_returns(3)] assms(7,8) by (cases "u = t") (auto intro: less_imp_le)
  moreover have "rank ((q(t := (if r then yes else no))) t) < rank (st z t)"
    using assms(7,8) by simp
  ultimately show ?thesis
    unfolding total_rank_def settle_returns(1) using assms(2,3)
    by (intro sum_strict_mono_ex1) auto
qed (use assms(5,6) in auto)

lemma keeps_settles:
  assumes "keeps J oc t yes no w (st z)"
  shows "\<exists>z'. settle oc t yes no w z z'"
  using assms wake_up_exists [of _ "st z"]
  by (cases oc) (auto simp: settle_Returns settle_Waits keeps_def)

locale monitor =
  fixes ops :: "'s sem_ops" and s0 :: 's
    and I :: "('t \<Rightarrow> int) \<Rightarrow> 't set \<Rightarrow> 's \<Rightarrow> ('t \<Rightarrow> status) \<Rightarrow> bool"
  assumes start: "I prio T s0 (\<lambda>_. Outside)"
    and law_read: "threads_ok prio T \<Longrightarrow> I prio T s q \<Longrightarrow> t \<in> T \<Longrightarrow> q t = Outside
      \<Longrightarrow> keeps (I prio T) (o_lock_read ops s) t Reading Outside WaitRead q"
    and law_read_woken: "threads_ok prio T \<Longrightarrow> I prio T s q \<Longrightarrow> t \<in> T \<Longrightarrow> q t = WokenRead
      \<Longrightarrow> keeps (I prio T) (o_read_woken ops s) t Reading Outside WaitRead q"
    and law_write: "threads_ok prio T \<Longrightarrow> I prio T s q \<Longrightarrow> t \<in> T \<Longrightarrow> q t = Outside
      \<Longrightarrow> keeps (I prio T) (o_lock_write ops s) t Writing Outside WaitWrite q"
    and law_write_woken: "threads_ok prio T \<Longrightarrow> I prio T s q \<Longrightarrow> t \<in> T \<Longrightarrow> q t = WokenWrite
      \<Longrightarrow> keeps (I prio T) (o_write_woken ops s) t Writing Outside WaitWrite q"
    and law_upgrade: "threads_ok prio T \<Longrightarrow> I prio T s q \<Longrightarrow> t \<in> T \<Longrightarrow> o_upgrades ops \<Longrightarrow> q t = Reading
      \<Longrightarrow> keeps (I prio T) (o_upgrade ops (prio t) s) t Writing Outside WaitUpgrade q"
    and law_upgrade_woken: "threads_ok prio T \<Longrightarrow> I prio T s q \<Longrightarrow> t \<in> T \<Longrightarrow> q t = WokenUpgrade
      \<Longrightarrow> keeps (I prio T) (o_upgrade_woken ops (prio t) s) t Writing Outside WaitUpgrade q"
    and law_unlock: "threads_ok prio T \<Longrightarrow> I prio T s q \<Longrightarrow> t \<in> T \<Longrightarrow> q t = Reading \<or> q t = Writing
      \<Longrightarrow> keeps (I prio T) (o_unlock ops s) t Outside Outside WaitRead q"
    and exclusive: "threads_ok prio T \<Longrightarrow> I prio T s q \<Longrightarrow> can_write (q t) \<Longrightarrow> can_write (q u) \<or> can_read (q u) \<Longrightarrow> u = t"
    and progress: "threads_ok prio T \<Longrightarrow> I prio T s q \<Longrightarrow> q t \<noteq> Outside \<Longrightarrow> \<exists>u\<in>T. \<not> blocked (q u)"
    and no_wait: "o_read_woken ops s \<noteq> Waits k s' c" "o_write_woken ops s \<noteq> Waits k s' c"
      "o_upgrade_woken ops p s \<noteq> Waits k s' c" "o_unlock ops s \<noteq> Waits k s' c"
begin

lemma request_keeps:
  assumes "threads_ok prio T" "request_step ops prio T z z'" "I prio T (sem z) (st z)" "\<not> failed z"
  shows "I prio T (sem z') (st z') \<and> \<not> failed z'"
  using assms(2)
proof cases
  case (ask_read t)
  then show ?thesis
    using settle_keeps [OF ask_read(3) law_read [OF assms(1,3)]] assms(4) by blast
next
  case (ask_write t)
  then show ?thesis
    using settle_keeps [OF ask_write(3) law_write [OF assms(1,3)]] assms(4) by blast
next
  case (ask_upgrade t)
  then show ?thesis
    using settle_keeps [OF ask_upgrade(4) law_upgrade [OF assms(1,3)]] assms(4) by blast
qed

lemma release_keeps:
  assumes "threads_ok prio T" "release_step ops prio T z z'" "I prio T (sem z) (st z)" "\<not> failed z"
  shows "I prio T (sem z') (st z') \<and> \<not> failed z'"
  using assms(2)
proof cases
  case (go_read t)
  then show ?thesis
    using settle_keeps [OF go_read(3) law_read_woken [OF assms(1,3)]] assms(4) by blast
next
  case (go_write t)
  then show ?thesis
    using settle_keeps [OF go_write(3) law_write_woken [OF assms(1,3)]] assms(4) by blast
next
  case (go_upgrade t)
  then show ?thesis
    using settle_keeps [OF go_upgrade(3) law_upgrade_woken [OF assms(1,3)]] assms(4) by blast
next
  case (leave t)
  then show ?thesis
    using settle_keeps [OF leave(3) law_unlock [OF assms(1,3)]] assms(4) by blast
qed

lemma reachable_inv:
  assumes "threads_ok prio T" "reachable ops prio T s0 z"
  shows "I prio T (sem z) (st z) \<and> \<not> failed z"
  using assms(2) by induction (auto simp: start dest: request_keeps [OF assms(1)] release_keeps [OF assms(1)])

lemma release_decreases:
  fixes T :: "'t set"
  assumes "threads_ok prio T" "reachable ops prio T s0 z" "release_step ops prio T z z'"
  shows "total_rank T z' < total_rank T z"
proof -
  have i: "I prio T (sem z) (st z)" and fin: "finite T"
    using reachable_inv [OF assms(1,2)] assms(1) by (auto simp: threads_ok_def)
  show ?thesis
    using assms(3)
  proof cases
    case (go_read t)
    then show ?thesis
      using law_read_woken [OF assms(1) i go_read(1,2)] by (intro settle_rank [OF go_read(3) fin]) (auto simp: no_wait)
  next
    case (go_write t)
    then show ?thesis
      using law_write_woken [OF assms(1) i go_write(1,2)] by (intro settle_rank [OF go_write(3) fin]) (auto simp: no_wait)
  next
    case (go_upgrade t)
    then show ?thesis
      using law_upgrade_woken [OF assms(1) i go_upgrade(1,2)] by (intro settle_rank [OF go_upgrade(3) fin]) (auto simp: no_wait)
  next
    case (leave t)
    then show ?thesis
      using law_unlock [OF assms(1) i leave(1,2)] by (intro settle_rank [OF leave(3) fin]) (auto simp: no_wait)
  qed
qed

lemma can_go_on:
  fixes T :: "'t set"
  assumes "threads_ok prio T" "reachable ops prio T s0 z" "st z t \<noteq> Outside"
  shows "\<exists>z'. release_step ops prio T z z'"
proof -
  have i: "I prio T (sem z) (st z)"
    using reachable_inv [OF assms(1,2)] by simp
  obtain u where u: "u \<in> T" "\<not> blocked (st z u)"
    using progress [OF assms(1) i assms(3)] by blast
  consider "st z u = WokenRead" | "st z u = WokenWrite" | "st z u = WokenUpgrade" | "st z u = Reading \<or> st z u = Writing"
    using u(2) by (cases "st z u") auto
  then show ?thesis
  proof cases
    case 1
    then show ?thesis
      using keeps_settles [OF law_read_woken [OF assms(1) i u(1)]] u(1) by (blast intro: go_read)
  next
    case 2
    then show ?thesis
      using keeps_settles [OF law_write_woken [OF assms(1) i u(1)]] u(1) by (blast intro: go_write)
  next
    case 3
    then show ?thesis
      using keeps_settles [OF law_upgrade_woken [OF assms(1) i u(1)]] u(1) by (blast intro: go_upgrade)
  next
    case 4
    then show ?thesis
      using keeps_settles [OF law_unlock [OF assms(1) i u(1)]] u(1) by (blast intro: leave)
  qed
qed

lemma reachable_releases:
  assumes "(release_step ops prio T)\<^sup>*\<^sup>* z z'" "reachable ops prio T s0 z"
  shows "reachable ops prio T s0 z'"
  using assms by (induction rule: rtranclp_induct) (auto intro: reach_release)

text \<open>If no thread asks for the semaphore any more, it becomes free after a bounded number of steps.\<close>

lemma drains:
  fixes T :: "'t set"
  assumes "threads_ok prio T" "reachable ops prio T s0 z"
  shows "\<And>n z'. (release_step ops prio T ^^ n) z z' \<Longrightarrow> n \<le> total_rank T z"
    "\<And>z'. (release_step ops prio T)\<^sup>*\<^sup>* z z' \<Longrightarrow> \<nexists>z''. release_step ops prio T z' z'' \<Longrightarrow> st z' t = Outside"
proof -
  have "reachable ops prio T s0 z' \<and> total_rank T z' + n \<le> total_rank T z"
    if "(release_step ops prio T ^^ n) z z'" for n z'
    using that
  proof (induction n arbitrary: z')
    case (Suc n)
    then obtain y where "reachable ops prio T s0 y" "total_rank T y + n \<le> total_rank T z" "release_step ops prio T y z'"
      by auto
    then show ?case
      using release_decreases [OF assms(1), of y z'] by (auto intro: reach_release)
  qed (simp add: assms(2))
  then show "\<And>n z'. (release_step ops prio T ^^ n) z z' \<Longrightarrow> n \<le> total_rank T z"
    by force
  show "\<And>z'. (release_step ops prio T)\<^sup>*\<^sup>* z z' \<Longrightarrow> \<nexists>z''. release_step ops prio T z' z'' \<Longrightarrow> st z' t = Outside"
    using can_go_on [OF assms(1)] reachable_releases [OF _ assms(2)] by metis
qed

end

section \<open>The two semaphores are monitors\<close>

lemma sem_inv_start: "sem_inv prio T RWUJSemaphore_new (\<lambda>_. Outside)"
  by (simp add: sem_inv_def RWUJSemaphore_new_def only_in_def num_def)

lemma sem_inv_exclusive:
  assumes ok: "threads_ok prio T" and s: "sem_inv prio T s q"
    and t: "can_write (q t)" and u: "can_write (q u) \<or> can_read (q u)"
  shows "u = t"
proof -
  have fin: "finite T" and T: "t \<in> T" "u \<in> T"
    using ok in_threads [OF s, of t] in_threads [OF s, of u] t u by (auto simp: threads_ok_def)
  note num = num_here [OF fin T(1), of q] num_here [OF fin T(2), of q] num_total [OF fin, of q] num_bounds [of T q]
  have m: "sem_mode s = SemWrite"
    using s t num by (auto simp: sem_inv_def split: LockMode.splits)
  with s have c: "num T q Reading = 0" "num T q WokenRead = 0"
    "num T q Writing + num T q WokenWrite + num T q WokenUpgrade = 1"
    by (simp_all add: sem_inv_def)
  then have "q u = q t" "num T q (q t) = 1"
    using t u num by auto
  then show ?thesis
    using num_one [OF fin, of q "q t" u t] T by simp
qed

lemma sem_inv_progress:
  assumes ok: "threads_ok prio T" and s: "sem_inv prio T s q" and t: "q t \<noteq> Outside"
  shows "\<exists>u\<in>T. \<not> blocked (q u)"
proof (rule ccontr)
  assume "\<not> (\<exists>u\<in>T. \<not> blocked (q u))"
  then have b: "blocked (q u)" if "u \<in> T" for u
    using that by blast
  have fin: "finite T" and T: "t \<in> T"
    using ok in_threads [OF s t] by (auto simp: threads_ok_def)
  have "num T q x = 0" if "\<not> blocked x" for x
    using num_zero [OF fin, of q x] b that by auto
  then have "num T q Reading = 0" "num T q Writing = 0" "num T q WokenRead = 0" "num T q WokenWrite = 0"
    "num T q WokenUpgrade = 0"
    by simp_all
  then show False
    using s t num_here [OF fin T, of q] num_total [OF fin, of q] num_bounds [of T q]
    by (cases "q t"; cases "sem_mode s") (auto simp: sem_inv_def split: if_splits)
qed

lemma rwuj_no_wait:
  "rwuj_unlock_as r f s \<noteq> Waits k s' c" "rwuj_unlock f s \<noteq> Waits k s' c" "rw_read_woken ok s1 \<noteq> Waits k1 s2 c" "rw_write_woken ok s1 \<noteq> Waits k1 s2 c"
  "rwuj_upgrade_woken ok b f p s \<noteq> Waits k s' c" "rw_unlock f s1 \<noteq> Waits k1 s2 c"
proof -
  show u: "rwuj_unlock_as r f s \<noteq> Waits k s' c" for r
    by (auto simp: rwuj_unlock_as_def assert_that_def Let_def)
  show "rwuj_unlock f s \<noteq> Waits k s' c"
    using u by (simp add: rwuj_unlock_def)
  show "rw_read_woken ok s1 \<noteq> Waits k1 s2 c" "rw_write_woken ok s1 \<noteq> Waits k1 s2 c"
    by (simp_all add: rw_read_woken_def rw_write_woken_def assert_that_def)
  show "rwuj_upgrade_woken ok b f p s \<noteq> Waits k s' c"
    using u by (simp add: rwuj_upgrade_woken_def assert_that_def)
  show "rw_unlock f s1 \<noteq> Waits k1 s2 c"
    by (auto simp: rw_unlock_def assert_that_def Let_def)
qed

lemma unlock_keeps:
  assumes "threads_ok prio T" "sem_inv prio T s q" "t \<in> T" "q t = Reading \<or> q t = Writing"
  shows "keeps (sem_inv prio T) (rwuj_unlock no_error s) t Outside Outside WaitRead q"
  unfolding rwuj_unlock_def using assms by (intro unlock_as_keeps) auto

interpretation rwuj: monitor rwuj_ops RWUJSemaphore_new sem_inv
  by unfold_locales
    (simp_all add: rwuj_ops_def sem_inv_start lock_read_keeps lock_write_keeps read_woken_keeps write_woken_keeps
      lock_upgrade_keeps upgrade_woken_keeps unlock_keeps rwuj_no_wait sem_inv_exclusive sem_inv_progress
      del: can_write.simps can_read.simps blocked.simps)

text \<open>\<open>RWSemaphore\<close> behaves as an \<open>RWUJSemaphore\<close> that nobody upgrades.\<close>

definition never_upgraded :: "rwsem \<Rightarrow> rwujsem" where
  "never_upgraded s = \<lparr>writers_waiting = writers_waiting s, readers_waiting = readers_waiting s, inside = inside s,
     sem_mode = sem_mode s, upgrader_waiting = False, best_upgrader = NO_UPGRADER\<rparr>"

lemma never_upgraded_sel [simp]:
  "writers_waiting (never_upgraded s) = writers_waiting s" "readers_waiting (never_upgraded s) = readers_waiting s"
  "inside (never_upgraded s) = inside s" "sem_mode (never_upgraded s) = sem_mode s"
  "\<not> upgrader_waiting (never_upgraded s)" "best_upgrader (never_upgraded s) = NO_UPGRADER"
  by (simp_all add: never_upgraded_def)

lemma never_upgraded_upd [simp]:
  "never_upgraded (s\<lparr>writers_waiting := x\<rparr>) = (never_upgraded s)\<lparr>writers_waiting := x\<rparr>"
  "never_upgraded (s\<lparr>readers_waiting := x\<rparr>) = (never_upgraded s)\<lparr>readers_waiting := x\<rparr>"
  "never_upgraded (s\<lparr>inside := x\<rparr>) = (never_upgraded s)\<lparr>inside := x\<rparr>"
  "never_upgraded (s\<lparr>sem_mode := y\<rparr>) = (never_upgraded s)\<lparr>sem_mode := y\<rparr>"
  by (simp_all add: never_upgraded_def)

lemma map_assert_that [simp]: "map_outcome f g (assert_that p k) = assert_that p (map_outcome f g k)"
  by (simp add: assert_that_def)

lemma assert_that_cong: "p = p' \<Longrightarrow> (p' \<Longrightarrow> k = k') \<Longrightarrow> assert_that p k = assert_that p' k'"
  by (simp add: assert_that_def)

lemma rw_as_rwuj:
  assumes "0 \<le> writers_waiting s"
  shows "rwuj_lock_read (never_upgraded s) = map_outcome never_upgraded id (rw_lock_read s)"
    "rwuj_lock_write (never_upgraded s) = map_outcome never_upgraded id (rw_lock_write s)"
    "rwuj_unlock no_error (never_upgraded s) = map_outcome never_upgraded id (rw_unlock no_error s)"
    "rw_read_woken ok (never_upgraded s) = map_outcome never_upgraded id (rw_read_woken ok s)"
    "rw_write_woken ok (never_upgraded s) = map_outcome never_upgraded id (rw_write_woken ok s)"
  using assms
  by (auto simp: rwuj_lock_read_def rw_lock_read_def rwuj_lock_write_def rw_lock_write_def rwuj_unlock_def
      rwuj_unlock_as_def rw_unlock_def rw_read_woken_def rw_write_woken_def assert_that_def Let_def no_error_def)

lemma keeps_map: "keeps J (map_outcome f id oc) t yes no w q \<longleftrightarrow> keeps (\<lambda>s. J (f s)) oc t yes no w q"
  by (cases oc) (simp_all add: keeps_def)

definition rw_inv :: "('t \<Rightarrow> int) \<Rightarrow> 't set \<Rightarrow> rwsem \<Rightarrow> ('t \<Rightarrow> status) \<Rightarrow> bool" where
  "rw_inv prio T s q \<longleftrightarrow> sem_inv prio T (never_upgraded s) q"

lemma rw_inv_never: "finite T \<Longrightarrow> rw_inv prio T s q \<Longrightarrow> t \<in> T \<Longrightarrow> q t \<noteq> WokenUpgrade \<and> q t \<noteq> WaitUpgrade"
  using num_here [of T t q] num_total [of T q] num_bounds [of T q]
  by (auto simp: rw_inv_def sem_inv_def split: LockMode.splits)

lemma rw_keeps:
  assumes "threads_ok prio T" "rw_inv prio T s q" "t \<in> T"
  shows "q t = Outside \<Longrightarrow> keeps (rw_inv prio T) (rw_lock_read s) t Reading Outside WaitRead q"
    "q t = Outside \<Longrightarrow> keeps (rw_inv prio T) (rw_lock_write s) t Writing Outside WaitWrite q"
    "q t = WokenRead \<Longrightarrow> keeps (rw_inv prio T) (rw_read_woken True s) t Reading Outside WaitRead q"
    "q t = WokenWrite \<Longrightarrow> keeps (rw_inv prio T) (rw_write_woken True s) t Writing Outside WaitWrite q"
    "q t = Reading \<or> q t = Writing \<Longrightarrow> keeps (rw_inv prio T) (rw_unlock no_error s) t Outside Outside WaitRead q"
proof -
  have w: "0 \<le> writers_waiting s"
    using assms(2) num_bounds [of T q] by (simp add: rw_inv_def sem_inv_def)
  have i: "rw_inv prio T = (\<lambda>s. sem_inv prio T (never_upgraded s))"
    by (simp add: rw_inv_def fun_eq_iff)
  note s = assms(2) [unfolded rw_inv_def]
  note k = rw_as_rwuj [OF w, symmetric] keeps_map [symmetric, of "sem_inv prio T" never_upgraded]
  show "q t = Outside \<Longrightarrow> keeps (rw_inv prio T) (rw_lock_read s) t Reading Outside WaitRead q"
    "q t = Outside \<Longrightarrow> keeps (rw_inv prio T) (rw_lock_write s) t Writing Outside WaitWrite q"
    "q t = WokenRead \<Longrightarrow> keeps (rw_inv prio T) (rw_read_woken True s) t Reading Outside WaitRead q"
    "q t = WokenWrite \<Longrightarrow> keeps (rw_inv prio T) (rw_write_woken True s) t Writing Outside WaitWrite q"
    "q t = Reading \<or> q t = Writing \<Longrightarrow> keeps (rw_inv prio T) (rw_unlock no_error s) t Outside Outside WaitRead q"
    using lock_read_keeps [OF assms(1) s assms(3)] lock_write_keeps [OF assms(1) s assms(3)]
      read_woken_keeps [OF assms(1) s assms(3)] write_woken_keeps [OF assms(1) s assms(3)]
      unlock_keeps [OF assms(1) s assms(3)]
    by (simp_all add: i k del: keeps_simps)
qed

interpretation rw: monitor rw_ops RWSemaphore_new rw_inv
proof
  show "rw_inv prio T RWSemaphore_new (\<lambda>_. Outside)" for prio and T :: "'t set"
    using sem_inv_start [of prio T] by (simp add: rw_inv_def never_upgraded_def RWSemaphore_new_def RWUJSemaphore_new_def)
  show "u = t" if "threads_ok prio T" "rw_inv prio T s q" "can_write (q t)" "can_write (q u) \<or> can_read (q u)"
    for prio and T :: "'t set" and s q t u
    using sem_inv_exclusive [OF that(1) that(2) [unfolded rw_inv_def] that(3,4)] .
  show "\<exists>u\<in>T. \<not> blocked (q u)" if "threads_ok prio T" "rw_inv prio T s q" "q t \<noteq> Outside"
    for prio and T :: "'t set" and s q t
    using sem_inv_progress [OF that(1) that(2) [unfolded rw_inv_def] that(3)] .
qed (auto simp: rw_ops_def rw_keeps rwuj_no_wait threads_ok_def dest: rw_inv_never)

section \<open>Properties\<close>

text \<open>Two threads with priorities 0 and 1: thread 0 holds the semaphore for writing, thread 1 waits to read.\<close>

definition two_threads :: "nat set" where "two_threads = {0, 1}"

lemma two_threads_ok: "threads_ok int two_threads"
  by (simp add: threads_ok_def two_threads_def NO_UPGRADER_def)

definition writer_and_reader :: "'s \<Rightarrow> (nat, 's) system" where
  "writer_and_reader s = \<lparr>sem = s, st = (\<lambda>_. Outside)(0 := Writing, 1 := WaitRead), failed = False\<rparr>"

lemma writer_and_reader_reachable:
  assumes "o_lock_write ops s0 = Returns None mid True" "o_lock_read ops mid = Waits None end_state reader_cond"
  shows "reachable ops int two_threads s0 (writer_and_reader end_state)"
proof -
  let ?z0 = "\<lparr>sem = s0, st = (\<lambda>_. Outside), failed = False\<rparr>"
  let ?z1 = "\<lparr>sem = mid, st = (\<lambda>_. Outside)(0 := Writing), failed = False\<rparr>"
  have "request_step ops int two_threads ?z0 ?z1"
    using assms(1) by (intro ask_write [of 0]) (simp_all add: two_threads_def settle_Returns)
  moreover have "request_step ops int two_threads ?z1 (writer_and_reader end_state)"
    using assms(2) by (intro ask_read [of 1]) (simp_all add: two_threads_def settle_Waits writer_and_reader_def)
  ultimately show ?thesis
    by (blast intro: reach_start reach_request)
qed

lemma rwuj_writer_and_reader:
  "reachable rwuj_ops int two_threads RWUJSemaphore_new (writer_and_reader
     \<lparr>writers_waiting = 0, readers_waiting = 1, inside = 1, sem_mode = SemWrite, upgrader_waiting = False, best_upgrader = -1\<rparr>)"
  by (rule writer_and_reader_reachable [where mid = "\<lparr>writers_waiting = 0, readers_waiting = 0, inside = 1,
        sem_mode = SemWrite, upgrader_waiting = False, best_upgrader = -1\<rparr>"])
    (simp_all add: rwuj_ops_def rwuj_lock_write_def rwuj_lock_read_def RWUJSemaphore_new_def assert_that_def
      NO_UPGRADER_def u16_def)

lemma rw_writer_and_reader:
  "reachable rw_ops int two_threads RWSemaphore_new (writer_and_reader
     \<lparr>writers_waiting = 0, readers_waiting = 1, inside = 1, sem_mode = SemWrite\<rparr>)"
  by (rule writer_and_reader_reachable [where mid = "\<lparr>writers_waiting = 0, readers_waiting = 0, inside = 1,
        sem_mode = SemWrite\<rparr>"])
    (simp_all add: rw_ops_def rw_lock_write_def rw_lock_read_def RWSemaphore_new_def assert_that_def u16_def)

text \<open>(C28) The semaphore with upgrades is safe: in every state that up to 65535 threads with different priorities can
  reach, no assertion of the code has failed, and a thread that may write excludes every other thread that may
  read or write.\<close>

theorem rwuj_safe:
  assumes "threads_ok prio T" "reachable rwuj_ops prio T RWUJSemaphore_new z"
  shows "\<not> failed z \<and> (\<forall>t u. can_write (st z t) \<and> (can_write (st z u) \<or> can_read (st z u)) \<longrightarrow> u = t)"
  using rwuj.reachable_inv [OF assms] rwuj.exclusive [OF assms(1)] by blast

theorem rwuj_safe_witness:
  "\<exists>z. reachable rwuj_ops int two_threads RWUJSemaphore_new z \<and> can_write (st z 0) \<and> st z 1 = WaitRead \<and> \<not> failed z
    \<and> (\<forall>t u. can_write (st z t) \<and> (can_write (st z u) \<or> can_read (st z u)) \<longrightarrow> u = t)"
proof -
  let ?z = "writer_and_reader \<lparr>writers_waiting = 0, readers_waiting = 1, inside = 1, sem_mode = SemWrite,
    upgrader_waiting = False, best_upgrader = -1\<rparr>"
  have "can_write (st ?z 0)" "st ?z 1 = WaitRead"
    by (simp_all add: writer_and_reader_def)
  then show ?thesis
    using rwuj_safe [OF two_threads_ok rwuj_writer_and_reader] rwuj_writer_and_reader by blast
qed

text \<open>(C29) Every waiting thread gets in: once no thread asks for the semaphore any more, the threads can take only a
  bounded number of further steps (a holder releases, a woken thread goes on), and when no step is possible every thread
  is outside. So no signal is lost and no thread waits forever.\<close>

theorem rwuj_drains:
  assumes "threads_ok prio T" "reachable rwuj_ops prio T RWUJSemaphore_new z"
  shows "(\<forall>n z'. (release_step rwuj_ops prio T ^^ n) z z' \<longrightarrow> n \<le> total_rank T z)
    \<and> (\<forall>z'. (release_step rwuj_ops prio T)\<^sup>*\<^sup>* z z' \<and> (\<nexists>z''. release_step rwuj_ops prio T z' z'')
         \<longrightarrow> (\<forall>t. st z' t = Outside))"
  using rwuj.drains [OF assms] by blast

theorem rwuj_drains_witness:
  "\<exists>z. reachable rwuj_ops int two_threads RWUJSemaphore_new z \<and> st z 1 = WaitRead
    \<and> (\<forall>n z'. (release_step rwuj_ops int two_threads ^^ n) z z' \<longrightarrow> n \<le> 4)"
proof -
  let ?z = "writer_and_reader \<lparr>writers_waiting = 0, readers_waiting = 1, inside = 1, sem_mode = SemWrite,
    upgrader_waiting = False, best_upgrader = -1\<rparr>"
  have "total_rank two_threads ?z = 4"
    by (simp add: total_rank_def two_threads_def writer_and_reader_def)
  moreover have "st ?z 1 = WaitRead"
    by (simp add: writer_and_reader_def)
  ultimately show ?thesis
    using rwuj_drains [OF two_threads_ok rwuj_writer_and_reader] rwuj_writer_and_reader by metis
qed

text \<open>The read-write semaphore without upgrades has the same properties: no assertion fails, writers exclude
  everyone else, and every waiting thread gets in after a bounded number of steps.\<close>

lemma rw_safe:
  assumes "threads_ok prio T" "reachable rw_ops prio T RWSemaphore_new z"
  shows "\<not> failed z \<and> (\<forall>t u. can_write (st z t) \<and> (can_write (st z u) \<or> can_read (st z u)) \<longrightarrow> u = t)
    \<and> (\<forall>n z'. (release_step rw_ops prio T ^^ n) z z' \<longrightarrow> n \<le> total_rank T z)
    \<and> (\<forall>z'. (release_step rw_ops prio T)\<^sup>*\<^sup>* z z' \<and> (\<nexists>z''. release_step rw_ops prio T z' z'')
         \<longrightarrow> (\<forall>t. st z' t = Outside))"
  using rw.reachable_inv [OF assms] rw.exclusive [OF assms(1)] rw.drains [OF assms] by blast

text \<open>The counter of waiting writers wraps at the 65536th writer, which is then not counted.\<close>

lemma writers_wrap:
  assumes "sem_mode s = SemWrite" "writers_waiting s = 65535"
  shows "rwuj_lock_write s = Waits None (s\<lparr>writers_waiting := 0\<rparr>) writer_cond"
  using assms by (simp add: rwuj_lock_write_def assert_that_def u16_def)

text \<open>(C37) The 16-bit counters of the semaphore are exact, as long as at most 65535 threads (with different priorities) use
  it: in every state that they can reach the counters are the numbers of threads that wait to read, wait to write, and are
  inside. Nothing in \<open>lock_write\<close> guards this bound (\<open>writers_wrap\<close>).\<close>

theorem rwuj_counters:
  assumes "threads_ok prio T" "reachable rwuj_ops prio T RWUJSemaphore_new z"
  shows "readers_waiting (sem z) = int (card {t \<in> T. st z t = WaitRead})
    \<and> writers_waiting (sem z) = int (card {t \<in> T. st z t = WaitWrite})
    \<and> inside (sem z) = int (card {t \<in> T. st z t \<notin> {Outside, WaitRead, WaitWrite}}) \<and> inside (sem z) \<le> 65535"
proof -
  have i: "sem_inv prio T (sem z) (st z)" and fin: "finite T" and c: "card T \<le> 65535"
    using rwuj.reachable_inv [OF assms] assms(1) by (auto simp: threads_ok_def)
  have "int (card {t \<in> T. st z t \<notin> {Outside, WaitRead, WaitWrite}})
    = int (card T) - num T (st z) Outside - num T (st z) WaitRead - num T (st z) WaitWrite"
  proof -
    let ?A = "{t \<in> T. st z t \<notin> {Outside, WaitRead, WaitWrite}}"
    have "T = ?A \<union> ({t \<in> T. st z t = Outside} \<union> ({t \<in> T. st z t = WaitRead} \<union> {t \<in> T. st z t = WaitWrite}))"
      by auto
    then have "card T = card (?A \<union> ({t \<in> T. st z t = Outside} \<union> ({t \<in> T. st z t = WaitRead} \<union> {t \<in> T. st z t = WaitWrite})))"
      by simp
    also have "\<dots> = card ?A + (card {t \<in> T. st z t = Outside} + (card {t \<in> T. st z t = WaitRead} + card {t \<in> T. st z t = WaitWrite}))"
      using fin by (subst card_Un_disjoint, auto)+
    finally show ?thesis
      by (simp add: num_def)
  qed
  then show ?thesis
    using i num_total [OF fin, of "st z"] num_bounds [of T "st z"] c
    by (cases "sem_mode (sem z)") (auto simp: sem_inv_def num_def split: if_splits)
qed

theorem rwuj_counters_witness:
  "\<exists>z. reachable rwuj_ops int two_threads RWUJSemaphore_new z \<and> readers_waiting (sem z) = 1
    \<and> int (card {t \<in> two_threads. st z t = WaitRead}) = 1"
proof -
  let ?s = "\<lparr>writers_waiting = 0, readers_waiting = 1, inside = 1, sem_mode = SemWrite,
    upgrader_waiting = False, best_upgrader = -1\<rparr>"
  have "readers_waiting (sem (writer_and_reader ?s)) = 1"
    by (simp add: writer_and_reader_def)
  then show ?thesis
    using rwuj_counters [OF two_threads_ok rwuj_writer_and_reader] rwuj_writer_and_reader by metis
qed

text \<open>If signalling fails, \<open>RWSemaphore::unlock\<close> throws and leaves the semaphore as it was.\<close>

lemma rw_unlock_exception_safe:
  assumes "rw_unlock fails s = Throws s'" "0 \<le> writers_waiting s" "writers_waiting s < 65536" "inside s < 65536"
  shows "s' = s"
proof -
  have "inside s = 1"
    using assms(1,4) by (auto simp: rw_unlock_def assert_that_def Let_def u16_def split: if_splits)
  then show ?thesis
    using assms(1-3) by (cases s) (auto simp: rw_unlock_def assert_that_def Let_def u16_def split: if_splits)
qed

text \<open>The semaphore with upgrades is not exception safe there: if signalling the waiting upgrader fails, \<open>unlock\<close>
  throws after it has counted its caller out, and the counter stays one too low.\<close>

lemma rwuj_unlock_loses_count:
  assumes "sem_mode s = SemRead" "inside s = 2" "upgrader_waiting s" "best_upgrader s \<noteq> NO_UPGRADER" "fails upgrader_cond"
  shows "rwuj_unlock fails s = Throws (s\<lparr>inside := 1\<rparr>)"
  using assms by (simp add: rwuj_unlock_def rwuj_unlock_as_def assert_that_def Let_def u16_def)

end
