(* ===== verification/LockProperties.thy ===== *)
theory LockProperties
  imports LockScenarios SemaphoreProperties
begin

text \<open>
  The invariant of the lock manager for calls that are not interrupted, and the lemma that without upgrades their locks are
  exclusive and no assertion fails.
\<close>

section \<open>The invariant without upgrades\<close>

abbreviation prio_of :: "(int \<Rightarrow> TransactionID) \<Rightarrow> int \<Rightarrow> int" where "prio_of tr \<equiv> \<lambda>i. tid_priority (tr i)"

lemma transactions_threads: "transactions_ok tr T \<Longrightarrow> threads_ok (prio_of tr) T"
  by (simp add: transactions_ok_def threads_ok_def)

definition num_waiting :: "int set \<Rightarrow> (int \<Rightarrow> status) \<Rightarrow> int" where
  "num_waiting T q = num T q WaitRead + num T q WokenRead + num T q WaitWrite + num T q WokenWrite"

text \<open>A lock agrees with the states of the transactions in its semaphore.\<close>

definition lock_ok :: "(int \<Rightarrow> int) \<Rightarrow> int set \<Rightarrow> (int \<Rightarrow> status) \<Rightarrow> SingleLock \<Rightarrow> bool" where
  "lock_ok prio T q sl \<longleftrightarrow> sem_inv prio T (sl_sem sl) q
     \<and> currentRead sl = {i \<in> T. q i = Reading} \<and> currentWrite sl = {i \<in> T. q i = Writing}
     \<and> sl_inside sl = num T q Reading + num T q Writing \<and> num_waiting T q \<le> sl_waiting sl"

definition maps_ok :: "LockManager \<Rightarrow> bool" where
  "maps_ok lm \<longleftrightarrow>
     (\<forall>l sl. locks lm l = Some sl \<longrightarrow> map_of_locks lm (lock_key (phid sl)) = Some l \<and> l < single_lock_id lm)
   \<and> (\<forall>k l. map_of_locks lm k = Some l \<longrightarrow> (\<exists>sl. locks lm l = Some sl \<and> lock_key (phid sl) = k))"

definition at_pend :: "(int \<times> AccessMode) option \<Rightarrow> int \<Rightarrow> status \<Rightarrow> bool" where
  "at_pend p l x \<longleftrightarrow>
     (case p of
        Some (l', md) \<Rightarrow>
          if l' = l then x \<in> (if md = Read then {WaitRead, WokenRead} else {WaitWrite, WokenWrite})
          else x \<in> {Outside, Reading, Writing}
      | None \<Rightarrow> x \<in> {Outside, Reading, Writing})"

definition held_locks :: "LockManager \<Rightarrow> int \<Rightarrow> int set" where
  "held_locks lm i = {l. \<exists>sl. locks lm l = Some sl \<and> (i \<in> currentRead sl \<or> i \<in> currentWrite sl)}"

definition lock_list :: "LockManager \<Rightarrow> int \<Rightarrow> int list" where
  "lock_list lm i = (case transaction_locks lm i of None \<Rightarrow> [] | Some ls \<Rightarrow> ls)"

definition locks_ok ::
  "(int \<Rightarrow> int) \<Rightarrow> int set \<Rightarrow> LockManager \<Rightarrow> (int \<Rightarrow> int \<Rightarrow> status) \<Rightarrow> (int \<Rightarrow> (int \<times> AccessMode) option) \<Rightarrow> bool" where
  "locks_ok prio T lm h pe \<longleftrightarrow> maps_ok lm
     \<and> (\<forall>l sl. locks lm l = Some sl \<longrightarrow> lock_ok prio T (h l) sl)
     \<and> (\<forall>i\<in>T. \<forall>l. locks lm l \<noteq> None \<longrightarrow> at_pend (pe i) l (h l i))
     \<and> (\<forall>i\<in>T. \<forall>l md. pe i = Some (l, md) \<longrightarrow> locks lm l \<noteq> None)"

definition lists_ok :: "int set \<Rightarrow> LockManager \<Rightarrow> bool" where
  "lists_ok T lm \<longleftrightarrow> (\<forall>i\<in>T. sorted_wrt (>) (lock_list lm i) \<and> set (lock_list lm i) = held_locks lm i)"

definition lock_inv :: "(int \<Rightarrow> int) \<Rightarrow> int set \<Rightarrow> lock_system \<Rightarrow> bool" where
  "lock_inv prio T z \<longleftrightarrow> \<not> lock_failed z \<and> locks_ok prio T (lmgr z) (hold z) (pend z) \<and> lists_ok T (lmgr z)"

lemma insert_lock:
  "sorted_wrt (>) ls \<Longrightarrow> sorted_wrt (>) (insert_lock l ls)" "set (insert_lock l ls) = insert l (set ls)"
proof -
  show s: "set (insert_lock l ls) = insert l (set ls)" for ls
    by (induction ls) auto
  show "sorted_wrt (>) ls \<Longrightarrow> sorted_wrt (>) (insert_lock l ls)"
    by (induction ls) (auto simp: s)
qed

lemma sorted_gt_distinct: "sorted_wrt (>) (ls :: int list) \<Longrightarrow> distinct ls"
  by (induction ls) auto

lemma at_pend_simps:
  "at_pend None l x \<longleftrightarrow> x \<in> {Outside, Reading, Writing}"
  "at_pend (Some (l, md)) l x \<longleftrightarrow> x \<in> (if md = Read then {WaitRead, WokenRead} else {WaitWrite, WokenWrite})"
  by (simp_all add: at_pend_def)

lemma locks_okD:
  assumes "locks_ok prio T lm h pe"
  shows "maps_ok lm" "locks lm l = Some sl \<Longrightarrow> lock_ok prio T (h l) sl"
    "i \<in> T \<Longrightarrow> locks lm l = Some sl \<Longrightarrow> at_pend (pe i) l (h l i)"
    "i \<in> T \<Longrightarrow> pe i = Some (l, md) \<Longrightarrow> \<exists>sl. locks lm l = Some sl"
  using assms by (auto simp: locks_ok_def)

text \<open>Replacing one lock and the states of the transactions in it.\<close>

lemma locks_ok_put:
  assumes "locks_ok prio T lm h pe" "locks lm l = Some sl" "phid sl' = phid sl" "lock_ok prio T q sl'"
    "\<And>j. j \<in> T \<Longrightarrow> at_pend (pe' j) l (q j)"
    "\<And>j l' x. j \<in> T \<Longrightarrow> l' \<noteq> l \<Longrightarrow> at_pend (pe j) l' x \<Longrightarrow> at_pend (pe' j) l' x"
    "\<And>j l' md. j \<in> T \<Longrightarrow> pe' j = Some (l', md) \<Longrightarrow> l' = l \<or> pe j = Some (l', md)"
    "locks lm' = (locks lm)(l \<mapsto> sl')" "map_of_locks lm' = map_of_locks lm" "single_lock_id lm' = single_lock_id lm"
  shows "locks_ok prio T lm' (h(l := q)) pe'"
proof -
  have "maps_ok lm'"
    using assms(1-3,8-10) unfolding locks_ok_def maps_ok_def by (auto split: if_splits) (metis option.inject)+
  moreover have "at_pend (pe' j) l' ((h(l := q)) l' j)" if "j \<in> T" "locks lm' l' \<noteq> None" for j l'
    using that assms(1,5,6,8) by (cases "l' = l") (auto simp: locks_ok_def)
  ultimately show ?thesis
    using assms(1,4,7,8) unfolding locks_ok_def by fastforce
qed

section \<open>One lock\<close>

text \<open>The operations that do not upgrade wake nobody and, if they return, return true.\<close>

lemma plain_outcomes:
  "rwuj_lock_read s = Returns k s' r \<Longrightarrow> k = None \<and> r" "rwuj_lock_read s = Waits k s' c \<Longrightarrow> k = None"
  "rwuj_lock_write s = Returns k s' r \<Longrightarrow> k = None \<and> r" "rwuj_lock_write s = Waits k s' c \<Longrightarrow> k = None"
  "rw_read_woken True s = Returns k s' r \<Longrightarrow> k = None \<and> r" "rw_write_woken True s = Returns k s' r \<Longrightarrow> k = None \<and> r"
  by (auto simp: rwuj_lock_read_def rwuj_lock_write_def rw_read_woken_def rw_write_woken_def assert_that_def
      split: if_splits)

lemma lock_ok_enter:
  assumes "finite T" "lock_ok prio T q sl" "i \<in> T" "q i \<noteq> Reading" "q i \<noteq> Writing" "tid_id t = i"
    "sem_inv prio T s (q(i := (if md = Read then Reading else Writing)))"
    "num_waiting T (q(i := (if md = Read then Reading else Writing))) \<le> n - 1" "sl_inside sl' = sl_inside sl"
    "currentRead sl' = currentRead sl" "currentWrite sl' = currentWrite sl" "sl_sem sl' = s" "sl_waiting sl' = n"
  shows "lock_ok prio T (q(i := (if md = Read then Reading else Writing))) (lock_received sl' t md 0)"
  using assms by (auto simp: lock_ok_def lock_received_def num_upd [OF assms(1)])

lemma num_waiting_upd:
  assumes "finite T" "i \<in> T"
  shows "num_waiting T (q(i := x)) = num_waiting T q + of_bool (x \<in> {WaitRead, WokenRead, WaitWrite, WokenWrite})
    - of_bool (q i \<in> {WaitRead, WokenRead, WaitWrite, WokenWrite})"
  using assms by (cases x; cases "q i") (simp_all add: num_waiting_def num_upd)

lemma lock_ok_wait:
  assumes "finite T" "lock_ok prio T q sl" "i \<in> T" "q i = Outside" "x \<in> {WaitRead, WaitWrite}"
    "sem_inv prio T s (q(i := x))"
  shows "lock_ok prio T (q(i := x)) (sl\<lparr>sl_waiting := sl_waiting sl + 1, sl_sem := s\<rparr>)"
  using assms by (auto simp: lock_ok_def num_upd [OF assms(1)] num_waiting_upd [OF assms(1)])

lemma request_outside:
  assumes "lock_ok prio T q sl" "tid_id t = i" "i \<in> T" "q i \<in> {Outside, Reading, Writing}"
  shows "lock_request sl t md = AskRead \<Longrightarrow> q i = Outside \<and> md = Read"
    "lock_request sl t md = AskWrite \<Longrightarrow> q i = Outside \<and> md = Write"
    "lock_request sl t md = Held \<Longrightarrow> q i \<noteq> Outside"
    "lock_request sl t md = Refuse e \<Longrightarrow> e \<noteq> 0"
  using assms
  by (auto simp: lock_ok_def lock_request_defs unless_deadlock_def Let_def split: if_splits)

lemma wait_for_lock_ok:
  assumes ok: "threads_ok prio T" and sl: "lock_ok prio T q sl" and i: "i \<in> T" "tid_id t = i"
    and q: "q i \<in> {Outside, Reading, Writing}" and r: "no_upgrade (lock_request sl t md)"
  shows "case wait_for_lock sl t md of
      Returns k sl' e \<Rightarrow> k = None \<and> phid sl' = phid sl \<and> held_as (lock_request sl t md) e (q i) \<in> {Outside, Reading, Writing}
        \<and> lock_ok prio T (q(i := held_as (lock_request sl t md) e (q i))) sl'
        \<and> (if e = 0 then held_as (lock_request sl t md) e (q i) \<noteq> Outside else held_as (lock_request sl t md) e (q i) = q i)
    | Waits k sl' c \<Rightarrow> k = None \<and> phid sl' = phid sl \<and> q i = Outside
        \<and> waits_as (lock_request sl t md) = (if md = Read then WaitRead else WaitWrite)
        \<and> lock_ok prio T (q(i := waits_as (lock_request sl t md))) sl'
    | _ \<Rightarrow> False"
proof -
  have fin: "finite T"
    using ok by (simp add: threads_ok_def)
  have inv: "sem_inv prio T (sl_sem sl) q"
    using sl by (simp add: lock_ok_def)
  note req = request_outside [OF sl i(2,1) q]
  show ?thesis
  proof (cases "lock_request sl t md")
    case Held
    then show ?thesis
      using sl q req(3) by (simp add: wait_for_lock_def)
  next
    case (Refuse e)
    then show ?thesis
      using sl q req(4) by (auto simp: wait_for_lock_def lock_ok_def)
  next
    case AskUpgrade
    with r show ?thesis by (simp add: no_upgrade_def)
  next
    case AskRead
    then have o: "q i = Outside" "md = Read"
      using req(1) by auto
    have k: "keeps (sem_inv prio T) (rwuj_lock_read (sl_sem sl)) i Reading Outside WaitRead q"
      by (rule lock_read_keeps [OF ok inv i(1) o(1)])
    show ?thesis
    proof (cases "rwuj_lock_read (sl_sem sl)")
      case (Returns k s' x)
      with k plain_outcomes(1) have "sem_inv prio T s' (q(i := Reading))" "x" "k = None"
        by fastforce+
      then show ?thesis
        using AskRead Returns o lock_ok_enter [OF fin sl i(1), of t s' Read "sl_waiting sl + 1"
            "sl\<lparr>sl_waiting := sl_waiting sl + 1, sl_sem := s'\<rparr>"] i sl
        by (simp add: wait_for_lock_def after_sem_def lock_received_def num_waiting_upd [OF fin] lock_ok_def)
    next
      case (Waits k s' c)
      with k plain_outcomes(2) have "sem_inv prio T s' (q(i := WaitRead))" "k = None"
        by fastforce+
      then show ?thesis
        using AskRead Waits o lock_ok_wait [OF fin sl i(1) o(1), of WaitRead s']
        by (simp add: wait_for_lock_def after_sem_def)
    qed (use k in \<open>auto simp: keeps_def\<close>)
  next
    case AskWrite
    then have o: "q i = Outside" "md = Write"
      using req(2) by auto
    have k: "keeps (sem_inv prio T) (rwuj_lock_write (sl_sem sl)) i Writing Outside WaitWrite q"
      by (rule lock_write_keeps [OF ok inv i(1) o(1)])
    show ?thesis
    proof (cases "rwuj_lock_write (sl_sem sl)")
      case (Returns k s' x)
      with k plain_outcomes(3) have "sem_inv prio T s' (q(i := Writing))" "x" "k = None"
        by fastforce+
      then show ?thesis
        using AskWrite Returns o lock_ok_enter [OF fin sl i(1), of t s' Write "sl_waiting sl + 1"
            "sl\<lparr>sl_waiting := sl_waiting sl + 1, sl_sem := s'\<rparr>"] i sl
        by (simp add: wait_for_lock_def after_sem_def lock_received_def num_waiting_upd [OF fin] lock_ok_def)
    next
      case (Waits k s' c)
      with k plain_outcomes(4) have "sem_inv prio T s' (q(i := WaitWrite))" "k = None"
        by fastforce+
      then show ?thesis
        using AskWrite Waits o lock_ok_wait [OF fin sl i(1) o(1), of WaitWrite s']
        by (simp add: wait_for_lock_def after_sem_def)
    qed (use k in \<open>auto simp: keeps_def\<close>)
  qed
qed

lemma wait_for_lock_woken_ok:
  assumes ok: "threads_ok prio T" and sl: "lock_ok prio T q sl" and i: "i \<in> T" "tid_id t = i"
    and q: "q i = (if md = Read then WokenRead else WokenWrite)"
  shows "\<exists>sl'. wait_for_lock_woken sl t md (q i) = Returns None sl' 0 \<and> phid sl' = phid sl
    \<and> lock_ok prio T (q(i := woken_as (q i) 0)) sl'"
proof -
  have fin: "finite T"
    using ok by (simp add: threads_ok_def)
  have inv: "sem_inv prio T (sl_sem sl) q"
    using sl by (simp add: lock_ok_def)
  note enter = lock_ok_enter [OF fin sl i(1) _ _ i(2), where n = "sl_waiting sl"]
  show ?thesis
  proof (cases md)
    case Read
    have k: "keeps (sem_inv prio T) (rw_read_woken True (sl_sem sl)) i Reading Outside WaitRead q"
      using q Read by (intro read_woken_keeps [OF ok inv i(1)]) simp
    then obtain k' s' x where r: "rw_read_woken True (sl_sem sl) = Returns k' s' x"
      using rwuj_no_wait(3) [of True "sl_sem sl"] by (cases "rw_read_woken True (sl_sem sl)") (auto simp: keeps_def)
    with k plain_outcomes(5) have "sem_inv prio T s' (q(i := Reading))" "x" "k' = None"
      by fastforce+
    then show ?thesis
      using Read q r enter [of s' Read "sl\<lparr>sl_sem := s'\<rparr>"] i sl
      by (simp add: wait_for_lock_woken_def after_sem_def num_waiting_upd [OF fin] lock_ok_def lock_received_def)
  next
    case Write
    have k: "keeps (sem_inv prio T) (rw_write_woken True (sl_sem sl)) i Writing Outside WaitWrite q"
      using q Write by (intro write_woken_keeps [OF ok inv i(1)]) simp
    then obtain k' s' x where r: "rw_write_woken True (sl_sem sl) = Returns k' s' x"
      using rwuj_no_wait(4) [of True "sl_sem sl"] by (cases "rw_write_woken True (sl_sem sl)") (auto simp: keeps_def)
    with k plain_outcomes(6) have "sem_inv prio T s' (q(i := Writing))" "x" "k' = None"
      by fastforce+
    then show ?thesis
      using Write q r enter [of s' Write "sl\<lparr>sl_sem := s'\<rparr>"] i sl
      by (simp add: wait_for_lock_woken_def after_sem_def num_waiting_upd [OF fin] lock_ok_def lock_received_def)
  qed
qed

text \<open>Waking threads moves them from waiting to woken and leaves everything else.\<close>

lemma woken_class:
  "woken x = Reading \<longleftrightarrow> x = Reading" "woken x = Writing \<longleftrightarrow> x = Writing"
  "woken x \<in> {WaitRead, WokenRead, WaitWrite, WokenWrite} \<longleftrightarrow> x \<in> {WaitRead, WokenRead, WaitWrite, WokenWrite}"
  "at_pend p l (woken x) \<longleftrightarrow> at_pend p l x"
  by (cases x; simp add: at_pend_def split: option.splits prod.splits)+

lemma wake_up_class:
  assumes "wake_up k q q'"
  shows "q' j = Reading \<longleftrightarrow> q j = Reading" "q' j = Writing \<longleftrightarrow> q j = Writing"
    "q' j \<in> {WaitRead, WokenRead, WaitWrite, WokenWrite} \<longleftrightarrow> q j \<in> {WaitRead, WokenRead, WaitWrite, WokenWrite}"
    "at_pend p l (q' j) \<longleftrightarrow> at_pend p l (q j)"
proof -
  have "q' j = q j \<or> q' j = woken (q j)"
    using assms by cases auto
  then show "q' j = Reading \<longleftrightarrow> q j = Reading" "q' j = Writing \<longleftrightarrow> q j = Writing"
    "q' j \<in> {WaitRead, WokenRead, WaitWrite, WokenWrite} \<longleftrightarrow> q j \<in> {WaitRead, WokenRead, WaitWrite, WokenWrite}"
    "at_pend p l (q' j) \<longleftrightarrow> at_pend p l (q j)"
    using woken_class [where x = "q j"] by metis+
qed

lemma num_waiting_card:
  assumes "finite T"
  shows "num_waiting T q = int (card {j \<in> T. q j \<in> {WaitRead, WokenRead, WaitWrite, WokenWrite}})"
  using assms
proof (induction T)
  case (insert t T)
  have c: "card {u \<in> insert t T. P (q u)} = card {u \<in> T. P (q u)} + of_bool (P (q t))" for P
  proof -
    have "{u \<in> insert t T. P (q u)} = (if P (q t) then insert t {u \<in> T. P (q u)} else {u \<in> T. P (q u)})"
      by auto
    with insert.hyps show ?thesis
      by simp
  qed
  show ?case
    using insert c [of "\<lambda>x. x \<in> {WaitRead, WokenRead, WaitWrite, WokenWrite}"] c [of "\<lambda>x. x = WaitRead"]
      c [of "\<lambda>x. x = WokenRead"] c [of "\<lambda>x. x = WaitWrite"] c [of "\<lambda>x. x = WokenWrite"]
    by (cases "q t") (simp_all add: num_waiting_def num_def)
qed (simp add: num_waiting_def num_def)

lemma sl_unlock_ok:
  assumes ok: "threads_ok prio T" and sl: "lock_ok prio T q sl" and i: "i \<in> T" "tid_id t = i"
    and q: "q i = Reading \<or> q i = Writing"
  shows "\<exists>k sl' d. sl_unlock sl t = Returns k sl' d \<and> phid sl' = phid sl
    \<and> currentRead sl' = currentRead sl - {i} \<and> currentWrite sl' = currentWrite sl - {i}
    \<and> (d \<longrightarrow> (\<forall>j\<in>T. q j \<notin> {WaitRead, WokenRead, WaitWrite, WokenWrite}
          \<and> (j \<noteq> i \<longrightarrow> q j \<noteq> Reading \<and> q j \<noteq> Writing)))
    \<and> (\<forall>q'. wake_up k q q' \<longrightarrow> lock_ok prio T (q'(i := Outside)) sl')"
proof -
  have fin: "finite T"
    using ok by (simp add: threads_ok_def)
  have inv: "sem_inv prio T (sl_sem sl) q"
    using sl by (simp add: lock_ok_def)
  have k: "keeps (sem_inv prio T) (rwuj_unlock no_error (sl_sem sl)) i Outside Outside WaitRead q"
    by (rule unlock_keeps [OF ok inv i(1) q])
  then obtain k' s' x where r: "rwuj_unlock no_error (sl_sem sl) = Returns k' s' x"
    using rwuj_no_wait(2) [of no_error "sl_sem sl"] by (cases "rwuj_unlock no_error (sl_sem sl)") (auto simp: keeps_def)
  define sl' where "sl' = sl\<lparr>sl_inside := sl_inside sl - 1, currentRead := currentRead sl - {i},
            currentWrite := currentWrite sl - {i}, sl_sem := s'\<rparr>"
  have u: "sl_unlock sl t = Returns k' sl' (sl_inside sl - 1 = 0 \<and> sl_waiting sl = 0)"
    using r i(2) by (simp add: sl_unlock_def sl_leave_def Let_def sl'_def)
  have "lock_ok prio T (q'(i := Outside)) sl'" if w: "wake_up k' q q'" for q'
  proof -
    have "sem_inv prio T s' (q'(i := Outside))"
      using k r w by (simp add: keeps_def split: if_splits)
    moreover have "num T q' Reading = num T q Reading" "num T q' Writing = num T q Writing"
      "num_waiting T q' = num_waiting T q"
      using wake_up_class(1-3) [OF w] by (simp_all only: num_waiting_card [OF fin] num_def)
    moreover have "q' i = q i"
      using wake_up_class(1,2) [OF w, of i] q by auto
    ultimately show ?thesis
      using sl i(1) q wake_up_class(1,2) [OF w]
      by (auto simp: lock_ok_def sl'_def num_upd [OF fin] num_waiting_upd [OF fin])
  qed
  moreover have "\<forall>j\<in>T. q j \<notin> {WaitRead, WokenRead, WaitWrite, WokenWrite} \<and> (j \<noteq> i \<longrightarrow> q j \<noteq> Reading \<and> q j \<noteq> Writing)"
    if "sl_inside sl - 1 = 0" "sl_waiting sl = 0"
  proof -
    have c: "num T q Reading + num T q Writing = 1" "num_waiting T q = 0"
      using sl that num_waiting_card [OF fin, of q] by (auto simp: lock_ok_def)
    have "q j \<notin> {WaitRead, WokenRead, WaitWrite, WokenWrite}" if "j \<in> T" for j
      using c(2) that fin by (auto simp: num_waiting_card [OF fin])
    moreover have "j = i" if "j \<in> T" "q j = Reading \<or> q j = Writing" for j
    proof -
      have "q j = q i" "num T q (q i) = 1"
        using c(1) num_here [OF fin that(1), of q] num_here [OF fin i(1), of q] that(2) q num_bounds [of T q] by auto
      then show ?thesis
        using num_one [OF fin, of q "q i" j i] that(1) i(1) by simp
    qed
    ultimately show ?thesis
      by blast
  qed
  ultimately show ?thesis
    using u by (intro exI conjI) (assumption | simp add: sl'_def)+
qed

section \<open>The whole manager\<close>

lemma held_upd:
  assumes "locks lm' = (locks lm)(l \<mapsto> sl')"
  shows "held_locks lm' j = (if j \<in> currentRead sl' \<or> j \<in> currentWrite sl' then insert l (held_locks lm j)
    else held_locks lm j - {l})"
  using assms by (auto simp: held_locks_def)

lemma held_at: "locks lm l = Some sl \<Longrightarrow> l \<in> held_locks lm j \<longleftrightarrow> j \<in> currentRead sl \<or> j \<in> currentWrite sl"
  by (simp add: held_locks_def)

lemma held_put:
  assumes "lock_ok prio T q sl'" "j \<in> T" "locks lm' = (locks lm)(l \<mapsto> sl')"
  shows "held_locks lm' j = (if q j = Reading \<or> q j = Writing then insert l (held_locks lm j) else held_locks lm j - {l})"
  using assms by (auto simp: held_locks_def lock_ok_def)

lemma held_here:
  assumes "locks lm l = Some sl" "lock_ok prio T q sl" "j \<in> T"
  shows "l \<in> held_locks lm j \<longleftrightarrow> q j = Reading \<or> q j = Writing"
  using assms by (auto simp: held_locks_def lock_ok_def)

lemma add_lock_sel [simp]:
  "locks (add_lock lm t l) = locks lm" "map_of_locks (add_lock lm t l) = map_of_locks lm"
  "single_lock_id (add_lock lm t l) = single_lock_id lm" "held_locks (add_lock lm t l) = held_locks lm"
  by (simp_all add: add_lock_def held_locks_def fun_eq_iff)

lemma lists_ok_add:
  assumes "lists_ok T lm" "transaction_locks lm1 = transaction_locks lm" "tid_id t = i"
    "\<And>j. j \<in> T \<Longrightarrow> held_locks lm1 j = (if j = i then insert l (held_locks lm j) else held_locks lm j)"
  shows "lists_ok T (add_lock lm1 t l)"
proof -
  have ll: "lock_list (add_lock lm1 t l) j = (if j = i then insert_lock l (lock_list lm i) else lock_list lm j)" for j
    using assms(2,3) by (simp add: lock_list_def add_lock_def)
  show ?thesis
    unfolding lists_ok_def add_lock_sel(4)
  proof (rule ballI)
    fix j assume j: "j \<in> T"
    then have "sorted_wrt (>) (lock_list lm j)" "set (lock_list lm j) = held_locks lm j"
      using assms(1) unfolding lists_ok_def by blast+
    then show "sorted_wrt (>) (lock_list (add_lock lm1 t l) j) \<and> set (lock_list (add_lock lm1 t l) j) = held_locks lm1 j"
      unfolding ll using assms(4) [OF j] insert_lock by (cases "j = i") simp_all
  qed
qed

lemma lists_ok_same:
  assumes "lists_ok T lm" "transaction_locks lm1 = transaction_locks lm" "\<And>j. j \<in> T \<Longrightarrow> held_locks lm1 j = held_locks lm j"
  shows "lists_ok T lm1"
  using assms by (simp add: lists_ok_def lock_list_def)

text \<open>A request for a lock that exists.\<close>

lemma lock_put_ok:
  assumes "locks_ok prio T lm h pe" "lists_ok T lm" "locks lm l = Some sl" "phid sl' = phid sl"
    "lock_ok prio T ((h l)(i := x)) sl'" "tid_id t = i" "i \<in> T" "x \<in> {Outside, Reading, Writing}"
    "pe i = None \<or> (\<exists>md. pe i = Some (l, md))" "pe' = pe(i := None)"
    "e = 0 \<Longrightarrow> x \<noteq> Outside" "e \<noteq> 0 \<Longrightarrow> x = h l i"
    "lm' = (if e = 0 then add_lock (lm\<lparr>locks := (locks lm)(l \<mapsto> sl')\<rparr>) t l else lm\<lparr>locks := (locks lm)(l \<mapsto> sl')\<rparr>)"
  shows "locks_ok prio T lm' (h(l := (h l)(i := x))) pe' \<and> lists_ok T lm'"
proof -
  have sl: "lock_ok prio T (h l) sl"
    using assms(1,3) by (simp add: locks_ok_def)
  have pe: "at_pend (pe' j) l (((h l)(i := x)) j)" if "j \<in> T" for j
    using that assms(1,3,8,10) by (auto simp: locks_ok_def at_pend_def)
  have pe2: "at_pend (pe' j) l' y" if "j \<in> T" "l' \<noteq> l" "at_pend (pe j) l' y" for j l' y
    using that assms(9,10) by (cases "j = i") (auto simp: at_pend_def split: option.splits prod.splits)
  have "locks_ok prio T lm' (h(l := (h l)(i := x))) pe'"
    by (rule locks_ok_put [OF assms(1,3,4,5) pe pe2]) (use assms(10,13) in \<open>auto split: if_splits\<close>)
  moreover have "lists_ok T lm'"
  proof -
    let ?lm = "lm\<lparr>locks := (locks lm)(l \<mapsto> sl')\<rparr>"
    have h: "held_locks ?lm j = (if j = i \<and> e = 0 then insert l (held_locks lm j) else held_locks lm j)" if "j \<in> T" for j
      using held_put [OF assms(5) that, of ?lm lm l] held_here [OF assms(3) sl that] assms(8,11,12)
      by (cases "j = i") (auto split: if_splits)
    show ?thesis
      using lists_ok_add [OF assms(2) _ assms(6), of ?lm l] lists_ok_same [OF assms(2), of ?lm] h assms(13)
      by (cases "e = 0") auto
  qed
  ultimately show ?thesis
    by blast
qed

lemma lock_step_returns:
  assumes ok: "transactions_ok tr T" and inv: "locks_ok (prio_of tr) T lm h pe" "lists_ok T lm"
    and i: "i \<in> T" "pe i = None" and l: "locks lm l = Some sl"
    and r: "no_upgrade (lock_request sl (tr i) md)"
  shows "case lock_done lm (tr i) l (wait_for_lock sl (tr i) md) of
      Returns k lm' e \<Rightarrow> k = None
        \<and> locks_ok (prio_of tr) T lm' (h(l := (h l)(i := held_as (lock_request sl (tr i) md) e (h l i)))) pe \<and> lists_ok T lm'
    | Waits k lm' c \<Rightarrow> k = None
        \<and> locks_ok (prio_of tr) T lm' (h(l := (h l)(i := waits_as (lock_request sl (tr i) md)))) (pe(i \<mapsto> (l, md)))
        \<and> lists_ok T lm'
    | _ \<Rightarrow> False"
proof -
  have t: "tid_id (tr i) = i"
    using ok i(1) by (simp add: transactions_ok_def)
  have sl: "lock_ok (prio_of tr) T (h l) sl" "h l i \<in> {Outside, Reading, Writing}"
    using locks_okD(2) [OF inv(1) l] locks_okD(3) [OF inv(1) i(1) l] i(2) by (simp_all add: at_pend_simps)
  note w = wait_for_lock_ok [OF transactions_threads [OF ok] sl(1) i(1) t sl(2) r]
  show ?thesis
  proof (cases "wait_for_lock sl (tr i) md")
    case (Returns k sl' e)
    with w have w': "k = None" "phid sl' = phid sl" "held_as (lock_request sl (tr i) md) e (h l i) \<in> {Outside, Reading, Writing}"
      "lock_ok (prio_of tr) T ((h l)(i := held_as (lock_request sl (tr i) md) e (h l i))) sl'"
      "e = 0 \<Longrightarrow> held_as (lock_request sl (tr i) md) e (h l i) \<noteq> Outside"
      "e \<noteq> 0 \<Longrightarrow> held_as (lock_request sl (tr i) md) e (h l i) = h l i"
      by (simp_all split: if_splits)
    have "pe = pe(i := None)"
      using i(2) by auto
    from lock_put_ok [where e = e, OF inv l w'(2,4) t i(1) w'(3) disjI1 [OF i(2)] this w'(5,6) refl]
    show ?thesis
      using Returns w'(1) by (simp add: lock_done_def split: if_splits)
  next
    case (Waits k sl' c)
    with w have w': "k = None" "phid sl' = phid sl" "h l i = Outside"
      "waits_as (lock_request sl (tr i) md) = (if md = Read then WaitRead else WaitWrite)"
      "lock_ok (prio_of tr) T ((h l)(i := waits_as (lock_request sl (tr i) md))) sl'"
      unfolding Waits outcome.case by blast+
    let ?lm = "lm\<lparr>locks := (locks lm)(l \<mapsto> sl')\<rparr>" and ?pe = "pe(i \<mapsto> (l, md))"
    have a: "at_pend (?pe j) l (((h l)(i := waits_as (lock_request sl (tr i) md))) j)" if "j \<in> T" for j
      using that inv(1) l w'(4) by (auto simp: locks_ok_def at_pend_def)
    have b: "at_pend (?pe j) l' y" if "j \<in> T" "l' \<noteq> l" "at_pend (pe j) l' y" for j l' y
      using that i(2) by (auto simp: at_pend_def)
    have "locks_ok (prio_of tr) T ?lm (h(l := (h l)(i := waits_as (lock_request sl (tr i) md)))) ?pe"
      by (rule locks_ok_put [OF inv(1) l w'(2,5) a b]) (auto split: if_splits)
    moreover have "held_locks ?lm j = held_locks lm j" if "j \<in> T" for j
      using held_put [OF w'(5) that, of ?lm lm l] held_here [OF l sl(1) that] w'(3,4)
      by (cases "j = i") (auto split: if_splits)
    ultimately show ?thesis
      using Waits w'(1) lists_ok_same [OF inv(2), of ?lm] by (simp add: lock_done_def)
  qed (use w in auto)
qed

lemma lock_step_woken:
  assumes ok: "transactions_ok tr T" and inv: "locks_ok (prio_of tr) T lm h pe" "lists_ok T lm"
    and i: "i \<in> T" "pe i = Some (l, md)" and w: "h l i \<in> {WokenRead, WokenWrite, WokenUpgrade}"
  shows "\<exists>lm'. lock_woken lm l (tr i) md (h l i) = Returns None lm' 0
    \<and> locks_ok (prio_of tr) T lm' (h(l := (h l)(i := woken_as (h l i) 0))) (pe(i := None)) \<and> lists_ok T lm'"
proof -
  have t: "tid_id (tr i) = i"
    using ok i(1) by (simp add: transactions_ok_def)
  obtain sl where l: "locks lm l = Some sl"
    using inv(1) i by (fastforce simp: locks_ok_def)
  have sl: "lock_ok (prio_of tr) T (h l) sl" "h l i = (if md = Read then WokenRead else WokenWrite)"
    using locks_okD(2) [OF inv(1) l] locks_okD(3) [OF inv(1) i(1) l] i(2) w
    by (auto simp: at_pend_simps split: if_splits)
  obtain sl' where sl': "wait_for_lock_woken sl (tr i) md (h l i) = Returns None sl' 0" "phid sl' = phid sl"
    "lock_ok (prio_of tr) T ((h l)(i := woken_as (h l i) 0)) sl'"
    using wait_for_lock_woken_ok [OF transactions_threads [OF ok] sl(1) i(1) t sl(2)] by blast
  have x: "woken_as (h l i) 0 \<in> {Outside, Reading, Writing}" "woken_as (h l i) 0 \<noteq> Outside"
    using sl(2) by (auto split: if_splits)
  have pe: "pe i = None \<or> (\<exists>md. pe i = Some (l, md))"
    using i(2) by simp
  from lock_put_ok [where e = 0, OF inv l sl'(2,3) t i(1) x(1) pe refl x(2) _ refl]
  show ?thesis
    using sl'(1) by (simp add: lock_woken_def l lock_done_def)
qed

lemma new_single_lock:
  assumes ok: "transactions_ok tr T" and i: "i \<in> T"
  shows "\<exists>sl. SingleLock_new (tr i) md RWUJSemaphore_new l p = Returns None sl 0
    \<and> sem_inv (prio_of tr) T (sl_sem sl) ((\<lambda>_. Outside)(i := (if md = Read then Reading else Writing)))
    \<and> currentRead sl = (if md = Read then {i} else {}) \<and> currentWrite sl = (if md = Read then {} else {i})
    \<and> sl_inside sl = 1 \<and> sl_waiting sl = 0 \<and> phid sl = p"
proof -
  let ?q = "(\<lambda>_. Outside)(i := (if md = Read then Reading else Writing))"
  have t: "tid_id (tr i) = i" and fin: "finite T"
    using ok i by (simp_all add: transactions_ok_def)
  define s where "s = RWUJSemaphore_new\<lparr>sem_mode := (if md = Read then SemRead else SemWrite), inside := 1\<rparr>"
  define sl where "sl = \<lparr>currentRead = (if md = Read then {i} else {}), currentWrite = (if md = Read then {} else {i}),
    sl_inside = 1, sl_waiting = 0, sl_tid = tr i, sl_id = l, sl_sem = s, phid = p\<rparr>"
  have "SingleLock_new (tr i) md RWUJSemaphore_new l p = Returns None sl 0"
    by (auto simp: SingleLock_new_def rwuj_lock_read_def rwuj_lock_write_def RWUJSemaphore_new_def assert_that_def
        sl_def s_def u16_def t)
  moreover have "num T ?q x = of_bool (x = (if md = Read then Reading else Writing)) + (if x = Outside then int (card T) - 1 else 0)" for x
    using num_upd [OF fin i, of "\<lambda>_. Outside"] by (auto simp: num_def)
  then have "sem_inv (prio_of tr) T s ?q"
    using i by (auto simp: s_def sem_inv_def RWUJSemaphore_new_def only_in_def)
  ultimately show ?thesis
    by (intro exI [of _ sl]) (simp add: sl_def)
qed

lemma maps_ok_new:
  assumes "maps_ok lm" "map_of_locks lm (lock_key p) = None" "phid sl = p"
  shows "maps_ok (lm\<lparr>single_lock_id := single_lock_id lm + 1, map_of_locks := (map_of_locks lm)(lock_key p \<mapsto> single_lock_id lm),
    locks := (locks lm)(single_lock_id lm \<mapsto> sl)\<rparr>)"
proof -
  note m = assms(1) [unfolded maps_ok_def]
  have fresh: "locks lm (single_lock_id lm) = None"
    using m by (cases "locks lm (single_lock_id lm)") auto
  have "lock_key (phid x) \<noteq> lock_key p" if "locks lm l = Some x" for l x
    using m assms(2) that by force
  then show ?thesis
    using m assms(2,3) fresh unfolding maps_ok_def by (auto split: if_splits) force+
qed

lemma new_lock_ok:
  assumes ok: "transactions_ok tr T" and inv: "locks_ok (prio_of tr) T lm h pe" "lists_ok T lm"
    and i: "i \<in> T" and p: "map_of_locks lm (lock_key p) = None"
  shows "\<exists>lm'. lock_primitive lm (Some p) (tr i) md = Returns None lm' 0 \<and> lists_ok T lm'
    \<and> locks_ok (prio_of tr) T lm' (h(single_lock_id lm := (\<lambda>_. Outside)(i := (if md = Read then Reading else Writing)))) pe"
proof -
  let ?l = "single_lock_id lm" and ?q = "(\<lambda>_. Outside)(i := (if md = Read then Reading else Writing))"
  have t: "tid_id (tr i) = i" and fin: "finite T"
    using ok i(1) by (simp_all add: transactions_ok_def)
  obtain sl where sl: "SingleLock_new (tr i) md RWUJSemaphore_new ?l p = Returns None sl 0" "sem_inv (prio_of tr) T (sl_sem sl) ?q"
    "currentRead sl = (if md = Read then {i} else {})" "currentWrite sl = (if md = Read then {} else {i})"
    "sl_inside sl = 1" "sl_waiting sl = 0" "phid sl = p"
    using new_single_lock [OF ok i, of md ?l p] by blast
  have n: "num T ?q x = of_bool (x = (if md = Read then Reading else Writing)) + (if x = Outside then int (card T) - 1 else 0)" for x
    using num_upd [OF fin i, of "\<lambda>_. Outside"] by (auto simp: num_def)
  have "lock_ok (prio_of tr) T ?q sl"
    using i n sl(2-6) by (auto simp: lock_ok_def num_waiting_def)
  moreover define lm' where "lm' = add_lock (lm\<lparr>single_lock_id := ?l + 1, map_of_locks := (map_of_locks lm)(lock_key p \<mapsto> ?l),
    locks := (locks lm)(?l \<mapsto> sl)\<rparr>) (tr i) ?l"
  have fresh: "locks lm ?l = None"
    using inv(1) by (cases "locks lm ?l") (auto simp: locks_ok_def maps_ok_def)
  have lk: "locks lm' = (locks lm)(?l \<mapsto> sl)" "map_of_locks lm' = (map_of_locks lm)(lock_key p \<mapsto> ?l)"
    "single_lock_id lm' = ?l + 1"
    by (simp_all add: lm'_def)
  have "maps_ok lm'"
    using maps_ok_new [OF locks_okD(1) [OF inv(1)] p sl(7)] by (simp add: maps_ok_def lk)
  moreover have "at_pend (pe j) l ((h(?l := ?q)) l j)" if "j \<in> T" "locks lm' l \<noteq> None" for j l
  proof (cases "l = ?l")
    case True
    have "pe j \<noteq> Some (?l, m)" for m
      using inv(1) that(1) fresh by (fastforce simp: locks_ok_def)
    with True show ?thesis
      by (auto simp: at_pend_def split: option.splits)
  next
    case False
    with that inv(1) show ?thesis
      by (simp add: locks_ok_def lk)
  qed
  ultimately have "locks_ok (prio_of tr) T lm' (h(?l := ?q)) pe"
    using inv(1) unfolding locks_ok_def lk by fastforce
  moreover have "lists_ok T lm'"
    unfolding lm'_def
  proof (rule lists_ok_add [OF inv(2) _ t])
    let ?lm = "lm\<lparr>single_lock_id := ?l + 1, map_of_locks := (map_of_locks lm)(lock_key p \<mapsto> ?l), locks := (locks lm)(?l \<mapsto> sl)\<rparr>"
    show "held_locks ?lm j = (if j = i then insert ?l (held_locks lm j) else held_locks lm j)" if "j \<in> T" for j
      using fresh by (auto simp: held_locks_def sl(3,4))
  qed simp
  ultimately show ?thesis
    using sl(1) p by (simp add: lock_primitive_def Let_def lock_done_def lm'_def)
qed

lemma maps_ok_delete:
  assumes "maps_ok lm" "locks lm l = Some sl"
  shows "maps_ok (lm\<lparr>map_of_locks := (map_of_locks lm)(lock_key (phid sl) := None), locks := (locks lm)(l := None)\<rparr>)"
proof -
  note m = assms(1) [unfolded maps_ok_def]
  have k1: "lock_key (phid x) \<noteq> lock_key (phid sl)" if "locks lm l' = Some x" "l' \<noteq> l" for l' x
    using m assms(2) that by (metis option.inject)
  have k2: "l' \<noteq> l" if "map_of_locks lm y = Some l'" "y \<noteq> lock_key (phid sl)" for l' y
    using m assms(2) that by (metis option.inject)
  show ?thesis
    using m k1 k2 unfolding maps_ok_def by simp
qed

lemma unlock_one_ok:
  assumes ok: "transactions_ok tr T" and inv: "locks_ok (prio_of tr) T lm h pe"
    and i: "i \<in> T" and l: "l \<in> held_locks lm i"
  shows "\<exists>lm' k. unlock_one lm (tr i) l = Some (lm', (l, k)) \<and> transaction_locks lm' = transaction_locks lm
    \<and> (\<forall>j\<in>T. held_locks lm' j = (if j = i then held_locks lm i - {l} else held_locks lm j))
    \<and> (\<forall>q'. wake_up k (h l) q' \<longrightarrow> locks_ok (prio_of tr) T lm' (h(l := q'(i := Outside))) pe)"
proof -
  have t: "tid_id (tr i) = i"
    using ok i by (simp add: transactions_ok_def)
  obtain sl where sl: "locks lm l = Some sl" "lock_ok (prio_of tr) T (h l) sl"
    using l locks_okD(2) [OF inv] by (auto simp: held_locks_def)
  have qi: "h l i = Reading \<or> h l i = Writing"
    using held_here [OF sl i] l by simp
  obtain k sl' d where u: "sl_unlock sl (tr i) = Returns k sl' d" "phid sl' = phid sl"
    "currentRead sl' = currentRead sl - {i}" "currentWrite sl' = currentWrite sl - {i}"
    "d \<Longrightarrow> \<forall>j\<in>T. h l j \<notin> {WaitRead, WokenRead, WaitWrite, WokenWrite} \<and> (j \<noteq> i \<longrightarrow> h l j \<noteq> Reading \<and> h l j \<noteq> Writing)"
    "\<And>q'. wake_up k (h l) q' \<Longrightarrow> lock_ok (prio_of tr) T (q'(i := Outside)) sl'"
    using sl_unlock_ok [OF transactions_threads [OF ok] sl(2) i t qi] by blast
  have pi: "at_pend (pe i) l Outside"
    using locks_okD(3) [OF inv i sl(1)] qi by (auto simp: at_pend_def split: option.splits prod.splits if_splits)
  show ?thesis
  proof (cases d)
    case False
    let ?lm = "lm\<lparr>locks := (locks lm)(l \<mapsto> sl')\<rparr>"
    have "locks_ok (prio_of tr) T ?lm (h(l := q'(i := Outside))) pe" if w: "wake_up k (h l) q'" for q'
    proof -
      have a: "at_pend (pe j) l ((q'(i := Outside)) j)" if "j \<in> T" for j
        using locks_okD(3) [OF inv that sl(1)] wake_up_class(4) [OF w, of "pe j" l j] pi by simp
      show ?thesis
        by (rule locks_ok_put [OF inv sl(1) u(2) u(6) [OF w] a]) simp_all
    qed
    moreover have "held_locks ?lm j = (if j = i then held_locks lm i - {l} else held_locks lm j)" for j
      using held_upd [of ?lm lm l sl' j] u(3,4) held_at [OF sl(1), of j] by auto
    ultimately show ?thesis
      using u(1) False sl(1) by (auto simp: unlock_one_def)
  next
    case True
    let ?lm = "lm\<lparr>map_of_locks := (map_of_locks lm)(lock_key (phid sl') := None), locks := (locks lm)(l := None)\<rparr>"
    have "maps_ok ?lm"
      using maps_ok_delete [OF locks_okD(1) [OF inv] sl(1)] u(2) by simp
    moreover have "pe j \<noteq> Some (l, md)" if "j \<in> T" for j md
      using locks_okD(3) [OF inv that sl(1)] u(5) [OF True] that by (auto simp: at_pend_simps split: if_splits)
    ultimately have "locks_ok (prio_of tr) T ?lm (h(l := q)) pe" for q
      using inv unfolding locks_ok_def by (auto split: if_splits)
    moreover have "held_locks ?lm j = (if j = i then held_locks lm i - {l} else held_locks lm j)" if "j \<in> T" for j
      using held_here [OF sl that] u(5) [OF True] that by (auto simp: held_locks_def)
    ultimately show ?thesis
      using u(1) True sl(1) by (auto simp: unlock_one_def)
  qed
qed

lemma unlock_each_ok:
  assumes "transactions_ok tr T" "i \<in> T" "distinct ls" "set ls \<subseteq> held_locks lm i" "locks_ok (prio_of tr) T lm h pe"
  shows "\<exists>lm' ks. unlock_each lm (tr i) ls = Some (lm', ks) \<and> transaction_locks lm' = transaction_locks lm
    \<and> (\<forall>j\<in>T. held_locks lm' j = (if j = i then held_locks lm i - set ls else held_locks lm j))
    \<and> (\<forall>h'. wake_each ks i h h' \<longrightarrow> locks_ok (prio_of tr) T lm' h' pe)"
  using assms(3-5)
proof (induction ls arbitrary: lm h)
  case Nil
  then show ?case
    by (auto elim: wake_each.cases)
next
  case (Cons l ls)
  obtain lm1 k where 1: "unlock_one lm (tr i) l = Some (lm1, (l, k))" "transaction_locks lm1 = transaction_locks lm"
    "\<And>j. j \<in> T \<Longrightarrow> held_locks lm1 j = (if j = i then held_locks lm i - {l} else held_locks lm j)"
    "\<And>q'. wake_up k (h l) q' \<Longrightarrow> locks_ok (prio_of tr) T lm1 (h(l := q'(i := Outside))) pe"
    using unlock_one_ok [OF assms(1) Cons.prems(3) assms(2), of l] Cons.prems(2) by auto
  have sub: "distinct ls" "set ls \<subseteq> held_locks lm1 i"
    using Cons.prems(1,2) 1(3) [OF assms(2)] by auto
  note IH = Cons.IH [OF sub 1(4)]
  obtain q0 where q0: "wake_up k (h l) q0"
    using wake_up_exists by blast
  obtain lm2 ks where 2: "unlock_each lm1 (tr i) ls = Some (lm2, ks)" "transaction_locks lm2 = transaction_locks lm1"
    "\<And>j. j \<in> T \<Longrightarrow> held_locks lm2 j = (if j = i then held_locks lm1 i - set ls else held_locks lm1 j)"
    using IH [OF q0] by blast
  have "locks_ok (prio_of tr) T lm2 h' pe" if "wake_each ((l, k) # ks) i h h'" for h'
    using that
  proof cases
    case (wake_cons q)
    then show ?thesis
      using IH [OF wake_cons(1)] 2(1) by (metis option.inject prod.inject)
  qed
  then show ?case
    using 1(1,2) 2 1(3) assms(2) by (intro exI [of _ lm2] exI [of _ "(l, k) # ks"]) auto
qed

lemma unlockAll_ok:
  assumes ok: "transactions_ok tr T" and inv: "locks_ok (prio_of tr) T lm h pe" "lists_ok T lm" and i: "i \<in> T"
  shows "\<exists>lm' ks. unlockAll lm (tr i) = Some (lm', ks) \<and> lists_ok T lm' \<and> held_locks lm' i = {}
    \<and> (\<forall>h'. wake_each ks i h h' \<longrightarrow> locks_ok (prio_of tr) T lm' h' pe)"
proof -
  have t: "tid_id (tr i) = i"
    using ok i by (simp add: transactions_ok_def)
  have ls: "sorted_wrt (>) (lock_list lm i)" "set (lock_list lm i) = held_locks lm i"
    using inv(2) i unfolding lists_ok_def by blast+
  have "distinct (lock_list lm i)"
    using sorted_gt_distinct [OF ls(1)] .
  then obtain lm1 ks where 1: "unlock_each lm (tr i) (lock_list lm i) = Some (lm1, ks)"
    "transaction_locks lm1 = transaction_locks lm"
    "\<And>j. j \<in> T \<Longrightarrow> held_locks lm1 j = (if j = i then {} else held_locks lm j)"
    "\<And>h'. wake_each ks i h h' \<Longrightarrow> locks_ok (prio_of tr) T lm1 h' pe"
    using unlock_each_ok [OF ok i _ _ inv(1), of "lock_list lm i"] ls(2) by auto
  let ?lm = "lm1\<lparr>transaction_locks := (transaction_locks lm1)(i := None)\<rparr>"
  have h: "held_locks ?lm = held_locks lm1" "locks_ok (prio_of tr) T ?lm h' pe = locks_ok (prio_of tr) T lm1 h' pe" for h'
    by (simp_all add: held_locks_def fun_eq_iff locks_ok_def maps_ok_def)
  have l: "lists_ok T ?lm"
    using inv(2) 1(2,3) unfolding lists_ok_def h(1) by (auto simp: lock_list_def)
  show ?thesis
  proof (cases "transaction_locks lm i")
    case None
    with 1(1) have "lm1 = lm" "ks = []"
      by (simp_all add: lock_list_def)
    with None t inv(2) 1(3) [OF i] 1(4) show ?thesis
      by (simp add: unlockAll_def)
  next
    case (Some x)
    with 1(1) t l 1(3) [OF i] 1(4) h show ?thesis
      by (simp add: unlockAll_def lock_list_def)
  qed
qed

lemma lock_primitive_old:
  assumes "map_of_locks lm (lock_key p) = Some l" "locks lm l = Some sl"
  shows "lock_primitive lm (Some p) t md = lock_done lm t l (wait_for_lock sl t md)"
  using assms by (simp add: lock_primitive_def)

lemma lock_step_inv:
  assumes ok: "transactions_ok tr T" and inv: "lock_inv (prio_of tr) T z" and step: "lock_step no_upgrade tr T z z'"
  shows "lock_inv (prio_of tr) T z'"
proof -
  have f: "\<not> lock_failed z" and i: "locks_ok (prio_of tr) T (lmgr z) (hold z) (pend z)" "lists_ok T (lmgr z)"
    using inv by (simp_all add: lock_inv_def)
  show ?thesis
    using step
  proof cases
    case (new_lock i p md k lm' e)
    then show ?thesis
      using new_lock_ok [OF ok i new_lock(2,5), of md] f by (auto simp: lock_inv_def)
  next
    case (lock_returns i p l sl req md k lm' e q)
    then show ?thesis
      using lock_step_returns [OF ok i lock_returns(2,3,6), of md] f
      by (auto simp: lock_inv_def lock_primitive_old)
  next
    case (lock_waits i p l sl req md k lm' c q)
    then show ?thesis
      using lock_step_returns [OF ok i lock_waits(2,3,6), of md] f
      by (auto simp: lock_inv_def lock_primitive_old)
  next
    case (lock_goes_on i l md k lm' e q)
    then show ?thesis
      using lock_step_woken [OF ok i lock_goes_on(2,3,4)] f by (auto simp: lock_inv_def)
  next
    case (release_all i lm' ks h')
    then show ?thesis
      using unlockAll_ok [OF ok i release_all(2)] f by (auto simp: lock_inv_def)
  next
    case (assertion i p md)
    show ?thesis
    proof (cases "map_of_locks (lmgr z) (lock_key p)")
      case None
      then show ?thesis
        using new_lock_ok [OF ok i assertion(2) None, of md] assertion(6) by auto
    next
      case (Some l)
      then obtain sl where sl: "locks (lmgr z) l = Some sl"
        using locks_okD(1) [OF i(1)] unfolding maps_ok_def by blast
      show ?thesis
        using lock_step_returns [OF ok i assertion(2,3) sl, of md] assertion(5,6) Some sl
        by (simp add: lock_primitive_old [OF Some sl])
    qed
  next
    case (assertion_later i l md)
    then show ?thesis
      using lock_step_woken [OF ok i assertion_later(2,3,4)] by auto
  next
    case (assertion_release i)
    then show ?thesis
      using unlockAll_ok [OF ok i assertion_release(2)] by auto
  qed
qed

lemma lock_inv_start: "lock_inv prio T lock_start"
  by (simp add: lock_inv_def lock_start_def locks_ok_def LockManager_new_def maps_ok_def lists_ok_def lock_list_def
      held_locks_def)

lemma lock_reachable_inv:
  assumes "transactions_ok tr T" "lock_reachable no_upgrade tr T z"
  shows "lock_inv (prio_of tr) T z"
  using assms(2) by induction (auto simp: lock_inv_start intro: lock_step_inv [OF assms(1)])

section \<open>Exclusive locks\<close>

text \<open>For calls that run without a step of another thread in between, if no transaction asks to write an object that it has
  locked for reading: no assertion has failed, a transaction that holds a lock for writing is the only one that holds it, and each
  transaction is recorded with exactly the locks it holds. The theory \<open>LockSteps\<close> has the general case.\<close>

lemma lock_exclusive:
  assumes "transactions_ok tr T" "lock_reachable no_upgrade tr T z"
  shows "\<not> lock_failed z
    \<and> (\<forall>l sl i j. locks (lmgr z) l = Some sl \<and> i \<in> currentWrite sl \<and> j \<in> currentRead sl \<union> currentWrite sl \<longrightarrow> j = i)
    \<and> (\<forall>i\<in>T. set (case transaction_locks (lmgr z) i of None \<Rightarrow> [] | Some ls \<Rightarrow> ls)
         = {l. \<exists>sl. locks (lmgr z) l = Some sl \<and> (i \<in> currentRead sl \<or> i \<in> currentWrite sl)})"
proof -
  have inv: "\<not> lock_failed z" "locks_ok (prio_of tr) T (lmgr z) (hold z) (pend z)" "lists_ok T (lmgr z)"
    using lock_reachable_inv [OF assms] by (simp_all add: lock_inv_def)
  have "j = i" if "locks (lmgr z) l = Some sl" "i \<in> currentWrite sl" "j \<in> currentRead sl \<union> currentWrite sl" for l sl i j
  proof -
    have sl: "lock_ok (prio_of tr) T (hold z l) sl"
      by (rule locks_okD(2) [OF inv(2) that(1)])
    then have "sem_inv (prio_of tr) T (sl_sem sl) (hold z l)"
      by (simp add: lock_ok_def)
    then show ?thesis
      using sem_inv_exclusive [OF transactions_threads [OF assms(1)], of "sl_sem sl" "hold z l" i j] sl that(2,3)
      by (auto simp: lock_ok_def)
  qed
  with inv show ?thesis
    unfolding lists_ok_def lock_list_def held_locks_def by blast
qed

end
