(* ===== verification/VisibilityProperties.thy ===== *)
theory VisibilityProperties
  imports IndexVisibility
begin

text \<open>
  What the resolver of visibility promises. Transactions that begin, write entries into indexes and end are a step relation; the
  invariant relates the ring of the resolver to the order in which they began. What a transaction sees of another one
  was committed before it began. The converse fails: two runs show that the horizon can move back and can move too far.
\<close>

section \<open>The ring\<close>

definition nx :: "impact_heap \<Rightarrow> nat \<Rightarrow> nat option" where
  "nx h a = Option.bind (h a) ti_next"

definition pv :: "impact_heap \<Rightarrow> nat \<Rightarrow> nat option" where
  "pv h a = Option.bind (h a) ti_prev"

definition data :: "impact_heap \<Rightarrow> nat \<Rightarrow> ((int \<rightharpoonup> int) \<times> int set option \<times> int) option" where
  "data h a = map_option (\<lambda>n. (entryCounter n, finishedBefore n, ti_horizon n)) (h a)"

fun chain :: "impact_heap \<Rightarrow> nat \<Rightarrow> nat list \<Rightarrow> bool" where
  "chain h a [] \<longleftrightarrow> True"
| "chain h a (b # bs) \<longleftrightarrow> nx h a = Some b \<and> pv h b = Some a \<and> chain h b bs"

definition ring :: "impact_heap \<Rightarrow> nat \<Rightarrow> nat list \<Rightarrow> bool" where
  "ring h t as \<longleftrightarrow> distinct (t # as) \<and> (\<forall>a\<in>set (t # as). h a \<noteq> None) \<and> chain h t (as @ [t])"

lemma chain_append: "chain h a (xs @ ys) \<longleftrightarrow> chain h a xs \<and> chain h (last (a # xs)) ys"
  by (induction xs arbitrary: a) auto

lemma chain_cong:
  assumes "\<And>c. c \<in> set (butlast (a # bs)) \<Longrightarrow> nx h c = nx h' c" "\<And>c. c \<in> set bs \<Longrightarrow> pv h c = pv h' c"
  shows "chain h a bs = chain h' a bs"
  using assms by (induction bs arbitrary: a) auto

lemma set_next_simps [simp]:
  "nx (set_next a x h) c = (if c = a \<and> h a \<noteq> None then x else nx h c)"
  "pv (set_next a x h) = pv h" "data (set_next a x h) = data h" "set_next a x h c = None \<longleftrightarrow> h c = None"
  by (cases "h a"; auto simp: set_next_def nx_def pv_def data_def fun_eq_iff)+

lemma set_prev_simps [simp]:
  "pv (set_prev a x h) c = (if c = a \<and> h a \<noteq> None then x else pv h c)"
  "nx (set_prev a x h) = nx h" "data (set_prev a x h) = data h" "set_prev a x h c = None \<longleftrightarrow> h c = None"
  by (cases "h a"; auto simp: set_prev_def nx_def pv_def data_def fun_eq_iff)+

lemma fun_upd_links [simp]:
  "nx (h(a \<mapsto> n)) c = (if c = a then ti_next n else nx h c)" "nx (h(a := None)) c = (if c = a then None else nx h c)"
  "pv (h(a \<mapsto> n)) c = (if c = a then ti_prev n else pv h c)" "pv (h(a := None)) c = (if c = a then None else pv h c)"
  "data (h(a \<mapsto> n)) = (data h)(a \<mapsto> (entryCounter n, finishedBefore n, ti_horizon n))" "data (h(a := None)) = (data h)(a := None)"
  by (auto simp: nx_def pv_def data_def fun_eq_iff)

lemma nx_Some: "h a = Some n \<Longrightarrow> nx h a = ti_next n" "h a = Some n \<Longrightarrow> pv h a = ti_prev n"
  by (simp_all add: nx_def pv_def)

lemma nx_not_None [simp]: "nx h a = Some b \<Longrightarrow> \<exists>n. h a = Some n \<and> ti_next n = Some b"
  by (simp add: nx_def bind_eq_Some_conv)

lemma ring_upd_data:
  assumes "h a = Some n" "ti_next n' = ti_next n" "ti_prev n' = ti_prev n"
  shows "ring (h(a \<mapsto> n')) t as = ring h t as"
proof -
  have "nx (h(a \<mapsto> n')) = nx h" "pv (h(a \<mapsto> n')) = pv h"
    using assms by (auto simp: fun_eq_iff nx_Some)
  then have "chain (h(a \<mapsto> n')) t (as @ [t]) = chain h t (as @ [t])"
    by (intro chain_cong) auto
  then show ?thesis
    using assms(1) by (auto simp: ring_def)
qed

lemma insertAfter_ok:
  assumes "ring h t as" "a \<notin> set (t # as)"
  obtains h' where "insertAfter t a (h(a \<mapsto> n)) = Inr h'" "ring h' a (as @ [t])"
    "data h' = (data h)(a \<mapsto> (entryCounter n, finishedBefore n, ti_horizon n))"
    "\<And>c. h' c = None \<longleftrightarrow> c \<noteq> a \<and> h c = None"
proof -
  obtain y zs where yz: "as @ [t] = y # zs"
    by (cases "as @ [t]") auto
  have c: "nx h t = Some y" "pv h y = Some t" "chain h y zs"
    using assms(1) by (simp_all add: ring_def yz)
  have y: "y \<in> set (t # as)" "h y \<noteq> None" "h t \<noteq> None"
    using assms(1) arg_cong [OF yz, of set] by (auto simp: ring_def)
  then obtain m my where m: "h t = Some m" "ti_next m = Some y" "h y = Some my"
    using c(1) by (auto simp: nx_def)
  define h' where "h' = set_next a (Some y) (set_prev a (Some t) (set_next t (Some a) (set_prev y (Some a) (h(a \<mapsto> n)))))"
  have at: "a \<noteq> t" "a \<noteq> y"
    using assms(2) y(1) by auto
  have "insertAfter t a (h(a \<mapsto> n)) = Inr h'"
    using at m by (simp add: insertAfter_def deref_def h'_def Let_def)
  moreover have "ring h' a (as @ [t])"
  proof -
    have d: "distinct (y # zs)" "a \<notin> set (y # zs)"
      using assms by (auto simp: ring_def simp flip: yz)
    have t: "t \<notin> set (butlast (y # zs))"
      using assms(1) by (simp add: ring_def flip: yz)
    have l: "last (a # y # zs) = t"
      by (simp flip: yz)
    have "chain h' y zs"
    proof -
      have "chain h' y zs = chain h y zs"
        by (rule chain_cong) (use at d t in \<open>auto simp: h'_def split: if_splits dest: in_set_butlastD\<close>)
      with c(3) show ?thesis
        by simp
    qed
    then have "chain h' a ((as @ [t]) @ [a])"
      unfolding yz chain_append l using at y by (auto simp: h'_def)
    then show ?thesis
      using assms by (auto simp: ring_def h'_def)
  qed
  ultimately show ?thesis
    by (rule that) (auto simp: h'_def)
qed

lemma impact_remove_ok:
  assumes "ring h t (xs @ b # ys)"
  obtains h' where "impact_remove b h = Inr h'" "ring (h'(b := None)) t (xs @ ys)" "data h' = data h"
    "\<And>c. h' c = None \<longleftrightarrow> h c = None"
proof -
  obtain y zs where yz: "ys @ [t] = y # zs"
    by (cases "ys @ [t]") auto
  let ?p = "last (t # xs)"
  have c: "chain h t xs" "nx h ?p = Some b" "pv h b = Some ?p" "nx h b = Some y" "pv h y = Some b" "chain h y zs"
    using assms by (simp_all add: ring_def chain_append yz split: if_splits)
  have d: "distinct (t # xs @ b # ys)"
    using assms by (simp add: ring_def)
  have p: "?p \<in> set (t # xs)"
    by (rule last_in_set) simp
  have y: "y \<in> set (t # ys)"
    using arg_cong [OF yz, of set] by auto
  have ne: "h b \<noteq> None" "h ?p \<noteq> None" "h y \<noteq> None" "b \<noteq> ?p" "b \<noteq> y"
    using assms p y d by (auto simp: ring_def simp del: last.simps)
  then obtain n np ny where n: "h b = Some n" "ti_next n = Some y" "ti_prev n = Some ?p" "h ?p = Some np" "h y = Some ny"
    using c(3,4) by (auto simp: nx_def pv_def simp del: last.simps)
  define h' where "h' = set_next b None (set_prev b None (set_next ?p (Some y) (set_prev y (Some ?p) h)))"
  have "impact_remove b h = Inr h'"
    using n by (simp add: impact_remove_def deref_def h'_def Let_def del: last.simps)
  moreover have "ring (h'(b := None)) t (xs @ ys)"
  proof -
    have dz: "distinct (y # zs)" "b \<notin> set (y # zs)" "set xs \<inter> set (y # zs) = {}" "butlast (y # zs) = ys"
      using d by (auto simp flip: yz)
    have "chain (h'(b := None)) t xs = chain h t xs"
    proof (rule chain_cong)
      fix c assume c: "c \<in> set (butlast (t # xs))"
      have "distinct (butlast (t # xs) @ [?p])"
        using d by (subst append_butlast_last_id) auto
      then have "c \<noteq> ?p"
        using c by (simp only: distinct_append) auto
      moreover have "c \<in> set (t # xs)"
        using c by (rule in_set_butlastD)
      ultimately show "nx (h'(b := None)) c = nx h c"
        using d by (auto simp: h'_def simp del: last.simps butlast.simps)
    next
      fix c assume "c \<in> set xs"
      then show "pv (h'(b := None)) c = pv h c"
        using d dz by (auto simp: h'_def simp del: last.simps)
    qed
    moreover have "chain (h'(b := None)) y zs = chain h y zs"
    proof (rule chain_cong)
      fix c assume "c \<in> set (butlast (y # zs))"
      then show "nx (h'(b := None)) c = nx h c"
        using d p unfolding dz(4) by (auto simp: h'_def simp del: last.simps)
    next
      fix c assume "c \<in> set zs"
      then show "pv (h'(b := None)) c = pv h c"
        using dz by (auto simp: h'_def simp del: last.simps)
    qed
    ultimately have "chain (h'(b := None)) t ((xs @ ys) @ [t])"
      using c(1,6) ne by (simp add: yz chain_append h'_def del: last.simps)
    moreover have "\<forall>a\<in>set (t # xs @ ys). (h'(b := None)) a \<noteq> None"
      using assms d unfolding ring_def by (auto simp: h'_def simp del: last.simps not_None_eq)
    ultimately show ?thesis
      using d by (simp add: ring_def)
  qed
  ultimately show ?thesis
    by (rule that) (auto simp: h'_def simp del: last.simps)
qed

section \<open>Transactions that use the resolver\<close>

text \<open>Beside the resolver the state holds the transactions that have begun, the time (a number of a log record), the
  begin times, the times of the commit records, how transactions have ended in the resolver (\<open>Some c\<close> for a commit at time \<open>c\<close>,
  \<open>None\<close> for an abort), those that had ended when a transaction began, and how many entries a transaction has in an index. The
  transaction manager begins a transaction in the resolver before it takes its begin time, and writes the
  commit record before it ends the transaction in the resolver.\<close>

record vis_system =
  vs_res :: VisibilityResolver
  vs_begun :: "int set"
  vs_clock :: int
  vs_begin :: "int \<rightharpoonup> int"
  vs_log :: "int \<rightharpoonup> int"
  vs_done :: "int \<rightharpoonup> int option"
  vs_seen :: "int \<Rightarrow> int set"
  vs_entries :: "int \<Rightarrow> int \<Rightarrow> int"

definition vis_start :: vis_system where
  "vis_start = \<lparr>vs_res = VisibilityResolver_new, vs_begun = {}, vs_clock = 0, vs_begin = Map.empty, vs_log = Map.empty,
     vs_done = Map.empty, vs_seen = (\<lambda>_. {}), vs_entries = (\<lambda>_ _. 0)\<rparr>"

definition running :: "vis_system \<Rightarrow> int set" where
  "running z = {i \<in> vs_begun z. vs_done z i = None}"

definition more_entries :: "int \<Rightarrow> int \<Rightarrow> int \<Rightarrow> vis_system \<Rightarrow> vis_system" where
  "more_entries i ix d z = z\<lparr>vs_entries := (vs_entries z)(i := (vs_entries z i)(ix := vs_entries z i ix + d))\<rparr>"

inductive vis_step :: "vis_system \<Rightarrow> vis_system \<Rightarrow> bool" where
  step_begin: "0 < i \<Longrightarrow> \<forall>j\<in>vs_begun z. j < i \<Longrightarrow> vr_begin i (vs_res z) = Inr v
     \<Longrightarrow> vis_step z (z\<lparr>vs_res := v, vs_begun := insert i (vs_begun z), vs_seen := (vs_seen z)(i := dom (vs_done z))\<rparr>)"
| step_stamp: "i \<in> vs_begun z \<Longrightarrow> vs_begin z i = None \<Longrightarrow> vs_clock z < c
     \<Longrightarrow> vis_step z (z\<lparr>vs_clock := c, vs_begin := (vs_begin z)(i \<mapsto> c)\<rparr>)"
| step_log: "i \<in> running z \<Longrightarrow> vs_log z i = None \<Longrightarrow> vs_clock z < c
     \<Longrightarrow> vis_step z (z\<lparr>vs_clock := c, vs_log := (vs_log z)(i \<mapsto> c)\<rparr>)"
| step_commit: "i \<in> running z \<Longrightarrow> vs_log z i = Some c \<Longrightarrow> vr_commit i c (vs_res z) = Inr v
     \<Longrightarrow> vis_step z (z\<lparr>vs_res := v, vs_done := (vs_done z)(i \<mapsto> Some c)\<rparr>)"
| step_abort: "i \<in> running z \<Longrightarrow> vr_abort i (vs_res z) = Inr v
     \<Longrightarrow> vis_step z (z\<lparr>vs_res := v, vs_done := (vs_done z)(i \<mapsto> None)\<rparr>)"
| step_add: "i \<in> running z \<Longrightarrow> entryAdded i ix (vs_res z) = Inr v
     \<Longrightarrow> vis_step z (more_entries i ix 1 (z\<lparr>vs_res := v\<rparr>))"
| step_drop: "i \<in> running z \<Longrightarrow> 0 < vs_entries z i ix \<Longrightarrow> entryDropped i ix ACTIVE_ENTRY (vs_res z) = Inr v
     \<Longrightarrow> vis_step z (more_entries i ix (-1) (z\<lparr>vs_res := v\<rparr>))"
| step_clean: "vs_done z i = Some None \<Longrightarrow> 0 < vs_entries z i ix \<Longrightarrow> entryDropped i ix ROLLED_BACK_ENTRY (vs_res z) = Inr v
     \<Longrightarrow> vis_step z (more_entries i ix (-1) (z\<lparr>vs_res := v\<rparr>))"
| step_clean_committed: "vs_done z i = Some (Some c) \<Longrightarrow> 0 < vs_entries z i ix \<Longrightarrow> vis_step z (more_entries i ix (-1) z)"
| step_drop_index: "vis_step z (z\<lparr>vs_res := indexDropped ix (vs_res z), vs_entries := (\<lambda>i. (vs_entries z i)(ix := 0))\<rparr>)"

abbreviation vis_reachable :: "vis_system \<Rightarrow> bool" where
  "vis_reachable z \<equiv> vis_step\<^sup>*\<^sup>* vis_start z"

section \<open>The invariant\<close>

definition covers :: "int option \<Rightarrow> int \<Rightarrow> bool" where
  "covers m e = (case m of None \<Rightarrow> e \<le> 0 | Some c \<Rightarrow> 1 \<le> c \<and> e \<le> c)"

definition node_ok :: "vis_system \<Rightarrow> int \<Rightarrow> nat \<Rightarrow> bool" where
  "node_ok z i a \<longleftrightarrow> (\<exists>E F h. data (impacts (vs_res z)) a = Some (E, F, h) \<and> (F = None \<longrightarrow> (\<forall>j\<in>running z. i \<le> j))
     \<and> (\<forall>X. F = Some X \<longrightarrow> X \<subseteq> vs_seen z i) \<and> h < i \<and> h \<in> insert 0 (vs_begun z) \<and> (\<forall>ix. covers (E ix) (vs_entries z i ix)))"

definition tail_node :: "vis_system \<Rightarrow> bool" where
  "tail_node z \<longleftrightarrow> (\<exists>F h. data (impacts (vs_res z)) (vr_tail (vs_res z)) = Some (Map.empty, F, h) \<and> (F = None \<longrightarrow> running z = {})
     \<and> (\<forall>X. F = Some X \<longrightarrow> X \<subseteq> dom (vs_done z)) \<and> h \<in> insert 0 (vs_begun z))"

definition ring_inv :: "vis_system \<Rightarrow> (int \<times> nat) list \<Rightarrow> bool" where
  "ring_inv z ps \<longleftrightarrow> ring (impacts (vs_res z)) (vr_tail (vs_res z)) (map snd ps) \<and> sorted_wrt (<) (map fst ps)
     \<and> active (vs_res z) = map_of ps \<and> fst ` set ps = running z
     \<and> (\<forall>a. impacts (vs_res z) a \<noteq> None \<longrightarrow> a < fresh_addr (vs_res z))
     \<and> (\<forall>(i, a)\<in>set ps. node_ok z i a) \<and> tail_node z
     \<and> vr_horizon (vs_res z) \<in> insert 0 (vs_begun z) \<and> (\<forall>i\<in>running z. vr_horizon (vs_res z) < i)"

definition end_inv :: "vis_system \<Rightarrow> bool" where
  "end_inv z \<longleftrightarrow>
     (\<forall>i c. commitTs (vs_res z) i = Some c \<longrightarrow> vs_done z i = Some (Some c))
     \<and> (\<forall>i c ix. vs_done z i = Some (Some c) \<and> 0 < vs_entries z i ix \<and> commitTs (vs_res z) i = None \<longrightarrow> (\<forall>j\<in>running z. i \<in> vs_seen z j))
     \<and> (\<forall>ix m i. rolledBack (vs_res z) ix = Some m \<and> m i \<noteq> None \<longrightarrow> vs_done z i = Some None)
     \<and> (\<forall>i ix. vs_done z i = Some None \<longrightarrow> covers (Option.bind (rolledBack (vs_res z) ix) (\<lambda>m. m i)) (vs_entries z i ix))"

definition time_inv :: "vis_system \<Rightarrow> bool" where
  "time_inv z \<longleftrightarrow> (\<forall>i\<in>vs_begun z. 0 < i) \<and> dom (vs_done z) \<subseteq> vs_begun z
     \<and> (\<forall>i ix. 0 \<le> vs_entries z i ix \<and> (i \<notin> vs_begun z \<longrightarrow> vs_entries z i ix = 0))
     \<and> (\<forall>i. vs_seen z i \<subseteq> dom (vs_done z)) \<and> (\<forall>i\<in>vs_begun z. \<forall>j\<in>vs_begun z. i < j \<longrightarrow> vs_seen z i \<subseteq> vs_seen z j)
     \<and> (\<forall>i c. vs_log z i = Some c \<longrightarrow> c \<le> vs_clock z) \<and> (\<forall>i c. vs_done z i = Some (Some c) \<longrightarrow> vs_log z i = Some c)
     \<and> (\<forall>i. vs_begin z i \<noteq> None \<longrightarrow> i \<in> vs_begun z)
     \<and> (\<forall>i j c b. i \<in> vs_seen z j \<and> vs_done z i = Some (Some c) \<and> vs_begin z j = Some b \<longrightarrow> c < b)"

definition vis_inv :: "vis_system \<Rightarrow> bool" where
  "vis_inv z \<longleftrightarrow> (\<exists>ps. ring_inv z ps) \<and> end_inv z \<and> time_inv z"

text \<open>What a transaction sees.\<close>

lemma vis_inv_sound:
  assumes "vis_inv z" "a \<in> running z" "vs_begin z a = Some b" "i \<in> vs_begun z" "0 < vs_entries z i ix"
    and "isVisible (vs_res z) i b ix"
  shows "\<exists>c. vs_done z i = Some (Some c) \<and> c < b"
proof -
  have pos: "0 < i" and ts: "\<And>i j c b. i \<in> vs_seen z j \<Longrightarrow> vs_done z i = Some (Some c) \<Longrightarrow> vs_begin z j = Some b \<Longrightarrow> c < b"
    using assms(1,4) unfolding vis_inv_def time_inv_def by blast+
  have C: "\<And>c. commitTs (vs_res z) i = Some c \<Longrightarrow> vs_done z i = Some (Some c)"
    "\<And>c. vs_done z i = Some (Some c) \<Longrightarrow> commitTs (vs_res z) i = None \<Longrightarrow> i \<in> vs_seen z a"
    "vs_done z i = Some None \<Longrightarrow> covers (Option.bind (rolledBack (vs_res z) ix) (\<lambda>m. m i)) (vs_entries z i ix)"
    and H: "i \<in> running z \<Longrightarrow> vr_horizon (vs_res z) < i"
    using assms(1,2,5) unfolding vis_inv_def end_inv_def ring_inv_def by blast+
  have "vs_done z i \<noteq> Some None"
    using C(3) assms(5,6) pos
    by (auto simp: isVisible_def isRolledBack_def covers_def BEYOND_HORIZON_def split: if_splits option.splits bind_splits)
  then show ?thesis
    using assms(4,6) C(1,2) H pos ts [OF _ _ assms(3)]
    by (cases "vs_done z i"; cases "commitTs (vs_res z) i")
      (auto simp: isVisible_def isBeyondHorizon_def running_def BEYOND_HORIZON_def split: if_splits)
qed

section \<open>Every step keeps the invariant\<close>

lemma ring_invD:
  assumes "ring_inv z ps"
  shows "ring (impacts (vs_res z)) (vr_tail (vs_res z)) (map snd ps)" "sorted_wrt (<) (map fst ps)"
    "active (vs_res z) = map_of ps" "fst ` set ps = running z" "\<And>i a. (i, a) \<in> set ps \<Longrightarrow> node_ok z i a" "tail_node z"
    "\<And>a. impacts (vs_res z) a \<noteq> None \<Longrightarrow> a < fresh_addr (vs_res z)"
    "vr_horizon (vs_res z) \<in> insert 0 (vs_begun z)" "\<And>i. i \<in> running z \<Longrightarrow> vr_horizon (vs_res z) < i"
  using assms unfolding ring_inv_def by blast+

lemma step_begin_inv:
  assumes "vis_inv z" "0 < i" "\<forall>j\<in>vs_begun z. j < i"
  shows "\<exists>v. vr_begin i (vs_res z) = Inr v
    \<and> vis_inv (z\<lparr>vs_res := v, vs_begun := insert i (vs_begun z), vs_seen := (vs_seen z)(i := dom (vs_done z))\<rparr>)"
proof -
  obtain ps where ps: "ring_inv z ps" and inv: "end_inv z" "time_inv z"
    using assms(1) by (auto simp: vis_inv_def)
  note R = ring_invD [OF ps]
  let ?v = "vs_res z" and ?t = "vr_tail (vs_res z)" and ?a = "fresh_addr (vs_res z)"
  have "?a \<notin> set (?t # map snd ps)"
    using R(1,7) unfolding ring_def by fastforce
  then obtain h where h: "insertAfter ?t ?a ((impacts ?v)(?a \<mapsto> TransactionImpact_new ?a)) = Inr h" "ring h ?a (map snd ps @ [?t])"
      "data h = (data (impacts ?v))(?a \<mapsto> (Map.empty, Some {}, 0))" "\<And>c. h c = None \<longleftrightarrow> c \<noteq> ?a \<and> impacts ?v c = None"
    using insertAfter_ok [OF R(1), of ?a "TransactionImpact_new ?a"] by (auto simp: TransactionImpact_new_def)
  have "i \<notin> vs_begun z"
    using assms(3) by blast
  then have new: "i \<notin> vs_begun z" "vs_done z i = None" "i \<notin> running z" "\<And>ix. vs_entries z i ix = 0" "vs_begin z i = None"
    using inv(2) unfolding time_inv_def running_def by blast+
  then have "active ?v i = None"
    using R(4) by (simp add: R(3) map_of_eq_None_iff)
  moreover define v where
    "v = ?v\<lparr>active := (active ?v)(i \<mapsto> ?t), impacts := h, fresh_addr := ?a + 1, vr_tail := ?a\<rparr>"
  ultimately have v: "vr_begin i ?v = Inr v"
    using h(1) by (simp add: vr_begin_def map_insert_def Let_def)
  let ?z = "z\<lparr>vs_res := v, vs_begun := insert i (vs_begun z), vs_seen := (vs_seen z)(i := dom (vs_done z))\<rparr>"
  have run: "running ?z = insert i (running z)"
    using new by (auto simp: running_def)
  have ne: "j \<in> running z \<and> j < i \<and> a \<noteq> ?a" if "(j, a) \<in> set ps" for j a
  proof -
    have "j \<in> fst ` set ps" "a \<in> snd ` set ps"
      using that by force+
    then show ?thesis
      unfolding R(4) using assms(3) \<open>?a \<notin> _\<close> unfolding running_def set_map list.set by blast
  qed
  have "?t \<noteq> ?a"
    using \<open>?a \<notin> _\<close> by simp
  have "ring_inv ?z (ps @ [(i, ?t)])"
    unfolding ring_inv_def
  proof (intro conjI)
    show "sorted_wrt (<) (map fst (ps @ [(i, ?t)]))"
      using R(2) ne by (auto simp: sorted_wrt_append)
    show "active (vs_res ?z) = map_of (ps @ [(i, ?t)])"
      using R(3) \<open>active ?v i = None\<close> by (auto simp: v_def fun_eq_iff map_add_def split: option.splits)
    show "\<forall>(j, a)\<in>set (ps @ [(i, ?t)]). node_ok ?z j a"
    proof -
      have "node_ok ?z j a" if "(j, a) \<in> set ps" for j a
        using R(5) [OF that] ne [OF that] unfolding node_ok_def run by (auto simp: v_def h(3))
      moreover have "node_ok ?z i ?t"
        using R(6) \<open>?t \<noteq> ?a\<close> ne assms(2,3) new unfolding node_ok_def tail_node_def run by (auto simp: v_def h(3) covers_def)
      ultimately show ?thesis
        by auto
    qed
    show "\<forall>a. impacts (vs_res ?z) a \<noteq> None \<longrightarrow> a < fresh_addr (vs_res ?z)"
    proof (intro allI impI)
      fix a assume "impacts (vs_res ?z) a \<noteq> None"
      then have "a = ?a \<or> impacts ?v a \<noteq> None"
        using h(4) [of a] by (auto simp: v_def)
      with R(7) [of a] show "a < fresh_addr (vs_res ?z)"
        by (auto simp: v_def)
    qed
  qed (use R h(2) run assms(2,3) in \<open>auto simp: v_def tail_node_def h(3)\<close>)
  moreover have "end_inv ?z"
    using inv(1) new unfolding end_inv_def run by (auto simp: v_def)
  moreover have "time_inv ?z"
    using inv(2) assms(2,3) new unfolding time_inv_def by (auto simp: v_def)
  ultimately show ?thesis
    using v by (auto simp: vis_inv_def)
qed

lemma data_Some: "data h a = Some (E, F, k) \<longleftrightarrow> (\<exists>n. h a = Some n \<and> entryCounter n = E \<and> finishedBefore n = F \<and> ti_horizon n = k)"
  by (auto simp: data_def)

lemma prepare2finish_ok:
  assumes "ring (impacts v) (vr_tail v) as" "active v i = Some b" "data (impacts v) (vr_tail v) = Some (E, Some X, k)"
  obtains v' where "prepare2finish i v = Inr (v', b)" "ring (impacts v') (vr_tail v) as" "vr_tail v' = vr_tail v"
    "data (impacts v') = (data (impacts v))(vr_tail v \<mapsto> (E, Some (insert i X), max k i))"
    "\<And>c. impacts v' c = None \<longleftrightarrow> impacts v c = None" "active v' = (active v)(i := None)" "rolledBack v' = rolledBack v"
    "commitTs v' = commitTs v" "vr_horizon v' = vr_horizon v" "fresh_addr v' = fresh_addr v"
proof -
  obtain n where n: "impacts v (vr_tail v) = Some n" "entryCounter n = E" "finishedBefore n = Some X" "ti_horizon n = k"
    using assms(3) by (auto simp: data_Some)
  let ?n = "n\<lparr>finishedBefore := Some (insert i X), ti_horizon := max k i\<rparr>"
  have "addFinished i n = Inr ?n"
    using n by (simp add: addFinished_def max_def)
  then have "prepare2finish i v =
      Inr (v\<lparr>active := (active v)(i := None), impacts := (impacts v)(vr_tail v \<mapsto> ?n)\<rparr>, b)"
    using assms(2) n by (simp add: prepare2finish_def deref_def)
  then show ?thesis
    by (rule that) (use assms(1) n ring_upd_data [of "impacts v" "vr_tail v" n ?n] in \<open>auto simp: n\<close>)
qed

lemma vr_finish_ok:
  assumes "ring (impacts v) (vr_tail v) (xs @ b # ys)" "y = hd (ys @ [vr_tail v])"
    and "data (impacts v) y = Some (E, F, k)" "xs = [] \<Longrightarrow> F \<noteq> None"
  obtains v' where "vr_finish b v = Inr v'" "ring (impacts v') (vr_tail v) (xs @ ys)" "vr_tail v' = vr_tail v"
    "data (impacts v') = (if xs = [] then (data (impacts v))(y \<mapsto> (E, None, k)) else data (impacts v))(b := None)"
    "\<forall>c. impacts v' c \<noteq> None \<longrightarrow> impacts v c \<noteq> None" "active v' = active v" "rolledBack v' = rolledBack v"
    "commitTs v' = (if xs = [] then commitTs v |` (- the F) else commitTs v)"
    "vr_horizon v' = (if xs = [] then k else vr_horizon v)" "fresh_addr v' = fresh_addr v"
proof -
  let ?t = "vr_tail v"
  obtain zs where yz: "ys @ [?t] = y # zs"
    using assms(2) by (cases "ys @ [?t]") auto
  have d: "distinct (?t # xs @ b # ys)" and c: "pv (impacts v) b = Some (last (?t # xs))" "nx (impacts v) b = Some y"
    "impacts v b \<noteq> None"
    using assms(1) by (simp_all add: ring_def chain_append yz split: if_splits)
  obtain n ny where n: "impacts v b = Some n" "ti_next n = Some y" "ti_prev n = Some (last (?t # xs))"
    "impacts v y = Some ny" "entryCounter ny = E" "finishedBefore ny = F" "ti_horizon ny = k"
    using c assms(3) by (auto simp: nx_def pv_def data_Some)
  have first: "last (?t # xs) = ?t \<longleftrightarrow> xs = []"
    using d by (cases xs rule: rev_cases) auto
  define w where "w = (if xs = [] then v\<lparr>vr_horizon := k, commitTs := commitTs v |` (- the F),
    impacts := (impacts v)(y \<mapsto> forgetFinishedBefore ny)\<rparr> else v)"
  have fg: "vr_finish b v = fbind (impact_remove b (impacts w)) (\<lambda>h. Inr (w\<lparr>impacts := h(b := None)\<rparr>))"
    using n first assms(4) by (cases "xs = []"; cases F) (simp_all add: vr_finish_def deref_def w_def del: last.simps)
  have "ring (impacts w) ?t (xs @ b # ys)"
    using assms(1) n(4) ring_upd_data [of "impacts v" y ny "forgetFinishedBefore ny"] by (auto simp: w_def forgetFinishedBefore_def)
  from impact_remove_ok [OF this] obtain h where h: "impact_remove b (impacts w) = Inr h" "ring (h(b := None)) ?t (xs @ ys)"
      "data h = data (impacts w)" "\<And>c. h c = None \<longleftrightarrow> impacts w c = None"
    by blast
  show ?thesis
  proof (rule that)
    show "vr_finish b v = Inr (w\<lparr>impacts := h(b := None)\<rparr>)"
      by (simp add: fg h(1))
    show "\<forall>c. impacts (w\<lparr>impacts := h(b := None)\<rparr>) c \<noteq> None \<longrightarrow> impacts v c \<noteq> None"
    proof (intro allI impI)
      fix c assume "impacts (w\<lparr>impacts := h(b := None)\<rparr>) c \<noteq> None"
      then show "impacts v c \<noteq> None"
        using h(4) [of c] n(4) by (auto simp: w_def split: if_splits)
    qed
  qed (use n(4-7) h(2) in \<open>auto simp: h(3) w_def forgetFinishedBefore_def\<close>)
qed

lemma map_of_removed:
  assumes "i \<notin> fst ` set us" "i \<notin> fst ` set vs"
  shows "(map_of (us @ (i, b) # vs))(i := None) = map_of (us @ vs)"
proof -
  have "map_of us i = None" "map_of vs i = None"
    using assms by (simp_all add: map_of_eq_None_iff)
  then show ?thesis
    by (auto simp: fun_eq_iff map_add_def split: option.splits)
qed

text \<open>The end of transaction \<open>i\<close>, for a commit and an abort: \<open>v2\<close> is the resolver between \<open>prepare2finish\<close> and \<open>finish\<close>.\<close>

lemma finish_inv:
  assumes ps: "ring_inv z (us @ (i, b) # vs)" and tm: "time_inv z"
    and tl: "data (impacts (vs_res z)) (vr_tail (vs_res z)) = Some (Map.empty, Some X, k)"
    and v2: "ring (impacts v2) (vr_tail v2) (map snd (us @ (i, b) # vs))" "vr_tail v2 = vr_tail (vs_res z)"
      "\<And>c. c \<noteq> b \<Longrightarrow> data (impacts v2) c = ((data (impacts (vs_res z)))(vr_tail (vs_res z) \<mapsto> (Map.empty, Some (insert i X), max k i))) c"
      "active v2 = (active (vs_res z))(i := None)" "vr_horizon v2 = vr_horizon (vs_res z)" "fresh_addr v2 = fresh_addr (vs_res z)"
      "\<And>c. impacts v2 c = None \<longleftrightarrow> impacts (vs_res z) c = None"
  shows "\<exists>v'. vr_finish b v2 = Inr v' \<and> rolledBack v' = rolledBack v2 \<and> commitTs v' \<subseteq>\<^sub>m commitTs v2
    \<and> (\<forall>j l. commitTs v' j \<noteq> commitTs v2 j \<longrightarrow> l \<in> running z \<longrightarrow> l \<noteq> i \<longrightarrow> j \<in> vs_seen z l)
    \<and> (\<forall>rb x. ring_inv (z\<lparr>vs_res := v'\<lparr>rolledBack := rb\<rparr>, vs_done := (vs_done z)(i \<mapsto> x)\<rparr>) (us @ vs))"
proof -
  note R = ring_invD [OF ps]
  let ?t = "vr_tail (vs_res z)" and ?y = "hd (map snd vs @ [vr_tail (vs_res z)])"
  have d: "distinct (?t # map snd us @ b # map snd vs)" and s: "sorted_wrt (<) (map fst us @ i # map fst vs)"
    using R(1,2) by (simp_all add: ring_def)
  have run: "\<And>l c. (l, c) \<in> set us \<or> (l, c) \<in> set vs \<Longrightarrow> l \<in> running z" "i \<in> running z"
    unfolding R(4) [symmetric] by force+
  have mem: "\<exists>c. (l, c) \<in> set us \<or> (l, c) \<in> set vs" if "l \<in> running z" "l \<noteq> i" for l
    using that unfolding R(4) [symmetric] by auto
  have y: "?y \<noteq> b"
    using d by (cases vs) auto
  obtain E F h where y2: "data (impacts v2) ?y = Some (E, F, h)" and F: "us = [] \<Longrightarrow> \<exists>Y. F = Some Y \<and> (\<forall>(l, c)\<in>set vs. Y \<subseteq> vs_seen z l)"
    and h: "vs = [] \<Longrightarrow> E = Map.empty \<and> F = Some (insert i X) \<and> h = max k i"
      "\<And>j c vs'. vs = (j, c) # vs' \<Longrightarrow> data (impacts (vs_res z)) c = Some (E, F, h)"
  proof (cases vs)
    case Nil
    then show thesis
      using that v2(3) [of ?t] y by simp
  next
    case (Cons jc vs')
    obtain j c where jc: "jc = (j, c)"
      by fastforce
    have n: "node_ok z j c" "?y = c" "c \<noteq> ?t" "i < j" "\<forall>(l, c)\<in>set vs'. j < l" "i \<in> running z" "j \<in> running z"
      using R(5) run d s by (auto simp: Cons jc sorted_wrt_append)
    then obtain E F h where e: "data (impacts (vs_res z)) c = Some (E, F, h)" "F \<noteq> None" "\<And>Y. F = Some Y \<Longrightarrow> Y \<subseteq> vs_seen z j"
      unfolding node_ok_def by (metis not_le)
    have mono: "vs_seen z j \<subseteq> vs_seen z l" if "(l, c) \<in> set vs" for l c
    proof -
      have m: "\<forall>i\<in>vs_begun z. \<forall>j\<in>vs_begun z. i < j \<longrightarrow> vs_seen z i \<subseteq> vs_seen z j"
        using tm by (simp add: time_inv_def)
      have "l \<in> vs_begun z" "j \<in> vs_begun z" "l = j \<or> j < l"
        using that run(1) [of l c] n(5,7) by (auto simp: running_def Cons jc)
      with m show ?thesis
        by blast
    qed
    show thesis
    proof (rule that)
      show "data (impacts v2) ?y = Some (E, F, h)"
        using e(1) v2(3) [of c] y n(2,3) by simp
      show "\<exists>Y. F = Some Y \<and> (\<forall>(l, c)\<in>set vs. Y \<subseteq> vs_seen z l)"
        using e(2,3) mono by fastforce
    qed (use e Cons jc in auto)
  qed
  have r2: "ring (impacts v2) (vr_tail v2) (map snd us @ b # map snd vs)" "?y = hd (map snd vs @ [vr_tail v2])"
    "map snd us = [] \<Longrightarrow> F \<noteq> None"
    using F v2(1,2) by auto
  obtain v' where v': "vr_finish b v2 = Inr v'" "ring (impacts v') (vr_tail v2) (map snd us @ map snd vs)" "vr_tail v' = vr_tail v2"
    "data (impacts v') = (if map snd us = [] then (data (impacts v2))(?y \<mapsto> (E, None, h)) else data (impacts v2))(b := None)"
    "\<forall>c. impacts v' c \<noteq> None \<longrightarrow> impacts v2 c \<noteq> None" "active v' = active v2" "rolledBack v' = rolledBack v2"
    "commitTs v' = (if map snd us = [] then commitTs v2 |` (- the F) else commitTs v2)"
    "vr_horizon v' = (if map snd us = [] then h else vr_horizon v2)" "fresh_addr v' = fresh_addr v2"
    by (rule vr_finish_ok [OF r2(1,2) y2 r2(3)]) blast
  note v' = v' [unfolded v2(2) map_is_Nil_conv]
  show ?thesis
  proof (intro exI conjI allI impI)
    show "commitTs v' \<subseteq>\<^sub>m commitTs v2"
      by (auto simp: v'(8) map_le_def restrict_map_def)
    show "j \<in> vs_seen z l" if "commitTs v' j \<noteq> commitTs v2 j" "l \<in> running z" "l \<noteq> i" for j l
      using that(1) F mem [OF that(2,3)] by (auto simp: v'(8) restrict_map_def split: if_splits)
    show "ring_inv (z\<lparr>vs_res := v'\<lparr>rolledBack := rb\<rparr>, vs_done := (vs_done z)(i \<mapsto> x)\<rparr>) (us @ vs)" for rb x
    proof -
      let ?z = "z\<lparr>vs_res := v'\<lparr>rolledBack := rb\<rparr>, vs_done := (vs_done z)(i \<mapsto> x)\<rparr>"
      have r: "running ?z = running z - {i}" and i: "i \<notin> fst ` set us" "i \<notin> fst ` set vs"
        using s by (auto simp: running_def sorted_wrt_append)
      have nodes: "node_ok ?z l c" if lc: "(l, c) \<in> set (us @ vs)" for l c
      proof -
        have c: "c \<in> snd ` set (us @ vs)"
          using lc by force
        moreover have "b \<notin> snd ` set (us @ vs)" "?t \<notin> snd ` set (us @ vs)"
          using d by auto
        ultimately have n: "c \<noteq> b" "c \<noteq> ?t" "node_ok z l c"
          using R(5) [of l c] lc by (blast, blast, auto)
        have "l \<le> m" if m: "us = []" "c = ?y" "m \<in> running z" "m \<noteq> i" for m
        proof -
          obtain j vs' where vs: "vs = (j, c) # vs'"
            using m(1,2) lc n(2) by (cases vs) auto
          then have "c \<notin> snd ` set vs'"
            using d by simp
          then have "(l, c) \<notin> set vs'"
            by force
          then show ?thesis
            using lc mem [OF m(3,4)] s m(1) by (auto simp: vs)
        qed
        then show ?thesis
          using n v2(3) [of c] y2 unfolding node_ok_def r by (auto simp: v'(4))
      qed
      have act: "active v' = map_of (us @ vs)"
        unfolding v'(6) v2(4) R(3) using i by (rule map_of_removed)
      have X: "X \<subseteq> dom (vs_done z)" "max k i \<in> insert 0 (vs_begun z)"
        using R(6) tl run(2) by (auto simp: tail_node_def running_def max_def)
      moreover have "data (impacts v') ?t = Some (Map.empty, if us = [] \<and> vs = [] then None else Some (insert i X), max k i)"
        using d v2(3) [of ?t] h(1) by (cases vs) (auto simp: v'(4))
      moreover have "us = [] \<Longrightarrow> vs = [] \<Longrightarrow> running ?z = {}"
        unfolding r R(4) [symmetric] by simp
      ultimately have "tail_node ?z"
        by (auto simp: tail_node_def v'(3))
      moreover have "vr_horizon v' \<in> insert 0 (vs_begun z) \<and> (\<forall>i\<in>running ?z. vr_horizon v' < i)"
      proof (cases us)
        case Nil
        show ?thesis
        proof (cases vs)
          case Nil
          then show ?thesis
            using \<open>us = []\<close> h(1) X(2) \<open>us = [] \<Longrightarrow> vs = [] \<Longrightarrow> running ?z = {}\<close> by (simp add: v'(9))
        next
          case (Cons jc vs')
          then obtain j c where vs: "vs = (j, c) # vs'"
            by (cases jc) simp
          have "h < j" "h \<in> insert 0 (vs_begun z)"
            using R(5) [of j c] h(2) [OF vs] by (auto simp: vs node_ok_def)
          moreover have "j \<le> l" if "l \<in> running ?z" for l
            using mem [of l] that s \<open>us = []\<close> unfolding r by (auto simp: vs)
          ultimately show ?thesis
            using \<open>us = []\<close> by (fastforce simp: v'(9))
        qed
      next
        case Cons
        then show ?thesis
          using R(8,9) unfolding r by (auto simp: v'(9) v2(5))
      qed
      ultimately show ?thesis
        using act nodes v'(2,3,5,10) v2(6,7) R(7) s i
        unfolding ring_inv_def r R(4) [symmetric] by (auto simp: sorted_wrt_append image_Un)
    qed
  qed (rule v'(1,7))+
qed

lemma running_split:
  assumes "ring_inv z ps" "i \<in> running z"
  obtains us b vs X k where "ps = us @ (i, b) # vs" "active (vs_res z) i = Some b" "node_ok z i b" "b \<noteq> vr_tail (vs_res z)"
    "data (impacts (vs_res z)) (vr_tail (vs_res z)) = Some (Map.empty, Some X, k)"
proof -
  note R = ring_invD [OF assms(1)]
  obtain b where b: "(i, b) \<in> set ps"
    using assms(2) unfolding R(4) [symmetric] by auto
  then obtain us vs where ps: "ps = us @ (i, b) # vs"
    by (auto dest: split_list)
  have "distinct (map fst ps)"
    using R(2) by (simp add: strict_sorted_iff)
  then have "active (vs_res z) i = Some b"
    using b by (simp add: R(3))
  moreover have "b \<noteq> vr_tail (vs_res z)"
    using R(1) by (auto simp: ring_def ps)
  moreover obtain X k where "data (impacts (vs_res z)) (vr_tail (vs_res z)) = Some (Map.empty, Some X, k)"
    using R(6) assms(2) by (auto simp: tail_node_def)
  ultimately show ?thesis
    using that [OF ps] R(5) [OF b] by blast
qed

text \<open>The state after \<open>prepare2finish\<close>.\<close>

definition prepared :: "vis_system \<Rightarrow> int \<Rightarrow> (int \<times> nat) list \<Rightarrow> nat \<Rightarrow> (int \<times> nat) list \<Rightarrow> int set \<Rightarrow> int
    \<Rightarrow> VisibilityResolver \<Rightarrow> TransactionImpact \<Rightarrow> bool" where
  "prepared z i us b vs X k v1 n \<longleftrightarrow> ring_inv z (us @ (i, b) # vs)
     \<and> data (impacts (vs_res z)) (vr_tail (vs_res z)) = Some (Map.empty, Some X, k)
     \<and> prepare2finish i (vs_res z) = Inr (v1, b) \<and> ring (impacts v1) (vr_tail (vs_res z)) (map snd (us @ (i, b) # vs))
     \<and> vr_tail v1 = vr_tail (vs_res z)
     \<and> data (impacts v1) = (data (impacts (vs_res z)))(vr_tail (vs_res z) \<mapsto> (Map.empty, Some (insert i X), max k i))
     \<and> (\<forall>c. impacts v1 c = None \<longleftrightarrow> impacts (vs_res z) c = None) \<and> active v1 = (active (vs_res z))(i := None)
     \<and> rolledBack v1 = rolledBack (vs_res z) \<and> commitTs v1 = commitTs (vs_res z) \<and> vr_horizon v1 = vr_horizon (vs_res z)
     \<and> fresh_addr v1 = fresh_addr (vs_res z)
     \<and> impacts v1 b = Some n \<and> (\<forall>ix. covers (entryCounter n ix) (vs_entries z i ix))"

lemma preparedI:
  assumes "vis_inv z" "i \<in> running z"
  obtains us b vs X k v1 n where "prepared z i us b vs X k v1 n"
proof -
  obtain ps where ps: "ring_inv z ps"
    using assms(1) by (auto simp: vis_inv_def)
  obtain us b vs X k where sp: "ps = us @ (i, b) # vs" "active (vs_res z) i = Some b" "node_ok z i b" "b \<noteq> vr_tail (vs_res z)"
    "data (impacts (vs_res z)) (vr_tail (vs_res z)) = Some (Map.empty, Some X, k)"
    by (rule running_split [OF ps assms(2)])
  note R = ring_invD [OF ps [unfolded sp(1)]]
  obtain v1 where v1: "prepare2finish i (vs_res z) = Inr (v1, b)" "ring (impacts v1) (vr_tail (vs_res z)) (map snd (us @ (i, b) # vs))"
    "vr_tail v1 = vr_tail (vs_res z)"
    "data (impacts v1) = (data (impacts (vs_res z)))(vr_tail (vs_res z) \<mapsto> (Map.empty, Some (insert i X), max k i))"
    "\<And>c. impacts v1 c = None \<longleftrightarrow> impacts (vs_res z) c = None" "active v1 = (active (vs_res z))(i := None)" "rolledBack v1 = rolledBack (vs_res z)"
    "commitTs v1 = commitTs (vs_res z)" "vr_horizon v1 = vr_horizon (vs_res z)" "fresh_addr v1 = fresh_addr (vs_res z)"
    using prepare2finish_ok [OF R(1) sp(2,5)] by metis
  obtain E F h where E: "data (impacts (vs_res z)) b = Some (E, F, h)" "\<forall>ix. covers (E ix) (vs_entries z i ix)"
    using sp(3) unfolding node_ok_def by blast
  have "data (impacts v1) b = Some (E, F, h)"
    using sp(4) E(1) by (simp add: v1(4))
  then obtain n where "impacts v1 b = Some n" "entryCounter n = E"
    by (auto simp: data_Some)
  then show ?thesis
    using that ps [unfolded sp(1)] sp(5) v1 E(2) unfolding prepared_def by blast
qed

lemma preparedD:
  assumes "prepared z i us b vs X k v1 n"
  shows "ring_inv z (us @ (i, b) # vs)" "data (impacts (vs_res z)) (vr_tail (vs_res z)) = Some (Map.empty, Some X, k)"
    "prepare2finish i (vs_res z) = Inr (v1, b)" "rolledBack v1 = rolledBack (vs_res z)" "commitTs v1 = commitTs (vs_res z)"
    "impacts v1 b = Some n" "\<And>ix. covers (entryCounter n ix) (vs_entries z i ix)"
  using assms by (simp_all add: prepared_def)

text \<open>The rest of the end of a transaction changes the commit times or the counters of the transaction.\<close>

lemma finish_prepared:
  assumes pr: "prepared z i us b vs X k v1 n" and tm: "time_inv z"
  shows "\<exists>v'. vr_finish b (v1\<lparr>commitTs := ct, impacts := (impacts v1)(b \<mapsto> n\<lparr>entryCounter := ec\<rparr>)\<rparr>) = Inr v'
    \<and> rolledBack v' = rolledBack (vs_res z) \<and> commitTs v' \<subseteq>\<^sub>m ct
    \<and> (\<forall>j l. commitTs v' j \<noteq> ct j \<longrightarrow> l \<in> running z \<longrightarrow> l \<noteq> i \<longrightarrow> j \<in> vs_seen z l)
    \<and> (\<forall>rb x. ring_inv (z\<lparr>vs_res := v'\<lparr>rolledBack := rb\<rparr>, vs_done := (vs_done z)(i \<mapsto> x)\<rparr>) (us @ vs))"
proof -
  define v2 where "v2 = v1\<lparr>commitTs := ct, impacts := (impacts v1)(b \<mapsto> n\<lparr>entryCounter := ec\<rparr>)\<rparr>"
  have r2: "ring (impacts v2) (vr_tail v2) (map snd (us @ (i, b) # vs))" "vr_tail v2 = vr_tail (vs_res z)"
    "active v2 = (active (vs_res z))(i := None)" "vr_horizon v2 = vr_horizon (vs_res z)" "fresh_addr v2 = fresh_addr (vs_res z)"
    "rolledBack v2 = rolledBack (vs_res z)" "commitTs v2 = ct"
    using pr ring_upd_data [of "impacts v1" b n "n\<lparr>entryCounter := ec\<rparr>"] by (simp_all add: v2_def prepared_def)
  have d2: "data (impacts v2) c = ((data (impacts (vs_res z)))(vr_tail (vs_res z) \<mapsto> (Map.empty, Some (insert i X), max k i))) c"
    if "c \<noteq> b" for c
    using pr that by (simp add: v2_def prepared_def)
  have i2: "impacts v2 c = None \<longleftrightarrow> impacts (vs_res z) c = None" for c
  proof -
    have "impacts v1 c = None \<longleftrightarrow> impacts (vs_res z) c = None"
      using pr by (simp add: prepared_def)
    then show ?thesis
      using preparedD(6) [OF pr] by (auto simp: v2_def)
  qed
  from finish_inv [OF preparedD(1) [OF pr] tm preparedD(2) [OF pr] r2(1,2) d2 r2(3,4,5) i2]
  show ?thesis
    unfolding r2(6,7) unfolding v2_def by blast
qed

lemma time_inv_done:
  assumes "time_inv z" "i \<in> running z" "\<And>c. x = Some c \<Longrightarrow> vs_log z i = Some c"
  shows "time_inv (z\<lparr>vs_res := v, vs_done := (vs_done z)(i \<mapsto> x)\<rparr>)"
proof -
  have "vs_seen z j \<subseteq> dom (vs_done z)" for j
    using assms(1) by (simp add: time_inv_def)
  then have i: "i \<notin> vs_seen z j" "vs_seen z j \<subseteq> insert i (dom (vs_done z))" for j
    using assms(2) by (auto simp: running_def)
  show ?thesis
    using assms i unfolding time_inv_def running_def by simp
qed

lemma step_commit_inv:
  assumes "vis_inv z" "i \<in> running z" "vs_log z i = Some c"
  shows "\<exists>v. vr_commit i c (vs_res z) = Inr v \<and> vis_inv (z\<lparr>vs_res := v, vs_done := (vs_done z)(i \<mapsto> Some c)\<rparr>)"
proof -
  have inv: "end_inv z" "time_inv z"
    using assms(1) by (auto simp: vis_inv_def)
  obtain us b vs X k v1 n where pr: "prepared z i us b vs X k v1 n"
    by (rule preparedI [OF assms(1,2)])
  note P = preparedD [OF pr]
  have fin: "vs_done z i = None" "commitTs (vs_res z) i = None" "i \<in> vs_begun z" "\<And>ix m. rolledBack (vs_res z) ix = Some m \<Longrightarrow> m i = None"
    using inv(1) assms(2) unfolding end_inv_def running_def by fastforce+
  define ct where "ct = (if entryCounter n = Map.empty then commitTs v1 else (commitTs v1)(i \<mapsto> c))"
  obtain v where v: "vr_finish b (v1\<lparr>commitTs := ct, impacts := (impacts v1)(b \<mapsto> n\<lparr>entryCounter := entryCounter n\<rparr>)\<rparr>) = Inr v"
    "rolledBack v = rolledBack (vs_res z)" "commitTs v \<subseteq>\<^sub>m ct"
    "\<And>j l. commitTs v j \<noteq> ct j \<Longrightarrow> l \<in> running z \<Longrightarrow> l \<noteq> i \<Longrightarrow> j \<in> vs_seen z l"
    "\<And>rb x. ring_inv (z\<lparr>vs_res := v\<lparr>rolledBack := rb\<rparr>, vs_done := (vs_done z)(i \<mapsto> x)\<rparr>) (us @ vs)"
    using finish_prepared [OF pr inv(2)] by metis
  let ?z = "z\<lparr>vs_res := v, vs_done := (vs_done z)(i \<mapsto> Some c)\<rparr>"
  have "vr_commit i c (vs_res z) = Inr v"
    using P(3,6) v(1) fin(2) unfolding P(5) [symmetric]
    by (auto simp: vr_commit_def deref_def ct_def map_insert_def map_upd_triv split: if_splits)
  moreover have "ring_inv ?z (us @ vs)"
    using v(5) [where rb = "rolledBack v" and x = "Some c"] by simp
  moreover have "end_inv ?z"
    unfolding end_inv_def
  proof (intro conjI)
    show "\<forall>j d. commitTs (vs_res ?z) j = Some d \<longrightarrow> vs_done ?z j = Some (Some d)"
    proof (intro allI impI)
      fix j d assume "commitTs (vs_res ?z) j = Some d"
      then have "ct j = Some d"
        using v(3) by (auto simp: map_le_def dom_def)
      then show "vs_done ?z j = Some (Some d)"
        using inv(1) fin unfolding end_inv_def ct_def P(5) by (auto split: if_splits)
    qed
    show "\<forall>j d ix. vs_done ?z j = Some (Some d) \<and> 0 < vs_entries ?z j ix \<and> commitTs (vs_res ?z) j = None
        \<longrightarrow> (\<forall>l\<in>running ?z. j \<in> vs_seen ?z l)"
    proof (intro allI impI ballI)
      fix j d ix l
      assume j: "vs_done ?z j = Some (Some d) \<and> 0 < vs_entries ?z j ix \<and> commitTs (vs_res ?z) j = None" and l: "l \<in> running ?z"
      have l: "l \<in> running z" "l \<noteq> i"
        using l by (auto simp: running_def split: if_splits)
      have "j = i \<Longrightarrow> ct j \<noteq> None"
        using P(7) [of ix] j by (auto simp: ct_def P(5) covers_def)
      moreover have "j \<noteq> i \<Longrightarrow> ct j = None \<Longrightarrow> j \<in> vs_seen z l"
        using inv(1) j l unfolding end_inv_def ct_def P(5) by (auto split: if_splits)
      ultimately show "j \<in> vs_seen ?z l"
        using v(4) [OF _ l, of j] j by (cases "j = i"; cases "ct j") auto
    qed
  qed (use inv(1) fin v(2) in \<open>auto simp: end_inv_def split: if_splits\<close>)
  moreover have "time_inv ?z"
    using inv(2) assms(2,3) by (intro time_inv_done) auto
  ultimately show ?thesis
    by (auto simp: vis_inv_def)
qed

lemma step_abort_inv:
  assumes "vis_inv z" "i \<in> running z"
  shows "\<exists>v. vr_abort i (vs_res z) = Inr v \<and> vis_inv (z\<lparr>vs_res := v, vs_done := (vs_done z)(i \<mapsto> None)\<rparr>)"
proof -
  have inv: "end_inv z" "time_inv z"
    using assms(1) by (auto simp: vis_inv_def)
  obtain us b vs X k v1 n where pr: "prepared z i us b vs X k v1 n"
    by (rule preparedI [OF assms])
  note P = preparedD [OF pr]
  have fin: "vs_done z i = None" "commitTs (vs_res z) i = None" "i \<in> vs_begun z" "\<And>ix m. rolledBack (vs_res z) ix = Some m \<Longrightarrow> m i = None"
    using inv(1) assms(2) unfolding end_inv_def running_def by fastforce+
  obtain v where v: "vr_finish b (v1\<lparr>commitTs := commitTs v1, impacts := (impacts v1)(b \<mapsto> n\<lparr>entryCounter := Map.empty\<rparr>)\<rparr>) = Inr v"
    "rolledBack v = rolledBack (vs_res z)" "commitTs v \<subseteq>\<^sub>m commitTs v1"
    "\<And>j l. commitTs v j \<noteq> commitTs v1 j \<Longrightarrow> l \<in> running z \<Longrightarrow> l \<noteq> i \<Longrightarrow> j \<in> vs_seen z l"
    "\<And>rb x. ring_inv (z\<lparr>vs_res := v\<lparr>rolledBack := rb\<rparr>, vs_done := (vs_done z)(i \<mapsto> x)\<rparr>) (us @ vs)"
    using finish_prepared [OF pr inv(2)] by metis
  define rb where "rb = (\<lambda>index. case entryCounter n index of None \<Rightarrow> rolledBack v index
     | Some c \<Rightarrow> Some (map_insert (case rolledBack v index of None \<Rightarrow> Map.empty | Some m \<Rightarrow> m) i c))"
  let ?v = "v\<lparr>rolledBack := rb\<rparr>"
  let ?z = "z\<lparr>vs_res := ?v, vs_done := (vs_done z)(i \<mapsto> None)\<rparr>"
  have rb: "Option.bind (rb ix) (\<lambda>m. m j) = (if j = i then entryCounter n ix else Option.bind (rolledBack (vs_res z) ix) (\<lambda>m. m j))" for ix j
    using fin(4) [of ix] by (auto simp: rb_def v(2) map_insert_def split: option.splits)
  have "vr_abort i (vs_res z) = Inr ?v"
    using P(3,6) v(1) by (simp add: vr_abort_def deref_def Let_def rb_def)
  moreover have "ring_inv ?z (us @ vs)"
    using v(5) [where rb = rb and x = None] by simp
  moreover have "end_inv ?z"
    unfolding end_inv_def
  proof (intro conjI)
    show "\<forall>j d. commitTs (vs_res ?z) j = Some d \<longrightarrow> vs_done ?z j = Some (Some d)"
      using inv(1) fin(2) v(3) unfolding end_inv_def map_le_def P(5) by (fastforce simp: dom_def)
    show "\<forall>j d ix. vs_done ?z j = Some (Some d) \<and> 0 < vs_entries ?z j ix \<and> commitTs (vs_res ?z) j = None
        \<longrightarrow> (\<forall>l\<in>running ?z. j \<in> vs_seen ?z l)"
    proof (intro allI impI ballI)
      fix j d ix l
      assume j: "vs_done ?z j = Some (Some d) \<and> 0 < vs_entries ?z j ix \<and> commitTs (vs_res ?z) j = None" and l: "l \<in> running ?z"
      have l: "l \<in> running z" "l \<noteq> i"
        using l by (auto simp: running_def split: if_splits)
      then show "j \<in> vs_seen ?z l"
        using inv(1) j v(4) [OF _ l, of j] unfolding end_inv_def P(5) by (cases "commitTs (vs_res z) j") (auto split: if_splits)
    qed
    show "\<forall>ix m j. rolledBack (vs_res ?z) ix = Some m \<and> m j \<noteq> None \<longrightarrow> vs_done ?z j = Some None"
    proof (intro allI impI)
      fix ix m j assume "rolledBack (vs_res ?z) ix = Some m \<and> m j \<noteq> None"
      then have "j = i \<or> Option.bind (rolledBack (vs_res z) ix) (\<lambda>m. m j) \<noteq> None"
        using rb [of ix j] by (auto split: if_splits)
      moreover have "\<And>m. rolledBack (vs_res z) ix = Some m \<Longrightarrow> m j \<noteq> None \<Longrightarrow> vs_done z j = Some None"
        using inv(1) unfolding end_inv_def by blast
      ultimately show "vs_done ?z j = Some None"
        by (cases "rolledBack (vs_res z) ix") auto
    qed
    show "\<forall>j ix. vs_done ?z j = Some None \<longrightarrow> covers (Option.bind (rolledBack (vs_res ?z) ix) (\<lambda>m. m j)) (vs_entries ?z j ix)"
      using inv(1) P(7) unfolding end_inv_def by (simp add: rb)
  qed
  moreover have "time_inv ?z"
    using inv(2) assms(2) by (intro time_inv_done) auto
  ultimately show ?thesis
    by (auto simp: vis_inv_def)
qed

text \<open>Entries that a running transaction adds or drops.\<close>

lemma counter_inv:
  assumes "vis_inv z" "i \<in> running z"
  obtains b n where "active (vs_res z) i = Some b" "impacts (vs_res z) b = Some n"
    "\<And>ix. covers (entryCounter n ix) (vs_entries z i ix)"
    "\<And>E e. (\<forall>ix. covers (E ix) (e ix) \<and> 0 \<le> e ix) \<Longrightarrow>
       vis_inv (z\<lparr>vs_res := vs_res z\<lparr>impacts := (impacts (vs_res z))(b \<mapsto> n\<lparr>entryCounter := E\<rparr>)\<rparr>, vs_entries := (vs_entries z)(i := e)\<rparr>)"
proof -
  obtain ps where ps: "ring_inv z ps" and inv: "end_inv z" "time_inv z"
    using assms(1) by (auto simp: vis_inv_def)
  obtain us b vs X k where sp: "ps = us @ (i, b) # vs" "active (vs_res z) i = Some b" "node_ok z i b" "b \<noteq> vr_tail (vs_res z)"
    "data (impacts (vs_res z)) (vr_tail (vs_res z)) = Some (Map.empty, Some X, k)"
    by (rule running_split [OF ps assms(2)])
  note R = ring_invD [OF ps]
  obtain E F h where E: "data (impacts (vs_res z)) b = Some (E, F, h)" "\<And>ix. covers (E ix) (vs_entries z i ix)"
    using sp(3) unfolding node_ok_def by blast
  then obtain n where n: "impacts (vs_res z) b = Some n" "entryCounter n = E" "finishedBefore n = F" "ti_horizon n = h"
    by (auto simp: data_Some)
  show ?thesis
  proof (rule that [OF sp(2) n(1)])
    show "covers (entryCounter n ix) (vs_entries z i ix)" for ix
      using E(2) n(2) by simp
    fix E' :: "int \<rightharpoonup> int" and e
    assume e: "\<forall>ix. covers (E' ix) (e ix) \<and> 0 \<le> e ix"
    let ?h = "(impacts (vs_res z))(b \<mapsto> n\<lparr>entryCounter := E'\<rparr>)"
    let ?z = "z\<lparr>vs_res := vs_res z\<lparr>impacts := ?h\<rparr>, vs_entries := (vs_entries z)(i := e)\<rparr>"
    have r: "running ?z = running z"
      by (simp add: running_def)
    have "node_ok ?z l c" if lc: "(l, c) \<in> set ps" for l c
    proof (cases "c = b")
      case True
      then have "l = i"
        using lc R(1) unfolding sp(1) by (auto simp: ring_def image_iff)
      then show ?thesis
        using sp(3) E(1) n e unfolding node_ok_def r by (auto simp: True)
    next
      case False
      then have "l \<noteq> i"
        using lc R(2) unfolding sp(1) by (auto simp: sorted_wrt_append)
      then show ?thesis
        using R(5) [OF lc] False unfolding node_ok_def r by auto
    qed
    moreover have "ring ?h (vr_tail (vs_res z)) (map snd ps)"
      using R(1) n(1) ring_upd_data [of "impacts (vs_res z)" b n "n\<lparr>entryCounter := E'\<rparr>"] by simp
    ultimately have "ring_inv ?z ps"
      using R n(1) sp(4) unfolding ring_inv_def r tail_node_def by auto
    moreover have "end_inv ?z" "time_inv ?z"
      using inv assms(2) e unfolding end_inv_def time_inv_def running_def by auto
    ultimately show "vis_inv ?z"
      by (auto simp: vis_inv_def)
  qed
qed

lemma step_add_inv:
  assumes "vis_inv z" "i \<in> running z"
  shows "\<exists>v. entryAdded i ix (vs_res z) = Inr v \<and> vis_inv (more_entries i ix 1 (z\<lparr>vs_res := v\<rparr>))"
proof -
  obtain b n where b: "active (vs_res z) i = Some b" "impacts (vs_res z) b = Some n"
    and cov: "\<And>ix. covers (entryCounter n ix) (vs_entries z i ix)"
    and upd: "\<And>E e. (\<forall>ix. covers (E ix) (e ix) \<and> 0 \<le> e ix) \<Longrightarrow>
       vis_inv (z\<lparr>vs_res := vs_res z\<lparr>impacts := (impacts (vs_res z))(b \<mapsto> n\<lparr>entryCounter := E\<rparr>)\<rparr>, vs_entries := (vs_entries z)(i := e)\<rparr>)"
    by (rule counter_inv [OF assms]) blast
  let ?E = "(entryCounter n)(ix \<mapsto> (case entryCounter n ix of None \<Rightarrow> 0 | Some c \<Rightarrow> c) + 1)"
  let ?e = "(vs_entries z i)(ix := vs_entries z i ix + 1)"
  have "\<And>ix. 0 \<le> vs_entries z i ix"
    using assms(1) unfolding vis_inv_def time_inv_def by blast
  then have "covers (?E y) (?e y) \<and> 0 \<le> ?e y" for y
    using cov [of y] by (cases "y = ix"; cases "entryCounter n y") (auto simp: covers_def)
  with upd [where E = ?E and e = ?e] b show ?thesis
    by (simp add: entryAdded_def deref_def more_entries_def)
qed

lemma step_drop_inv:
  assumes "vis_inv z" "i \<in> running z" "0 < vs_entries z i ix"
  shows "\<exists>v. entryDropped i ix ACTIVE_ENTRY (vs_res z) = Inr v \<and> vis_inv (more_entries i ix (-1) (z\<lparr>vs_res := v\<rparr>))"
proof -
  obtain b n where b: "active (vs_res z) i = Some b" "impacts (vs_res z) b = Some n"
    and cov: "\<And>ix. covers (entryCounter n ix) (vs_entries z i ix)"
    and upd: "\<And>E e. (\<forall>ix. covers (E ix) (e ix) \<and> 0 \<le> e ix) \<Longrightarrow>
       vis_inv (z\<lparr>vs_res := vs_res z\<lparr>impacts := (impacts (vs_res z))(b \<mapsto> n\<lparr>entryCounter := E\<rparr>)\<rparr>, vs_entries := (vs_entries z)(i := e)\<rparr>)"
    by (rule counter_inv [OF assms(1,2)]) blast
  obtain c where c: "entryCounter n ix = Some c" "1 \<le> c" "vs_entries z i ix \<le> c"
    using cov [of ix] assms(3) by (auto simp: covers_def split: option.splits)
  let ?E = "(entryCounter n)(ix := (if c = 1 then None else Some (c - 1)))"
  let ?e = "(vs_entries z i)(ix := vs_entries z i ix - 1)"
  have "\<And>ix. 0 \<le> vs_entries z i ix"
    using assms(1) unfolding vis_inv_def time_inv_def by blast
  then have "covers (?E y) (?e y) \<and> 0 \<le> ?e y" for y
    using cov [of y] c assms(3) by (cases "y = ix"; cases "entryCounter n y") (auto simp: covers_def)
  with upd [where E = ?E and e = ?e] b c show ?thesis
    by (simp add: entryDropped_def deref_def more_entries_def)
qed

text \<open>Fewer entries of transactions that have ended.\<close>

lemma ended_inv:
  assumes "vis_inv z" "\<And>j ix. 0 \<le> e j ix \<and> e j ix \<le> vs_entries z j ix" 
    and rb: "\<And>ix m j. rb ix = Some m \<Longrightarrow> m j \<noteq> None \<Longrightarrow> vs_done z j = Some None"
      "\<And>j ix. vs_done z j = Some None \<Longrightarrow> covers (Option.bind (rb ix) (\<lambda>m. m j)) (e j ix)"
  shows "vis_inv (z\<lparr>vs_res := vs_res z\<lparr>rolledBack := rb\<rparr>, vs_entries := e\<rparr>)"
proof -
  let ?z = "z\<lparr>vs_res := vs_res z\<lparr>rolledBack := rb\<rparr>, vs_entries := e\<rparr>"
  obtain ps where ps: "ring_inv z ps" and inv: "end_inv z" "time_inv z"
    using assms(1) by (auto simp: vis_inv_def)
  have r: "running ?z = running z"
    by (simp add: running_def)
  have "covers m (e j ix)" if "covers m (vs_entries z j ix)" for m j ix
    using that assms(2) [of j ix] by (auto simp: covers_def split: option.splits)
  then have "node_ok ?z l c" if "node_ok z l c" for l c
    using that unfolding node_ok_def r by auto
  then have "ring_inv ?z ps"
    using ps unfolding ring_inv_def tail_node_def r by auto
  moreover have "end_inv ?z"
    unfolding end_inv_def
  proof (intro conjI)
    show "\<forall>i c ix. vs_done ?z i = Some (Some c) \<and> 0 < vs_entries ?z i ix \<and> commitTs (vs_res ?z) i = None
        \<longrightarrow> (\<forall>j\<in>running ?z. i \<in> vs_seen ?z j)"
    proof (intro allI impI)
      fix i c ix assume a: "vs_done ?z i = Some (Some c) \<and> 0 < vs_entries ?z i ix \<and> commitTs (vs_res ?z) i = None"
      then have "0 < vs_entries z i ix"
        using assms(2) [of i ix] by simp
      then show "\<forall>j\<in>running ?z. i \<in> vs_seen ?z j"
        using a inv(1) unfolding end_inv_def r by auto
    qed
  qed (use inv(1) rb in \<open>auto simp: end_inv_def\<close>)
  moreover have "e j ix = 0" if "j \<notin> vs_begun z" for j ix
  proof -
    have "vs_entries z j ix = 0"
      using inv(2) that unfolding time_inv_def by blast
    then show ?thesis
      using assms(2) [of j ix] by simp
  qed
  then have "time_inv ?z"
    using inv(2) assms(2) unfolding time_inv_def by simp
  ultimately show ?thesis
    by (auto simp: vis_inv_def)
qed

lemma end_invD:
  assumes "vis_inv z"
  shows "\<And>ix m i. rolledBack (vs_res z) ix = Some m \<Longrightarrow> m i \<noteq> None \<Longrightarrow> vs_done z i = Some None"
    "\<And>i ix. vs_done z i = Some None \<Longrightarrow> covers (Option.bind (rolledBack (vs_res z) ix) (\<lambda>m. m i)) (vs_entries z i ix)"
    "\<And>i ix. 0 \<le> vs_entries z i ix" "\<And>i. i \<in> dom (vs_done z) \<Longrightarrow> 0 < i"
proof -
  have inv: "end_inv z" "time_inv z"
    using assms by (simp_all add: vis_inv_def)
  show "vs_done z i = Some None" if "rolledBack (vs_res z) ix = Some m" "m i \<noteq> None" for ix m i
    using inv(1) that unfolding end_inv_def by blast
  show "covers (Option.bind (rolledBack (vs_res z) ix) (\<lambda>m. m i)) (vs_entries z i ix)" if "vs_done z i = Some None" for i ix
    using inv(1) that unfolding end_inv_def by blast
  show "0 \<le> vs_entries z i ix" for i ix
    using inv(2) unfolding time_inv_def by blast
  show "0 < i" if "i \<in> dom (vs_done z)" for i
    using inv(2) that unfolding time_inv_def by blast
qed

lemma step_clean_inv:
  assumes "vis_inv z" "vs_done z i = Some None" "0 < vs_entries z i ix"
  shows "\<exists>v. entryDropped i ix ROLLED_BACK_ENTRY (vs_res z) = Inr v \<and> vis_inv (more_entries i ix (-1) (z\<lparr>vs_res := v\<rparr>))"
proof -
  note E = end_invD [OF assms(1)]
  obtain m c where m: "rolledBack (vs_res z) ix = Some m" "m i = Some c" "1 \<le> c" "vs_entries z i ix \<le> c"
    using E(2) [OF assms(2), of ix] assms(3) by (auto simp: covers_def split: option.splits bind_splits)
  define m' where "m' = m(i := (if c = 1 then None else Some (c - 1)))"
  define rb where "rb = (rolledBack (vs_res z))(ix := (if c = 1 \<and> m' = Map.empty then None else Some m'))"
  have "i \<noteq> ROLLED_BACK"
    using E(4) [of i] assms(2) by (auto simp: dom_def ROLLED_BACK_def)
  then have "entryDropped i ix ROLLED_BACK_ENTRY (vs_res z) = Inr (vs_res z\<lparr>rolledBack := rb\<rparr>)"
    using m by (simp add: entryDropped_def Let_def rb_def m'_def)
  moreover have "vis_inv (z\<lparr>vs_res := vs_res z\<lparr>rolledBack := rb\<rparr>, vs_entries := (vs_entries z)(i := (vs_entries z i)(ix := vs_entries z i ix - 1))\<rparr>)"
  proof (rule ended_inv [OF assms(1)])
    show "vs_done z j = Some None" if "rb y = Some q" "q j \<noteq> None" for y q j
      using that E(1) assms(2) m by (auto simp: rb_def m'_def split: if_splits)
    show "covers (Option.bind (rb y) (\<lambda>m. m j)) (((vs_entries z)(i := (vs_entries z i)(ix := vs_entries z i ix - 1))) j y)"
      if "vs_done z j = Some None" for j y
    proof (cases "y = ix")
      case True
      have "Option.bind (rb ix) (\<lambda>m. m j) = m' j"
        by (auto simp: rb_def)
      then show ?thesis
        using E(2) [OF that, of ix] m assms(3) by (auto simp: True m'_def covers_def)
    next
      case False
      then show ?thesis
        using E(2) [OF that, of y] by (auto simp: rb_def)
    qed
  qed (use E(3) assms(3) in auto)
  ultimately show ?thesis
    by (simp add: more_entries_def)
qed

lemma step_clean_committed_inv:
  assumes "vis_inv z" "vs_done z i = Some (Some c)" "0 < vs_entries z i ix"
  shows "vis_inv (more_entries i ix (-1) z)"
proof -
  let ?e = "(vs_entries z)(i := (vs_entries z i)(ix := vs_entries z i ix - 1))"
  have "vis_inv (z\<lparr>vs_res := vs_res z\<lparr>rolledBack := rolledBack (vs_res z)\<rparr>, vs_entries := ?e\<rparr>)"
  proof (rule ended_inv [OF assms(1)])
    show "covers (Option.bind (rolledBack (vs_res z) y) (\<lambda>m. m j)) (?e j y)" if "vs_done z j = Some None" for j y
      using end_invD(2) [OF assms(1) that, of y] that assms(2) by auto
    show "vs_done z j = Some None" if "rolledBack (vs_res z) y = Some m" "m j \<noteq> None" for y m j
      using that by (rule end_invD(1) [OF assms(1)])
  qed (use end_invD(3) [OF assms(1)] assms(3) in auto)
  then show ?thesis
    by (simp add: more_entries_def)
qed

lemma step_drop_index_inv:
  assumes "vis_inv z"
  shows "vis_inv (z\<lparr>vs_res := indexDropped ix (vs_res z), vs_entries := (\<lambda>i. (vs_entries z i)(ix := 0))\<rparr>)"
  unfolding indexDropped_def
proof (rule ended_inv [OF assms])
  show "vs_done z j = Some None" if "((rolledBack (vs_res z))(ix := None)) y = Some m" "m j \<noteq> None" for y m j
    using that end_invD(1) [OF assms] by (auto split: if_splits)
  show "covers (Option.bind (((rolledBack (vs_res z))(ix := None)) y) (\<lambda>m. m j)) (((vs_entries z j)(ix := 0)) y)"
    if "vs_done z j = Some None" for j y
    using end_invD(2) [OF assms that, of y] by (auto simp: covers_def)
qed (use end_invD(3) [OF assms] in auto)

lemma step_stamp_inv:
  assumes "vis_inv z" "i \<in> vs_begun z" "vs_begin z i = None" "vs_clock z < c"
  shows "vis_inv (z\<lparr>vs_clock := c, vs_begin := (vs_begin z)(i \<mapsto> c)\<rparr>)"
proof -
  let ?z = "z\<lparr>vs_clock := c, vs_begin := (vs_begin z)(i \<mapsto> c)\<rparr>"
  have "ring_inv ?z = ring_inv z" "end_inv ?z = end_inv z"
    by (simp_all add: fun_eq_iff ring_inv_def end_inv_def node_ok_def tail_node_def running_def)
  moreover have "time_inv ?z"
  proof -
    have tm: "time_inv z"
      using assms(1) by (simp add: vis_inv_def)
    have done_lt: "d < c" if "vs_done z j = Some (Some d)" for j d
    proof -
      have "vs_log z j = Some d"
        using tm that unfolding time_inv_def by blast
      moreover have "\<And>d. vs_log z j = Some d \<Longrightarrow> d \<le> vs_clock z"
        using tm unfolding time_inv_def by blast
      ultimately show ?thesis
        using assms(4) by fastforce
    qed
    have log_le: "d \<le> c" if "vs_log z j = Some d" for j d
    proof -
      have "d \<le> vs_clock z"
        using tm that unfolding time_inv_def by blast
      then show ?thesis
        using assms(4) by simp
    qed
    have "\<forall>j d. j \<in> vs_seen z i \<and> vs_done z j = Some (Some d) \<longrightarrow> d < c"
      using done_lt by blast
    then show ?thesis
      using tm assms(2) log_le unfolding time_inv_def by simp
  qed
  ultimately show ?thesis
    using assms(1) by (simp add: vis_inv_def)
qed

lemma step_log_inv:
  assumes "vis_inv z" "i \<in> running z" "vs_log z i = None" "vs_clock z < c"
  shows "vis_inv (z\<lparr>vs_clock := c, vs_log := (vs_log z)(i \<mapsto> c)\<rparr>)"
proof -
  let ?z = "z\<lparr>vs_clock := c, vs_log := (vs_log z)(i \<mapsto> c)\<rparr>"
  have "ring_inv ?z = ring_inv z" "end_inv ?z = end_inv z"
    by (simp_all add: fun_eq_iff ring_inv_def end_inv_def node_ok_def tail_node_def running_def)
  moreover have "time_inv ?z"
  proof -
    have tm: "time_inv z"
      using assms(1) by (simp add: vis_inv_def)
    have "d \<le> c" if "((vs_log z)(i \<mapsto> c)) j = Some d" for j d
    proof -
      have "\<And>d. vs_log z j = Some d \<Longrightarrow> d \<le> vs_clock z"
        using tm unfolding time_inv_def by blast
      then show ?thesis
        using that assms(4) by (fastforce split: if_splits)
    qed
    moreover have "vs_done z i = None"
      using assms(2) by (simp add: running_def)
    ultimately show ?thesis
      using tm unfolding time_inv_def by simp
  qed
  ultimately show ?thesis
    using assms(1) by (simp add: vis_inv_def)
qed

lemma start_inv: "vis_inv vis_start"
proof -
  have "ring_inv vis_start []"
    by (auto simp: ring_inv_def vis_start_def VisibilityResolver_new_def ring_def nx_def pv_def TransactionImpact_new_def
        running_def tail_node_def data_def)
  moreover have "end_inv vis_start" "time_inv vis_start"
    by (simp_all add: end_inv_def time_inv_def vis_start_def VisibilityResolver_new_def)
  ultimately show ?thesis
    by (auto simp: vis_inv_def)
qed

lemma vis_step_inv: "vis_step z z' \<Longrightarrow> vis_inv z \<Longrightarrow> vis_inv z'"
proof (induction rule: vis_step.induct)
  case (step_begin i z v)
  then show ?case
    using step_begin_inv by fastforce
next
  case (step_commit i z c v)
  then show ?case
    using step_commit_inv by fastforce
next
  case (step_abort i z v)
  then show ?case
    using step_abort_inv by fastforce
next
  case (step_add i z ix v)
  then show ?case
    using step_add_inv [of z i ix] by auto
next
  case (step_drop i z ix v)
  then show ?case
    using step_drop_inv [of z i ix] by auto
next
  case (step_clean z i ix v)
  then show ?case
    using step_clean_inv [of z i ix] by auto
qed (simp_all add: step_stamp_inv step_log_inv step_clean_committed_inv step_drop_index_inv)

lemma vis_reachable_inv: "vis_reachable z \<Longrightarrow> vis_inv z"
  by (induction rule: rtranclp_induct) (auto intro: start_inv vis_step_inv)

section \<open>Runs\<close>

text \<open>The steps as a function, to compute runs.\<close>

datatype vis_op = OpBegin int | OpStamp int int | OpLog int int | OpCommit int | OpAbort int | OpAdd int int

definition unless_fault :: "fault + 'a \<Rightarrow> ('a \<Rightarrow> 'b) \<Rightarrow> 'b option" where
  "unless_fault m k = (case m of Inl _ \<Rightarrow> None | Inr v \<Rightarrow> Some (k v))"

fun vis_exec :: "vis_op \<Rightarrow> vis_system \<Rightarrow> vis_system option" where
  "vis_exec (OpBegin i) z =
     (if 0 < i \<and> (\<forall>j\<in>vs_begun z. j < i)
      then unless_fault (vr_begin i (vs_res z)) (\<lambda>v.
             z\<lparr>vs_res := v, vs_begun := insert i (vs_begun z), vs_seen := (vs_seen z)(i := dom (vs_done z))\<rparr>)
      else None)"
| "vis_exec (OpStamp i c) z =
     (if i \<in> vs_begun z \<and> vs_begin z i = None \<and> vs_clock z < c
      then Some (z\<lparr>vs_clock := c, vs_begin := (vs_begin z)(i \<mapsto> c)\<rparr>) else None)"
| "vis_exec (OpLog i c) z =
     (if i \<in> vs_begun z \<and> vs_done z i = None \<and> vs_log z i = None \<and> vs_clock z < c
      then Some (z\<lparr>vs_clock := c, vs_log := (vs_log z)(i \<mapsto> c)\<rparr>) else None)"
| "vis_exec (OpCommit i) z =
     (case vs_log z i of
        None \<Rightarrow> None
      | Some c \<Rightarrow>
          if i \<in> vs_begun z \<and> vs_done z i = None
          then unless_fault (vr_commit i c (vs_res z)) (\<lambda>v. z\<lparr>vs_res := v, vs_done := (vs_done z)(i \<mapsto> Some c)\<rparr>)
          else None)"
| "vis_exec (OpAbort i) z =
     (if i \<in> vs_begun z \<and> vs_done z i = None
      then unless_fault (vr_abort i (vs_res z)) (\<lambda>v. z\<lparr>vs_res := v, vs_done := (vs_done z)(i \<mapsto> None)\<rparr>) else None)"
| "vis_exec (OpAdd i ix) z =
     (if i \<in> vs_begun z \<and> vs_done z i = None
      then unless_fault (entryAdded i ix (vs_res z)) (\<lambda>v. more_entries i ix 1 (z\<lparr>vs_res := v\<rparr>)) else None)"

fun vis_run :: "vis_op list \<Rightarrow> vis_system \<Rightarrow> vis_system option" where
  "vis_run [] z = Some z"
| "vis_run (p # ps) z = Option.bind (vis_exec p z) (vis_run ps)"

lemma vis_exec_step: "vis_exec p z = Some z' \<Longrightarrow> vis_step z z'"
  by (cases p) (auto simp: unless_fault_def running_def intro: vis_step.intros split: if_splits sum.splits option.splits)

lemma vis_run_reachable: "vis_run ps z = Some z' \<Longrightarrow> vis_reachable z \<Longrightarrow> vis_reachable z'"
  by (induction ps arbitrary: z) (auto simp: bind_eq_Some_conv dest!: vis_exec_step intro: rtranclp.rtrancl_into_rtrancl)

lemmas resolver_defs = VisibilityResolver_new_def vr_begin_def insertAfter_def deref_def TransactionImpact_new_def set_next_def
  set_prev_def map_insert_def vr_commit_def prepare2finish_def addFinished_def vr_finish_def forgetFinishedBefore_def
  impact_remove_def entryAdded_def Let_def

lemmas run_defs = resolver_defs unless_fault_def more_entries_def vis_start_def

lemmas visible_defs = isVisible_def isRolledBack_def BEYOND_HORIZON_def ROLLED_BACK_def isBeyondHorizon_def running_def

section \<open>Properties\<close>

text \<open>(C31) In every reachable state of transactions that share the resolver, if a running transaction sees the entries that
  another transaction still has in an index, then that transaction has committed, and at a time before the begin time of the one that
  looks. (Entries that the cleaner has marked as visible to all are outside of this.)\<close>

theorem visible_sound:
  assumes "vis_reachable z" "a \<in> running z" "vs_begin z a = Some b" "i \<in> vs_begun z" "0 < vs_entries z i ix"
    and "isVisible (vs_res z) i b ix"
  shows "\<exists>c. vs_done z i = Some (Some c) \<and> c < b"
  using vis_inv_sound [OF vis_reachable_inv [OF assms(1)] assms(2-)] .

theorem visible_sound_witness:
  "\<exists>z. vis_reachable z \<and> isVisible (vs_res z) 1 3 7 \<and> (\<exists>c. vs_done z 1 = Some (Some c) \<and> c < 3)"
proof -
  have "\<exists>z. vis_run [OpBegin 1, OpStamp 1 1, OpAdd 1 7, OpLog 1 2, OpCommit 1, OpBegin 2, OpStamp 2 3] vis_start = Some z
      \<and> isVisible (vs_res z) 1 3 7 \<and> vs_begin z 2 = Some 3 \<and> 2 \<in> running z \<and> 1 \<in> vs_begun z \<and> 0 < vs_entries z 1 7"
    by (simp add: run_defs visible_defs)
  then obtain z where z: "vis_run [OpBegin 1, OpStamp 1 1, OpAdd 1 7, OpLog 1 2, OpCommit 1, OpBegin 2, OpStamp 2 3] vis_start = Some z"
      "isVisible (vs_res z) 1 3 7" "vs_begin z 2 = Some 3" "2 \<in> running z" "1 \<in> vs_begun z" "0 < vs_entries z 1 7"
    by blast
  from vis_run_reachable [OF z(1)] have "vis_reachable z"
    by simp
  with visible_sound [OF this z(4,3,5,6,2)] z(2) show ?thesis
    by blast
qed

text \<open>(C33) In every reachable state every call that a transaction makes of the resolver ends without a fault: no null or dangling
  pointer, no end iterator, no failed assertion.\<close>

theorem resolver_no_fault:
  assumes "vis_reachable z"
  shows "(0 < i \<and> (\<forall>j\<in>vs_begun z. j < i) \<longrightarrow> (\<exists>v. vr_begin i (vs_res z) = Inr v))
    \<and> (i \<in> running z \<longrightarrow> (\<exists>v. entryAdded i ix (vs_res z) = Inr v) \<and> (\<exists>v. vr_abort i (vs_res z) = Inr v)
        \<and> (\<forall>c. vs_log z i = Some c \<longrightarrow> (\<exists>v. vr_commit i c (vs_res z) = Inr v))
        \<and> (0 < vs_entries z i ix \<longrightarrow> (\<exists>v. entryDropped i ix ACTIVE_ENTRY (vs_res z) = Inr v)))
    \<and> (vs_done z i = Some None \<and> 0 < vs_entries z i ix \<longrightarrow> (\<exists>v. entryDropped i ix ROLLED_BACK_ENTRY (vs_res z) = Inr v))"
  using vis_reachable_inv [OF assms] step_begin_inv step_add_inv step_abort_inv step_commit_inv step_drop_inv step_clean_inv
  by meson

theorem resolver_no_fault_witness: "\<exists>v. vr_begin 1 (vs_res vis_start) = Inr v"
  using resolver_no_fault [of vis_start 1] by (simp add: vis_start_def)

text \<open>(C32) The converse fails. Transaction 1 commits an entry at time 2, transactions 2 and 3 begin at times 3 and 4, and 3 sees
  the entry. When 2 commits, the horizon moves back from 1 to 0, and from then on 3 does not see the entry.\<close>

theorem visibility_lost:
  "\<exists>z z'. vis_reachable z \<and> vis_reachable z' \<and> isVisible (vs_res z) 1 4 7 \<and> \<not> isVisible (vs_res z') 1 4 7
     \<and> vs_begin z 3 = Some 4 \<and> 3 \<in> running z' \<and> vs_done z 1 = Some (Some 2) \<and> vs_entries z' 1 7 = 1
     \<and> (\<exists>c. vr_commit 2 c (vs_res z) = Inr (vs_res z'))"
proof -
  have "\<exists>z z'. vis_run [OpBegin 1, OpStamp 1 1, OpAdd 1 7, OpLog 1 2, OpCommit 1, OpBegin 2, OpStamp 2 3, OpBegin 3, OpStamp 3 4, OpLog 2 5]
        vis_start = Some z \<and> vis_run [OpCommit 2] z = Some z' \<and> isVisible (vs_res z) 1 4 7 \<and> \<not> isVisible (vs_res z') 1 4 7
      \<and> vs_begin z 3 = Some 4 \<and> 3 \<in> running z' \<and> vs_done z 1 = Some (Some 2) \<and> vs_entries z' 1 7 = 1
      \<and> vr_commit 2 5 (vs_res z) = Inr (vs_res z')"
    by (simp add: run_defs visible_defs)
  then show ?thesis
    by (blast intro: vis_run_reachable)
qed

text \<open>The horizon can also move too far: transaction 1 commits after transaction 3 has begun and 3 does not see its entry, but 1 is
  beyond the horizon, so that the cleaner of the tree marks the entry as visible to all.\<close>

lemma horizon_too_far:
  "\<exists>z. vis_reachable z \<and> isBeyondHorizon (vs_res z) 1 \<and> \<not> isVisible (vs_res z) 1 4 7 \<and> isVisible (vs_res z) BEYOND_HORIZON 4 7
     \<and> vs_begin z 3 = Some 4 \<and> 3 \<in> running z \<and> vs_done z 1 = Some (Some 5) \<and> vs_entries z 1 7 = 1"
proof -
  have "\<exists>z. vis_run [OpBegin 1, OpStamp 1 1, OpAdd 1 7, OpBegin 2, OpStamp 2 2, OpLog 2 3, OpCommit 2, OpBegin 3, OpStamp 3 4, OpLog 1 5, OpCommit 1]
        vis_start = Some z \<and> isBeyondHorizon (vs_res z) 1 \<and> \<not> isVisible (vs_res z) 1 4 7 \<and> isVisible (vs_res z) BEYOND_HORIZON 4 7
      \<and> vs_begin z 3 = Some 4 \<and> 3 \<in> running z \<and> vs_done z 1 = Some (Some 5) \<and> vs_entries z 1 7 = 1"
    by (simp add: run_defs visible_defs)
  then show ?thesis
    by (blast intro: vis_run_reachable)
qed

end
