(* ===== verification/TransactionEnd.thy ===== *)
theory TransactionEnd
  imports CallFrames Rollback RegistryProperties LockProperties VisibilityProperties
begin

text \<open>
  The end of a transaction. Commit and abort pass through the log, the locks, the store and the index manager; here the
  results about these components come together.
\<close>

text \<open>Work of the store that hands nothing to the log.\<close>

lemma in_store_quiet:
  assumes "f (tm_store tm) = Some (s, Inr x)" "wlog s = []"
  shows "in_store f tm = Done (put_store s tm) x"
  using assms by (cases "tm_log tm") (simp add: in_store_def pushLogable_def put_store_def Let_def)

lemma unlock_done:
  assumes "transactions_ok tr T" "lock_reachable no_upgrade tr T z" "lmgr z = tm_locks tm" "tid_id t \<in> T" "tr (tid_id t) = t"
  shows "\<exists>tm1. tm_unlockAll t tm = Done tm1 0 \<and> tm_log tm1 = tm_log tm \<and> transactions tm1 = transactions tm
    \<and> tm_resolver tm1 = tm_resolver tm \<and> held_locks (tm_locks tm1) (tid_id t) = {}
    \<and> transaction_locks (tm_locks tm1) (tid_id t) = None"
proof -
  have inv: "locks_ok (prio_of tr) T (tm_locks tm) (hold z) (pend z)" "lists_ok T (tm_locks tm)"
    using lock_reachable_inv [OF assms(1,2)] assms(3) by (simp_all add: lock_inv_def)
  obtain lm ks where u: "unlockAll (tm_locks tm) t = Some (lm, ks)" "held_locks lm (tid_id t) = {}"
    using unlockAll_ok [OF assms(1) inv assms(4)] assms(5) by auto
  with unlockAll_none [OF u(1)] show ?thesis
    by (simp add: tm_unlockAll_def)
qed

text \<open>What is left of a transaction that has ended.\<close>

definition released :: "TransactionID \<Rightarrow> 'x tmanager \<Rightarrow> 'x tmanager \<Rightarrow> bool" where
  "released t tm tm' \<longleftrightarrow> transactions tm' = filter (\<lambda>x. tid_id x \<noteq> tid_id t) (transactions tm)
     \<and> held_locks (tm_locks tm') (tid_id t) = {} \<and> transaction_locks (tm_locks tm') (tid_id t) = None"

text \<open>The record of a commit, and what comes after it.\<close>

lemma commit_record_done:
  "\<exists>tm1. tm_commit_record t tm = Done tm1 (u32 (idSeq (tm_store tm) + 1))
     \<and> tm_store tm1 = (tm_store tm)\<lparr>idSeq := u32 (idSeq (tm_store tm) + 1)\<rparr> \<and> lg_queue (tm_log tm1) = []
     \<and> lg_file (tm_log tm1) = lg_file (tm_log tm)
         @ log_bytes (lg_queue (tm_log tm) @ [(u32 (idSeq (tm_store tm) + 1), CommitRecord (tid_id t))])
     \<and> tm_locks tm1 = tm_locks tm \<and> transactions tm1 = transactions tm \<and> tm_resolver tm1 = tm_resolver tm"
  by (simp add: tm_commit_record_def in_log_def commitTransaction_def push_and_flush_def log_push_def Let_def flushLog_def)

lemma commit_rest_done:
  assumes st: "store_rep (tm_store tm) \<sigma>" "regs_rep (tm_store tm) R" "wlog (tm_store tm) = []" "tid_ok t" "s32 c = c"
    and locks: "transactions_ok tr T" "lock_reachable no_upgrade tr T z" "lmgr z = tm_locks tm" "tid_id t \<in> T" "tr (tid_id t) = t"
    and vis: "vis_reachable v" "vs_res v = tm_resolver tm" "tid_id t \<in> running v" "vs_log v (tid_id t) = Some c"
  shows "\<exists>tm'. tm_commit_rest t c tm = Done tm' 0 \<and> store_rep (tm_store tm') \<sigma>
    \<and> regs_rep (tm_store tm') (\<lambda>f. es_modify (idSeq (tm_store tm)) t 0 (R f))
    \<and> lg_file (tm_log tm') = lg_file (tm_log tm) \<and> lg_queue (tm_log tm') = lg_queue (tm_log tm)
    \<and> released t tm tm' \<and> vis_reachable (v\<lparr>vs_res := tm_resolver tm', vs_done := (vs_done v)(tid_id t \<mapsto> Some c)\<rparr>)"
proof -
  let ?s = "tm_store tm"
  obtain tm2 where 2: "tm_unlockAll t tm = Done tm2 0" "tm_log tm2 = tm_log tm" "transactions tm2 = transactions tm"
    "tm_resolver tm2 = tm_resolver tm" "held_locks (tm_locks tm2) (tid_id t) = {}" "transaction_locks (tm_locks tm2) (tid_id t) = None"
    using unlock_done [OF locks(1,2,3,4,5)] by auto
  obtain s3 where 3: "sm_commitTransaction ?s t = Some (s3, Inr 0)" "outside_objects ?s s3"
    "regs_rep s3 (\<lambda>f. es_modify (idSeq ?s) t 0 (R f))"
    using sm_end_regs(2) [OF st(2,4)] by auto
  obtain v' where 4: "vr_commit (tid_id t) c (tm_resolver tm) = Inr v'"
    using step_commit_inv [OF vis_reachable_inv [OF vis(1)] vis(3,4)] vis(2) by auto
  have "vis_step v (v\<lparr>vs_res := v', vs_done := (vs_done v)(tid_id t \<mapsto> Some c)\<rparr>)"
    using step_commit [of "tid_id t" v c v'] vis(2,3,4) 4 by simp
  then have 5: "vis_reachable (v\<lparr>vs_res := v', vs_done := (vs_done v)(tid_id t \<mapsto> Some c)\<rparr>)"
    using vis(1) by auto
  have "wlog s3 = []" and s3: "store_rep s3 \<sigma>"
    using 3(2) st(1,3) store_rep_outside [of ?s \<sigma> s3] by (simp_all add: outside_objects_def same_log_def)
  with 2 3 4 st(5) in_store_quiet [of "\<lambda>s. sm_commitTransaction s t" tm2 s3 0]
  have "tm_commit_rest t c tm = Done ((remove_from_list t (put_store s3 tm2))\<lparr>tm_resolver := v'\<rparr>) 0"
    by (simp add: tm_commit_rest_def in_resolver_def remove_from_list_def put_store_def)
  with 2 3(3) 5 s3 show ?thesis
    by (intro exI [of _ "(remove_from_list t (put_store s3 tm2))\<lparr>tm_resolver := v'\<rparr>"] conjI)
      (simp_all add: remove_from_list_def put_store_def released_def)
qed

section \<open>Properties\<close>


text \<open>Transaction 7 alone, before its end.\<close>

definition ending :: TransactionID where
  "ending = \<lparr>tid_id = 7, tid_priority = 7, tid_sessionId = 0, tid_timeStamp = 1\<rparr>"

lemma ending_ok: "tid_ok ending" "transactions_ok (\<lambda>_. ending) {7}" "lock_reachable no_upgrade (\<lambda>_. ending) {7} lock_start"
  "tid_id ending = 7"
  by (simp_all add: ending_def tid_ok_def transactions_ok_def NO_UPGRADER_def)

lemma ending_running: "\<exists>v. vis_reachable v \<and> 7 \<in> running v \<and> vs_log v 7 = Some 3"
proof -
  have "\<exists>z. vis_run [OpBegin 7, OpStamp 7 1, OpLog 7 3] vis_start = Some z \<and> 7 \<in> running z \<and> vs_log z 7 = Some 3"
    by (simp add: run_defs visible_defs)
  then show ?thesis
    using vis_run_reachable by blast
qed

definition ending_tm :: "Logs \<Rightarrow> VisibilityResolver \<Rightarrow> unit tmanager" where
  "ending_tm lg vr = (tm_new lg vr Map.empty ())\<lparr>transactions := [ending]\<rparr>"

lemma ending_sel [simp]: "tm_log (ending_tm lg vr) = lg" "tm_locks (ending_tm lg vr) = lmgr lock_start"
  "tm_resolver (ending_tm lg vr) = vr" "transactions (ending_tm lg vr) = [ending]"
  by (simp_all add: ending_tm_def tm_new_def lock_start_def)

lemma ending_store:
  "\<exists>s. store_rep s (one_root(1 := None)) \<and> regs_rep s (\<lambda>_. []) \<and> 1 \<le> map_last s \<and> 1 \<le> empty_pages s \<and> wlog s = [] \<and> idSeq s = 2"
proof -
  obtain s0 where s0: "store_at s0 (\<lambda>_. []) (\<lambda>_. None)" "regs_rep s0 (\<lambda>_. [])" "map_last s0 = 0" "idSeq s0 = 0"
    using sample_new_database by blast
  from deleted_root_store [OF s0(1,3,4)] obtain s where s: "store_rep s (one_root(1 := None))" "1 \<le> map_last s" "1 \<le> empty_pages s"
    "wlog s = []" "objs_only s0 s" "idSeq s = 2"
    by blast
  then have "regs_rep s (\<lambda>_. [])"
    by (intro regs_rep_objs [OF s0(2) s(5)]) (auto simp: timer_ok_def store_rep_def dest: store_atD)
  with s show ?thesis by blast
qed




end
