(* ===== verification/CreateDeadlock.thy ===== *)
theory CreateDeadlock
  imports CallFrames RegistryProperties
begin

text \<open>
  \<open>Transaction::createObject\<close> takes the lock of the new object inside the store semaphore, with the comment that it cannot
  have to wait. Locks belong to physical places, and the place of an object that another transaction has deleted
  but not yet committed is given to the new object, while the lock on it is still held.
\<close>

section \<open>The place of a new object\<close>

lemma first_fit_empty:
  assumes "first_fit (\<lambda>_. []) n q" "n \<le> 16360"
  shows "q = 1"
proof -
  have "is_data 1" "0 < q"
    using assms(1) by (simp_all add: is_data_def first_fit_def)
  moreover have "\<not> (is_data 1 \<and> 1 < q)"
    using assms by (force simp: first_fit_def room_def)
  ultimately show ?thesis
    by simp
qed

lemma placed_empty:
  assumes "placed (\<lambda>_. []) bs i s' T'" "length bs \<le> 16360" "bs \<noteq> []"
  shows "T' = (\<lambda>_. [])(1 := [bs])" "map_pid s' i = \<lparr>page_id = 1, file_id = STORE_FILE_DEFAULT, offset = 0\<rparr>"
  using assms first_fit_empty [of "int (length bs)"]
  by (auto simp: placed_def slots_insert_def Let_def split: if_splits)

lemma slots_delete_one [simp]: "slots_delete [bs] 0 = []"
  by (simp add: slots_delete_def rstrip_def)

text \<open>Asking for the place of an object.\<close>

lemma getPhysicalID_live:
  assumes "store_at s T \<sigma>" "\<sigma> (lvalue l) = Some ob"
  shows "\<exists>s'. store_getPhysicalID s l = (s', Inr (Some (map_pid s (lvalue l)))) \<and> store_at s' T \<sigma> \<and> map_pid s' = map_pid s
    \<and> map_last s' = map_last s \<and> wlog s' = wlog s \<and> idSeq s' = idSeq s"
proof -
  note s = store_atD [OF assms(1)]
  have i: "0 < lvalue l" "lvalue l \<le> map_last s"
    using s(5) [OF assms(2)] by auto
  obtain s' where s': "map_getPhysicalID s (lvalue l) = (s', Inr (0, Some (map_pid s (lvalue l))))" "map_ok s'"
    "page_view s' = page_view s" "other_files s s'"
    using map_getPhysicalID_ok [OF s(1), of "lvalue l"] i by auto
  moreover have "store_at s' T \<sigma>"
    using s'(2,3) by (intro store_at_same [OF assms(1)]) auto
  ultimately show ?thesis
    using map_view_cong [OF s'(3)] by (auto simp: store_getPhysicalID_def lid_toInteger_def other_files_def same_log_def)
qed

section \<open>Creating\<close>

abbreviation write_locked :: rwujsem where
  "write_locked \<equiv> RWUJSemaphore_new\<lparr>sem_mode := SemWrite, inside := 1\<rparr>"

lemma under_write_new:
  assumes "tm_sem tm = RWUJSemaphore_new"
  shows "under_write StoreSem body tm = cbind (body (tm\<lparr>tm_sem := write_locked\<rparr>)) (\<lambda>tm x. cbind (sem_unlock StoreSem tm) (\<lambda>tm _. Done tm x))"
  using assms
  by (simp add: under_write_def sem_lock_write_def sem_result_def rwuj_lock_write_def assert_that_def RWUJSemaphore_new_def note_wake_def)

lemma unlock_write_locked:
  "tm_sem tm = write_locked \<Longrightarrow> sem_unlock StoreSem tm = Done (tm\<lparr>tm_sem := RWUJSemaphore_new\<rparr>) ()"
  by (simp add: sem_unlock_def sem_result_def rwuj_unlock_def rwuj_unlock_as_def assert_that_def RWUJSemaphore_new_def note_wake_def
      Let_def u16_def)

text \<open>A call of \<open>createObject\<close> up to the point where it asks for the lock.\<close>

lemma create_up_to_lock:
  assumes st: "store_at (tm_store tm) T \<sigma>" "map_last (tm_store tm) < 10000000" "tm_sem tm = RWUJSemaphore_new"
    and ob: "obj_ok (map_last (tm_store tm)) (False, nm, v)"
    and room: "has_room (tm_store tm) (int (length (obj_bytes (map_last (tm_store tm) + 1) (False, nm, v))))"
  shows "\<exists>lg T' p. tr_createObject env t nm v tm = or_abort env t
      (cbind (with_code p (lock_result (lock_number (tm_locks tm) (Some (map_pid (lg_store lg) (map_last (tm_store tm) + 1)))) t Write
           (lock_primitive (tm_locks tm) (Some (map_pid (lg_store lg) (map_last (tm_store tm) + 1))) t Write)
           (tm\<lparr>tm_sem := write_locked, tm_log := lg\<rparr>)))
         (\<lambda>tm x. cbind (sem_unlock StoreSem tm) (\<lambda>tm _. Done tm x)))
    \<and> p = op_setIsRoot (op_new nm v (lid_new (map_last (tm_store tm) + 1))) False
    \<and> store_at (lg_store lg) T' (\<sigma>(map_last (tm_store tm) + 1 \<mapsto> (False, nm, v)))
    \<and> map_last (lg_store lg) = map_last (tm_store tm) + 1 \<and> wlog (lg_store lg) = []
    \<and> placed T (obj_bytes (map_last (tm_store tm) + 1) (False, nm, v)) (map_last (tm_store tm) + 1) (lg_store lg) T'"
proof -
  let ?s = "tm_store tm" and ?i = "map_last (tm_store tm) + 1"
  obtain s1 T1 where 1: "createObject ?s (tid_id t) nm v None False = (s1, Inr (0, op_setIsRoot (op_new nm v (lid_new ?i)) False))"
    "store_at s1 T1 (\<sigma>(?i \<mapsto> (False, nm, v)))" "map_last s1 = ?i" "placed T (obj_bytes ?i (False, nm, v)) ?i s1 T1"
    using createObject_new [OF st(1,2) ob room, of "tid_id t"] by auto
  define lg1 where "lg1 = pushLogable ((tm_log tm)\<lparr>lg_store := s1\<rparr>)"
  have s1': "lg_store lg1 = s1\<lparr>idSeq := idSeq s1, wlog := []\<rparr>"
    by (simp add: lg1_def pushLogable_def)
  have i: "lvalue (lid_new ?i) = ?i"
    using st(2) map_last_nonneg [of ?s] by (simp add: u32_def)
  have "store_at (lg_store lg1) T1 (\<sigma>(?i \<mapsto> (False, nm, v)))" "map_pid (lg_store lg1) = map_pid s1" "map_last (lg_store lg1) = ?i"
    unfolding s1' using 1(2,3) by (simp_all only: log_irrelevant)
  moreover from this getPhysicalID_live [OF this(1), of "lid_clone (lid_new ?i)"] i
  obtain s2 where 2: "store_getPhysicalID (lg_store lg1) (lid_clone (lid_new ?i)) = (s2, Inr (Some (map_pid s1 ?i)))"
    "store_at s2 T1 (\<sigma>(?i \<mapsto> (False, nm, v)))" "map_pid s2 = map_pid s1" "map_last s2 = ?i" "wlog s2 = []"
    by (auto simp: s1')
  define lg where "lg = lg1\<lparr>lg_store := s2\<rparr>"
  have "lid_of (op_setIsRoot (op_new nm v (lid_new ?i)) False) = Some (lid_clone (lid_new ?i))"
    by (simp add: op_new_def op_setIsRoot_def)
  with 1(1) 2(1,3) have "tr_createObject env t nm v tm = or_abort env t
      (cbind (with_code (op_setIsRoot (op_new nm v (lid_new ?i)) False)
         (lock_result (lock_number (tm_locks tm) (Some (map_pid s2 ?i))) t Write
           (lock_primitive (tm_locks tm) (Some (map_pid s2 ?i)) t Write)
           (tm\<lparr>tm_sem := write_locked, tm_log := lg\<rparr>)))
         (\<lambda>tm x. cbind (sem_unlock StoreSem tm) (\<lambda>tm _. Done tm x)))"
    by (simp add: tr_createObject_def under_write_new [OF st(3)] in_store_def if_ok_def lm_lock_def lg1_def [symmetric]
        lg_def put_store_def Let_def)
  moreover have "placed T (obj_bytes ?i (False, nm, v)) ?i s2 T1"
    using 1(4) 2(3) by (simp add: placed_def)
  ultimately show ?thesis
    using 2 by (intro exI [of _ lg] exI [of _ T1]) (simp add: lg_def)
qed

section \<open>Two transactions\<close>

definition older :: TransactionID where "older = TransactionID_new0 1 0"
definition younger :: TransactionID where "younger = TransactionID_new0 2 0"

abbreviation first_place :: physical_id where
  "first_place \<equiv> \<lparr>page_id = 1, file_id = STORE_FILE_DEFAULT, offset = 0\<rparr>"

definition younger_lock :: SingleLock where
  "younger_lock = \<lparr>currentRead = {}, currentWrite = {2}, sl_inside = 1, sl_waiting = 0, sl_tid = younger, sl_id = 0,
     sl_sem = write_locked, phid = first_place\<rparr>"

definition younger_locks :: LockManager where
  "younger_locks = \<lparr>map_of_locks = [lock_key first_place \<mapsto> 0], locks = [0 \<mapsto> younger_lock],
     transaction_locks = [2 \<mapsto> [0]], single_lock_id = 1\<rparr>"

lemmas two_defs = older_def younger_def TransactionID_new0_def younger_lock_def younger_locks_def

lemma younger_takes: "lock_primitive LockManager_new (Some first_place) younger Write = Returns None younger_locks 0"
  by (simp add: two_defs lock_primitive_def LockManager_new_def SingleLock_new_def rwuj_lock_write_def assert_that_def
      RWUJSemaphore_new_def lock_done_def add_lock_def Let_def)

lemma younger_holds: "lock_primitive younger_locks (Some first_place) younger Write = Returns None younger_locks 0"
  by (simp add: two_defs lock_primitive_def wait_for_lock_def lock_request_defs lock_done_def add_lock_def Let_def)

lemma older_waits:
  "lock_primitive younger_locks (Some first_place) older Write
     = Waits None (younger_locks\<lparr>locks := [0 \<mapsto> younger_lock\<lparr>sl_waiting := 1, sl_sem := write_locked\<lparr>writers_waiting := 1\<rparr>\<rparr>]\<rparr>) writer_cond"
  by (simp add: two_defs lock_primitive_def wait_for_lock_def lock_request_defs unless_deadlock_def preventDeadlock_def after_sem_def
      rwuj_lock_write_def assert_that_def RWUJSemaphore_new_def lock_done_def u16_def Let_def)

lemma lock_number_first: "lock_number LockManager_new (Some first_place) = 0" "lock_number younger_locks (Some first_place) = 0"
  by (simp_all add: lock_number_def LockManager_new_def younger_locks_def)

text \<open>Deleting an object whose lock the transaction holds.\<close>

lemma delete_held:
  assumes st: "store_at (tm_store tm) T \<sigma>" "wlog (tm_store tm) = []" "tm_sem tm = RWUJSemaphore_new"
    and ob: "lid_of p = Some l" "val p = Some v" "opParentRoot p = []" "\<sigma> (lvalue l) = Some old"
    and lk: "lock_primitive (tm_locks tm) (Some (map_pid (tm_store tm) (lvalue l))) t Write = Returns None (tm_locks tm) 0"
  shows "\<exists>lg. tr_deleteObject env t p tm = Done (tm\<lparr>tm_log := lg\<rparr>) (0, ())
    \<and> map_last (lg_store lg) = map_last (tm_store tm)
    \<and> store_at (lg_store lg) (T(page_id (map_pid (tm_store tm) (lvalue l)) := slots_delete (T (page_id (map_pid (tm_store tm) (lvalue l))))
         (nat (offset (map_pid (tm_store tm) (lvalue l)))))) (\<sigma>(lvalue l := None))"
proof -
  let ?s = "tm_store tm"
  obtain s1 where 1: "store_getPhysicalID ?s l = (s1, Inr (Some (map_pid ?s (lvalue l))))" "store_at s1 T \<sigma>" "map_pid s1 = map_pid ?s"
    "map_last s1 = map_last ?s" "wlog s1 = []"
    using getPhysicalID_live [OF st(1) ob(4)] st(2) by auto
  obtain s2 T2 where 2: "deleteObject s1 (tid_id t) p = (s2, Inr 0)" "store_at s2 T2 (\<sigma>(lvalue l := None))" "map_last s2 = map_last ?s"
    "T2 = T(page_id (map_pid ?s (lvalue l)) := slots_delete (T (page_id (map_pid ?s (lvalue l)))) (nat (offset (map_pid ?s (lvalue l)))))"
    using deleteObject_present [OF 1(2) ob(1,2,4), of "tid_id t"] 1(3,4) by auto
  define lg where "lg = pushLogable ((tm_log tm)\<lparr>lg_store := s2\<rparr>)"
  have lg: "lg_store lg = s2\<lparr>idSeq := idSeq s2, wlog := []\<rparr>"
    by (simp add: lg_def pushLogable_def)
  have tm1: "lm_lock (lid_of p) t Write tm = Done (put_store s1 tm) 0"
    using 1(1) lk by (simp add: lm_lock_def ob(1) lock_result_def note_wake_def put_store_def)
  have "tr_deleteObject env t p tm = Done (tm\<lparr>tm_log := lg\<rparr>) (0, ())"
    using 2(1) st(3) unlock_write_locked [of "tm\<lparr>tm_sem := write_locked, tm_log := lg\<rparr>"]
    by (simp add: tr_deleteObject_def tm1 or_abort_if_def if_ok_def with_code_def under_write_new put_store_def ix_deleteObject_def ob(3)
        in_store_def lg_def Let_def)
  moreover have "store_at (lg_store lg) T2 (\<sigma>(lvalue l := None))" "map_last (lg_store lg) = map_last ?s"
    unfolding lg using 2(2,3) by (simp_all only: log_irrelevant)
  ultimately show ?thesis
    unfolding 2(4) by blast
qed

section \<open>Property\<close>

text \<open>(C9) \<open>createObject\<close> can wait for the lock of the new object while it holds the store semaphore, although the comment in the code says
  that it is guaranteed not to wait. On a new database the younger transaction creates an object and deletes it again; the older
  one then creates an object, which gets the place of the deleted one, and waits for the lock of that place, which the younger
  transaction holds until its end. Every further call of the younger transaction that looks at the store waits for the semaphore: a
  deadlock that the test of the priorities does not prevent.\<close>

theorem create_deadlock:
  "\<exists>s tm1 p tm2 tm3 k tm4 k'. sm_start (\<lambda>_. False) (\<lambda>_. True) None stopped_empty = (s, 0)
    \<and> tr_createObject env younger ''x'' (dv_new_int 5)
        ((tm_new \<lparr>lg_store = s, lg_queue = [], lg_file = []\<rparr> vr Map.empty x)\<lparr>transactions := [older, younger]\<rparr>) = Done tm1 (0, p)
    \<and> tr_deleteObject env younger p tm1 = Done tm2 (0, ())
    \<and> tr_createObject env older ''x'' (dv_new_int 5) tm2 = Blocked tm3 (ObjectLock 0) writer_cond k
    \<and> 2 \<in> currentWrite (the (locks (tm_locks tm3) 0)) \<and> sem_mode (tm_sem tm3) = SemWrite
    \<and> perform env younger GetRootsLID_all tm3 = Blocked tm4 (AtSem StoreSem) reader_cond k'"
proof -
  obtain s where s: "sm_start (\<lambda>_. False) (\<lambda>_. True) None stopped_empty = (s, 0)" "store_at s (\<lambda>_. []) (\<lambda>_. None)" "map_last s = 0"
    using sample_new_database by blast
  define tm0 where "tm0 = (tm_new \<lparr>lg_store = s, lg_queue = [], lg_file = []\<rparr> vr Map.empty x)\<lparr>transactions := [older, younger]\<rparr>"
  have tm0: "tm_store tm0 = s" "tm_sem tm0 = RWUJSemaphore_new" "tm_locks tm0 = LockManager_new"
    by (simp_all add: tm0_def tm_new_def)
  have room: "has_room u (int (length (obj_bytes i (False, ''x'', dv_new_int 5))))" if "store_at u (\<lambda>_. []) \<sigma>" for u i \<sigma>
    using small_object(2) [of i False] has_room_T [OF store_atD(3) [OF that]]
    by (auto simp: room_def is_data_def intro!: exI [of _ 1])
  have len: "length (obj_bytes i (False, ''x'', dv_new_int 5)) \<le> 16360" for i
    using small_object(2) [of i False] by simp
  let ?p = "op_setIsRoot (op_new ''x'' (dv_new_int 5) (lid_new 1)) False"
  let ?T1 = "(\<lambda>_. [])(1 := [obj_bytes 1 (False, ''x'', dv_new_int 5)])" and ?\<sigma> = "(\<lambda>_. None)(1 \<mapsto> (False, ''x'', dv_new_int 5))"
  obtain lg1 where 1: "tr_createObject env younger ''x'' (dv_new_int 5) tm0 = or_abort env younger
      (cbind (with_code ?p (lock_result 0 younger Write (Returns None younger_locks 0) (tm0\<lparr>tm_sem := write_locked, tm_log := lg1\<rparr>)))
         (\<lambda>tm x. cbind (sem_unlock StoreSem tm) (\<lambda>tm _. Done tm x)))"
    "store_at (lg_store lg1) ?T1 ?\<sigma>" "map_last (lg_store lg1) = 1" "wlog (lg_store lg1) = []" "map_pid (lg_store lg1) 1 = first_place"
    using create_up_to_lock [of tm0 "\<lambda>_. []" "\<lambda>_. None" "''x''" "dv_new_int 5" env younger] s(2,3) tm0 room [OF s(2)] small_object(1)
      placed_empty [OF _ len] younger_takes lock_number_first by fastforce
  define tm1 where "tm1 = tm0\<lparr>tm_sem := RWUJSemaphore_new, tm_log := lg1, tm_locks := younger_locks\<rparr>"
  have create: "tr_createObject env younger ''x'' (dv_new_int 5) tm0 = Done tm1 (0, ?p)"
    using 1(1) unlock_write_locked [of "tm0\<lparr>tm_sem := write_locked, tm_log := lg1, tm_locks := younger_locks\<rparr>"]
    by (simp add: tm1_def or_abort_if_def with_code_def lock_result_def note_wake_def)
  have one: "lvalue (lid_clone (lid_new 1)) = 1"
    by (simp add: u32_def)
  obtain lg2 where 2: "tr_deleteObject env younger ?p tm1 = Done (tm1\<lparr>tm_log := lg2\<rparr>) (0, ())" "map_last (lg_store lg2) = 1"
    "store_at (lg_store lg2) ((\<lambda>_. [])(1 := [])) (\<lambda>_. None)"
    using delete_held [of tm1 ?T1 ?\<sigma> ?p "lid_clone (lid_new 1)" "dv_clone (dv_new_int 5)" "(False, ''x'', dv_new_int 5)" younger env] 1(2-5) younger_holds
    unfolding one by (auto simp: tm1_def op_setIsRoot_def op_new_def)
  have empty: "store_at (lg_store lg2) (\<lambda>_. []) (\<lambda>_. None)"
    using 2(3) by (simp add: fun_upd_idem)
  let ?tm2 = "tm1\<lparr>tm_log := lg2\<rparr>"
  obtain lg3 q where 3: "tr_createObject env older ''x'' (dv_new_int 5) ?tm2 = or_abort env older
      (cbind (with_code q (lock_result 0 older Write (lock_primitive younger_locks (Some first_place) older Write)
           (?tm2\<lparr>tm_sem := write_locked, tm_log := lg3\<rparr>)))
         (\<lambda>tm x. cbind (sem_unlock StoreSem tm) (\<lambda>tm _. Done tm x)))"
    using create_up_to_lock [of ?tm2 "\<lambda>_. []" "\<lambda>_. None" "''x''" "dv_new_int 5" env older] 2(2) empty room [OF empty] small_object(1)
      placed_empty [OF _ len] lock_number_first by (fastforce simp: tm1_def)
  define tm3 where "tm3 = ?tm2\<lparr>tm_sem := write_locked, tm_log := lg3,
    tm_locks := younger_locks\<lparr>locks := [0 \<mapsto> younger_lock\<lparr>sl_waiting := 1, sl_sem := write_locked\<lparr>writers_waiting := 1\<rparr>\<rparr>]\<rparr>\<rparr>"
  have "\<exists>k. tr_createObject env older ''x'' (dv_new_int 5) ?tm2 = Blocked tm3 (ObjectLock 0) writer_cond k"
    unfolding 3 older_waits by (simp add: or_abort_if_def with_code_def lock_result_def note_wake_def tm3_def)
  moreover have "2 \<in> currentWrite (the (locks (tm_locks tm3) 0))" "sem_mode (tm_sem tm3) = SemWrite"
    by (simp_all add: tm3_def younger_lock_def)
  moreover have "\<exists>tm4 k'. perform env younger GetRootsLID_all tm3 = Blocked tm4 (AtSem StoreSem) reader_cond k'"
    by (simp add: code_def tr_getRootsLID_all_def look_up_def or_abort_if_def read_store_def under_read_def sem_lock_read_def sem_result_def
        rwuj_lock_read_def assert_that_def tm3_def RWUJSemaphore_new_def)
  ultimately show ?thesis
    using s(1) create 2(1) unfolding tm0_def by blast
qed

end
