(* ===== verification/TransactionProperties.thy ===== *)
theory TransactionProperties
  imports TransactionEnd CreateDeadlock
begin

text \<open>
  What holds for every request of a transaction.
\<close>

section \<open>A failing request\<close>

text \<open>Asking for an object that does not exist, with a log that has no record of the transaction.\<close>

definition sample_env :: "unit outside" where
  "sample_env = \<lparr>sys_views = (\<lambda>s l. (s, Inr (0, None))), view_items = (\<lambda>_. []),
     tree_addEntry = (\<lambda>ih v e b x. (x, Inr 0)), dml_init = (\<lambda>t tm. Done tm ())\<rparr>"

definition sample_tm :: "storage \<Rightarrow> VisibilityResolver \<Rightarrow> unit tmanager" where
  "sample_tm s vr = ending_tm \<lparr>lg_store = s, lg_queue = [], lg_file = []\<rparr> vr"

lemma sample_failure:
  "\<exists>s vr tm'. perform sample_env ending (GetObjectPointer (lid_new 5) Read False) (sample_tm s vr) = Done tm' ENoFile"
proof -
  obtain s where s: "store_at s (\<lambda>_. []) (\<lambda>_. None)" "regs_rep s (\<lambda>_. [])" "map_last s = 0" "idSeq s = 0"
    using sample_new_database by blast
  obtain v where v: "vis_reachable v" "7 \<in> running v"
    using ending_running by blast
  obtain vr where vr: "vr_abort 7 (vs_res v) = Inr vr"
    using step_abort_inv [OF vis_reachable_inv [OF v(1)] v(2)] by blast
  have five: "lid_toInteger (lid_new 5) = 5"
    by (simp add: lid_toInteger_def u32_def)
  obtain s1 where 1: "map_getPhysicalID s 5 = (s1, Inr (2, None))" "map_ok s1" "other_files s s1"
    using map_getPhysicalID_ok [OF store_atD(1) [OF s(1)], of 5] s(3) by auto
  have R: "regs_rep s1 (\<lambda>_. [])"
    by (rule regs_rep_objs [OF s(2)])
      (use 1(2,3) s(4) in \<open>auto simp: objs_only_def other_files_def same_log_def map_ok_def timer_ok_def\<close>)
  let ?w = "\<lambda>s :: storage. s\<lparr>wlog := []\<rparr>"
  have R': "regs_rep (?w s1) (\<lambda>_. [])"
    by (rule regs_rep_objs [OF R])
      (use 1(2,3) s(4) in \<open>auto simp: objs_only_def other_files_def same_log_def map_ok_def timer_ok_def\<close>)
  let ?tm = "sample_tm s (vs_res v)"
  have lock: "lm_lock (Some (lid_new 5)) ending Read ?tm = Done (put_store s1 ?tm) ENoFile"
    using 1(1) by (simp add: lm_lock_def store_getPhysicalID_def five sample_tm_def lock_primitive_def lock_result_def note_wake_def put_store_def
        ending_tm_def tm_new_def)
  have "rollback_loop sv [] {7} 0 s1 = Some (s1, Inr EINVAL)" for sv
    by (subst rollback_loop.simps) (simp add: read_log_def read_backward_start)
  then have rb: "\<exists>lg. tm_rollback sample_env ending (put_store s1 ?tm) = Done ((put_store s1 ?tm)\<lparr>tm_log := lg\<rparr>) EINVAL \<and> lg_store lg = ?w s1"
    by (simp add: tm_rollback_def rollbackTransaction_def flushLog_def sample_tm_def ending_ok(4) put_store_def EINVAL_def pushLogable_def) force
  then obtain lg where lg: "tm_rollback sample_env ending (put_store s1 ?tm) = Done ((put_store s1 ?tm)\<lparr>tm_log := lg\<rparr>) EINVAL" "lg_store lg = ?w s1"
    by blast
  obtain tm2 where 2: "tm_unlockAll ending ((put_store s1 ?tm)\<lparr>tm_log := lg\<rparr>) = Done tm2 0" "tm_log tm2 = lg" "tm_resolver tm2 = vs_res v"
    using unlock_done [OF ending_ok(2,3), of "(put_store s1 ?tm)\<lparr>tm_log := lg\<rparr>" ending] ending_ok(4)
    by (auto simp: sample_tm_def put_store_def)
  obtain s3 where 3: "sm_abortTransaction (?w s1) ending = Some (s3, Inr 0)"
    using sm_end_regs(1) [OF R' ending_ok(1)] by blast
  have "\<exists>tm'. tm_abort sample_env ending (put_store s1 ?tm) = Done tm' 0"
    using lg 2 3 vr by (simp add: tm_abort_def in_store_def in_resolver_def remove_from_list_def ending_ok(4) Let_def)
  then have "\<exists>tm'. tr_getObjectPointer sample_env ending (lid_new 5) Read False ?tm = Done tm' (ENoFile, None)"
    by (auto simp: tr_getObjectPointer_def five lock if_ok_def with_code_def or_abort_if_def ENoFile_def)
  then show ?thesis
    by (intro exI [of _ s] exI [of _ "vs_res v"]) (auto simp: code_def)
qed

section \<open>Properties\<close>

text \<open>(C7) However the calls of other transactions are interleaved with it, a request that is answered with an error has ended its
  transaction: the transaction is off the list and no locks are recorded for it. The only exception is the search for the
  binding of an interface that does not exist.\<close>

theorem failed_request_aborts:
  assumes "ends_in (perform env t req tm) tm' rc" "rc \<noteq> 0"
    and "\<And>nm. req = GetInterfaceBindForObjectName nm \<Longrightarrow> rc \<noteq> no_interface"
  shows "tid_id t \<notin> tid_id ` set (transactions tm') \<and> transaction_locks (tm_locks tm') (tid_id t) = None"
proof -
  have "ended t tm'"
  proof (cases req)
    case GetObjectPointer
    then show ?thesis
      using assms getObjectPointer_ended by (auto simp: ends_code)
  next
    case GetInterfaceBindForObjectName
    then show ?thesis
      using assms by (auto simp: ends_code tr_getInterfaceBindForObjectName_def
          intro: ends_or_abort [where bad = "\<lambda>errorNumber. errorNumber \<noteq> 0 \<and> errorNumber \<noteq> no_interface"])
  next
    case BindInterface
    then show ?thesis
      using assms by (auto simp: ends_code tr_bindInterface_def ends_cbind)
  next
    case CreateVectorValue
    then show ?thesis
      using assms by (auto simp: ends_code tr_createVectorValue_def dest: ends_under_write)
  next
    case CreatePointerValue
    then show ?thesis
      using assms by (auto simp: ends_code tr_createPointerValue_def dest: ends_under_write)
  qed (use assms in \<open>auto simp: ends_code tr_createIntValue_def tr_createDoubleValue_def tr_createStringValue_def
         lookup_defs named_defs checked_defs intro: checked_ended\<close>)
  then show ?thesis
    by (simp add: ended_def)
qed

theorem failed_request_aborts_witness:
  "\<exists>s vr tm'. ends_in (perform sample_env ending (GetObjectPointer (lid_new 5) Read False) (sample_tm s vr)) tm' ENoFile
    \<and> transactions tm' = [] \<and> transaction_locks (tm_locks tm') 7 = None"
proof -
  obtain s vr tm' where *: "perform sample_env ending (GetObjectPointer (lid_new 5) Read False) (sample_tm s vr) = Done tm' ENoFile"
    using sample_failure by blast
  have "tid_id ending \<notin> tid_id ` set (transactions tm') \<and> transaction_locks (tm_locks tm') (tid_id ending) = None"
    using * by (intro failed_request_aborts [of sample_env ending "GetObjectPointer (lid_new 5) Read False" "sample_tm s vr" tm' ENoFile])
      (auto simp: ENoFile_def)
  moreover have "filter (\<lambda>x. tid_id x \<noteq> tid_id ending) (transactions tm') = []"
    using others.perform_frame [OF *] by (simp add: same_others_def sample_tm_def)
  ultimately have "transactions tm' = []" "transaction_locks (tm_locks tm') 7 = None"
    by (cases "transactions tm'"; auto simp: filter_empty_conv ending_ok(4))+
  then show ?thesis
    using * by (metis run_done)
qed

text \<open>(C8) A request that is answered without having waited leaves both semaphores as they were (what it has locked it has unlocked,
  also when it has failed), and it does not touch the numbering of transactions, the list of indexes or the entries of the other
  transactions in the list.\<close>

theorem request_frame:
  assumes "perform env t req tm = Done tm' rc" "sem_sane (tm_sem tm)" "sem_sane (indexListSem tm)"
  shows "tm_sem tm' = tm_sem tm \<and> indexListSem tm' = indexListSem tm
    \<and> transactionId tm' = transactionId tm \<and> ix_indexes tm' = ix_indexes tm
    \<and> filter (\<lambda>x. tid_id x \<noteq> tid_id t) (transactions tm') = filter (\<lambda>x. tid_id x \<noteq> tid_id t) (transactions tm)"
  using sems.perform_frame [OF assms(1)] others.perform_frame [OF assms(1)] assms(2,3)
  by (simp add: same_sems_def same_others_def)

theorem request_frame_witness:
  "\<exists>s vr tm'. perform sample_env ending (GetObjectPointer (lid_new 5) Read False) (sample_tm s vr) = Done tm' ENoFile
    \<and> tm_sem tm' = RWUJSemaphore_new \<and> indexListSem tm' = RWUJSemaphore_new"
proof -
  obtain s vr tm' where *: "perform sample_env ending (GetObjectPointer (lid_new 5) Read False) (sample_tm s vr) = Done tm' ENoFile"
    using sample_failure by blast
  moreover have "sem_sane RWUJSemaphore_new" "tm_sem (sample_tm s vr) = RWUJSemaphore_new" "indexListSem (sample_tm s vr) = RWUJSemaphore_new"
    by (simp_all add: sem_sane_def RWUJSemaphore_new_def sample_tm_def ending_tm_def tm_new_def)
  ultimately show ?thesis
    using request_frame [OF *] by auto
qed

end
