(* ===== verification/CrashRecovery.thy ===== *)
theory CrashRecovery
  imports Rollback
begin

text \<open>
  Crash recovery (\<^verbatim>\<open>Log/CrashRecovery.cpp\<close>, \<^verbatim>\<open>Log/CrashRecovery.h\<close> and the methods of the records it calls in
  \<^verbatim>\<open>Log/LogRecord.cpp\<close>). Recovery starts from the state of the last checkpoint. It reads the log backward from its end to that
  checkpoint and collects the transactions that have committed since then and those that have not; it goes on backward and
  undoes the latter; then it reads forward from the checkpoint and repeats the former.
\<close>

section \<open>Phases\<close>

definition LOG_CR_UNFINISHED_ROLLBACK :: int where "LOG_CR_UNFINISHED_ROLLBACK = 300001"

text \<open>\<open>isCkptReached\<close> belongs to the state object of the second phase.\<close>

record CrashRecovery =
  afterCkptEnd :: bool
  ckptPos :: int
  tidsToRollback :: "int set"
  rollbackedTids :: "int set"
  tidsToCommit :: "int set"
  isCkptReached :: bool

definition CrashRecovery_new :: CrashRecovery where
  "CrashRecovery_new = \<lparr>afterCkptEnd = False, ckptPos = 0, tidsToRollback = {}, rollbackedTids = {}, tidsToCommit = {},
     isCkptReached = False\<rparr>"

definition toRollback :: "CrashRecovery \<Rightarrow> int \<Rightarrow> CrashRecovery" where
  "toRollback cr tid = (if tid \<notin> tidsToCommit cr then cr\<lparr>tidsToRollback := insert tid (tidsToRollback cr)\<rparr> else cr)"

fun modifySetsBackDir :: "LogRecord \<Rightarrow> CrashRecovery \<Rightarrow> CrashRecovery" where
  "modifySetsBackDir (BeginTransactionRecord tid) cr =
     (if tid \<notin> tidsToCommit cr
      then cr\<lparr>tidsToRollback := tidsToRollback cr - {tid}, rollbackedTids := insert tid (rollbackedTids cr)\<rparr>
      else cr)"
| "modifySetsBackDir (WriteRec tid l nm oldVal newVal newLID) cr = toRollback cr tid"
| "modifySetsBackDir (AddRootRecord tid l) cr = toRollback cr tid"
| "modifySetsBackDir (RemoveRootRecord tid l) cr = toRollback cr tid"
| "modifySetsBackDir (CommitRecord tid) cr = cr\<lparr>tidsToCommit := insert tid (tidsToCommit cr)\<rparr>"
| "modifySetsBackDir (RollbackRecord tid) cr = cr\<lparr>tidsToRollback := insert tid (tidsToRollback cr)\<rparr>"
| "modifySetsBackDir _ cr = cr"

fun ckptEnd :: "LogRecord \<Rightarrow> CrashRecovery \<Rightarrow> CrashRecovery" where
  "ckptEnd EndCkptRecord cr = cr\<lparr>afterCkptEnd := True\<rparr>"
| "ckptEnd _ cr = cr"

definition CkptStart :: "CrashRecovery \<Rightarrow> CrashRecovery" where
  "CkptStart cr = (if afterCkptEnd cr then cr\<lparr>isCkptReached := True\<rparr> else cr)"

fun ckptStart :: "LogRecord \<Rightarrow> CrashRecovery \<Rightarrow> CrashRecovery" where
  "ckptStart (CkptRecord tidVec) cr = CkptStart (foldl toRollback cr tidVec)"
| "ckptStart _ cr = cr"

fun isShutdown :: "LogRecord \<Rightarrow> bool" where
  "isShutdown ShutdownRecord = True"
| "isShutdown _ = False"

text \<open>\<open>CRStart\<close>: the first component of the result tells that recovery has ended.\<close>

definition CRStart :: "byte list \<Rightarrow> storage \<Rightarrow> storage \<times> (fault + bool \<times> int)" where
  "CRStart f s =
     (case read_log (readLogRecordBackward True) f (int (length f)) s of
        (s, p, Inl (Code e)) \<Rightarrow> (s, Inr (if e = UNEXPECTED_EOF_ERROR then (True, 0) else (False, e)))
      | (s, p, Inl (Fault e)) \<Rightarrow> (s, Inl e)
      | (s, p, Inr (_, r)) \<Rightarrow> (s, Inr (isShutdown r, 0)))"

text \<open>One round of the loop of \<open>CRNoteAndRollback\<close>; in this phase \<open>rollBack\<close> must not change the store.\<close>

definition note_record :: "system_views \<Rightarrow> LogRecord \<Rightarrow> CrashRecovery \<Rightarrow> storage \<Rightarrow> CrashRecovery" where
  "note_record sysviews r cr s =
     (let cr = modifySetsBackDir r cr;
          (_, tids, _) = rec_rollBack sysviews False r (tidsToRollback cr) s
      in ckptStart r (ckptEnd r (cr\<lparr>tidsToRollback := tids\<rparr>)))"

partial_function (option) note_loop ::
  "system_views \<Rightarrow> byte list \<Rightarrow> int \<Rightarrow> CrashRecovery \<Rightarrow> storage \<Rightarrow> (storage \<times> int \<times> CrashRecovery \<times> (fault + int)) option" where
  "note_loop sysviews f p cr s =
     (if isCkptReached cr then Some (s, p, cr, Inr 0)
      else (case read_log (readLogRecordBackward True) f p s of
              (s, p, Inl (Code e)) \<Rightarrow> Some (s, p, cr, Inr e)
            | (s, p, Inl (Fault e)) \<Rightarrow> Some (s, p, cr, Inl e)
            | (s, p, Inr (_, r)) \<Rightarrow> note_loop sysviews f p (note_record sysviews r cr s) s))"

definition CRNoteAndRollback ::
  "system_views \<Rightarrow> byte list \<Rightarrow> CrashRecovery \<Rightarrow> storage \<Rightarrow> (storage \<times> int \<times> CrashRecovery \<times> (fault + int)) option" where
  "CRNoteAndRollback sysviews f cr s =
     (case note_loop sysviews f (int (length f)) (cr\<lparr>isCkptReached := False\<rparr>) s of
        None \<Rightarrow> None
      | Some (s, p, cr, Inl e) \<Rightarrow> Some (s, p, cr, Inl e)
      | Some (s, p, cr, Inr err) \<Rightarrow>
          Some (if err = UNEXPECTED_EOF_ERROR
                then (s, p, cr, Inr (if tidsToRollback cr = {} then 0 else LOG_CR_UNFINISHED_ROLLBACK))
                else (s, p, cr\<lparr>rollbackedTids := rollbackedTids cr \<union> tidsToRollback cr, ckptPos := p\<rparr>, Inr 0)))"

text \<open>The loops of \<open>CRRollback\<close> and \<open>CRCommit\<close> drop the results of \<open>rollBack\<close> and \<open>commit\<close>.\<close>

partial_function (option) CRRollback ::
  "system_views \<Rightarrow> byte list \<Rightarrow> int \<Rightarrow> int set \<Rightarrow> storage \<Rightarrow> (storage \<times> int set \<times> (fault + int)) option" where
  "CRRollback sysviews f p tids s =
     (if tids = {} then Some (s, tids, Inr 0)
      else (case read_log (readLogRecordBackward True) f p s of
              (s, p, Inl (Code e)) \<Rightarrow> Some (s, tids, Inr e)
            | (s, p, Inl (Fault e)) \<Rightarrow> Some (s, tids, Inl e)
            | (s, p, Inr (_, r)) \<Rightarrow>
                (case rec_rollBack sysviews True r tids s of
                   (s, tids, Inl e) \<Rightarrow> Some (s, tids, Inl e)
                 | (s, tids, Inr err) \<Rightarrow> CRRollback sysviews f p tids s)))"

partial_function (option) CRCommit ::
  "system_views \<Rightarrow> byte list \<Rightarrow> int \<Rightarrow> int set \<Rightarrow> storage \<Rightarrow> (storage \<times> int set \<times> (fault + int)) option" where
  "CRCommit sysviews f p tids s =
     (if tids = {} then Some (s, tids, Inr 0)
      else (case read_log (readLogRecordForward True) f p s of
              (s, p, Inl (Code e)) \<Rightarrow> Some (s, tids, Inr e)
            | (s, p, Inl (Fault e)) \<Rightarrow> Some (s, tids, Inl e)
            | (s, p, Inr (_, r)) \<Rightarrow>
                (case rec_commit sysviews r tids s of
                   (s, tids, Inl e) \<Rightarrow> Some (s, tids, Inl e)
                 | (s, tids, Inr err) \<Rightarrow> CRCommit sysviews f p tids s)))"

definition CRSaveRollback :: "Logs \<Rightarrow> int set \<Rightarrow> Logs" where
  "CRSaveRollback st tids = flushLog (foldl printRollbackSign st (sorted_list_of_set tids))"

text \<open>\<open>Recover\<close>: the phases up to the first error.\<close>

definition Recover :: "system_views \<Rightarrow> Logs \<Rightarrow> (Logs \<times> CrashRecovery \<times> (fault + int)) option" where
  "Recover sysviews st =
     (let f = lg_file st; cr = CrashRecovery_new; put = (\<lambda>s. pushLogable (st\<lparr>lg_store := s\<rparr>)) in
      case CRStart f (lg_store st) of
        (s, Inl e) \<Rightarrow> Some (put s, cr, Inl e)
      | (s, Inr (isEnd, err)) \<Rightarrow>
          if err \<noteq> 0 then Some (put s, cr, Inr err)
          else if isEnd then Some (put s, cr, Inr 0)
          else
          (case CRNoteAndRollback sysviews f cr s of
             None \<Rightarrow> None
           | Some (s, p, cr, Inl e) \<Rightarrow> Some (put s, cr, Inl e)
           | Some (s, p, cr, Inr err) \<Rightarrow>
               if err \<noteq> 0 then Some (put s, cr, Inr err)
               else
               (case CRRollback sysviews f p (tidsToRollback cr) s of
                  None \<Rightarrow> None
                | Some (s, tids, Inl e) \<Rightarrow> Some (put s, cr\<lparr>tidsToRollback := tids\<rparr>, Inl e)
                | Some (s, tids, Inr err) \<Rightarrow>
                    let cr = cr\<lparr>tidsToRollback := tids\<rparr> in
                    if err \<noteq> 0 then Some (put s, cr, Inr err)
                    else
                    (case CRCommit sysviews f (ckptPos cr) (tidsToCommit cr) s of
                       None \<Rightarrow> None
                     | Some (s, tids, Inl e) \<Rightarrow> Some (put s, cr\<lparr>tidsToCommit := tids\<rparr>, Inl e)
                     | Some (s, tids, Inr err) \<Rightarrow>
                         let cr = cr\<lparr>tidsToCommit := tids\<rparr> in
                         if err \<noteq> 0 then Some (put s, cr, Inr err)
                         else Some (CRSaveRollback (put s) (tidsToRollback cr), cr, Inr 0)))))"

text \<open>\<open>LogManager::start\<close>.\<close>

definition log_start :: "system_views \<Rightarrow> Logs \<Rightarrow> (Logs \<times> (fault + int)) option" where
  "log_start sysviews st = map_option (\<lambda>(st, cr, r). (st, r)) (Recover sysviews st)"

section \<open>Collecting the transactions\<close>

text \<open>A record as it is noted; the store and the values in the record do not matter.\<close>

definition noted :: "LogRecord \<Rightarrow> CrashRecovery \<Rightarrow> CrashRecovery" where
  "noted r cr =
     (let cr = modifySetsBackDir r cr
      in ckptStart r (ckptEnd r (cr\<lparr>tidsToRollback := drop_begun r (tidsToRollback cr)\<rparr>)))"

lemma note_record_eq: "note_record sysviews r cr s = noted r cr"
  by (cases r) (simp_all add: note_record_def noted_def Let_def)

lemma note_rec_nf [simp]: "noted (rec_nf r) = noted r"
  by (rule ext, cases r) (simp_all add: noted_def)

lemma foldl_toRollback:
  "foldl toRollback cr tids = cr\<lparr>tidsToRollback := tidsToRollback cr \<union> (set tids - tidsToCommit cr)\<rparr>"
  by (induction tids arbitrary: cr) (auto simp: toRollback_def intro!: arg_cong [where f = "\<lambda>x. cr\<lparr>tidsToRollback := x\<rparr>" for cr])

lemma note_reached: "isCkptReached cr \<Longrightarrow> isCkptReached (noted r cr)"
  by (cases r) (auto simp: noted_def Let_def toRollback_def CkptStart_def foldl_toRollback)

lemma fold_note_reached: "isCkptReached cr \<Longrightarrow> isCkptReached (fold noted rs cr)"
  by (induction rs arbitrary: cr) (auto intro: note_reached)

lemma note_loop_steps:
  assumes "f = xs @ log_bytes (rev es) @ rest" "\<forall>e\<in>set es. log_entry_ok e" "\<not> isCkptReached (fold noted (map snd es) cr)"
  shows "\<exists>q. note_loop sysviews f (int (length (xs @ log_bytes (rev es)))) cr s
    = note_loop sysviews f (int (length xs)) (fold noted (map snd es) cr) (s\<lparr>idSeq := q\<rparr>)"
  using assms
proof (induction es arbitrary: cr s rest)
  case Nil
  show ?case
    by (intro exI [of _ "idSeq s"]) simp
next
  case (Cons e es)
  have "\<not> isCkptReached cr"
    using Cons.prems(3) fold_note_reached [of cr "map snd (e # es)"] by blast
  moreover have "read_log (readLogRecordBackward True) f (int (length (xs @ log_bytes (rev (e # es))))) s
      = (s\<lparr>idSeq := u32 (idSeq s + 1)\<rparr>, int (length (xs @ log_bytes (rev es))), Inr (fst e, rec_nf (snd e)))"
    using read_log_backward [of e f "xs @ log_bytes (rev es)" rest s] Cons.prems(1,2) by simp
  ultimately have "note_loop sysviews f (int (length (xs @ log_bytes (rev (e # es))))) cr s
      = note_loop sysviews f (int (length (xs @ log_bytes (rev es)))) (noted (snd e) cr) (s\<lparr>idSeq := u32 (idSeq s + 1)\<rparr>)"
    by (subst note_loop.simps) (simp add: note_record_eq)
  with Cons.IH [of "writeLogRecord e @ rest" "noted (snd e) cr" "s\<lparr>idSeq := u32 (idSeq s + 1)\<rparr>"] Cons.prems show ?case
    by auto
qed

text \<open>The transactions that a record names as possibly unfinished, and those that have committed.\<close>

fun names :: "LogRecord \<Rightarrow> int set" where
  "names (WriteRec tid l nm oldVal newVal newLID) = {tid}"
| "names (AddRootRecord tid l) = {tid}"
| "names (RemoveRootRecord tid l) = {tid}"
| "names (RollbackRecord tid) = {tid}"
| "names (CkptRecord tids) = set tids"
| "names _ = {}"

abbreviation named :: "LogRecord list \<Rightarrow> int set" where
  "named rs \<equiv> (\<Union>r\<in>set rs. names r)"

definition committed :: "LogRecord list \<Rightarrow> int set" where
  "committed rs = {tid. CommitRecord tid \<in> set rs}"

text \<open>The order of the records of a transaction, oldest first: its beginning, its writes, and either its commit or its
  rollback.\<close>

fun ordered :: "LogRecord list \<Rightarrow> bool" where
  "ordered [] = True"
| "ordered (r # rs) \<longleftrightarrow> ordered rs \<and> names r \<inter> begun rs = {} \<and> (\<forall>tid. r = CommitRecord tid \<longrightarrow> tid \<notin> named rs)
     \<and> (\<forall>tid. r = RollbackRecord tid \<longrightarrow> tid \<notin> committed rs)"

definition losers :: "LogRecord list \<Rightarrow> int set" where
  "losers rs = named rs - committed rs - begun rs"

lemma fold_note_sets:
  assumes "ordered rs"
  shows "tidsToCommit (fold noted (rev rs) CrashRecovery_new) = committed rs
    \<and> tidsToRollback (fold noted (rev rs) CrashRecovery_new) = losers rs
    \<and> afterCkptEnd (fold noted (rev rs) CrashRecovery_new) = (EndCkptRecord \<in> set rs)"
  using assms
proof (induction rs)
  case Nil
  then show ?case
    by (simp add: CrashRecovery_new_def committed_def losers_def)
next
  case (Cons r rs)
  define cr where "cr = fold noted (rev rs) CrashRecovery_new"
  have IH: "tidsToCommit cr = committed rs" "tidsToRollback cr = losers rs" "afterCkptEnd cr = (EndCkptRecord \<in> set rs)"
    and r: "names r \<inter> begun rs = {}" "\<And>tid. r = CommitRecord tid \<Longrightarrow> tid \<notin> named rs"
      "\<And>tid. r = RollbackRecord tid \<Longrightarrow> tid \<notin> committed rs"
    using Cons by (auto simp: cr_def)
  have "tidsToCommit (noted r cr) = committed (r # rs) \<and> tidsToRollback (noted r cr) = losers (r # rs)
      \<and> afterCkptEnd (noted r cr) = (EndCkptRecord \<in> set (r # rs))"
    using r IH
    by (cases r) (auto simp: noted_def Let_def toRollback_def CkptStart_def foldl_toRollback committed_def losers_def begun_def)
  then show ?case
    by (simp add: cr_def)
qed

text \<open>The scan stops at the last checkpoint that has been completed.\<close>

lemma fold_note_pending:
  assumes "\<forall>r\<in>set rs. \<forall>tids. r \<noteq> CkptRecord tids" "\<not> isCkptReached cr"
  shows "\<not> isCkptReached (fold noted rs cr)"
  using assms
proof (induction rs arbitrary: cr)
  case (Cons r rs)
  then have "\<not> isCkptReached (noted r cr)"
    by (cases r) (auto simp: noted_def Let_def toRollback_def)
  with Cons show ?case by simp
qed simp

lemma fold_note_open:
  assumes "EndCkptRecord \<notin> set rs" "\<not> isCkptReached cr" "\<not> afterCkptEnd cr"
  shows "\<not> isCkptReached (fold noted rs cr)"
  using assms
proof (induction rs arbitrary: cr)
  case (Cons r rs)
  then have "\<not> isCkptReached (noted r cr)" "\<not> afterCkptEnd (noted r cr)"
    by (cases r; auto simp: noted_def Let_def toRollback_def CkptStart_def foldl_toRollback)+
  with Cons show ?case by simp
qed simp

text \<open>\<open>mid\<close> follows the record of the last completed checkpoint.\<close>

definition after_ckpt :: "LogRecord list \<Rightarrow> bool" where
  "after_ckpt mid \<longleftrightarrow> (\<exists>m1 m2. mid = m1 @ EndCkptRecord # m2 \<and> EndCkptRecord \<notin> set m2 \<and> (\<forall>r\<in>set m1. \<forall>tids. r \<noteq> CkptRecord tids))"

lemma fold_note_after_ckpt:
  assumes "after_ckpt mid"
  shows "\<not> isCkptReached (fold noted (rev mid) CrashRecovery_new)"
proof -
  obtain m1 m2 where m: "mid = m1 @ EndCkptRecord # m2" "EndCkptRecord \<notin> set m2" "\<forall>r\<in>set m1. \<forall>tids. r \<noteq> CkptRecord tids"
    using assms by (auto simp: after_ckpt_def)
  have "\<not> isCkptReached (fold noted (rev m2) CrashRecovery_new)"
    using m(2) by (intro fold_note_open) (simp_all add: CrashRecovery_new_def)
  then have "\<not> isCkptReached (noted EndCkptRecord (fold noted (rev m2) CrashRecovery_new))"
    by (simp add: noted_def Let_def)
  from fold_note_pending [OF _ this, of "rev m1"] m(3) show ?thesis
    by (simp add: m(1))
qed

lemma note_phase:
  assumes f: "f = xs @ writeLogRecord (c, CkptRecord tids) @ log_bytes mid"
    and ok: "\<forall>e\<in>set ((c, CkptRecord tids) # mid). log_entry_ok e"
    and wf: "after_ckpt (map snd mid)" "ordered (CkptRecord tids # map snd mid)"
  shows "\<exists>q cr. CRNoteAndRollback sysviews f CrashRecovery_new s = Some (s\<lparr>idSeq := q\<rparr>, int (length xs), cr, Inr 0)
    \<and> tidsToRollback cr = losers (CkptRecord tids # map snd mid) \<and> tidsToCommit cr = committed (map snd mid)
    \<and> ckptPos cr = int (length xs)"
proof -
  let ?ck = "writeLogRecord (c, CkptRecord tids)" and ?cr = "fold noted (rev (map snd mid)) CrashRecovery_new"
  have nr: "\<not> isCkptReached ?cr"
    by (rule fold_note_after_ckpt [OF wf(1)])
  have "f = (xs @ ?ck) @ log_bytes (rev (rev mid)) @ []"
    using f by simp
  from note_loop_steps [OF this, of CrashRecovery_new sysviews s] nr ok obtain q where
    1: "note_loop sysviews f (int (length f)) CrashRecovery_new s = note_loop sysviews f (int (length (xs @ ?ck))) ?cr (s\<lparr>idSeq := q\<rparr>)"
    by (auto simp: rev_map f)
  let ?cr' = "noted (CkptRecord tids) ?cr"
  have "EndCkptRecord \<in> set (map snd mid)"
    using wf(1) unfolding after_ckpt_def by (metis in_set_conv_decomp)
  then have "isCkptReached ?cr'"
    using fold_note_sets [of "map snd mid"] wf(2) by (simp add: noted_def Let_def CkptStart_def foldl_toRollback)
  then have "note_loop sysviews f (int (length (xs @ ?ck))) ?cr (s\<lparr>idSeq := q\<rparr>)
      = Some (s\<lparr>idSeq := u32 (q + 1)\<rparr>, int (length xs), ?cr', Inr 0)"
    using read_log_backward [of "(c, CkptRecord tids)" f xs "log_bytes mid" "s\<lparr>idSeq := q\<rparr>"] f ok nr
    by (subst note_loop.simps) (simp add: note_record_eq, subst note_loop.simps, simp)
  moreover have "tidsToRollback ?cr' = losers (CkptRecord tids # map snd mid)" "tidsToCommit ?cr' = committed (map snd mid)"
    using fold_note_sets [OF wf(2)] by (simp_all add: committed_def)
  ultimately show ?thesis
    using 1 by (intro exI [of _ "u32 (q + 1)"]) (simp add: CRNoteAndRollback_def CrashRecovery_new_def UNEXPECTED_EOF_ERROR_def)
qed

section \<open>Undoing and repeating\<close>

lemma CRRollback_ok:
  assumes "f = xs @ log_bytes (rev es) @ rest" "\<forall>e\<in>set es. log_entry_ok e" "tids \<subseteq> begun (map snd es)"
    "ready (n + num_writes tids (map snd es)) s \<sigma>" "undo_ok (map_last s) tids (map snd es) \<sigma>"
  shows "\<exists>s'. CRRollback sysviews f (int (length (xs @ log_bytes (rev es)))) tids s = Some (s', {}, Inr 0)
    \<and> ready n s' (undo_all tids (map snd es) \<sigma>) \<and> silent s s'"
  using assms
proof (induction es arbitrary: tids s \<sigma> rest)
  case Nil
  then show ?case
    by (auto simp: begun_def CRRollback.simps)
next
  case (Cons e es)
  show ?case
  proof (cases "tids = {}")
    case True
    with Cons.prems(4) ready_mono show ?thesis
      by (auto simp: CRRollback.simps)
  next
    case False
    let ?s = "s\<lparr>idSeq := u32 (idSeq s + 1)\<rparr>" and ?m = "n + num_writes tids (map snd es)"
    have rd: "read_log (readLogRecordBackward True) f (int (length (xs @ log_bytes (rev (e # es))))) s
        = (?s, int (length (xs @ log_bytes (rev es))), Inr (fst e, rec_nf (snd e)))"
      using read_log_backward [of e f "xs @ log_bytes (rev es)" rest s] Cons.prems(1,2) by simp
    have "ready (?m + num_writes tids [snd e]) ?s \<sigma>"
      using Cons.prems(4) by (simp split: if_splits)
    from rec_rollBack_ok [OF this, of sysviews] Cons.prems(2,5)
    obtain s1 where s1: "rec_rollBack sysviews True (rec_nf (snd e)) tids ?s = (s1, drop_begun (snd e) tids, Inr 0)"
      "ready ?m s1 (undo tids (snd e) \<sigma>)" "silent ?s s1"
      by (auto simp: log_entry_ok_def)
    have "ready (n + num_writes (drop_begun (snd e) tids) (map snd es)) s1 (undo tids (snd e) \<sigma>)"
      using num_writes_mono [of "snd e" tids "map snd es"] by (intro ready_mono [OF s1(2)]) simp
    with Cons.IH [of "writeLogRecord e @ rest" "drop_begun (snd e) tids" s1 "undo tids (snd e) \<sigma>"] Cons.prems s1(3)
      drop_begun_eq [of "snd e" tids]
    obtain s' where s': "CRRollback sysviews f (int (length (xs @ log_bytes (rev es)))) (drop_begun (snd e) tids) s1 = Some (s', {}, Inr 0)"
      "ready n s' (undo_all (drop_begun (snd e) tids) (map snd es) (undo tids (snd e) \<sigma>))" "silent s1 s'"
      by (auto simp: silent_def)
    then show ?thesis
      using False rd s1 silent_trans [OF silent_trans [OF _ s1(3)] s'(3), of s]
      by (subst CRRollback.simps) simp
  qed
qed

fun drop_committed :: "LogRecord \<Rightarrow> int set \<Rightarrow> int set" where
  "drop_committed (CommitRecord tid) tids = tids - {tid}"
| "drop_committed _ tids = tids"

fun redo :: "int set \<Rightarrow> LogRecord \<Rightarrow> (int \<Rightarrow> obj option) \<Rightarrow> (int \<Rightarrow> obj option)" where
  "redo tids (WriteRec tid (Some l) nm None (Some v) newLID) \<sigma> =
     (if tid \<in> tids then \<sigma>(lvalue l \<mapsto> (False, nm, reread v)) else \<sigma>)"
| "redo tids (WriteRec tid (Some l) nm (Some v) None newLID) \<sigma> = (if tid \<in> tids then \<sigma>(lvalue l := None) else \<sigma>)"
| "redo tids _ \<sigma> = \<sigma>"

text \<open>Repeating a creation may assign an identifier that the checkpoint did not have.\<close>

fun assigns :: "int set \<Rightarrow> LogRecord \<Rightarrow> int \<Rightarrow> int" where
  "assigns tids (WriteRec tid (Some l) nm None (Some v) newLID) n = (if tid \<in> tids then max n (lvalue l) else n)"
| "assigns tids _ n = n"

fun redoable :: "int \<Rightarrow> int set \<Rightarrow> LogRecord \<Rightarrow> (int \<Rightarrow> obj option) \<Rightarrow> bool" where
  "redoable n tids (WriteRec tid l nm oldVal newVal newLID) \<sigma> \<longleftrightarrow>
     (tid \<notin> tids \<or>
      (case (l, oldVal, newVal) of
         (Some l, None, Some v) \<Rightarrow> lvalue l \<le> 10000000 \<and> fits (max n (lvalue l)) l nm v
       | (Some l, Some v, None) \<Rightarrow> \<sigma> (lvalue l) \<noteq> None
       | _ \<Rightarrow> False))"
| "redoable n tids (AddRootRecord tid l) \<sigma> \<longleftrightarrow> tid \<notin> tids"
| "redoable n tids (RemoveRootRecord tid l) \<sigma> \<longleftrightarrow> tid \<notin> tids"
| "redoable n tids _ \<sigma> \<longleftrightarrow> True"

text \<open>A list of records, oldest first.\<close>

fun redo_all :: "int set \<Rightarrow> LogRecord list \<Rightarrow> (int \<Rightarrow> obj option) \<Rightarrow> (int \<Rightarrow> obj option)" where
  "redo_all tids [] \<sigma> = \<sigma>"
| "redo_all tids (r # rs) \<sigma> = redo_all (drop_committed r tids) rs (redo tids r \<sigma>)"

fun redo_ok :: "int \<Rightarrow> int set \<Rightarrow> LogRecord list \<Rightarrow> (int \<Rightarrow> obj option) \<Rightarrow> bool" where
  "redo_ok n tids [] \<sigma> = True"
| "redo_ok n tids (r # rs) \<sigma> \<longleftrightarrow>
     redoable n tids r \<sigma> \<and> redo_ok (assigns tids r n) (drop_committed r tids) rs (redo tids r \<sigma>)"

lemma redo_other: "\<not> writes tids r \<Longrightarrow> redo tids r \<sigma> = \<sigma> \<and> assigns tids r n = n"
  by (cases "(tids, r, \<sigma>)" rule: redo.cases) auto

lemma redo_nothing [simp]: "redo {} r \<sigma> = \<sigma>" "drop_committed r {} = {}"
  by (cases r; simp add: redo_other)+

lemma redo_all_nothing [simp]: "redo_all {} rs \<sigma> = \<sigma>"
  by (induction rs) auto

lemma num_writes_committed: "num_writes (drop_committed r tids) rs \<le> num_writes tids rs"
proof -
  have "writes (drop_committed r tids) x \<Longrightarrow> writes tids x" for x
    by (cases r; cases x) auto
  then have "filter (writes (drop_committed r tids)) rs = filter (writes (drop_committed r tids)) (filter (writes tids) rs)"
    by (auto intro: filter_cong)
  then show ?thesis
    by (metis length_filter_le)
qed

lemma rec_commit_ok:
  assumes "ready (n + num_writes tids [r]) s \<sigma>" "redoable (map_last s) tids r \<sigma>" "rec_ok r"
  shows "\<exists>s'. rec_commit sysviews (rec_nf r) tids s = (s', drop_committed r tids, Inr 0)
    \<and> ready n s' (redo tids r \<sigma>) \<and> quiet s s' \<and> map_last s' = assigns tids r (map_last s)"
proof (cases "writes tids r")
  case True
  then obtain tid l nm oldVal newVal newLID where r: "r = WriteRec tid l nm oldVal newVal newLID" and tid: "tid \<in> tids"
    by (cases r) auto
  have s: "ready (Suc n) s \<sigma>"
    using assms(1) True by simp
  consider x v where "l = Some x" "oldVal = Some v" "newVal = None" "\<sigma> (lvalue x) \<noteq> None" "lid_wf x"
    | x v where "l = Some x" "oldVal = None" "newVal = Some v" "fits (max (map_last s) (lvalue x)) x nm v" "lid_wf x"
      "dv_ok v" "lvalue x \<le> 10000000"
    using assms(2,3) r tid by (auto simp: lid_opt_ok_def dv_opt_ok_def split: option.splits)
  then show ?thesis
  proof cases
    case 1
    with deleteFromStore_ok [OF s, of "lid_nf x" nm "reread v"] show ?thesis
      by (auto simp: r tid silent_def)
  next
    case 2
    then have "obj_ok (max (map_last s) (lvalue x)) (False, nm, v)"
      by (simp add: fits_def)
    from reread_obj [OF this, where r' = False] 2 addToStore_any [OF s, of "lid_nf x" nm "reread v"] show ?thesis
      by (auto simp: r tid fits_def)
  qed
next
  case False
  with assms show ?thesis
    by (cases r) (auto simp: redo_other)
qed

lemma read_log_forward:
  assumes "log_entry_ok e" "f = xs @ writeLogRecord e @ ys"
  shows "read_log (readLogRecordForward True) f (int (length xs)) s
    = (s\<lparr>idSeq := u32 (idSeq s + 1)\<rparr>, int (length (xs @ writeLogRecord e)), Inr (fst e, rec_nf (snd e)))"
proof -
  have "at f (int (length xs)) (writeLogRecord e)"
    by (auto simp: at_def assms(2))
  with read_forward [OF assms(1), of f "\<lparr>fpos = int (length xs), fseq = idSeq s\<rparr>"] show ?thesis
    by (simp add: read_log_def)
qed

lemma drop_committed_eq: "drop_committed r tids = tids - (UNIV - drop_committed r UNIV)"
  by (cases r) auto

lemma committed_Cons [simp]: "committed (r # rs) = (UNIV - drop_committed r UNIV) \<union> committed rs"
  by (cases r) (auto simp: committed_def)

lemma CRCommit_ok:
  assumes "f = xs @ log_bytes es @ rest" "\<forall>e\<in>set es. log_entry_ok e" "tids \<subseteq> committed (map snd es)"
    "ready (n + num_writes tids (map snd es)) s \<sigma>" "redo_ok (map_last s) tids (map snd es) \<sigma>"
  shows "\<exists>s'. CRCommit sysviews f (int (length xs)) tids s = Some (s', {}, Inr 0)
    \<and> ready n s' (redo_all tids (map snd es) \<sigma>) \<and> quiet s s'"
  using assms
proof (induction es arbitrary: tids s \<sigma> xs)
  case Nil
  then show ?case
    by (auto simp: committed_def CRCommit.simps)
next
  case (Cons e es)
  show ?case
  proof (cases "tids = {}")
    case True
    with Cons.prems(4) ready_mono show ?thesis
      by (auto simp: CRCommit.simps)
  next
    case False
    let ?s = "s\<lparr>idSeq := u32 (idSeq s + 1)\<rparr>" and ?m = "n + num_writes tids (map snd es)" and ?t = "drop_committed (snd e) tids"
    have rd: "read_log (readLogRecordForward True) f (int (length xs)) s
        = (?s, int (length (xs @ writeLogRecord e)), Inr (fst e, rec_nf (snd e)))"
      using read_log_forward [of e f xs "log_bytes es @ rest" s] Cons.prems(1,2) by simp
    have "ready (?m + num_writes tids [snd e]) ?s \<sigma>"
      using Cons.prems(4) by (simp split: if_splits)
    from rec_commit_ok [OF this, of sysviews] Cons.prems(2,5)
    obtain s1 where s1: "rec_commit sysviews (rec_nf (snd e)) tids ?s = (s1, ?t, Inr 0)"
      "ready ?m s1 (redo tids (snd e) \<sigma>)" "quiet ?s s1" "map_last s1 = assigns tids (snd e) (map_last s)"
      by (auto simp: log_entry_ok_def)
    have "ready (n + num_writes ?t (map snd es)) s1 (redo tids (snd e) \<sigma>)"
      using num_writes_committed [of "snd e" tids "map snd es"] by (intro ready_mono [OF s1(2)]) simp
    with Cons.IH [of "xs @ writeLogRecord e" ?t s1 "redo tids (snd e) \<sigma>"] Cons.prems s1(4)
      drop_committed_eq [of "snd e" tids]
    obtain s' where s': "CRCommit sysviews f (int (length (xs @ writeLogRecord e))) ?t s1 = Some (s', {}, Inr 0)"
      "ready n s' (redo_all ?t (map snd es) (redo tids (snd e) \<sigma>))" "quiet s1 s'"
      by auto
    moreover have "quiet s ?s"
      by (simp add: quiet_def objs_only_def)
    ultimately show ?thesis
      using False rd s1 quiet_trans [OF quiet_trans [OF _ s1(3)] s'(3), of s]
      by (subst CRCommit.simps) simp
  qed
qed

section \<open>Properties\<close>

lemma start_phase:
  assumes "f = xs @ log_bytes es" "\<forall>e\<in>set es. log_entry_ok e" "es \<noteq> []" "snd (last es) \<noteq> ShutdownRecord"
  shows "\<exists>q. CRStart f s = (s\<lparr>idSeq := q\<rparr>, Inr (False, 0))"
proof -
  obtain es' e where e: "es = es' @ [e]"
    using assms(3) by (cases es rule: rev_cases) auto
  have "\<not> isShutdown (rec_nf (snd e))"
    using assms(4) e by (cases "snd e") auto
  then show ?thesis
    using read_log_backward [of e f "xs @ log_bytes es'" "[]" s] assms(1,2) e by (auto simp: CRStart_def)
qed

lemma recover_ok:
  assumes st: "store_rep (lg_store st) \<sigma>" "wlog (lg_store st) = []" "lg_queue st = []"
    and log: "lg_file st = xs @ log_bytes (pre @ (c, CkptRecord tids) # mid)"
      "\<forall>e\<in>set (pre @ (c, CkptRecord tids) # mid). log_entry_ok e"
    and wf: "after_ckpt (map snd mid)" "ordered (CkptRecord tids # map snd mid)" "snd (last mid) \<noteq> ShutdownRecord"
    and lose: "L = losers (CkptRecord tids # map snd mid)" "L \<subseteq> begun (map snd pre)"
      "undo_ok (map_last (lg_store st)) L (rev (map snd pre)) \<sigma>"
    and win: "W = committed (map snd mid)"
      "redo_ok (map_last (lg_store st)) W (map snd mid) (undo_all L (rev (map snd pre)) \<sigma>)"
    and room: "num_writes L (map snd pre) + num_writes W (map snd mid) \<le> empty_pages (lg_store st)"
  shows "\<exists>st' cr. Recover sysviews st = Some (st', cr, Inr 0)
    \<and> store_rep (lg_store st') (redo_all W (map snd mid) (undo_all L (rev (map snd pre)) \<sigma>))
    \<and> lg_file st' = lg_file st \<and> lg_queue st' = [] \<and> objs_only (lg_store st) (lg_store st')"
proof -
  let ?f = "lg_file st" and ?ck = "writeLogRecord (c, CkptRecord tids)" and ?s = "lg_store st"
  have mid: "mid \<noteq> []"
    using wf(1) by (auto simp: after_ckpt_def)
  obtain q1 where 1: "CRStart ?f ?s = (?s\<lparr>idSeq := q1\<rparr>, Inr (False, 0))"
    using start_phase [OF log, of ?s] wf(3) mid by auto
  have f: "?f = (xs @ log_bytes pre) @ ?ck @ log_bytes mid"
    using log(1) by simp
  from note_phase [OF f _ wf(1,2), of sysviews "?s\<lparr>idSeq := q1\<rparr>"] log(2) obtain q2 cr where
    2: "CRNoteAndRollback sysviews ?f CrashRecovery_new (?s\<lparr>idSeq := q1\<rparr>)
        = Some (?s\<lparr>idSeq := q2\<rparr>, int (length (xs @ log_bytes pre)), cr, Inr 0)"
      "tidsToRollback cr = L" "tidsToCommit cr = W" "ckptPos cr = int (length (xs @ log_bytes pre))"
    by (auto simp: lose(1) win(1))
  have f3: "?f = xs @ log_bytes (rev (rev pre)) @ ?ck @ log_bytes mid"
    using log(1) by simp
  have "ready (num_writes W (map snd mid) + num_writes L (map snd (rev pre))) (?s\<lparr>idSeq := q2\<rparr>) \<sigma>"
    using st(1) room by (simp add: ready_def rev_map flip: rev_filter)
  then obtain s3 where 3: "CRRollback sysviews ?f (int (length (xs @ log_bytes pre))) L (?s\<lparr>idSeq := q2\<rparr>) = Some (s3, {}, Inr 0)"
    "ready (num_writes W (map snd mid)) s3 (undo_all L (rev (map snd pre)) \<sigma>)" "silent (?s\<lparr>idSeq := q2\<rparr>) s3"
    using CRRollback_ok [OF f3, of L "num_writes W (map snd mid)" "?s\<lparr>idSeq := q2\<rparr>" \<sigma> sysviews] log(2) lose(2,3)
    by (auto simp: rev_map begun_def)
  have f4: "?f = (xs @ log_bytes pre) @ log_bytes ((c, CkptRecord tids) # mid) @ []"
    using log(1) by simp
  have "map_last s3 = map_last ?s"
    using 3(3) by (simp add: silent_def)
  with CRCommit_ok [OF f4, of W 0 s3 "undo_all L (rev (map snd pre)) \<sigma>" sysviews] log(2) win 3(2) obtain s4 where
    4: "CRCommit sysviews ?f (int (length (xs @ log_bytes pre))) W s3 = Some (s4, {}, Inr 0)"
      "ready 0 s4 (redo_all W (map snd mid) (undo_all L (rev (map snd pre)) \<sigma>))" "quiet s3 s4"
    by auto
  have "quiet ?s s4"
    using 3(3) 4(3) by (auto simp: silent_def quiet_def objs_only_def)
  then have "filter (\<lambda>w. 0 \<le> wr_tid w) (rev (wlog s4)) = []" "objs_only ?s s4"
    using st(2) by (auto simp: quiet_def filter_empty_conv)
  then show ?thesis
    using 1 2 3(1) 4(1,2) st(3)
    by (auto simp: Recover_def Let_def CRSaveRollback_def flushLog_def pushLogable_def ready_def log_wlog objs_only_def)
qed

text \<open>(C10) Crash recovery. The store is in the state \<open>\<sigma>\<close> of the last completed checkpoint, the log does not end with a
  shutdown, and the records after the checkpoint are in order. Then recovery ends without error, and the store
  holds \<open>\<sigma>\<close> after undoing, newest first, what the transactions had written before the checkpoint that were active or
  rolled back after it and have not committed, and then repeating, oldest first, what the transactions have written after it that
  have committed. The log is unchanged. An object that recovery stores again has no root flag, since the records do not hold it.\<close>

theorem recovery_correct:
  assumes st: "store_rep (lg_store st) \<sigma>" "wlog (lg_store st) = []" "lg_queue st = []"
    and log: "lg_file st = xs @ log_bytes (pre @ (c, CkptRecord tids) # mid)"
      "\<forall>e\<in>set (pre @ (c, CkptRecord tids) # mid). log_entry_ok e"
    and wf: "after_ckpt (map snd mid)" "ordered (CkptRecord tids # map snd mid)" "snd (last mid) \<noteq> ShutdownRecord"
    and lose: "L = losers (CkptRecord tids # map snd mid)" "L \<subseteq> begun (map snd pre)"
      "undo_ok (map_last (lg_store st)) L (rev (map snd pre)) \<sigma>"
    and win: "W = committed (map snd mid)"
      "redo_ok (map_last (lg_store st)) W (map snd mid) (undo_all L (rev (map snd pre)) \<sigma>)"
    and room: "num_writes L (map snd pre) + num_writes W (map snd mid) \<le> empty_pages (lg_store st)"
  shows "\<exists>st' cr. Recover sysviews st = Some (st', cr, Inr 0)
    \<and> store_rep (lg_store st') (redo_all W (map snd mid) (undo_all L (rev (map snd pre)) \<sigma>))
    \<and> lg_file st' = lg_file st \<and> lg_queue st' = [] \<and> objs_only (lg_store st) (lg_store st')"
  by (rule recover_ok [OF assms])

text \<open>Small stores and logs, for the instances.\<close>

lemma fresh_ready: "ready 3 (fresh_store j) (\<lambda>_. None)"
proof -
  have "card {1, 2, 3 :: int} \<le> card {p. is_data p \<and> (\<lambda>_. [] :: byte list list) p = []}"
    using finite_data [of "\<lambda>_. True"] by (intro card_mono) (auto simp: is_data_def)
  then show ?thesis
    using empty_pages_T [OF store_atD(3) [OF fresh_store_ok(1)]] fresh_store_ok(1) by (auto simp: ready_def store_rep_def)
qed

definition one_object :: "int \<Rightarrow> obj option" where
  "one_object = (\<lambda>_. None)(1 \<mapsto> (False, ''x'', dv_new_int 5))"

lemma one_object_ready: "\<exists>s. ready 2 s one_object \<and> map_last s = 1 \<and> wlog s = []"
proof -
  let ?s = "fresh_store (\<lambda>_ _ _. 0)"
  have "has_room ?s (int (length (obj_bytes (map_last ?s + 1) (False, ''x'', dv_new_int 5))))"
    using small_object(2) [of "map_last ?s + 1" False] by (intro fresh_has_room) linarith
  with createObject_new [OF fresh_store_ok(1), of "\<lambda>_ _ _. 0" False "''x''" "dv_new_int 5" 7]
  obtain s T where s: "store_at s T one_object" "\<exists>q ys. T = (\<lambda>_. [])(q := ys)" "map_last s = 1"
    using small_object(1) fresh_store_ok(2) by (auto simp: one_object_def)
  have "ready (Suc 2) ?s (\<lambda>_. None)"
    using fresh_ready by (simp add: numeral_3_eq_3 numeral_2_eq_2)
  from readyI [OF this fresh_store_ok(1) s(1,2)] have "ready 2 (s\<lparr>wlog := []\<rparr>) one_object"
    by (simp add: ready_def empty_pages_def)
  moreover have "map_last (s\<lparr>wlog := []\<rparr>) = 1"
    using s(3) log_irrelevant(1) [where s = s and n = "idSeq s" and w = "[]"] by simp
  ultimately show ?thesis
    by (intro exI [of _ "s\<lparr>wlog := []\<rparr>"]) simp
qed

definition create_entry :: "int \<Rightarrow> int \<Rightarrow> int \<Rightarrow> int \<times> LogRecord" where
  "create_entry k tid i = (k, WriteRec tid (Some (lid_new i)) ''x'' None (Some (dv_new_int 5)) False)"

lemma create_entry_ok: "0 \<le> k \<Longrightarrow> k < 100 \<Longrightarrow> int_ok tid \<Longrightarrow> log_entry_ok (create_entry k tid i)"
  using small_value by (simp add: create_entry_def log_entry_ok_def lid_opt_ok_def dv_opt_ok_def writeLogRecord_parts(2)
      writeLogicalID_def writeString_def valS_def dv_serialize_bytes lid_serialize_def)

definition pre_log :: "(int \<times> LogRecord) list" where
  "pre_log = [(1, BeginTransactionRecord 3), create_entry 2 3 1]"

definition mid_log :: "(int \<times> LogRecord) list" where
  "mid_log = [(4, EndCkptRecord), (5, BeginTransactionRecord 4), create_entry 6 4 2, (7, CommitRecord 4)]"

lemma after_ckpt_end: "EndCkptRecord \<notin> set rs \<Longrightarrow> after_ckpt (EndCkptRecord # rs)"
  unfolding after_ckpt_def by (rule exI [of _ "[]"], rule exI [of _ rs]) simp

theorem recovery_correct_witness:
  "\<exists>st st' cr. lg_file st = log_bytes (pre_log @ (3, CkptRecord [3]) # mid_log) \<and> store_rep (lg_store st) one_object
    \<and> Recover (\<lambda>s l. (s, Inr (0, None))) st = Some (st', cr, Inr 0)
    \<and> store_rep (lg_store st') ((\<lambda>_. None)(2 \<mapsto> (False, ''x'', reread (dv_new_int 5))))"
proof -
  obtain s where s: "ready 2 s one_object" "map_last s = 1" "wlog s = []"
    using one_object_ready by blast
  define st where "st = \<lparr>lg_store = s, lg_queue = [], lg_file = log_bytes (pre_log @ (3, CkptRecord [3]) # mid_log)\<rparr>"
  have st: "store_rep (lg_store st) one_object" "wlog (lg_store st) = []" "lg_queue st = []"
    "lg_file st = [] @ log_bytes (pre_log @ (3, CkptRecord [3]) # mid_log)" "map_last (lg_store st) = 1" "2 \<le> empty_pages (lg_store st)"
    using s by (simp_all add: st_def ready_def)
  have lid: "u32 2 = 2"
    by (simp add: u32_def)
  have sets: "losers (CkptRecord [3] # map snd mid_log) = {3}" "committed (map snd mid_log) = {4}" "begun (map snd pre_log) = {3}"
    "after_ckpt (map snd mid_log)" "ordered (CkptRecord [3] # map snd mid_log)" "snd (last mid_log) \<noteq> ShutdownRecord"
    by (auto simp: mid_log_def pre_log_def create_entry_def losers_def committed_def begun_def intro!: after_ckpt_end)
  have ok: "\<forall>e\<in>set (pre_log @ (3, CkptRecord [3]) # mid_log). log_entry_ok e"
    using create_entry_ok
    by (simp add: pre_log_def mid_log_def int_ok_def) (simp add: log_entry_ok_def int_ok_def writeLogRecord_parts(2) writeTransactionIDVector_def)
  have undone: "undo_all {3} (rev (map snd pre_log)) one_object = (\<lambda>_. None)"
    "redo_all {4} (map snd mid_log) (\<lambda>_. None) = (\<lambda>_. None)(2 \<mapsto> (False, ''x'', reread (dv_new_int 5)))"
    "undo_ok n {3} (rev (map snd pre_log)) one_object" for n
    by (auto simp: pre_log_def mid_log_def create_entry_def lid one_object_def)
  have "redo_ok 1 {4} (map snd mid_log) (\<lambda>_. None)"
    using small_object(1) [of 2 False] small_object(2) [of 2 False]
    by (simp add: mid_log_def create_entry_def lid fits_def)
  moreover have "num_writes {3} (map snd pre_log) + num_writes {4} (map snd mid_log) = 2"
    by (simp add: pre_log_def mid_log_def create_entry_def)
  ultimately obtain st' cr where "Recover (\<lambda>s l. (s, Inr (0, None))) st = Some (st', cr, Inr 0)"
    "store_rep (lg_store st') ((\<lambda>_. None)(2 \<mapsto> (False, ''x'', reread (dv_new_int 5))))"
    using recovery_correct [OF st(1-4) ok sets(4-6) sets(1) [symmetric] _ _ sets(2) [symmetric], of "\<lambda>s l. (s, Inr (0, None))"]
      undone(3) [of 1] sets(3) st(6) unfolding undone st(5) by auto
  with s(1) show ?thesis
    by (intro exI [of _ st] exI [of _ st'] exI [of _ cr]) (simp add: st_def ready_def)
qed

text \<open>An empty log cannot be read backward; recovery ends with the code of \<open>lseek\<close>.\<close>

lemma recover_empty_log:
  assumes "lg_file st = []"
  shows "\<exists>st' cr. Recover sysviews st = Some (st', cr, Inr EINVAL)"
  using read_backward_start [of "\<lparr>fpos = 0, fseq = idSeq (lg_store st)\<rparr>" True "[]"]
  by (simp add: Recover_def Let_def CRStart_def read_log_def assms EINVAL_def UNEXPECTED_EOF_ERROR_def)

end
