(* ===== verification/CommitWindow.thy ===== *)
theory CommitWindow
  imports TransactionEnd CrashRecovery
begin

text \<open>
  The commit of a transaction and the thread that writes the cache to the disk. \<open>TransactionManager::commit\<close> puts the commit record
  into the log first and takes the transaction off the list of running ones near its end; nothing keeps the thread of
  \<^verbatim>\<open>Store/Buffer.cpp\<close> from running in between. Its round begins with a checkpoint record that lists the running transactions.
\<close>

text \<open>\<open>Buffer::dbWriterWrite\<close> with its two records.\<close>

definition tm_dbWriterWrite :: "('x, int) tcall" where
  "tm_dbWriterWrite tm =
     cbind (sm_checkpoint tm) (\<lambda>tm cid.
     cbind (sm_endCheckpoint (put_store (dbWriterWrite (tm_store tm)) tm)) (\<lambda>tm cid. Done tm 0))"

lemma dbWriterWrite_storage [simp]:
  "map_header (dbWriterWrite s) = map_header s" "idSeq (dbWriterWrite s) = idSeq s" "wlog (dbWriterWrite s) = wlog s"
  using dbWriterWrite_more [of s] by (cases s; cases "dbWriterWrite s"; simp)+

lemma dbWriterWrite_outside: "pool_inv s \<Longrightarrow> outside_objects s (dbWriterWrite s)"
  using dbWriterWrite_ok [of s] by (auto simp: outside_objects_def same_log_def)

text \<open>A round of the writer keeps the objects and the registries, and appends its two records to the log.\<close>

lemma writer_keeps:
  assumes "store_rep s \<sigma>" "regs_rep s R" "timer_ok m"
  shows "store_rep ((dbWriterWrite (s\<lparr>idSeq := n\<rparr>))\<lparr>idSeq := m\<rparr>) \<sigma>" "regs_rep ((dbWriterWrite (s\<lparr>idSeq := n\<rparr>))\<lparr>idSeq := m\<rparr>) R"
proof -
  have p: "pool_inv (s\<lparr>idSeq := n\<rparr>)"
    using assms(2) by (auto simp: regs_rep_def reg_rep_def reg_at_def registry_files_def)
  have "store_rep (s\<lparr>idSeq := n\<rparr>) \<sigma>"
    using assms(1) by simp
  from store_rep_outside [OF this dbWriterWrite_outside [OF p]] show "store_rep ((dbWriterWrite (s\<lparr>idSeq := n\<rparr>))\<lparr>idSeq := m\<rparr>) \<sigma>"
    by simp
  show "regs_rep ((dbWriterWrite (s\<lparr>idSeq := n\<rparr>))\<lparr>idSeq := m\<rparr>) R"
    by (rule regs_rep_objs [OF assms(2)]) (use dbWriterWrite_ok(1,2) [OF p] assms(3) in \<open>simp_all add: objs_only_def\<close>)
qed

lemma writer_done:
  assumes "idSeq (tm_store tm) = c" "timer_ok c" "c + 2 < 2147483648" "lg_queue (tm_log tm) = []"
  shows "\<exists>tm'. tm_dbWriterWrite tm = Done tm' 0 \<and> tm_store tm' = (dbWriterWrite ((tm_store tm)\<lparr>idSeq := c + 1\<rparr>))\<lparr>idSeq := c + 2\<rparr>
    \<and> lg_queue (tm_log tm') = [] \<and> transactions tm' = transactions tm \<and> tm_locks tm' = tm_locks tm \<and> tm_resolver tm' = tm_resolver tm
    \<and> lg_file (tm_log tm') = lg_file (tm_log tm) @ log_bytes [(c + 1, CkptRecord (getTransactionsIds tm)), (c + 2, EndCkptRecord)]"
proof -
  have "u32 (c + 1) = c + 1" "u32 (1 + (c + 1)) = c + 2"
    using assms(2,3) by (simp_all add: timer_ok_def u32_def)
  with assms(1,4) show ?thesis
    by (simp add: tm_dbWriterWrite_def sm_checkpoint_def sm_endCheckpoint_def in_log_def log_checkpoint_def endCheckpoint_def
        push_and_flush_def log_push_def flushLog_def Let_def put_store_def add.commute)
qed

text \<open>Recovery from a log whose last records are the commit of a transaction and a checkpoint that lists it.\<close>

lemma recover_listed:
  assumes st: "store_rep (lg_store db) \<sigma>" "wlog (lg_store db) = []" "lg_queue db = []"
    and log: "lg_file db = xs @ log_bytes (((k, BeginTransactionRecord tid) # post @ [(c, CommitRecord tid)]) @ (c + 1, CkptRecord [tid]) # [(c + 2, EndCkptRecord)])"
      "\<forall>e\<in>set ((k, BeginTransactionRecord tid) # post). log_entry_ok e" "0 \<le> c" "c + 2 < 2147483648"
    and ran: "write_steps (map snd post) \<sigma>0 \<sigma>" "tail_ok (map_last (lg_store db)) tid (map snd post)"
    and room: "num_writes {tid} (map snd post) \<le> empty_pages (lg_store db)"
  shows "\<exists>st' cr. Recover sysviews db = Some (st', cr, Inr 0)
    \<and> store_rep (lg_store st') (\<lambda>i. if i \<in> written_by (\<lambda>t. t = tid) (map snd post) then map_option flat (\<sigma>0 i) else \<sigma> i)"
proof -
  let ?pre = "(k, BeginTransactionRecord tid) # post @ [(c, CommitRecord tid)]" and ?mid = "[(c + 2, EndCkptRecord)]"
  have ok: "int_ok tid"
    using log(2) by (simp add: log_entry_ok_def)
  then have entries: "\<forall>e\<in>set (?pre @ (c + 1, CkptRecord [tid]) # ?mid). log_entry_ok e"
    using log(2-4) by (auto simp: log_entry_ok_def writeLogRecord_parts(2) writeTransactionIDVector_def)
  have sets: "losers (CkptRecord [tid] # map snd ?mid) = {tid}" "committed (map snd ?mid) = {}" "{tid} \<subseteq> begun (map snd ?pre)"
    "after_ckpt (map snd ?mid)" "ordered (CkptRecord [tid] # map snd ?mid)" "snd (last ?mid) \<noteq> ShutdownRecord"
    by (auto simp: losers_def committed_def begun_def intro!: after_ckpt_end)
  have undone: "undo_all {tid} (rev (map snd ?pre)) \<sigma> = undo_all {tid} (rev (map snd post)) \<sigma>"
    by (simp add: undo_all_begin)
  have uok: "undo_ok (map_last (lg_store db)) {tid} (rev (map snd ?pre)) \<sigma>"
    using undo_ok_begin [OF undo_ok_tail [OF ran, of \<sigma>]] by simp
  have "num_writes {tid} (map snd ?pre) + num_writes {} (map snd ?mid) \<le> empty_pages (lg_store db)"
    using room by simp
  from recover_ok [OF st log(1) entries sets(4-6) sets(1) [symmetric] sets(3) uok sets(2) [symmetric] _ this, of sysviews]
  show ?thesis
    unfolding undone undo_all_tail [OF ran] by auto
qed

section \<open>Properties\<close>

text \<open>(C12) Recovery can undo a committed transaction. A transaction that runs alone writes its commit record; then the writer of the
  cache makes its round; then the commit goes on to its end and returns 0: the transaction is off the list, its locks are
  released, and its objects are as it has left them. But the checkpoint of the writer lists it, after its commit record. If the
  database stops now, then recovery on the log and on a store with the same objects takes the transaction for an unfinished
  one: without an error it removes the objects that the transaction has created and brings those that it has changed or deleted
  back to the names and values of before.\<close>

theorem recovery_undoes_committed:
  assumes st: "store_rep (tm_store tm) \<sigma>" "regs_rep (tm_store tm) R" "wlog (tm_store tm) = []" "tid_ok t"
    and alone: "transactions tm = [t]"
    and log: "lg_file (tm_log tm) @ log_bytes (lg_queue (tm_log tm)) = xs @ log_bytes ((k, BeginTransactionRecord (tid_id t)) # post)"
      "\<forall>e\<in>set ((k, BeginTransactionRecord (tid_id t)) # post). log_entry_ok e"
    and ran: "write_steps (map snd post) \<sigma>0 \<sigma>" "tail_ok (map_last (tm_store tm)) (tid_id t) (map snd post)"
    and seq: "c = idSeq (tm_store tm) + 1" "c + 2 < 2147483648"
    and locks: "transactions_ok tr T" "lock_reachable no_upgrade tr T z" "lmgr z = tm_locks tm" "tid_id t \<in> T" "tr (tid_id t) = t"
    and vis: "vis_reachable v" "vs_res v = tm_resolver tm" "tid_id t \<in> running v" "vs_log v (tid_id t) = Some c"
  shows "\<exists>tm1 tm2 tm3. tm_commit_record t tm = Done tm1 c \<and> tm_dbWriterWrite tm1 = Done tm2 0 \<and> tm_commit_rest t c tm2 = Done tm3 0
    \<and> released t tm tm3 \<and> store_rep (tm_store tm3) \<sigma>
    \<and> lg_file (tm_log tm3) = xs @ log_bytes ((k, BeginTransactionRecord (tid_id t)) # post
         @ [(c, CommitRecord (tid_id t)), (c + 1, CkptRecord [tid_id t]), (c + 2, EndCkptRecord)])
    \<and> (\<forall>db. lg_file db = lg_file (tm_log tm3) \<and> lg_queue db = [] \<and> store_rep (lg_store db) \<sigma> \<and> wlog (lg_store db) = []
          \<and> map_last (lg_store db) = map_last (tm_store tm)
          \<and> num_writes {tid_id t} (map snd post) \<le> empty_pages (lg_store db) \<longrightarrow>
         (\<exists>st' cr \<sigma>'. Recover sysviews db = Some (st', cr, Inr 0) \<and> store_rep (lg_store st') \<sigma>'
           \<and> (\<forall>l. l \<notin> written_by (\<lambda>x. x = tid_id t) (map snd post) \<longrightarrow> \<sigma>' l = \<sigma> l)
           \<and> (\<forall>l\<in>written_by (\<lambda>x. x = tid_id t) (map snd post). \<sigma>0 l = None \<longrightarrow> \<sigma>' l = None)
           \<and> (\<forall>l\<in>written_by (\<lambda>x. x = tid_id t) (map snd post). \<forall>root nm v.
                \<sigma>0 l = Some (root, nm, v) \<longrightarrow> \<sigma>' l = Some (False, nm, reread v))))"
proof -
  let ?s = "tm_store tm" and ?tid = "tid_id t"
  have ok: "timer_ok (idSeq ?s)" "pool_inv ?s"
    using st(2) by (auto simp: regs_rep_def reg_rep_def reg_at_def registry_files_def)
  then have c: "u32 (idSeq ?s + 1) = c" "s32 c = c" "timer_ok c" "timer_ok (c + 1)" "timer_ok (c + 2)" "0 \<le> c"
    using seq by (simp_all add: timer_ok_def u32_def s32_def)
  obtain tm1 where 1: "tm_commit_record t tm = Done tm1 c" "tm_store tm1 = ?s\<lparr>idSeq := c\<rparr>" "lg_queue (tm_log tm1) = []"
    "lg_file (tm_log tm1) = lg_file (tm_log tm) @ log_bytes (lg_queue (tm_log tm) @ [(c, CommitRecord ?tid)])"
    "tm_locks tm1 = tm_locks tm" "transactions tm1 = transactions tm" "tm_resolver tm1 = tm_resolver tm"
    using commit_record_done [of t tm] unfolding c(1) by blast
  let ?s2 = "(dbWriterWrite (?s\<lparr>idSeq := c + 1\<rparr>))\<lparr>idSeq := c + 2\<rparr>"
  obtain tm2 where 2: "tm_dbWriterWrite tm1 = Done tm2 0" "tm_store tm2 = ?s2" "lg_queue (tm_log tm2) = []"
    "transactions tm2 = transactions tm1" "tm_locks tm2 = tm_locks tm1" "tm_resolver tm2 = tm_resolver tm1"
    "lg_file (tm_log tm2) = lg_file (tm_log tm1) @ log_bytes [(c + 1, CkptRecord [?tid]), (c + 2, EndCkptRecord)]"
    using writer_done [of tm1 c] c(3) seq(2) 1(2,3,6) alone by (auto simp: getTransactionsIds_def)
  have S: "store_rep ?s2 \<sigma>" "regs_rep ?s2 R" "wlog ?s2 = []"
    using writer_keeps [OF st(1,2) c(5)] st(3) by simp_all
  obtain tm3 where 3: "tm_commit_rest t c tm2 = Done tm3 0" "store_rep (tm_store tm3) \<sigma>"
    "lg_file (tm_log tm3) = lg_file (tm_log tm2)" "released t tm2 tm3"
    using commit_rest_done [of tm2 \<sigma> R t c tr T z v] S st(4) c(2) locks vis 1 2 by auto
  have fl: "lg_file (tm_log tm3) = xs @ log_bytes (((k, BeginTransactionRecord ?tid) # post @ [(c, CommitRecord ?tid)])
      @ (c + 1, CkptRecord [?tid]) # [(c + 2, EndCkptRecord)])"
    using 1(4) 2(7) 3(3) log(1) by simp
  have "\<exists>st' cr. Recover sysviews db = Some (st', cr, Inr 0) \<and> store_rep (lg_store st')
      (\<lambda>i. if i \<in> written_by (\<lambda>t. t = ?tid) (map snd post) then map_option flat (\<sigma>0 i) else \<sigma> i)"
    if st': "lg_file db = lg_file (tm_log tm3)" "lg_queue db = []" "store_rep (lg_store db) \<sigma>" "wlog (lg_store db) = []"
      "map_last (lg_store db) = map_last ?s" "num_writes {?tid} (map snd post) \<le> empty_pages (lg_store db)" for db
    using recover_listed [OF st'(3,4,2) st'(1) [unfolded fl] log(2) c(6) seq(2) ran(1) _ st'(6), of sysviews] ran(2) st'(5)
    by auto
  moreover have "released t tm tm3"
    using 3(4) 2(4) 1(6) by (simp add: released_def)
  ultimately show ?thesis
    using 1(1) 2(1) 3(1,2) fl by (intro exI conjI) (assumption | fastforce simp: flat_def)+
qed

theorem recovery_undoes_committed_witness:
  "\<exists>lg vr tm1 tm2 tm3 db st' cr. tm_commit_record ending (ending_tm lg vr) = Done tm1 3 \<and> tm_dbWriterWrite tm1 = Done tm2 0
    \<and> tm_commit_rest ending 3 tm2 = Done tm3 0 \<and> store_rep (tm_store tm3) (one_root(1 := None))
    \<and> lg_file db = lg_file (tm_log tm3) \<and> Recover (\<lambda>s l. (s, Inr (0, None))) db = Some (st', cr, Inr 0)
    \<and> store_rep (lg_store st') ((\<lambda>_. None)(1 \<mapsto> (False, ''x'', reread (dv_new_int 5))))"
proof -
  obtain s where s: "store_rep s (one_root(1 := None))" "regs_rep s (\<lambda>_. [])" "1 \<le> map_last s" "1 \<le> empty_pages s" "wlog s = []" "idSeq s = 2"
    using ending_store by blast
  obtain v where v: "vis_reachable v" "7 \<in> running v" "vs_log v 7 = Some 3"
    using ending_running by blast
  define lg where "lg = \<lparr>lg_store = s, lg_queue = (1, BeginTransactionRecord 7) # deletion_log, lg_file = []\<rparr>"
  have w: "written_by (\<lambda>t. t = 7) (map snd deletion_log) = {1}" and n: "num_writes {7} (map snd deletion_log) = 1"
    by (simp_all add: deletion_log_def u32_def)
  obtain tm1 tm2 tm3 where tm: "tm_commit_record ending (ending_tm lg (vs_res v)) = Done tm1 3" "tm_dbWriterWrite tm1 = Done tm2 0"
    "tm_commit_rest ending 3 tm2 = Done tm3 0" "store_rep (tm_store tm3) (one_root(1 := None))"
    and r: "\<And>db. lg_file db = lg_file (tm_log tm3) \<and> lg_queue db = [] \<and> store_rep (lg_store db) (one_root(1 := None))
      \<and> wlog (lg_store db) = [] \<and> map_last (lg_store db) = map_last s \<and> 1 \<le> empty_pages (lg_store db) \<longrightarrow>
      (\<exists>st' cr \<sigma>'. Recover (\<lambda>s l. (s, Inr (0, None))) db = Some (st', cr, Inr 0) \<and> store_rep (lg_store st') \<sigma>'
        \<and> (\<forall>l. l \<notin> {1} \<longrightarrow> \<sigma>' l = (one_root(1 := None)) l)
        \<and> (\<forall>l\<in>{1}. one_root l = None \<longrightarrow> \<sigma>' l = None)
        \<and> (\<forall>l\<in>{1}. \<forall>root nm v. one_root l = Some (root, nm, v) \<longrightarrow> \<sigma>' l = Some (False, nm, reread v)))"
    using recovery_undoes_committed [of "ending_tm lg (vs_res v)" "one_root(1 := None)" "\<lambda>_. []" ending "[]" 1 deletion_log one_root 3
        "\<lambda>_. ending" "{7}" lock_start v "\<lambda>s l. (s, Inr (0, None))"] deletion_log_ok s v ending_ok
    unfolding w n ending_ok(4) by (auto simp: lg_def deletion_log_def)
  define db where "db = \<lparr>lg_store = s, lg_queue = [], lg_file = lg_file (tm_log tm3)\<rparr>"
  from r [of db] s obtain st' cr \<sigma>' where "Recover (\<lambda>s l. (s, Inr (0, None))) db = Some (st', cr, Inr 0)" "store_rep (lg_store st') \<sigma>'"
    "\<And>l. l \<noteq> 1 \<Longrightarrow> \<sigma>' l = (one_root(1 := None)) l" "one_root 1 = Some (True, ''x'', dv_new_int 5) \<Longrightarrow> \<sigma>' 1 = Some (False, ''x'', reread (dv_new_int 5))"
    by (auto simp: db_def)
  moreover from this(3,4) have "\<sigma>' = (\<lambda>_. None)(1 \<mapsto> (False, ''x'', reread (dv_new_int 5)))"
    by (auto simp: fun_eq_iff one_root_def)
  ultimately show ?thesis
    using tm by (intro exI [of _ lg] exI [of _ "vs_res v"] exI [of _ tm1] exI [of _ tm2] exI [of _ tm3] exI [of _ db] exI [of _ st'] exI [of _ cr])
      (simp add: db_def)
qed

end
