(* ===== verification/LockSteps.thy ===== *)
theory LockSteps
  imports LockProperties
begin

text \<open>
  The lock manager in the steps in which the code really runs. \<open>LockManager::lock\<close> finds the lock of an object under the
  mutex of the manager, releases that mutex and calls \<open>SingleLock::wait_for_lock\<close>. This counts the caller as waiting under
  the mutex of the lock, decides without a mutex what to ask of the semaphore, calls the semaphore, and takes the mutex of the
  lock again to record the caller; at last the lock goes to the set of the transaction under the mutex of the manager.
  \<open>unlockAll\<close> holds the mutex of the manager throughout, but \<open>SingleLock::unlock\<close> releases the mutex of the lock before it calls the
  semaphore. Between these sections the other threads may do anything.

  Each section is a step here. Reading the set of writers and the priority of the holder, and the decrement of the counter
  when the caller holds the lock already, are done without the mutex in the code; they are atomic steps here. Upgrades are left out.
\<close>

section \<open>The sections of the calls\<close>

text \<open>Where a transaction is: outside; in a request, with the lock that it has found; or releasing its locks, of which it
  still has to visit those of the list.\<close>

datatype phase = Idle
  | Found int AccessMode
  | Counted int AccessMode bool bool
  | Asks int AccessMode sem_request
  | InSem int AccessMode
  | Granted int AccessMode
  | Entered int
  | Releases "int list"
  | Left int bool "int list"
  | Signalled int bool "int list"

text \<open>The state beside the lock manager: where each transaction is in the semaphore of each lock and in the code, who has the mutex of
  the manager inside \<open>unlockAll\<close>, the doomed transactions, whether a release has decided to delete a lock that another transaction had
  found and not yet counted itself in, and whether an assertion has failed or freed memory has been used.\<close>

record section_state =
  fl_mgr :: LockManager
  fl_hold :: "int \<Rightarrow> int \<Rightarrow> status"
  fl_at :: "int \<Rightarrow> phase"
  fl_owner :: "int option"
  fl_doomed :: "int set"
  fl_raced :: bool
  fl_failed :: bool

definition sections_start :: section_state where
  "sections_start = \<lparr>fl_mgr = LockManager_new, fl_hold = (\<lambda>_ _. Outside), fl_at = (\<lambda>_. Idle), fl_owner = None, fl_doomed = {},
     fl_raced = False, fl_failed = False\<rparr>"

text \<open>The lock in which a phase is, and the lock that its next step works on.\<close>

fun about :: "phase \<Rightarrow> int option" where
  "about (Found l md) = Some l"
| "about (Counted l md r w) = Some l"
| "about (Asks l md req) = Some l"
| "about (InSem l md) = Some l"
| "about (Granted l md) = Some l"
| "about (Entered l) = Some l"
| "about (Left l d ls) = Some l"
| "about (Signalled l d ls) = Some l"
| "about _ = None"

fun touches :: "phase \<Rightarrow> int option" where
  "touches (Releases (l # ls)) = Some l"
| "touches p = about p"

text \<open>A request that uses the lock; one that has only found it; one that its \<open>waiting\<close> counts; a release that has found nobody inside or waiting.\<close>

fun refers :: "phase \<Rightarrow> int \<Rightarrow> bool" where
  "refers (Left _ _ _) l = False"
| "refers (Signalled _ _ _) l = False"
| "refers p l = (about p = Some l)"

fun found :: "phase \<Rightarrow> int \<Rightarrow> bool" where
  "found (Found l' _) l = (l' = l)"
| "found _ l = False"

fun counts :: "phase \<Rightarrow> int \<Rightarrow> bool" where
  "counts (Counted l' _ _ _) l = (l' = l)"
| "counts (Asks l' _ _) l = (l' = l)"
| "counts (InSem l' _) l = (l' = l)"
| "counts (Granted l' _) l = (l' = l)"
| "counts _ l = False"

fun dying :: "phase \<Rightarrow> int \<Rightarrow> bool" where
  "dying (Left l' d _) l = (d \<and> l' = l)"
| "dying (Signalled l' d _) l = (d \<and> l' = l)"
| "dying _ l = False"

fun releasing :: "phase \<Rightarrow> bool" where
  "releasing (Releases _) = True"
| "releasing (Left _ _ _) = True"
| "releasing (Signalled _ _ _) = True"
| "releasing _ = False"

definition sem_call :: "sem_request \<Rightarrow> rwujsem \<Rightarrow> (rwujsem, bool) outcome" where
  "sem_call req s = (if req = AskRead then rwuj_lock_read s else rwuj_lock_write s)"

definition sem_woken :: "status \<Rightarrow> rwujsem \<Rightarrow> (rwujsem, bool) outcome" where
  "sem_woken x s = (if x = WokenRead then rw_read_woken True s else rw_write_woken True s)"

definition sem_state :: "section_state \<Rightarrow> int \<Rightarrow> SingleLock \<Rightarrow> (int \<Rightarrow> status) \<Rightarrow> int \<Rightarrow> phase \<Rightarrow> section_state" where
  "sem_state z l sl q i p =
     z\<lparr>fl_mgr := (fl_mgr z)\<lparr>locks := (locks (fl_mgr z))(l \<mapsto> sl)\<rparr>, fl_hold := (fl_hold z)(l := q), fl_at := (fl_at z)(i := p)\<rparr>"

abbreviation lock_state :: "section_state \<Rightarrow> int \<Rightarrow> SingleLock \<Rightarrow> int \<Rightarrow> phase \<Rightarrow> section_state" where
  "lock_state z l sl i p \<equiv> sem_state z l sl (fl_hold z l) i p"

text \<open>Asking for a lock.\<close>

inductive lock_section :: "(int \<Rightarrow> TransactionID) \<Rightarrow> int set \<Rightarrow> section_state \<Rightarrow> section_state \<Rightarrow> bool" for tr T z where
  create: "i \<in> T \<Longrightarrow> fl_at z i = Idle \<Longrightarrow> i \<notin> fl_doomed z \<Longrightarrow> fl_owner z = None
     \<Longrightarrow> map_of_locks (fl_mgr z) (lock_key p) = None
     \<Longrightarrow> lock_primitive (fl_mgr z) (Some p) (tr i) md = Returns k lm' e
     \<Longrightarrow> lock_section tr T z (z\<lparr>fl_mgr := lm',
           fl_hold := (fl_hold z)(single_lock_id (fl_mgr z) := (\<lambda>_. Outside)(i := (if md = Read then Reading else Writing)))\<rparr>)"
| find: "i \<in> T \<Longrightarrow> fl_at z i = Idle \<Longrightarrow> i \<notin> fl_doomed z \<Longrightarrow> fl_owner z = None
     \<Longrightarrow> map_of_locks (fl_mgr z) (lock_key p) = Some l
     \<Longrightarrow> lock_section tr T z (z\<lparr>fl_at := (fl_at z)(i := Found l md)\<rparr>)"
| count: "i \<in> T \<Longrightarrow> fl_at z i = Found l md \<Longrightarrow> locks (fl_mgr z) l = Some sl \<Longrightarrow> sl_count sl (tr i) = (sl', r, w)
     \<Longrightarrow> lock_section tr T z (lock_state z l sl' i (Counted l md r w))"
| decide: "i \<in> T \<Longrightarrow> fl_at z i = Counted l md r w \<Longrightarrow> locks (fl_mgr z) l = Some sl
     \<Longrightarrow> sl_decide sl (tr i) md r w \<noteq> AskUpgrade
     \<Longrightarrow> lock_section tr T z (lock_state z l sl i (Asks l md (sl_decide sl (tr i) md r w)))"
| held: "i \<in> T \<Longrightarrow> fl_at z i = Asks l md Held \<Longrightarrow> locks (fl_mgr z) l = Some sl
     \<Longrightarrow> lock_section tr T z (lock_state z l (sl\<lparr>sl_waiting := sl_waiting sl - 1\<rparr>) i (Entered l))"
| refused: "i \<in> T \<Longrightarrow> fl_at z i = Asks l md (Refuse e)
     \<Longrightarrow> lock_section tr T z (z\<lparr>fl_at := (fl_at z)(i := Idle), fl_doomed := insert i (fl_doomed z)\<rparr>)"
| sem_returns: "i \<in> T \<Longrightarrow> fl_at z i = Asks l md req \<Longrightarrow> req = AskRead \<or> req = AskWrite \<Longrightarrow> locks (fl_mgr z) l = Some sl
     \<Longrightarrow> sem_call req (sl_sem sl) = Returns k s r \<Longrightarrow> wake_up k (fl_hold z l) q
     \<Longrightarrow> lock_section tr T z (sem_state z l (sl\<lparr>sl_sem := s\<rparr>) (q(i := held_as req 0 (q i))) i (Granted l md))"
| sem_waits: "i \<in> T \<Longrightarrow> fl_at z i = Asks l md req \<Longrightarrow> req = AskRead \<or> req = AskWrite \<Longrightarrow> locks (fl_mgr z) l = Some sl
     \<Longrightarrow> sem_call req (sl_sem sl) = Waits k s c \<Longrightarrow> wake_up k (fl_hold z l) q
     \<Longrightarrow> lock_section tr T z (sem_state z l (sl\<lparr>sl_sem := s\<rparr>) (q(i := waits_as req)) i (InSem l md))"
| sem_goes_on: "i \<in> T \<Longrightarrow> fl_at z i = InSem l md \<Longrightarrow> fl_hold z l i = WokenRead \<or> fl_hold z l i = WokenWrite
     \<Longrightarrow> locks (fl_mgr z) l = Some sl \<Longrightarrow> sem_woken (fl_hold z l i) (sl_sem sl) = Returns k s r \<Longrightarrow> wake_up k (fl_hold z l) q
     \<Longrightarrow> lock_section tr T z (sem_state z l (sl\<lparr>sl_sem := s\<rparr>) (q(i := woken_as (fl_hold z l i) 0)) i (Granted l md))"
| record_holder: "i \<in> T \<Longrightarrow> fl_at z i = Granted l md \<Longrightarrow> locks (fl_mgr z) l = Some sl
     \<Longrightarrow> lock_section tr T z (lock_state z l (lock_received sl (tr i) md 0) i (Entered l))"
| enlist: "i \<in> T \<Longrightarrow> fl_at z i = Entered l \<Longrightarrow> fl_owner z = None
     \<Longrightarrow> lock_section tr T z (z\<lparr>fl_mgr := add_lock (fl_mgr z) (tr i) l, fl_at := (fl_at z)(i := Idle)\<rparr>)"
| release: "i \<in> T \<Longrightarrow> fl_at z i = Idle \<Longrightarrow> fl_owner z = None
     \<Longrightarrow> lock_section tr T z (z\<lparr>fl_at := (fl_at z)(i := Releases (lock_list (fl_mgr z) i)), fl_owner := Some i\<rparr>)"
| leave: "i \<in> T \<Longrightarrow> fl_at z i = Releases (l # ls) \<Longrightarrow> locks (fl_mgr z) l = Some sl \<Longrightarrow> sl_leave sl (tr i) = (sl', d)
     \<Longrightarrow> lock_section tr T z ((lock_state z l sl' i (Left l d ls))\<lparr>fl_raced := (fl_raced z \<or> d \<and> (\<exists>j\<in>T. found (fl_at z j) l))\<rparr>)"
| signal: "i \<in> T \<Longrightarrow> fl_at z i = Left l d ls \<Longrightarrow> locks (fl_mgr z) l = Some sl
     \<Longrightarrow> rwuj_unlock no_error (sl_sem sl) = Returns k s r \<Longrightarrow> wake_up k (fl_hold z l) q
     \<Longrightarrow> lock_section tr T z (sem_state z l (sl\<lparr>sl_sem := s\<rparr>) (q(i := Outside)) i (Signalled l d ls))"
| keep: "i \<in> T \<Longrightarrow> fl_at z i = Signalled l False ls
     \<Longrightarrow> lock_section tr T z (z\<lparr>fl_at := (fl_at z)(i := Releases ls)\<rparr>)"
| delete: "i \<in> T \<Longrightarrow> fl_at z i = Signalled l True ls \<Longrightarrow> locks (fl_mgr z) l = Some sl
     \<Longrightarrow> lock_section tr T z (z\<lparr>fl_mgr := (fl_mgr z)\<lparr>map_of_locks := (map_of_locks (fl_mgr z))(lock_key (phid sl) := None),
             locks := (locks (fl_mgr z))(l := None)\<rparr>,
           fl_at := (fl_at z)(i := Releases ls)\<rparr>)"
| finish: "i \<in> T \<Longrightarrow> fl_at z i = Releases []
     \<Longrightarrow> lock_section tr T z (z\<lparr>fl_mgr := (fl_mgr z)\<lparr>transaction_locks := (transaction_locks (fl_mgr z))(i := None)\<rparr>,
           fl_at := (fl_at z)(i := Idle), fl_owner := None, fl_doomed := fl_doomed z - {i}\<rparr>)"
| create_fails: "i \<in> T \<Longrightarrow> fl_at z i = Idle \<Longrightarrow> fl_owner z = None \<Longrightarrow> map_of_locks (fl_mgr z) (lock_key p) = None
     \<Longrightarrow> lock_primitive (fl_mgr z) (Some p) (tr i) md = AssertFails \<Longrightarrow> lock_section tr T z (z\<lparr>fl_failed := True\<rparr>)"
| call_fails: "i \<in> T \<Longrightarrow> fl_at z i = Asks l md req \<Longrightarrow> req = AskRead \<or> req = AskWrite \<Longrightarrow> locks (fl_mgr z) l = Some sl
     \<Longrightarrow> sem_call req (sl_sem sl) = AssertFails \<Longrightarrow> lock_section tr T z (z\<lparr>fl_failed := True\<rparr>)"
| going_on_fails: "i \<in> T \<Longrightarrow> fl_at z i = InSem l md \<Longrightarrow> fl_hold z l i = WokenRead \<or> fl_hold z l i = WokenWrite
     \<Longrightarrow> locks (fl_mgr z) l = Some sl \<Longrightarrow> sem_woken (fl_hold z l i) (sl_sem sl) = AssertFails
     \<Longrightarrow> lock_section tr T z (z\<lparr>fl_failed := True\<rparr>)"
| signal_fails: "i \<in> T \<Longrightarrow> fl_at z i = Left l d ls \<Longrightarrow> locks (fl_mgr z) l = Some sl
     \<Longrightarrow> rwuj_unlock no_error (sl_sem sl) = AssertFails \<Longrightarrow> lock_section tr T z (z\<lparr>fl_failed := True\<rparr>)"
| gone: "i \<in> T \<Longrightarrow> touches (fl_at z i) = Some l \<Longrightarrow> locks (fl_mgr z) l = None
     \<Longrightarrow> lock_section tr T z (z\<lparr>fl_failed := True\<rparr>)"

abbreviation sections_reachable :: "(int \<Rightarrow> TransactionID) \<Rightarrow> int set \<Rightarrow> section_state \<Rightarrow> bool" where
  "sections_reachable tr T z \<equiv> (lock_section tr T)\<^sup>*\<^sup>* sections_start z"

section \<open>The invariant\<close>

abbreviation plain :: "status \<Rightarrow> bool" where "plain x \<equiv> x \<in> {Outside, Reading, Writing}"

text \<open>Where a transaction in phase \<open>p\<close> is in the semaphore of lock \<open>l\<close>.\<close>

fun phase_ok :: "phase \<Rightarrow> int \<Rightarrow> status \<Rightarrow> bool" where
  "phase_ok (Counted l' md r w) l x \<longleftrightarrow> plain x \<and> (l' = l \<longrightarrow> r = (x = Reading) \<and> w = (x = Writing))"
| "phase_ok (Asks l' md req) l x \<longleftrightarrow> plain x \<and> (l' = l \<longrightarrow> req \<noteq> AskUpgrade \<and> (req = AskRead \<longrightarrow> md = Read \<and> x = Outside)
     \<and> (req = AskWrite \<longrightarrow> md = Write \<and> x = Outside) \<and> (req = Held \<longrightarrow> x \<noteq> Outside))"
| "phase_ok (InSem l' md) l x \<longleftrightarrow> (if l' = l then x \<in> (if md = Read then {WaitRead, WokenRead} else {WaitWrite, WokenWrite}) else plain x)"
| "phase_ok (Granted l' md) l x \<longleftrightarrow> plain x \<and> (l' = l \<longrightarrow> x = (if md = Read then Reading else Writing))"
| "phase_ok (Entered l') l x \<longleftrightarrow> plain x \<and> (l' = l \<longrightarrow> x \<noteq> Outside)"
| "phase_ok (Left l' d ls) l x \<longleftrightarrow> plain x \<and> (l' = l \<longrightarrow> x \<noteq> Outside)"
| "phase_ok (Signalled l' d ls) l x \<longleftrightarrow> plain x \<and> (l' = l \<longrightarrow> x = Outside)"
| "phase_ok p l x \<longleftrightarrow> plain x"

text \<open>A transaction that the semaphore has let in is in the sets of the lock, except before it has been recorded and after it has
  been removed.\<close>

fun recorded :: "phase \<Rightarrow> int \<Rightarrow> bool" where
  "recorded (Granted l' md) l = (l' \<noteq> l)"
| "recorded (Left l' d ls) l = (l' \<noteq> l)"
| "recorded p l = True"

definition section_lock :: "(int \<Rightarrow> int) \<Rightarrow> int set \<Rightarrow> (int \<Rightarrow> phase) \<Rightarrow> int \<Rightarrow> (int \<Rightarrow> status) \<Rightarrow> SingleLock \<Rightarrow> bool" where
  "section_lock prio T a l q sl \<longleftrightarrow> sem_inv prio T (sl_sem sl) q
     \<and> currentRead sl = {i \<in> T. q i = Reading \<and> recorded (a i) l} \<and> currentWrite sl = {i \<in> T. q i = Writing \<and> recorded (a i) l}
     \<and> sl_inside sl = int (card (currentRead sl)) + int (card (currentWrite sl))
     \<and> int (card {i \<in> T. counts (a i) l}) \<le> sl_waiting sl
     \<and> (\<forall>i\<in>T. phase_ok (a i) l (q i))
     \<and> (\<forall>i\<in>T. dying (a i) l \<longrightarrow> (\<forall>j\<in>T. j \<noteq> i \<longrightarrow> q j = Outside \<and> \<not> refers (a j) l))"

text \<open>The set of locks of a transaction is behind what it holds while the last lock is not enlisted; a release works off
  the list.\<close>

fun list_ok :: "phase \<Rightarrow> int set \<Rightarrow> int set \<Rightarrow> bool" where
  "list_ok (Entered l) L H \<longleftrightarrow> insert l L = H"
| "list_ok (Releases ls) L H \<longleftrightarrow> distinct ls \<and> set ls = H"
| "list_ok (Left l d ls) L H \<longleftrightarrow> distinct ls \<and> set ls = H \<and> l \<notin> set ls"
| "list_ok (Signalled l d ls) L H \<longleftrightarrow> distinct ls \<and> set ls = H \<and> l \<notin> set ls"
| "list_ok p L H \<longleftrightarrow> L = H"

definition section_inv :: "(int \<Rightarrow> int) \<Rightarrow> int set \<Rightarrow> section_state \<Rightarrow> bool" where
  "section_inv prio T z \<longleftrightarrow> \<not> fl_failed z \<and> maps_ok (fl_mgr z)
     \<and> (\<forall>l sl. locks (fl_mgr z) l = Some sl \<longrightarrow> section_lock prio T (fl_at z) l (fl_hold z l) sl)
     \<and> (\<forall>i\<in>T. \<forall>l. about (fl_at z i) = Some l \<longrightarrow> locks (fl_mgr z) l \<noteq> None)
     \<and> (\<forall>i\<in>T. releasing (fl_at z i) \<longleftrightarrow> fl_owner z = Some i)
     \<and> (\<forall>i\<in>T. sorted_wrt (>) (lock_list (fl_mgr z) i)
          \<and> list_ok (fl_at z i) (set (lock_list (fl_mgr z) i)) (held_locks (fl_mgr z) i))"

lemma not_about:
  assumes "about p \<noteq> Some l"
  shows "recorded p l" "\<not> counts p l" "\<not> dying p l" "\<not> refers p l" "phase_ok p l x \<longleftrightarrow> plain x"
  using assms by (cases p; simp)+

lemma phase_about: "refers p l \<Longrightarrow> about p = Some l" "dying p l \<Longrightarrow> about p = Some l" "dying p l \<Longrightarrow> releasing p"
  by (cases p; simp)+

lemma woken_Outside: "woken x = Outside \<longleftrightarrow> x = Outside"
  by (cases x) simp_all

lemma phase_ok_woken: "phase_ok p l (woken x) \<longleftrightarrow> phase_ok p l x"
  by (cases p; cases x) simp_all

lemma wake_up_phase:
  assumes "wake_up k q q'"
  shows "phase_ok p l (q' j) \<longleftrightarrow> phase_ok p l (q j)" "q' j = Outside \<longleftrightarrow> q j = Outside"
proof -
  have "q' j = q j \<or> q' j = woken (q j)"
    using assms by cases auto
  then show "phase_ok p l (q' j) \<longleftrightarrow> phase_ok p l (q j)" "q' j = Outside \<longleftrightarrow> q j = Outside"
    using phase_ok_woken woken_Outside by metis+
qed

lemma card_upd:
  assumes "finite T" "i \<in> T"
  shows "int (card {j \<in> T. P ((a(i := p)) j)}) = int (card {j \<in> T. P (a j)}) + of_bool (P p) - of_bool (P (a i))"
proof -
  let ?A = "{j \<in> T. j \<noteq> i \<and> P (a j)}"
  have "{j \<in> T. P ((a(i := p)) j)} = (if P p then insert i ?A else ?A)" "{j \<in> T. P (a j)} = (if P (a i) then insert i ?A else ?A)"
    using assms(2) by (auto split: if_splits)
  moreover have "finite ?A" "i \<notin> ?A"
    using assms(1) by auto
  ultimately show ?thesis
    by auto
qed

lemma section_lockD:
  assumes "section_lock prio T a l q sl"
  shows "sem_inv prio T (sl_sem sl) q" "currentRead sl = {i \<in> T. q i = Reading \<and> recorded (a i) l}"
    "currentWrite sl = {i \<in> T. q i = Writing \<and> recorded (a i) l}"
    "sl_inside sl = int (card (currentRead sl)) + int (card (currentWrite sl))" "int (card {i \<in> T. counts (a i) l}) \<le> sl_waiting sl"
    "i \<in> T \<Longrightarrow> phase_ok (a i) l (q i)" "i \<in> T \<Longrightarrow> dying (a i) l \<Longrightarrow> j \<in> T \<Longrightarrow> j \<noteq> i \<Longrightarrow> q j = Outside \<and> \<not> refers (a j) l"
  using assms unfolding section_lock_def by blast+

lemma section_invD:
  assumes "section_inv prio T z"
  shows "\<not> fl_failed z" "maps_ok (fl_mgr z)" "locks (fl_mgr z) l = Some sl \<Longrightarrow> section_lock prio T (fl_at z) l (fl_hold z l) sl"
    "i \<in> T \<Longrightarrow> about (fl_at z i) = Some l \<Longrightarrow> \<exists>sl. locks (fl_mgr z) l = Some sl"
    "i \<in> T \<Longrightarrow> releasing (fl_at z i) \<longleftrightarrow> fl_owner z = Some i"
    "i \<in> T \<Longrightarrow> sorted_wrt (>) (lock_list (fl_mgr z) i)"
    "i \<in> T \<Longrightarrow> list_ok (fl_at z i) (set (lock_list (fl_mgr z) i)) (held_locks (fl_mgr z) i)"
  using assms unfolding section_inv_def by blast+

text \<open>A transaction that moves in one lock does not show in the others.\<close>

lemma section_lock_other:
  assumes "section_lock prio T a l q sl" "about (a i) \<noteq> Some l" "about p \<noteq> Some l" "i \<in> T"
  shows "section_lock prio T (a(i := p)) l q sl"
proof -
  have "recorded ((a(i := p)) j) l = recorded (a j) l" "counts ((a(i := p)) j) l = counts (a j) l"
    "dying ((a(i := p)) j) l = dying (a j) l" "refers ((a(i := p)) j) l = refers (a j) l"
    "phase_ok ((a(i := p)) j) l x = phase_ok (a j) l x" for j x
    using not_about [OF assms(2)] not_about [OF assms(3)] by auto
  then show ?thesis
    using assms(1) unfolding section_lock_def by simp
qed

text \<open>A step of transaction \<open>i\<close> on lock \<open>l\<close>.\<close>

lemma section_put:
  assumes inv: "section_inv prio T z" and i: "i \<in> T" and l: "locks (fl_mgr z) l = Some sl" "phid sl' = phid sl"
    and a: "about (fl_at z i) = None \<or> about (fl_at z i) = Some l" "about p = None \<or> about p = Some l"
      "releasing p = releasing (fl_at z i)"
    and new: "section_lock prio T ((fl_at z)(i := p)) l q sl'"
    and others: "\<And>j. j \<in> T \<Longrightarrow> j \<noteq> i \<Longrightarrow> (j \<in> currentRead sl' \<or> j \<in> currentWrite sl') = (j \<in> currentRead sl \<or> j \<in> currentWrite sl)"
    and own: "list_ok p (set (lock_list (fl_mgr z) i)) (if i \<in> currentRead sl' \<or> i \<in> currentWrite sl'
      then insert l (held_locks (fl_mgr z) i) else held_locks (fl_mgr z) i - {l})"
  shows "section_inv prio T (sem_state z l sl' q i p)"
proof -
  let ?z = "sem_state z l sl' q i p"
  note sel = sem_state_def
  have "maps_ok (fl_mgr ?z)"
    using section_invD(2) [OF inv] l unfolding maps_ok_def sel by (auto split: if_splits) (metis option.inject)+
  moreover have "section_lock prio T (fl_at ?z) l' (fl_hold ?z l') sl2" if l2: "locks (fl_mgr ?z) l' = Some sl2" for l' sl2
  proof (cases "l' = l")
    case False
    then show ?thesis
      using section_lock_other [OF section_invD(3) [OF inv] _ _ i, of l' sl2 p] l2 a(1,2) by (auto simp: sel)
  qed (use l2 new in \<open>simp add: sel\<close>)
  moreover have "locks (fl_mgr ?z) l' \<noteq> None" if "j \<in> T" "about (fl_at ?z j) = Some l'" for j l'
    using that section_invD(4) [OF inv that(1)] a(2) by (cases "j = i") (auto simp: sel split: if_splits)
  moreover have "releasing (fl_at ?z j) \<longleftrightarrow> fl_owner ?z = Some j" if "j \<in> T" for j
    using that section_invD(5) [OF inv that] a(3) by (cases "j = i") (simp_all add: sel)
  moreover have "sorted_wrt (>) (lock_list (fl_mgr ?z) j) \<and> list_ok (fl_at ?z j) (set (lock_list (fl_mgr ?z) j)) (held_locks (fl_mgr ?z) j)"
    if j: "j \<in> T" for j
  proof -
    have ll: "lock_list (fl_mgr ?z) j = lock_list (fl_mgr z) j"
      by (simp add: sel lock_list_def)
    have h: "held_locks (fl_mgr ?z) j = (if j \<in> currentRead sl' \<or> j \<in> currentWrite sl' then insert l (held_locks (fl_mgr z) j)
      else held_locks (fl_mgr z) j - {l})"
      by (rule held_upd) (simp add: sel)
    have "held_locks (fl_mgr ?z) j = held_locks (fl_mgr z) j" if "j \<noteq> i"
      using h others [OF j that] held_at [OF l(1), of j] by auto
    then show ?thesis
      using section_invD(6,7) [OF inv j] own h ll by (cases "j = i") (auto simp: sel)
  qed
  moreover have "\<not> fl_failed ?z"
    using section_invD(1) [OF inv] by (simp add: sel)
  ultimately show ?thesis
    unfolding section_inv_def by blast
qed

lemma section_lock_move:
  assumes T: "finite T" "i \<in> T" and old: "section_lock prio T a l q sl" and sem: "sem_inv prio T (sl_sem sl') q'"
    and others: "\<And>j. j \<noteq> i \<Longrightarrow> (q' j = Reading) = (q j = Reading)" "\<And>j. j \<noteq> i \<Longrightarrow> (q' j = Writing) = (q j = Writing)"
      "\<And>j. j \<noteq> i \<Longrightarrow> (q' j = Outside) = (q j = Outside)" "\<And>j p. j \<noteq> i \<Longrightarrow> phase_ok p l (q' j) = phase_ok p l (q j)"
    and sets: "currentRead sl' = (if q' i = Reading \<and> recorded p l then insert i (currentRead sl) else currentRead sl - {i})"
      "currentWrite sl' = (if q' i = Writing \<and> recorded p l then insert i (currentWrite sl) else currentWrite sl - {i})"
      "sl_inside sl' = sl_inside sl + of_bool ((q' i = Reading \<or> q' i = Writing) \<and> recorded p l)
         - of_bool ((q i = Reading \<or> q i = Writing) \<and> recorded (a i) l)"
      "sl_waiting sl + of_bool (counts p l) - of_bool (counts (a i) l) \<le> sl_waiting sl'"
    and p: "phase_ok p l (q' i)" "dying p l \<Longrightarrow> \<forall>j\<in>T. j \<noteq> i \<longrightarrow> q j = Outside \<and> \<not> refers (a j) l"
      "\<And>j. j \<in> T \<Longrightarrow> j \<noteq> i \<Longrightarrow> dying (a j) l \<Longrightarrow> q' i = Outside \<and> \<not> refers p l"
  shows "section_lock prio T (a(i := p)) l q' sl'"
proof -
  note o = section_lockD [OF old]
  let ?b = "\<lambda>j. (q j, a j)" and ?R = "\<lambda>(x, p). x = Reading \<and> recorded p l" and ?W = "\<lambda>(x, p). x = Writing \<and> recorded p l"
  have sr: "currentRead sl' = {j \<in> T. q' j = Reading \<and> recorded ((a(i := p)) j) l}"
    "currentWrite sl' = {j \<in> T. q' j = Writing \<and> recorded ((a(i := p)) j) l}"
    using others(1,2) T(2) unfolding sets o(2,3) by auto
  have b: "currentRead sl' = {j \<in> T. ?R ((?b(i := (q' i, p))) j)}" "currentWrite sl' = {j \<in> T. ?W ((?b(i := (q' i, p))) j)}"
    "currentRead sl = {j \<in> T. ?R (?b j)}" "currentWrite sl = {j \<in> T. ?W (?b j)}"
    unfolding sr o(2,3) using others(1,2) by auto
  have "int (card (currentRead sl')) = int (card (currentRead sl)) + of_bool (?R (q' i, p)) - of_bool (?R (?b i))"
    "int (card (currentWrite sl')) = int (card (currentWrite sl)) + of_bool (?W (q' i, p)) - of_bool (?W (?b i))"
    unfolding b by (rule card_upd [OF T])+
  then have "sl_inside sl' = int (card (currentRead sl')) + int (card (currentWrite sl'))"
    using o(4) sets(3) by (auto split: if_splits)
  moreover have "int (card {j \<in> T. counts ((a(i := p)) j) l}) \<le> sl_waiting sl'"
    using card_upd [OF T, of "\<lambda>p. counts p l" a p] o(5) sets(4) by linarith
  moreover have "phase_ok ((a(i := p)) j) l (q' j)" if "j \<in> T" for j
    using p(1) o(6) [OF that] others(4) by (cases "j = i") auto
  moreover have "q' m = Outside \<and> \<not> refers ((a(i := p)) m) l" if "j \<in> T" "dying ((a(i := p)) j) l" "m \<in> T" "m \<noteq> j" for j m
    using that p(2,3) o(7) [of j m] others(3) by (cases "j = i"; cases "m = i") auto
  ultimately show ?thesis
    unfolding section_lock_def using sem sr by blast
qed

text \<open>The semaphore lets a transaction in, makes it wait, or lets it go.\<close>

lemma sem_call_ok:
  assumes "threads_ok prio T" "sem_inv prio T s q" "i \<in> T" "q i = Outside" "req = AskRead \<or> req = AskWrite"
  shows "keeps (sem_inv prio T) (sem_call req s) i (held_as req 0 (q i)) Outside (waits_as req) q"
    "sem_call req s = Returns k s' r \<Longrightarrow> r"
proof -
  show "keeps (sem_inv prio T) (sem_call req s) i (held_as req 0 (q i)) Outside (waits_as req) q"
    using assms(5) lock_read_keeps [OF assms(1-4)] lock_write_keeps [OF assms(1-4)] by (auto simp: sem_call_def)
  show "sem_call req s = Returns k s' r \<Longrightarrow> r"
    by (auto simp: sem_call_def dest: plain_outcomes(1,3) split: if_splits)
qed

lemma sem_woken_ok:
  assumes "threads_ok prio T" "sem_inv prio T s q" "i \<in> T" "q i = WokenRead \<or> q i = WokenWrite"
  shows "keeps (sem_inv prio T) (sem_woken (q i) s) i (woken_as (q i) 0) Outside WaitRead q"
    "sem_woken (q i) s = Returns k s' r \<Longrightarrow> r"
proof -
  show "keeps (sem_inv prio T) (sem_woken (q i) s) i (woken_as (q i) 0) Outside WaitRead q"
    using assms(4)
  proof
    assume "q i = WokenRead"
    then show ?thesis
      using read_woken_keeps [OF assms(1-3)] by (simp add: sem_woken_def)
  next
    assume "q i = WokenWrite"
    then show ?thesis
      using write_woken_keeps [OF assms(1-3)] rwuj_no_wait(4) [of True s]
      by (cases "rw_write_woken True s") (auto simp: sem_woken_def keeps_def)
  qed
  show "sem_woken (q i) s = Returns k s' r \<Longrightarrow> r"
    by (auto simp: sem_woken_def dest: plain_outcomes(5,6) split: if_splits)
qed

text \<open>A step of transaction \<open>i\<close> on one lock, which leaves it in state \<open>x\<close> of the semaphore and in phase \<open>p\<close>.\<close>

lemma section_step:
  assumes ok: "threads_ok prio T" and inv: "section_inv prio T z" and i: "i \<in> T" and l: "locks (fl_mgr z) l = Some sl" "phid sl' = phid sl"
    and a: "about (fl_at z i) = None \<or> about (fl_at z i) = Some l" "about p = None \<or> about p = Some l"
      "releasing p = releasing (fl_at z i)"
    and q: "wake_up k (fl_hold z l) q" "sem_inv prio T (sl_sem sl') (q(i := x))"
    and sets: "currentRead sl' = (if x = Reading \<and> recorded p l then insert i (currentRead sl) else currentRead sl - {i})"
      "currentWrite sl' = (if x = Writing \<and> recorded p l then insert i (currentWrite sl) else currentWrite sl - {i})"
      "sl_inside sl' = sl_inside sl + of_bool ((x = Reading \<or> x = Writing) \<and> recorded p l)
         - of_bool ((fl_hold z l i = Reading \<or> fl_hold z l i = Writing) \<and> recorded (fl_at z i) l)"
      "sl_waiting sl + of_bool (counts p l) - of_bool (counts (fl_at z i) l) \<le> sl_waiting sl'"
    and p: "phase_ok p l x" "dying p l \<Longrightarrow> \<forall>j\<in>T. j \<noteq> i \<longrightarrow> fl_hold z l j = Outside \<and> \<not> refers (fl_at z j) l"
      "\<And>j. j \<in> T \<Longrightarrow> j \<noteq> i \<Longrightarrow> dying (fl_at z j) l \<Longrightarrow> x = Outside \<and> \<not> refers p l"
    and own: "list_ok p (set (lock_list (fl_mgr z) i)) (if (x = Reading \<or> x = Writing) \<and> recorded p l
      then insert l (held_locks (fl_mgr z) i) else held_locks (fl_mgr z) i - {l})"
  shows "section_inv prio T (sem_state z l sl' (q(i := x)) i p)"
proof (rule section_put [OF inv i l a])
  have fin: "finite T"
    using ok by (simp add: threads_ok_def)
  note w = wake_up_class(1,2) [OF q(1)] wake_up_phase [OF q(1)]
  show "section_lock prio T ((fl_at z)(i := p)) l (q(i := x)) sl'"
    by (rule section_lock_move [OF fin i section_invD(3) [OF inv l(1)] q(2)]) (use w sets p in \<open>simp_all split del: if_split\<close>)
  show "(j \<in> currentRead sl' \<or> j \<in> currentWrite sl') = (j \<in> currentRead sl \<or> j \<in> currentWrite sl)" if "j \<noteq> i" for j
    using that unfolding sets by auto
  have "i \<in> currentRead sl' \<or> i \<in> currentWrite sl' \<longleftrightarrow> (x = Reading \<or> x = Writing) \<and> recorded p l"
    unfolding sets by auto
  with own show "list_ok p (set (lock_list (fl_mgr z) i)) (if i \<in> currentRead sl' \<or> i \<in> currentWrite sl'
      then insert l (held_locks (fl_mgr z) i) else held_locks (fl_mgr z) i - {l})"
    by simp
qed

text \<open>What is known of a transaction in a lock.\<close>

lemma section_here:
  assumes "section_inv prio T z" "i \<in> T" "locks (fl_mgr z) l = Some sl"
  shows "phase_ok (fl_at z i) l (fl_hold z l i)" "sem_inv prio T (sl_sem sl) (fl_hold z l)"
    "i \<in> currentRead sl \<longleftrightarrow> fl_hold z l i = Reading \<and> recorded (fl_at z i) l"
    "i \<in> currentWrite sl \<longleftrightarrow> fl_hold z l i = Writing \<and> recorded (fl_at z i) l"
    "l \<in> held_locks (fl_mgr z) i \<longleftrightarrow> (fl_hold z l i = Reading \<or> fl_hold z l i = Writing) \<and> recorded (fl_at z i) l"
    "releasing (fl_at z i) \<Longrightarrow> j \<in> T \<Longrightarrow> j \<noteq> i \<Longrightarrow> \<not> dying (fl_at z j) l"
    "j \<in> T \<Longrightarrow> j \<noteq> i \<Longrightarrow> dying (fl_at z j) l \<Longrightarrow> fl_hold z l i = Outside \<and> \<not> refers (fl_at z i) l"
proof -
  note o = section_lockD [OF section_invD(3) [OF assms(1,3)]]
  show "phase_ok (fl_at z i) l (fl_hold z l i)" "sem_inv prio T (sl_sem sl) (fl_hold z l)"
    using o(1) o(6) [OF assms(2)] by simp_all
  show r: "i \<in> currentRead sl \<longleftrightarrow> fl_hold z l i = Reading \<and> recorded (fl_at z i) l"
    "i \<in> currentWrite sl \<longleftrightarrow> fl_hold z l i = Writing \<and> recorded (fl_at z i) l"
    using o(2,3) assms(2) by auto
  show "l \<in> held_locks (fl_mgr z) i \<longleftrightarrow> (fl_hold z l i = Reading \<or> fl_hold z l i = Writing) \<and> recorded (fl_at z i) l"
    using held_at [OF assms(3), of i] r by auto
  show "j \<in> T \<Longrightarrow> j \<noteq> i \<Longrightarrow> dying (fl_at z j) l \<Longrightarrow> fl_hold z l i = Outside \<and> \<not> refers (fl_at z i) l"
    using o(7) [of j i] assms(2) by simp
  show "releasing (fl_at z i) \<Longrightarrow> j \<in> T \<Longrightarrow> j \<noteq> i \<Longrightarrow> \<not> dying (fl_at z j) l"
    using section_invD(5) [OF assms(1), of i] section_invD(5) [OF assms(1), of j] assms(2) phase_about(3) [of "fl_at z j" l] by auto
qed

text \<open>Moves in which the semaphore is not called.\<close>

lemma section_move:
  assumes ok: "threads_ok prio T" and inv: "section_inv prio T z" and i: "i \<in> T" and l: "locks (fl_mgr z) l = Some sl"
    and sl': "phid sl' = phid sl" "sl_sem sl' = sl_sem sl"
    and a: "about (fl_at z i) = None \<or> about (fl_at z i) = Some l" "about p = None \<or> about p = Some l"
      "releasing p = releasing (fl_at z i)"
    and sets: "currentRead sl' = (if fl_hold z l i = Reading \<and> recorded p l then insert i (currentRead sl) else currentRead sl - {i})"
      "currentWrite sl' = (if fl_hold z l i = Writing \<and> recorded p l then insert i (currentWrite sl) else currentWrite sl - {i})"
      "sl_inside sl' = sl_inside sl + of_bool ((fl_hold z l i = Reading \<or> fl_hold z l i = Writing) \<and> recorded p l)
         - of_bool ((fl_hold z l i = Reading \<or> fl_hold z l i = Writing) \<and> recorded (fl_at z i) l)"
      "sl_waiting sl + of_bool (counts p l) - of_bool (counts (fl_at z i) l) \<le> sl_waiting sl'"
    and p: "phase_ok p l (fl_hold z l i)" "dying p l \<Longrightarrow> \<forall>j\<in>T. j \<noteq> i \<longrightarrow> fl_hold z l j = Outside \<and> \<not> refers (fl_at z j) l"
      "\<And>j. j \<in> T \<Longrightarrow> j \<noteq> i \<Longrightarrow> dying (fl_at z j) l \<Longrightarrow> fl_hold z l i = Outside \<and> \<not> refers p l"
    and own: "list_ok p (set (lock_list (fl_mgr z) i)) (if (fl_hold z l i = Reading \<or> fl_hold z l i = Writing) \<and> recorded p l
      then insert l (held_locks (fl_mgr z) i) else held_locks (fl_mgr z) i - {l})"
  shows "section_inv prio T (lock_state z l sl' i p)"
proof -
  have "wake_up None (fl_hold z l) (fl_hold z l)" "sem_inv prio T (sl_sem sl') ((fl_hold z l)(i := fl_hold z l i))"
    using section_here(2) [OF inv i l] sl'(2) by simp_all
  from section_step [OF ok inv i l sl'(1) a this sets p own] show ?thesis
    by simp
qed

lemma section_same [simp]:
  "section_inv prio T (z\<lparr>fl_doomed := D\<rparr>) = section_inv prio T z" "section_inv prio T (z\<lparr>fl_raced := b\<rparr>) = section_inv prio T z"
  "locks (fl_mgr z) l = Some sl \<Longrightarrow> lock_state z l sl i p = z\<lparr>fl_at := (fl_at z)(i := p)\<rparr>"
  by (simp_all add: section_inv_def sem_state_def fun_upd_idem)

section \<open>The steps of a request\<close>

lemma find_ok:
  assumes ok: "threads_ok prio T" and inv: "section_inv prio T z" and i: "i \<in> T"
    and "fl_at z i = Idle" "locks (fl_mgr z) l = Some sl" "fl_owner z = None"
  shows "section_inv prio T (z\<lparr>fl_at := (fl_at z)(i := Found l md)\<rparr>)"
proof -
  note h = section_here [OF inv i assms(5)]
  have nd: "\<not> dying (fl_at z j) l" if "j \<in> T" for j
    using section_invD(5) [OF inv that] assms(6) phase_about(3) by auto
  have "section_inv prio T (lock_state z l sl i (Found l md))"
    by (rule section_move [OF ok inv i assms(5)])
      (use h nd section_invD(7) [OF inv i] assms(4) in \<open>auto simp: insert_absorb\<close>)
  with assms(5) show ?thesis
    by simp
qed

lemma count_ok:
  assumes ok: "threads_ok prio T" and inv: "section_inv prio T z" and i: "i \<in> T" "tid_id t = i"
    and "fl_at z i = Found l md" "locks (fl_mgr z) l = Some sl" "sl_count sl t = (sl', r, w)"
  shows "section_inv prio T (lock_state z l sl' i (Counted l md r w))"
proof -
  note h = section_here [OF inv i(1) assms(6)]
  show ?thesis
    by (rule section_move [OF ok inv i(1) assms(6)])
      (use h section_invD(7) [OF inv i(1)] assms(4,5,7) in \<open>auto simp: insert_absorb sl_count_def\<close>)
qed

lemma sl_decide_cases:
  "sl_decide sl t md r w = AskRead \<Longrightarrow> md = Read \<and> \<not> r \<and> \<not> w" "sl_decide sl t md r w = AskWrite \<Longrightarrow> md = Write \<and> \<not> r \<and> \<not> w"
  "sl_decide sl t md r w = Held \<Longrightarrow> r \<or> w"
  by (auto simp: sl_decide_def unless_deadlock_def split: if_splits)

lemma decide_ok:
  assumes ok: "threads_ok prio T" and inv: "section_inv prio T z" and i: "i \<in> T"
    and "fl_at z i = Counted l md r w" "locks (fl_mgr z) l = Some sl" "sl_decide sl t md r w \<noteq> AskUpgrade"
  shows "section_inv prio T (lock_state z l sl i (Asks l md (sl_decide sl t md r w)))"
proof -
  note h = section_here [OF inv i assms(5)]
  show ?thesis
    by (rule section_move [OF ok inv i assms(5)])
      (use h section_invD(7) [OF inv i] assms(4,6) in \<open>auto simp: insert_absorb dest: sl_decide_cases\<close>)
qed

lemma held_ok:
  assumes ok: "threads_ok prio T" and inv: "section_inv prio T z" and i: "i \<in> T"
    and "fl_at z i = Asks l md Held" "locks (fl_mgr z) l = Some sl"
  shows "section_inv prio T (lock_state z l (sl\<lparr>sl_waiting := sl_waiting sl - 1\<rparr>) i (Entered l))"
proof -
  note h = section_here [OF inv i assms(5)]
  show ?thesis
    by (rule section_move [OF ok inv i assms(5)])
      (use h section_invD(7) [OF inv i] assms(4) in \<open>auto simp: insert_absorb\<close>)
qed

lemma refused_ok:
  assumes ok: "threads_ok prio T" and inv: "section_inv prio T z" and i: "i \<in> T"
    and "fl_at z i = Asks l md (Refuse e)"
  shows "section_inv prio T (z\<lparr>fl_at := (fl_at z)(i := Idle), fl_doomed := D\<rparr>)"
proof -
  obtain sl where sl: "locks (fl_mgr z) l = Some sl"
    using section_invD(4) [OF inv i, of l] assms(4) by auto
  note h = section_here [OF inv i sl]
  have "section_inv prio T (lock_state z l sl i Idle)"
    by (rule section_move [OF ok inv i sl])
      (use h section_invD(7) [OF inv i] assms(4) in \<open>auto simp: insert_absorb\<close>)
  with sl show ?thesis
    by simp
qed

text \<open>Calls of the semaphore by a transaction that it has not let in yet; they do not change the sets of the lock.\<close>

lemma section_sem:
  assumes ok: "threads_ok prio T" and inv: "section_inv prio T z" and i: "i \<in> T" and l: "locks (fl_mgr z) l = Some sl"
    and a: "fl_at z i = Asks l md req \<or> fl_at z i = InSem l md" "p = InSem l md \<or> p = Granted l md"
    and o: "fl_hold z l i \<noteq> Reading" "fl_hold z l i \<noteq> Writing" and x: "phase_ok p l x"
    and q: "wake_up k (fl_hold z l) q" "sem_inv prio T s (q(i := x))"
  shows "section_inv prio T (sem_state z l (sl\<lparr>sl_sem := s\<rparr>) (q(i := x)) i p)"
proof -
  note h = section_here [OF inv i l]
  have out: "i \<notin> currentRead sl" "i \<notin> currentWrite sl" "l \<notin> held_locks (fl_mgr z) i"
    using h(3-5) o by auto
  have new: "\<not> ((x = Reading \<or> x = Writing) \<and> recorded p l)"
    using a(2) x by (auto split: if_splits)
  have fl: "about (fl_at z i) = Some l" "about p = Some l" "\<not> releasing p" "\<not> releasing (fl_at z i)" "counts p l" "counts (fl_at z i) l"
    "\<not> dying p l" "refers (fl_at z i) l"
    using a by auto
  have ls: "list_ok p (set (lock_list (fl_mgr z) i)) (held_locks (fl_mgr z) i)"
    using section_invD(7) [OF inv i] a by auto
  from q(2) have q2: "sem_inv prio T (sl_sem (sl\<lparr>sl_sem := s\<rparr>)) (q(i := x))"
    by simp
  show ?thesis
    by (rule section_step [OF ok inv i l _ _ _ _ q(1) q2]) (use out new fl ls x o h(7) in auto)
qed

lemma sem_returns_ok:
  assumes ok: "threads_ok prio T" and inv: "section_inv prio T z" and i: "i \<in> T"
    and a: "fl_at z i = Asks l md req" "req = AskRead \<or> req = AskWrite" and l: "locks (fl_mgr z) l = Some sl"
    and r: "sem_call req (sl_sem sl) = Returns k s r" "wake_up k (fl_hold z l) q"
  shows "section_inv prio T (sem_state z l (sl\<lparr>sl_sem := s\<rparr>) (q(i := held_as req 0 (q i))) i (Granted l md))"
proof -
  note h = section_here [OF inv i l]
  have o: "fl_hold z l i = Outside" and x: "phase_ok (Granted l md) l (held_as req 0 y)" for y
    using h(1) a by auto
  have "sem_inv prio T s (q(i := held_as req 0 (q i)))"
    using sem_call_ok [OF ok h(2) i o a(2)] a(2) r by auto
  from section_sem [OF ok inv i l disjI1 [OF a(1)] disjI2 [OF refl] _ _ x r(2) this] o show ?thesis
    by simp
qed

lemma sem_waits_ok:
  assumes ok: "threads_ok prio T" and inv: "section_inv prio T z" and i: "i \<in> T"
    and a: "fl_at z i = Asks l md req" "req = AskRead \<or> req = AskWrite" and l: "locks (fl_mgr z) l = Some sl"
    and r: "sem_call req (sl_sem sl) = Waits k s c" "wake_up k (fl_hold z l) q"
  shows "section_inv prio T (sem_state z l (sl\<lparr>sl_sem := s\<rparr>) (q(i := waits_as req)) i (InSem l md))"
proof -
  note h = section_here [OF inv i l]
  have o: "fl_hold z l i = Outside" and x: "phase_ok (InSem l md) l (waits_as req)"
    using h(1) a by auto
  have "sem_inv prio T s (q(i := waits_as req))"
    using sem_call_ok(1) [OF ok h(2) i o a(2)] r by simp
  from section_sem [OF ok inv i l disjI1 [OF a(1)] disjI1 [OF refl] _ _ x r(2) this] o show ?thesis
    by simp
qed

lemma sem_goes_on_ok:
  assumes ok: "threads_ok prio T" and inv: "section_inv prio T z" and i: "i \<in> T"
    and a: "fl_at z i = InSem l md" "fl_hold z l i = WokenRead \<or> fl_hold z l i = WokenWrite" and l: "locks (fl_mgr z) l = Some sl"
    and r: "sem_woken (fl_hold z l i) (sl_sem sl) = Returns k s r" "wake_up k (fl_hold z l) q"
  shows "section_inv prio T (sem_state z l (sl\<lparr>sl_sem := s\<rparr>) (q(i := woken_as (fl_hold z l i) 0)) i (Granted l md))"
proof -
  note h = section_here [OF inv i l]
  have x: "phase_ok (Granted l md) l (woken_as (fl_hold z l i) 0)"
    using h(1) a by (auto split: if_splits)
  have "sem_inv prio T s (q(i := woken_as (fl_hold z l i) 0))"
    using sem_woken_ok [OF ok h(2) i a(2)] r by auto
  from section_sem [OF ok inv i l disjI2 [OF a(1)] disjI2 [OF refl] _ _ x r(2) this] a(2) show ?thesis
    by auto
qed

lemma record_ok:
  assumes ok: "threads_ok prio T" and inv: "section_inv prio T z" and i: "i \<in> T" "tid_id t = i"
    and "fl_at z i = Granted l md" "locks (fl_mgr z) l = Some sl"
  shows "section_inv prio T (lock_state z l (lock_received sl t md 0) i (Entered l))"
proof -
  note h = section_here [OF inv i(1) assms(6)]
  have sl: "phid (lock_received sl t md 0) = phid sl" "sl_sem (lock_received sl t md 0) = sl_sem sl"
    by (simp_all add: lock_received_def)
  have x: "fl_hold z l i = (if md = Read then Reading else Writing)" "i \<notin> currentRead sl" "i \<notin> currentWrite sl" "l \<notin> held_locks (fl_mgr z) i"
    using h(1,3-5) assms(5) by auto
  show ?thesis
    by (rule section_move [OF ok inv i(1) assms(6) sl])
      (use x h(7) section_invD(7) [OF inv i(1)] assms(4,5) in \<open>auto simp: lock_received_def\<close>)
qed

lemma enlist_ok:
  assumes inv: "section_inv prio T z" and i: "i \<in> T" "tid_id t = i"
    and a: "fl_at z i = Entered l" "fl_owner z = None" and ok: "threads_ok prio T"
  shows "section_inv prio T (z\<lparr>fl_mgr := add_lock (fl_mgr z) t l, fl_at := (fl_at z)(i := Idle)\<rparr>)"
proof -
  obtain sl where sl: "locks (fl_mgr z) l = Some sl"
    using section_invD(4) [OF inv i(1), of l] a by auto
  let ?lm = "add_lock (fl_mgr z) t l"
  have nd: "\<not> dying (fl_at z j) l" if "j \<in> T" for j
    using section_invD(5) [OF inv that] a(2) phase_about(3) by auto
  note h = section_here [OF inv i(1) sl] and o = section_invD(3) [OF inv sl]
  have l: "section_lock prio T ((fl_at z)(i := Idle)) l (fl_hold z l) sl"
  proof -
    have "finite T"
      using ok by (simp add: threads_ok_def)
    then show ?thesis
      by (rule section_lock_move [OF _ i(1) o h(2)]) (use h nd a in \<open>auto simp: insert_absorb\<close>)
  qed
  have all: "section_lock prio T ((fl_at z)(i := Idle)) l' (fl_hold z l') sl'" if "locks (fl_mgr z) l' = Some sl'" for l' sl'
    using that l sl section_lock_other [OF section_invD(3) [OF inv that] _ _ i(1), of Idle] a(1) by (cases "l' = l") auto
  have ll: "lock_list ?lm j = (if j = i then insert_lock l (lock_list (fl_mgr z) i) else lock_list (fl_mgr z) j)" for j
    using i(2) by (simp add: lock_list_def add_lock_def)
  have "sorted_wrt (>) (lock_list ?lm j) \<and> list_ok (((fl_at z)(i := Idle)) j) (set (lock_list ?lm j)) (held_locks (fl_mgr z) j)"
    if "j \<in> T" for j
    using section_invD(6,7) [OF inv that] a(1) insert_lock [where ls = "lock_list (fl_mgr z) i" and l = l] unfolding ll by (cases "j = i") auto
  moreover have "maps_ok ?lm"
    using section_invD(2) [OF inv] by (simp add: maps_ok_def)
  ultimately show ?thesis
    using all section_invD(1,4,5) [OF inv] a unfolding section_inv_def by auto
qed

section \<open>The steps of a release\<close>

text \<open>A transaction in no lock.\<close>

lemma idle_move:
  assumes inv: "section_inv prio T z" and i: "i \<in> T" "about (fl_at z i) = None" "about p = None"
    and lm: "locks lm = locks (fl_mgr z)" "map_of_locks lm = map_of_locks (fl_mgr z)" "single_lock_id lm = single_lock_id (fl_mgr z)"
      "\<And>j. j \<noteq> i \<Longrightarrow> lock_list lm j = lock_list (fl_mgr z) j"
    and own: "\<And>j. j \<in> T \<Longrightarrow> releasing (((fl_at z)(i := p)) j) \<longleftrightarrow> ow = Some j"
    and ls: "sorted_wrt (>) (lock_list lm i)" "list_ok p (set (lock_list lm i)) (held_locks (fl_mgr z) i)"
  shows "section_inv prio T (z\<lparr>fl_mgr := lm, fl_at := (fl_at z)(i := p), fl_owner := ow, fl_doomed := D\<rparr>)"
proof -
  have h: "held_locks lm = held_locks (fl_mgr z)"
    using lm(1) by (simp add: held_locks_def fun_eq_iff)
  have "section_lock prio T ((fl_at z)(i := p)) l (fl_hold z l) sl" if "locks (fl_mgr z) l = Some sl" for l sl
    using section_lock_other [OF section_invD(3) [OF inv that] _ _ i(1)] i(2,3) by simp
  moreover have "sorted_wrt (>) (lock_list lm j) \<and> list_ok (((fl_at z)(i := p)) j) (set (lock_list lm j)) (held_locks (fl_mgr z) j)" if "j \<in> T" for j
    using section_invD(6,7) [OF inv that] ls lm(4) by (cases "j = i") auto
  moreover have "maps_ok lm"
    using section_invD(2) [OF inv] lm(1-3) by (simp add: maps_ok_def)
  ultimately show ?thesis
    using section_invD(1,4) [OF inv] i(3) own h lm(1) unfolding section_inv_def by auto
qed

lemma release_ok:
  assumes inv: "section_inv prio T z" and i: "i \<in> T" and a: "fl_at z i = Idle" "fl_owner z = None"
  shows "section_inv prio T (z\<lparr>fl_at := (fl_at z)(i := Releases (lock_list (fl_mgr z) i)), fl_owner := Some i\<rparr>)"
proof -
  have "\<not> releasing (fl_at z j)" if "j \<in> T" for j
    using section_invD(5) [OF inv that] a(2) by simp
  then have "section_inv prio T (z\<lparr>fl_mgr := fl_mgr z, fl_at := (fl_at z)(i := Releases (lock_list (fl_mgr z) i)), fl_owner := Some i,
      fl_doomed := fl_doomed z\<rparr>)"
    by (intro idle_move [OF inv i]) (use section_invD(6,7) [OF inv i] a sorted_gt_distinct in auto)
  then show ?thesis
    by simp
qed

lemma finish_ok:
  assumes inv: "section_inv prio T z" and i: "i \<in> T" and a: "fl_at z i = Releases []"
  shows "section_inv prio T (z\<lparr>fl_mgr := (fl_mgr z)\<lparr>transaction_locks := (transaction_locks (fl_mgr z))(i := None)\<rparr>,
           fl_at := (fl_at z)(i := Idle), fl_owner := None, fl_doomed := D\<rparr>)"
proof -
  have "fl_owner z = Some i"
    using section_invD(5) [OF inv i] a by simp
  then have "\<not> releasing (fl_at z j)" if "j \<in> T" "j \<noteq> i" for j
    using section_invD(5) [OF inv that(1)] that(2) by simp
  then show ?thesis
    by (intro idle_move [OF inv i]) (use section_invD(7) [OF inv i] a in \<open>auto simp: lock_list_def\<close>)
qed

lemma leave_ok:
  assumes ok: "threads_ok prio T" and inv: "section_inv prio T z" and i: "i \<in> T" "tid_id t = i"
    and a: "fl_at z i = Releases (l # ls)" and l: "locks (fl_mgr z) l = Some sl" and r: "sl_leave sl t = (sl', d)"
    and race: "\<not> (d \<and> (\<exists>j\<in>T. found (fl_at z j) l))"
  shows "section_inv prio T (lock_state z l sl' i (Left l d ls))"
proof -
  have fin: "finite T"
    using ok by (simp add: threads_ok_def)
  note h = section_here [OF inv i(1) l] and o = section_lockD [OF section_invD(3) [OF inv l]]
  have sl': "sl' = sl\<lparr>sl_inside := sl_inside sl - 1, currentRead := currentRead sl - {i}, currentWrite := currentWrite sl - {i}\<rparr>"
    "d \<longleftrightarrow> sl_inside sl = 1 \<and> sl_waiting sl = 0"
    using r i(2) by (auto simp: sl_leave_def Let_def)
  have ls: "distinct (l # ls)" "insert l (set ls) = held_locks (fl_mgr z) i"
    using section_invD(7) [OF inv i(1)] a by auto
  then have x: "fl_hold z l i = Reading \<or> fl_hold z l i = Writing" "held_locks (fl_mgr z) i - {l} = set ls"
    using h(5) by auto
  have in_sets: "i \<in> currentRead sl \<or> i \<in> currentWrite sl"
    using h(3,4) x(1) a by auto
  have alone: "\<forall>j\<in>T. j \<noteq> i \<longrightarrow> fl_hold z l j = Outside \<and> \<not> refers (fl_at z j) l" if d
  proof (intro ballI impI)
    fix j assume j: "j \<in> T" "j \<noteq> i"
    have "card (currentRead sl) + card (currentWrite sl) = 1" "card {i \<in> T. counts (fl_at z i) l} = 0"
      using that sl'(2) o(4,5) by linarith+
    moreover have "finite (currentRead sl)" "finite (currentWrite sl)" "finite {i \<in> T. counts (fl_at z i) l}"
      using fin unfolding o(2,3) by simp_all
    ultimately have "j \<notin> currentRead sl" "j \<notin> currentWrite sl" "\<not> counts (fl_at z j) l"
      using in_sets j by (auto simp: card_Suc_eq card_1_singleton_iff add_is_1)
    moreover have "\<not> releasing (fl_at z j)"
      using section_invD(5) [OF inv j(1)] section_invD(5) [OF inv i(1)] a j(2) by auto
    moreover have "\<not> found (fl_at z j) l"
      using race that j(1) by blast
    ultimately show "fl_hold z l j = Outside \<and> \<not> refers (fl_at z j) l"
      using o(6) [OF j(1)] j(1) unfolding o(2,3) by (cases "fl_at z j") (auto split: if_splits)
  qed
  show ?thesis
    by (rule section_move [OF ok inv i(1) l])
      (use h x ls a sl' alone section_invD(5) [OF inv i(1)] in \<open>auto\<close>)
qed

lemma signal_ok:
  assumes ok: "threads_ok prio T" and inv: "section_inv prio T z" and i: "i \<in> T"
    and a: "fl_at z i = Left l d ls" and l: "locks (fl_mgr z) l = Some sl"
    and r: "rwuj_unlock no_error (sl_sem sl) = Returns k s r" "wake_up k (fl_hold z l) q"
  shows "section_inv prio T (sem_state z l (sl\<lparr>sl_sem := s\<rparr>) (q(i := Outside)) i (Signalled l d ls))"
proof -
  note h = section_here [OF inv i l]
  have x: "fl_hold z l i = Reading \<or> fl_hold z l i = Writing"
    using h(1) a by auto
  have out: "i \<notin> currentRead sl" "i \<notin> currentWrite sl" "l \<notin> held_locks (fl_mgr z) i"
    using h(3-5) a by auto
  have "sem_inv prio T (sl_sem (sl\<lparr>sl_sem := s\<rparr>)) (q(i := Outside))"
    using unlock_keeps [OF ok h(2) i x] r by simp
  from section_step [OF ok inv i l _ _ _ _ r(2) this, of "Signalled l d ls"] show ?thesis
    using out a section_invD(7) [OF inv i] section_lockD(7) [OF section_invD(3) [OF inv l] i] by auto
qed

lemma keep_ok:
  assumes ok: "threads_ok prio T" and inv: "section_inv prio T z" and i: "i \<in> T" and a: "fl_at z i = Signalled l False ls"
  shows "section_inv prio T (z\<lparr>fl_at := (fl_at z)(i := Releases ls)\<rparr>)"
proof -
  obtain sl where sl: "locks (fl_mgr z) l = Some sl"
    using section_invD(4) [OF inv i, of l] a by auto
  note h = section_here [OF inv i sl]
  have "section_inv prio T (lock_state z l sl i (Releases ls))"
    by (rule section_move [OF ok inv i sl])
      (use h section_invD(7) [OF inv i] a in \<open>auto simp: insert_absorb\<close>)
  with sl show ?thesis
    by simp
qed

lemma delete_ok:
  assumes inv: "section_inv prio T z" and i: "i \<in> T"
    and a: "fl_at z i = Signalled l True ls" and l: "locks (fl_mgr z) l = Some sl"
  shows "section_inv prio T (z\<lparr>fl_mgr := (fl_mgr z)\<lparr>map_of_locks := (map_of_locks (fl_mgr z))(lock_key (phid sl) := None),
             locks := (locks (fl_mgr z))(l := None)\<rparr>,
           fl_at := (fl_at z)(i := Releases ls)\<rparr>)"
proof -
  let ?lm = "(fl_mgr z)\<lparr>map_of_locks := (map_of_locks (fl_mgr z))(lock_key (phid sl) := None), locks := (locks (fl_mgr z))(l := None)\<rparr>"
  note o = section_lockD [OF section_invD(3) [OF inv l]]
  have out: "fl_hold z l j = Outside" if "j \<in> T" for j
    using o(7) [OF i _ that] o(6) [OF i] a by (cases "j = i") auto
  have h: "held_locks ?lm j = held_locks (fl_mgr z) j" if "j \<in> T" for j
    using l out [OF that] unfolding held_locks_def by (auto simp: o(2,3))
  have na: "about (fl_at z j) \<noteq> Some l" if "j \<in> T" "j \<noteq> i" for j
    using o(7) [OF i _ that] section_invD(5) [OF inv that(1)] section_invD(5) [OF inv i] a that(2) by (cases "fl_at z j") auto
  have "section_lock prio T ((fl_at z)(i := Releases ls)) l' (fl_hold z l') sl'" if "locks ?lm l' = Some sl'" for l' sl'
    using that section_lock_other [OF section_invD(3) [OF inv] _ _ i, of l' sl' "Releases ls"] a by (auto split: if_splits)
  moreover have "locks ?lm l' \<noteq> None" if "j \<in> T" "about (((fl_at z)(i := Releases ls)) j) = Some l'" for j l'
    using that na section_invD(4) [OF inv that(1)] by (auto split: if_splits)
  moreover have "sorted_wrt (>) (lock_list ?lm j) \<and> list_ok (((fl_at z)(i := Releases ls)) j) (set (lock_list ?lm j)) (held_locks ?lm j)"
    if "j \<in> T" for j
  proof -
    have "lock_list ?lm j = lock_list (fl_mgr z) j"
      by (simp add: lock_list_def)
    then show ?thesis
      using section_invD(6,7) [OF inv that] h [OF that] a by (cases "j = i") auto
  qed
  moreover have "releasing (((fl_at z)(i := Releases ls)) j) \<longleftrightarrow> fl_owner z = Some j" if "j \<in> T" for j
    using section_invD(5) [OF inv that] a by (cases "j = i") auto
  moreover have "\<not> fl_failed z" "maps_ok ?lm"
    using section_invD(1) [OF inv] maps_ok_delete [OF section_invD(2) [OF inv] l] by simp_all
  moreover define lm where "lm = ?lm"
  ultimately show ?thesis
    unfolding section_inv_def lm_def [symmetric] by simp
qed

lemma create_ok:
  assumes ok: "transactions_ok tr T" and inv: "section_inv (prio_of tr) T z" and i: "i \<in> T"
    and a: "fl_at z i = Idle" and p: "map_of_locks (fl_mgr z) (lock_key p) = None"
  shows "\<exists>lm'. lock_primitive (fl_mgr z) (Some p) (tr i) md = Returns None lm' 0 \<and> section_inv (prio_of tr) T (z\<lparr>fl_mgr := lm',
     fl_hold := (fl_hold z)(single_lock_id (fl_mgr z) := (\<lambda>_. Outside)(i := (if md = Read then Reading else Writing)))\<rparr>)"
proof -
  let ?l = "single_lock_id (fl_mgr z)" and ?q = "(\<lambda>_. Outside)(i := (if md = Read then Reading else Writing))" and ?lm = "fl_mgr z"
  have t: "tid_id (tr i) = i"
    using ok i by (simp add: transactions_ok_def)
  obtain sl where sl: "SingleLock_new (tr i) md RWUJSemaphore_new ?l p = Returns None sl 0" "sem_inv (prio_of tr) T (sl_sem sl) ?q"
    "currentRead sl = (if md = Read then {i} else {})" "currentWrite sl = (if md = Read then {} else {i})"
    "sl_inside sl = 1" "sl_waiting sl = 0" "phid sl = p"
    using new_single_lock [OF ok i, of md ?l p] by blast
  define lm' where "lm' = add_lock (?lm\<lparr>single_lock_id := ?l + 1, map_of_locks := (map_of_locks ?lm)(lock_key p \<mapsto> ?l),
    locks := (locks ?lm)(?l \<mapsto> sl)\<rparr>) (tr i) ?l"
  have fresh: "locks ?lm ?l = None"
    using section_invD(2) [OF inv] by (cases "locks ?lm ?l") (auto simp: maps_ok_def)
  have na: "about (fl_at z j) \<noteq> Some ?l" if "j \<in> T" for j
    using section_invD(4) [OF inv that, of ?l] fresh by auto
  have none: "{j \<in> T. counts (fl_at z j) ?l} = {}"
    using not_about(2) [OF na] by blast
  have new: "section_lock (prio_of tr) T (fl_at z) ?l ?q sl"
    unfolding section_lock_def none using sl(2-6) i not_about(1,3,5) [OF na] by auto
  have lk: "locks lm' = (locks ?lm)(?l \<mapsto> sl)" "map_of_locks lm' = (map_of_locks ?lm)(lock_key p \<mapsto> ?l)" "single_lock_id lm' = ?l + 1"
    by (simp_all add: lm'_def)
  have h: "held_locks lm' j = (if j = i then insert ?l (held_locks ?lm j) else held_locks ?lm j)" for j
    using fresh unfolding held_locks_def lk by (auto simp: sl(3,4))
  have ll: "lock_list lm' j = (if j = i then insert_lock ?l (lock_list ?lm i) else lock_list ?lm j)" for j
    by (simp add: lm'_def lock_list_def add_lock_def t)
  have "sorted_wrt (>) (lock_list lm' j) \<and> list_ok (fl_at z j) (set (lock_list lm' j)) (held_locks lm' j)" if "j \<in> T" for j
    using section_invD(6,7) [OF inv that] a insert_lock [where ls = "lock_list ?lm i" and l = ?l] unfolding ll h by (cases "j = i") auto
  moreover have "maps_ok lm'"
    using maps_ok_new [OF section_invD(2) [OF inv] p sl(7)] by (simp add: lm'_def maps_ok_def)
  moreover have "section_lock (prio_of tr) T (fl_at z) l (((fl_hold z)(?l := ?q)) l) sl'" if "locks lm' l = Some sl'" for l sl'
    using that new section_invD(3) [OF inv] by (auto simp: lk split: if_splits)
  ultimately have "section_inv (prio_of tr) T (z\<lparr>fl_mgr := lm', fl_hold := (fl_hold z)(?l := ?q)\<rparr>)"
    using section_invD(1,4,5) [OF inv] unfolding section_inv_def by (auto simp: lk)
  moreover have "lock_primitive ?lm (Some p) (tr i) md = Returns None lm' 0"
    using sl(1) p by (simp add: lock_primitive_def Let_def lock_done_def lm'_def)
  ultimately show ?thesis
    by blast
qed

section \<open>All steps\<close>

lemma section_fails:
  assumes "threads_ok prio T" "section_inv prio T z" "i \<in> T" "locks (fl_mgr z) l = Some sl"
  shows "fl_at z i = Asks l md req \<Longrightarrow> req = AskRead \<or> req = AskWrite \<Longrightarrow> sem_call req (sl_sem sl) \<noteq> AssertFails"
    "fl_hold z l i = WokenRead \<or> fl_hold z l i = WokenWrite \<Longrightarrow> sem_woken (fl_hold z l i) (sl_sem sl) \<noteq> AssertFails"
    "fl_at z i = Left l d ls \<Longrightarrow> rwuj_unlock no_error (sl_sem sl) \<noteq> AssertFails"
proof -
  note h = section_here [OF assms(2-4)]
  show "sem_call req (sl_sem sl) \<noteq> AssertFails" if "fl_at z i = Asks l md req" "req = AskRead \<or> req = AskWrite"
    using sem_call_ok(1) [OF assms(1) h(2) assms(3) _ that(2)] h(1) that by (auto simp: keeps_def)
  show "sem_woken (fl_hold z l i) (sl_sem sl) \<noteq> AssertFails" if "fl_hold z l i = WokenRead \<or> fl_hold z l i = WokenWrite"
    using sem_woken_ok(1) [OF assms(1) h(2) assms(3) that] by (auto simp: keeps_def)
  show "rwuj_unlock no_error (sl_sem sl) \<noteq> AssertFails" if "fl_at z i = Left l d ls"
    using unlock_keeps [OF assms(1) h(2) assms(3)] h(1) that by (auto simp: keeps_def)
qed

lemma section_touches:
  assumes "section_inv prio T z" "i \<in> T" "touches (fl_at z i) = Some l"
  shows "\<exists>sl. locks (fl_mgr z) l = Some sl"
proof (cases "\<exists>ls. fl_at z i = Releases (l # ls)")
  case True
  then have "l \<in> held_locks (fl_mgr z) i"
    using section_invD(7) [OF assms(1,2)] by auto
  then show ?thesis
    by (auto simp: held_locks_def)
next
  case False
  then have "about (fl_at z i) = Some l"
    using assms(3) by (cases "fl_at z i" rule: touches.cases) auto
  then show ?thesis
    by (rule section_invD(4) [OF assms(1,2)])
qed

lemma lock_section_inv:
  assumes ok: "transactions_ok tr T" and inv: "section_inv (prio_of tr) T z" and step: "lock_section tr T z z'" and free: "\<not> fl_raced z'"
  shows "section_inv (prio_of tr) T z'"
proof -
  note t = transactions_threads [OF ok]
  have tid: "tid_id (tr i) = i" if "i \<in> T" for i
    using ok that by (simp add: transactions_ok_def)
  show ?thesis
    using step
  proof cases
    case (create i p md k lm' e)
    then show ?thesis
      using create_ok [OF ok inv create(2,3,6), of md] by auto
  next
    case (find i p l md)
    obtain sl where "locks (fl_mgr z) l = Some sl"
      using section_invD(2) [OF inv] find(6) unfolding maps_ok_def by blast
    with find show ?thesis
      using find_ok [OF t inv find(2,3) _ find(5)] by simp
  next
    case (count i l md sl sl' r w)
    then show ?thesis
      using count_ok [OF t inv count(2) tid [OF count(2)] count(3-5)] by simp
  next
    case (decide i l md r w sl)
    show ?thesis
      unfolding decide(1) by (rule decide_ok [OF t inv decide(2-5)])
  next
    case (held i l md sl)
    show ?thesis
      unfolding held(1) by (rule held_ok [OF t inv held(2-4)])
  next
    case (refused i l md e)
    show ?thesis
      unfolding refused(1) by (rule refused_ok [OF t inv refused(2,3)])
  next
    case (sem_returns i l md req sl k s r q)
    show ?thesis
      unfolding sem_returns(1) by (rule sem_returns_ok [OF t inv sem_returns(2-7)])
  next
    case (sem_waits i l md req sl k s c q)
    show ?thesis
      unfolding sem_waits(1) by (rule sem_waits_ok [OF t inv sem_waits(2-7)])
  next
    case (sem_goes_on i l md sl k s r q)
    show ?thesis
      unfolding sem_goes_on(1) by (rule sem_goes_on_ok [OF t inv sem_goes_on(2-7)])
  next
    case (record_holder i l md sl)
    show ?thesis
      unfolding record_holder(1) by (rule record_ok [OF t inv record_holder(2) tid [OF record_holder(2)] record_holder(3,4)])
  next
    case (enlist i l)
    show ?thesis
      unfolding enlist(1) by (rule enlist_ok [OF inv enlist(2) tid [OF enlist(2)] enlist(3,4) t])
  next
    case (release i)
    show ?thesis
      unfolding release(1) by (rule release_ok [OF inv release(2-4)])
  next
    case (leave i l ls sl sl' d)
    have "\<not> (d \<and> (\<exists>j\<in>T. found (fl_at z j) l))"
      using free leave(1) by simp
    from leave_ok [OF t inv leave(2) tid [OF leave(2)] leave(3-5) this] show ?thesis
      unfolding leave(1) by simp
  next
    case (signal i l d ls sl k s r q)
    show ?thesis
      unfolding signal(1) by (rule signal_ok [OF t inv signal(2-6)])
  next
    case (keep i l ls)
    show ?thesis
      unfolding keep(1) by (rule keep_ok [OF t inv keep(2,3)])
  next
    case (delete i l ls sl)
    show ?thesis
      unfolding delete(1) by (rule delete_ok [OF inv delete(2-4)])
  next
    case (finish i)
    show ?thesis
      unfolding finish(1) by (rule finish_ok [OF inv finish(2,3)])
  next
    case (create_fails i p md)
    then show ?thesis
      using create_ok [OF ok inv create_fails(2,3,5), of md] by auto
  next
    case (call_fails i l md req sl)
    then show ?thesis
      using section_fails(1) [OF t inv call_fails(2,5,3,4)] by simp
  next
    case (going_on_fails i l md sl)
    then show ?thesis
      using section_fails(2) [OF t inv going_on_fails(2,5,4)] by simp
  next
    case (signal_fails i l d ls sl)
    then show ?thesis
      using section_fails(3) [OF t inv signal_fails(2,4,3)] by simp
  next
    case (gone i l)
    then show ?thesis
      using section_touches [OF inv gone(2,3)] by auto
  qed
qed

lemma raced_stays: "lock_section tr T z z' \<Longrightarrow> fl_raced z \<Longrightarrow> fl_raced z'"
  by (cases rule: lock_section.cases) (auto simp: sem_state_def)

lemma section_inv_start: "section_inv prio T sections_start"
  by (simp add: section_inv_def sections_start_def LockManager_new_def maps_ok_def lock_list_def held_locks_def)

lemma sections_reachable_inv:
  assumes "transactions_ok tr T" "sections_reachable tr T z"
  shows "fl_raced z \<or> section_inv (prio_of tr) T z"
  using assms(2)
proof induction
  case (step y z)
  then show ?case
    using lock_section_inv [OF assms(1) _ step.hyps(2)] raced_stays [OF step.hyps(2)] by blast
qed (simp add: section_inv_start)

section \<open>Properties\<close>

text \<open>(C30) Locks are exclusive, whatever the order in which the sections of the calls of up to 65535 transactions with different
  priorities run, if no transaction asks to write an object that it has locked for reading, and as long as no release has decided to
  delete a lock in the moment between the two sections in which another transaction finds the lock and counts itself as waiting.
  Then no assertion has failed and no deleted lock has been used; a transaction that holds a lock for writing is the
  only one that holds it, and already when the semaphore has let it in; every transaction outside of a call is recorded with exactly
  the locks it holds; and every lock that a call is about to use is there.\<close>

theorem lock_sections_exclusive:
  assumes "transactions_ok tr T" "sections_reachable tr T z" "\<not> fl_raced z"
  shows "\<not> fl_failed z
    \<and> (\<forall>l sl i j. locks (fl_mgr z) l = Some sl \<and> i \<in> currentWrite sl \<and> j \<in> currentRead sl \<union> currentWrite sl \<longrightarrow> j = i)
    \<and> (\<forall>l i j. locks (fl_mgr z) l \<noteq> None \<and> fl_hold z l i = Writing \<and> (fl_hold z l j = Reading \<or> fl_hold z l j = Writing) \<longrightarrow> j = i)
    \<and> (\<forall>i\<in>T. fl_at z i = Idle \<longrightarrow> set (case transaction_locks (fl_mgr z) i of None \<Rightarrow> [] | Some ls \<Rightarrow> ls)
         = {l. \<exists>sl. locks (fl_mgr z) l = Some sl \<and> (i \<in> currentRead sl \<or> i \<in> currentWrite sl)})
    \<and> (\<forall>i\<in>T. \<forall>l. touches (fl_at z i) = Some l \<longrightarrow> locks (fl_mgr z) l \<noteq> None)"
proof -
  have inv: "section_inv (prio_of tr) T z"
    using sections_reachable_inv [OF assms(1,2)] assms(3) by blast
  have ex: "j = i" if "locks (fl_mgr z) l = Some sl" "fl_hold z l i = Writing" "fl_hold z l j = Reading \<or> fl_hold z l j = Writing" for l sl i j
    using sem_inv_exclusive [OF transactions_threads [OF assms(1)] section_lockD(1) [OF section_invD(3) [OF inv that(1)]], of i j] that(2,3)
    by auto
  have "j = i" if "locks (fl_mgr z) l = Some sl" "i \<in> currentWrite sl" "j \<in> currentRead sl \<union> currentWrite sl" for l sl i j
    using ex [OF that(1), of i j] that(2,3) section_lockD(2,3) [OF section_invD(3) [OF inv that(1)]] by auto
  moreover have "set (lock_list (fl_mgr z) i) = held_locks (fl_mgr z) i" if "i \<in> T" "fl_at z i = Idle" for i
    using section_invD(7) [OF inv that(1)] that(2) by simp
  moreover have "locks (fl_mgr z) l \<noteq> None" if "i \<in> T" "touches (fl_at z i) = Some l" for i l
    using section_touches [OF inv that] by auto
  moreover have "j = i" if "locks (fl_mgr z) l \<noteq> None" "fl_hold z l i = Writing" "fl_hold z l j = Reading \<or> fl_hold z l j = Writing" for l i j
    using ex that by blast
  ultimately show ?thesis
    using section_invD(1) [OF inv] unfolding lock_list_def held_locks_def by blast
qed

text \<open>Transaction 5 makes the lock of an object; transaction 3 finds it.\<close>

definition found_lock :: SingleLock where
  "found_lock = \<lparr>currentRead = {}, currentWrite = {5}, sl_inside = 1, sl_waiting = 0, sl_tid = plain_tid 5, sl_id = 0,
     sl_sem = RWUJSemaphore_new\<lparr>sem_mode := SemWrite, inside := 1\<rparr>, phid = slot 0\<rparr>"

definition found_mgr :: LockManager where
  "found_mgr = \<lparr>map_of_locks = (\<lambda>_. None)(lock_key (slot 0) \<mapsto> 0), locks = (\<lambda>_. None)(0 \<mapsto> found_lock),
     transaction_locks = (\<lambda>_. None)(5 \<mapsto> [0]), single_lock_id = 1\<rparr>"

definition found_state :: section_state where
  "found_state = sections_start\<lparr>fl_mgr := found_mgr, fl_hold := (\<lambda>_ _. Outside)(0 := (\<lambda>_. Outside)(5 := Writing)),
     fl_at := (\<lambda>_. Idle)(3 := Found 0 Write)\<rparr>"

lemma found_reachable: "sections_reachable plain_tid {3, 5} found_state"
proof -
  let ?z = "sections_start\<lparr>fl_mgr := found_mgr, fl_hold := (\<lambda>_ _. Outside)(0 := (\<lambda>_. Outside)(5 := Writing))\<rparr>"
  have "lock_primitive LockManager_new (Some (slot 0)) (plain_tid 5) Write = Returns None found_mgr 0"
    by (simp add: lock_primitive_def LockManager_new_def Let_def lock_done_def SingleLock_new_def rwuj_lock_write_def
        RWUJSemaphore_new_def assert_that_def add_lock_def found_mgr_def found_lock_def plain_tid_def u16_def)
  then have "lock_section plain_tid {3, 5} sections_start ?z"
    using create [of 5 "{3, 5}" sections_start "slot 0" plain_tid Write None found_mgr 0]
    by (simp add: sections_start_def LockManager_new_def)
  moreover have "lock_section plain_tid {3, 5} ?z found_state"
    using find [of 3 "{3, 5}" ?z "slot 0" 0 plain_tid Write]
    by (simp add: sections_start_def found_mgr_def found_state_def)
  ultimately show ?thesis
    by (meson converse_rtranclp_into_rtranclp rtranclp.rtrancl_refl)
qed

lemma found_tids: "transactions_ok plain_tid {3, 5}"
  by (simp add: transactions_ok_def plain_tid_def NO_UPGRADER_def)

theorem lock_sections_exclusive_witness:
  "\<exists>z sl. sections_reachable plain_tid {3, 5} z \<and> fl_at z 3 = Found 0 Write \<and> locks (fl_mgr z) 0 = Some sl \<and> 5 \<in> currentWrite sl
    \<and> (\<forall>j. j \<in> currentRead sl \<union> currentWrite sl \<longrightarrow> j = 5) \<and> \<not> fl_failed z"
proof -
  have "\<not> fl_raced found_state" "locks (fl_mgr found_state) 0 = Some found_lock" "5 \<in> currentWrite found_lock" "fl_at found_state 3 = Found 0 Write"
    by (simp_all add: found_state_def sections_start_def found_mgr_def found_lock_def)
  with lock_sections_exclusive [OF found_tids found_reachable] found_reachable show ?thesis
    by (intro exI [of _ found_state] exI [of _ found_lock]) blast
qed

text \<open>That moment exists: transaction 3 has found a lock; transaction 5 ends, finds nobody inside or waiting and deletes the lock;
  the next step of transaction 3 works on freed memory.\<close>

lemma freed_lock_used:
  "\<exists>z. sections_reachable plain_tid {3, 5} z \<and> fl_raced z \<and> fl_failed z"
proof -
  let ?S = "lock_section plain_tid {3, 5}"
  let ?z1 = "found_state\<lparr>fl_at := (fl_at found_state)(5 := Releases [0]), fl_owner := Some 5\<rparr>"
  let ?l2 = "found_lock\<lparr>sl_inside := 0, currentWrite := {}\<rparr>"
  let ?z2 = "(lock_state ?z1 0 ?l2 5 (Left 0 True []))\<lparr>fl_raced := True\<rparr>"
  let ?l3 = "?l2\<lparr>sl_sem := RWUJSemaphore_new\<rparr>"
  have at: "fl_at found_state 5 = Idle" "fl_at found_state 3 = Found 0 Write" "fl_owner found_state = None" "fl_mgr found_state = found_mgr"
    "fl_hold found_state 0 = (\<lambda>_. Outside)(5 := Writing)"
    by (simp_all add: found_state_def sections_start_def)
  have 1: "?S found_state ?z1"
    using release [of 5 "{3, 5}" found_state plain_tid] by (simp add: at lock_list_def found_mgr_def)
  have 2: "?S ?z1 ?z2"
    using leave [of 5 "{3, 5}" ?z1 0 "[]" found_lock plain_tid ?l2 True]
    by (simp add: at sl_leave_def Let_def found_mgr_def found_lock_def plain_tid_def)
  have u: "\<exists>k r. rwuj_unlock no_error (sl_sem found_lock) = Returns k RWUJSemaphore_new r"
    by (simp add: found_lock_def rwuj_unlock_def rwuj_unlock_as_def RWUJSemaphore_new_def assert_that_def Let_def u16_def) blast
  then obtain k r q where u: "rwuj_unlock no_error (sl_sem ?l2) = Returns k RWUJSemaphore_new r" "wake_up k (fl_hold ?z2 0) q"
    using wake_up_exists by fastforce
  let ?z3 = "sem_state ?z2 0 ?l3 (q(5 := Outside)) 5 (Signalled 0 True [])"
  have 3: "?S ?z2 ?z3"
    using signal [of 5 "{3, 5}" ?z2 0 True "[]" ?l2 k RWUJSemaphore_new r q plain_tid] u by (simp add: sem_state_def)
  let ?z4 = "?z3\<lparr>fl_mgr := (fl_mgr ?z3)\<lparr>map_of_locks := (map_of_locks (fl_mgr ?z3))(lock_key (phid ?l3) := None),
      locks := (locks (fl_mgr ?z3))(0 := None)\<rparr>, fl_at := (fl_at ?z3)(5 := Releases [])\<rparr>"
  have 4: "?S ?z3 ?z4"
    using delete [of 5 "{3, 5}" ?z3 0 "[]" ?l3 plain_tid] by (simp add: sem_state_def)
  have 5: "?S ?z4 (?z4\<lparr>fl_failed := True\<rparr>)"
    using gone [of 3 "{3, 5}" ?z4 0 plain_tid] by (simp add: sem_state_def at)
  have "sections_reachable plain_tid {3, 5} (?z4\<lparr>fl_failed := True\<rparr>)"
    using found_reachable 1 2 3 4 5 by (meson rtranclp.rtrancl_into_rtrancl)
  then show ?thesis
    by (intro exI [of _ "?z4\<lparr>fl_failed := True\<rparr>"]) (simp add: sem_state_def)
qed

section \<open>Calls that are not interrupted\<close>

text \<open>A state between calls of \<open>LockSystem\<close>, as a state between sections. Every step of \<open>LockSystem\<close> without upgrades is the run of the
  sections of its call, so what it reaches is reached by the sections as well.\<close>

definition between_calls :: "lock_system \<Rightarrow> section_state" where
  "between_calls z = \<lparr>fl_mgr = lmgr z, fl_hold = hold z, fl_at = (\<lambda>i. case pend z i of None \<Rightarrow> Idle | Some (l, md) \<Rightarrow> InSem l md),
     fl_owner = None, fl_doomed = doomed z, fl_raced = False, fl_failed = lock_failed z\<rparr>"

lemma between_sel [simp]:
  "fl_mgr (between_calls z) = lmgr z" "fl_hold (between_calls z) = hold z" "fl_owner (between_calls z) = None"
  "fl_doomed (between_calls z) = doomed z" "fl_raced (between_calls z) = False" "fl_failed (between_calls z) = lock_failed z"
  "fl_at (between_calls z) i = (case pend z i of None \<Rightarrow> Idle | Some (l, md) \<Rightarrow> InSem l md)"
  by (simp_all add: between_calls_def)

lemma sem_state_sel [simp]:
  "fl_mgr (sem_state z l sl q i p) = (fl_mgr z)\<lparr>locks := (locks (fl_mgr z))(l \<mapsto> sl)\<rparr>" "fl_hold (sem_state z l sl q i p) = (fl_hold z)(l := q)"
  "fl_at (sem_state z l sl q i p) = (fl_at z)(i := p)" "fl_owner (sem_state z l sl q i p) = fl_owner z"
  "fl_doomed (sem_state z l sl q i p) = fl_doomed z" "fl_raced (sem_state z l sl q i p) = fl_raced z" "fl_failed (sem_state z l sl q i p) = fl_failed z"
  by (simp_all add: sem_state_def)

text \<open>The sections of a request up to the choice.\<close>

lemma sections_to_choice:
  assumes "i \<in> T" "pend z i = None" "i \<notin> doomed z" "map_of_locks (lmgr z) (lock_key p) = Some l" "locks (lmgr z) l = Some sl"
    and "no_upgrade (lock_request sl (tr i) md)"
  shows "(lock_section tr T)\<^sup>*\<^sup>* (between_calls z)
    (lock_state (between_calls z) l (sl\<lparr>sl_waiting := sl_waiting sl + 1\<rparr>) i (Asks l md (lock_request sl (tr i) md)))"
proof -
  let ?S = "lock_section tr T" and ?z0 = "between_calls z" and ?sl = "sl\<lparr>sl_waiting := sl_waiting sl + 1\<rparr>"
  let ?r = "tid_id (tr i) \<in> currentRead sl" and ?w = "tid_id (tr i) \<in> currentWrite sl"
  let ?z1 = "?z0\<lparr>fl_at := (fl_at ?z0)(i := Found l md)\<rparr>"
  let ?z2 = "lock_state ?z1 l ?sl i (Counted l md ?r ?w)"
  have req: "lock_request sl (tr i) md = sl_decide ?sl (tr i) md ?r ?w"
    by (simp add: lock_request_def sl_count_def)
  have 1: "?S ?z0 ?z1"
    using find [of i T ?z0 p l tr md] assms(1-4) by simp
  have 2: "?S ?z1 ?z2"
    using count [of i T ?z1 l md sl tr ?sl ?r ?w] assms(1,5) by (simp add: sl_count_def)
  have 3: "?S ?z2 (lock_state ?z2 l ?sl i (Asks l md (sl_decide ?sl (tr i) md ?r ?w)))"
    using decide [of i T ?z2 l md ?r ?w ?sl tr] assms(1,6) by (simp add: req no_upgrade_def)
  have "lock_state ?z2 l ?sl i (Asks l md (sl_decide ?sl (tr i) md ?r ?w))
      = lock_state ?z0 l ?sl i (Asks l md (lock_request sl (tr i) md))"
    by (simp add: req sem_state_def)
  with 1 2 3 show ?thesis
    by (metis (no_types, lifting) r_into_rtranclp rtranclp_trans)
qed

lemma idle_at: "pend z i = None \<Longrightarrow> (\<lambda>j. case pend z j of None \<Rightarrow> Idle | Some (l, md) \<Rightarrow> InSem l md)(i := Idle)
    = (\<lambda>j. case pend z j of None \<Rightarrow> Idle | Some (l, md) \<Rightarrow> InSem l md)"
  by (auto simp: fun_eq_iff)

lemma sections_of_grant:
  assumes i: "i \<in> T" "pend z i = None" and l: "locks (lmgr z) l = Some sl" and req: "req = lock_request sl (tr i) md" "req = AskRead \<or> req = AskWrite"
    and w: "lock_done (lmgr z) (tr i) l (wait_for_lock sl (tr i) md) = Returns k lm' e" and q: "wake_up k (hold z l) q"
  shows "(lock_section tr T)\<^sup>*\<^sup>* (lock_state (between_calls z) l (sl\<lparr>sl_waiting := sl_waiting sl + 1\<rparr>) i (Asks l md req))
    (between_calls (z\<lparr>lmgr := lm', hold := (hold z)(l := q(i := held_as req e (q i))), doomed := (if e = 0 then doomed z else insert i (doomed z))\<rparr>))"
proof -
  let ?z1 = "lock_state (between_calls z) l (sl\<lparr>sl_waiting := sl_waiting sl + 1\<rparr>) i (Asks l md req)"
  let ?z' = "z\<lparr>lmgr := lm', hold := (hold z)(l := q(i := held_as req e (q i))), doomed := (if e = 0 then doomed z else insert i (doomed z))\<rparr>"
  let ?S = "lock_section tr T" and ?sl = "sl\<lparr>sl_waiting := sl_waiting sl + 1\<rparr>"
  have c: "wait_for_lock sl (tr i) md = after_sem ?sl (tr i) md False (sem_call req (sl_sem sl))"
    using req by (auto simp: wait_for_lock_def sem_call_def)
  obtain s r where s: "sem_call req (sl_sem sl) = Returns k s r" "e = 0"
    "lm' = add_lock ((lmgr z)\<lparr>locks := (locks (lmgr z))(l \<mapsto> lock_received (?sl\<lparr>sl_sem := s\<rparr>) (tr i) md 0)\<rparr>) (tr i) l"
    using w unfolding c by (cases "sem_call req (sl_sem sl)") (auto simp: after_sem_def lock_done_def)
  let ?x = "held_as req 0 (q i)"
  let ?z2 = "sem_state ?z1 l (?sl\<lparr>sl_sem := s\<rparr>) (q(i := ?x)) i (Granted l md)"
  let ?z3 = "lock_state ?z2 l (lock_received (?sl\<lparr>sl_sem := s\<rparr>) (tr i) md 0) i (Entered l)"
  have "?S ?z1 ?z2"
    using sem_returns [of i T ?z1 l md req ?sl k s r q tr] i(1) req(2) s(1) q by simp
  moreover have "?S ?z2 ?z3"
    using record_holder [of i T ?z2 l md "?sl\<lparr>sl_sem := s\<rparr>" tr] i(1) by simp
  moreover have "?S ?z3 (between_calls ?z')"
    using enlist [of i T ?z3 l tr] i s by (simp add: between_calls_def sem_state_def idle_at)
  ultimately show ?thesis
    by (meson converse_rtranclp_into_rtranclp rtranclp.rtrancl_refl)
qed

lemma sections_of_return:
  assumes i: "i \<in> T" "pend z i = None" "i \<notin> doomed z" and l: "map_of_locks (lmgr z) (lock_key p) = Some l" "locks (lmgr z) l = Some sl"
    and req: "no_upgrade (lock_request sl (tr i) md)"
    and r: "lock_primitive (lmgr z) (Some p) (tr i) md = Returns k lm' e" "wake_up k (hold z l) q"
  shows "(lock_section tr T)\<^sup>*\<^sup>* (between_calls z) (between_calls (z\<lparr>lmgr := lm',
    hold := (hold z)(l := q(i := held_as (lock_request sl (tr i) md) e (q i))), doomed := (if e = 0 then doomed z else insert i (doomed z))\<rparr>))"
proof -
  let ?z' = "z\<lparr>lmgr := lm', hold := (hold z)(l := q(i := held_as (lock_request sl (tr i) md) e (q i))),
    doomed := (if e = 0 then doomed z else insert i (doomed z))\<rparr>"
  let ?S = "lock_section tr T" and ?sl = "sl\<lparr>sl_waiting := sl_waiting sl + 1\<rparr>" and ?req = "lock_request sl (tr i) md"
  let ?z1 = "lock_state (between_calls z) l ?sl i (Asks l md ?req)"
  have w: "lock_done (lmgr z) (tr i) l (wait_for_lock sl (tr i) md) = Returns k lm' e"
    using r(1) lock_primitive_old [OF l] by simp
  have "?S\<^sup>*\<^sup>* ?z1 (between_calls ?z')"
  proof (cases ?req)
    case Held
    have q: "q = hold z l" "e = 0" "lm' = add_lock ((lmgr z)\<lparr>locks := (locks (lmgr z))(l \<mapsto> sl)\<rparr>) (tr i) l"
      using w r(2) Held by (auto simp: wait_for_lock_def lock_done_def)
    let ?z2 = "lock_state ?z1 l sl i (Entered l)"
    have "?S ?z1 ?z2"
      using held [of i T ?z1 l md ?sl tr] i(1) Held by simp
    moreover have "?S ?z2 (between_calls ?z')"
      using enlist [of i T ?z2 l tr] i(1,2) q Held
      by (simp add: between_calls_def sem_state_def idle_at fun_upd_idem)
    ultimately show ?thesis
      by (meson converse_rtranclp_into_rtranclp rtranclp.rtrancl_refl)
  next
    case (Refuse x)
    have q: "q = hold z l" "e = x" "x \<noteq> 0" "lm' = (lmgr z)\<lparr>locks := (locks (lmgr z))(l \<mapsto> ?sl)\<rparr>"
      using w r(2) Refuse by (auto simp: wait_for_lock_def lock_done_def lock_request_defs unless_deadlock_def split: if_splits)
    have "?S ?z1 (between_calls ?z')"
      using refused [of i T ?z1 l md x tr] i(1,2) q Refuse
      by (simp add: between_calls_def sem_state_def idle_at fun_upd_idem)
    then show ?thesis
      by blast
  next
    case AskUpgrade
    with req show ?thesis
      by (simp add: no_upgrade_def)
  qed (rule sections_of_grant [where tr = tr and md = md, OF i(1,2) l(2) refl _ w r(2)], simp)+
  then show ?thesis
    using sections_to_choice [where tr = tr and md = md, OF i l req] by simp
qed

lemma sections_of_wait:
  assumes i: "i \<in> T" "pend z i = None" "i \<notin> doomed z" and l: "map_of_locks (lmgr z) (lock_key p) = Some l" "locks (lmgr z) l = Some sl"
    and req: "no_upgrade (lock_request sl (tr i) md)"
    and r: "lock_primitive (lmgr z) (Some p) (tr i) md = Waits k lm' c" "wake_up k (hold z l) q"
  shows "(lock_section tr T)\<^sup>*\<^sup>* (between_calls z) (between_calls (z\<lparr>lmgr := lm',
    hold := (hold z)(l := q(i := waits_as (lock_request sl (tr i) md))), pend := (pend z)(i \<mapsto> (l, md))\<rparr>))"
proof -
  let ?z' = "z\<lparr>lmgr := lm', hold := (hold z)(l := q(i := waits_as (lock_request sl (tr i) md))), pend := (pend z)(i \<mapsto> (l, md))\<rparr>"
  let ?sl = "sl\<lparr>sl_waiting := sl_waiting sl + 1\<rparr>" and ?req = "lock_request sl (tr i) md"
  let ?z1 = "lock_state (between_calls z) l ?sl i (Asks l md ?req)"
  have w: "lock_done (lmgr z) (tr i) l (wait_for_lock sl (tr i) md) = Waits k lm' c"
    using r(1) lock_primitive_old [OF l] by simp
  have ask: "?req = AskRead \<or> ?req = AskWrite"
    using w req by (cases ?req) (auto simp: wait_for_lock_def lock_done_def no_upgrade_def split: if_splits)
  have "wait_for_lock sl (tr i) md = after_sem ?sl (tr i) md False (sem_call ?req (sl_sem sl))"
    using ask by (auto simp: wait_for_lock_def sem_call_def)
  then obtain s where s: "sem_call ?req (sl_sem sl) = Waits k s c" "lm' = (lmgr z)\<lparr>locks := (locks (lmgr z))(l \<mapsto> ?sl\<lparr>sl_sem := s\<rparr>)\<rparr>"
    using w by (cases "sem_call ?req (sl_sem sl)") (auto simp: after_sem_def lock_done_def split: if_splits)
  have "lock_section tr T ?z1 (sem_state ?z1 l (?sl\<lparr>sl_sem := s\<rparr>) (q(i := waits_as ?req)) i (InSem l md))"
    using sem_waits [of i T ?z1 l md ?req ?sl k s c q tr] i(1) ask s(1) r(2) by simp
  moreover have "sem_state ?z1 l (?sl\<lparr>sl_sem := s\<rparr>) (q(i := waits_as ?req)) i (InSem l md) = between_calls ?z'"
    using s(2) by (auto simp: between_calls_def sem_state_def fun_eq_iff)
  ultimately show ?thesis
    using sections_to_choice [where tr = tr and md = md, OF i l req] by simp
qed

lemma sections_of_going_on:
  assumes i: "i \<in> T" "pend z i = Some (l, md)" "hold z l i = WokenRead \<or> hold z l i = WokenWrite"
    and r: "lock_woken (lmgr z) l (tr i) md (hold z l i) = Returns k lm' e" "wake_up k (hold z l) q"
  shows "(lock_section tr T)\<^sup>*\<^sup>* (between_calls z) (between_calls (z\<lparr>lmgr := lm',
    hold := (hold z)(l := q(i := woken_as (hold z l i) e)), pend := (pend z)(i := None),
    doomed := (if e = 0 then doomed z else insert i (doomed z))\<rparr>))"
proof -
  let ?S = "lock_section tr T" and ?z0 = "between_calls z"
  let ?z' = "z\<lparr>lmgr := lm', hold := (hold z)(l := q(i := woken_as (hold z l i) e)), pend := (pend z)(i := None),
    doomed := (if e = 0 then doomed z else insert i (doomed z))\<rparr>"
  obtain sl where sl: "locks (lmgr z) l = Some sl"
    using r(1) by (auto simp: lock_woken_def split: option.splits)
  have "wait_for_lock_woken sl (tr i) md (hold z l i) = after_sem sl (tr i) md False (sem_woken (hold z l i) (sl_sem sl))"
    using i(3) by (auto simp: wait_for_lock_woken_def sem_woken_def)
  then obtain s b where s: "sem_woken (hold z l i) (sl_sem sl) = Returns k s b" "e = 0"
    "lm' = add_lock ((lmgr z)\<lparr>locks := (locks (lmgr z))(l \<mapsto> lock_received (sl\<lparr>sl_sem := s\<rparr>) (tr i) md 0)\<rparr>) (tr i) l"
    using r(1) sl by (cases "sem_woken (hold z l i) (sl_sem sl)") (auto simp: lock_woken_def after_sem_def lock_done_def)
  let ?z2 = "sem_state ?z0 l (sl\<lparr>sl_sem := s\<rparr>) (q(i := woken_as (hold z l i) 0)) i (Granted l md)"
  let ?z3 = "lock_state ?z2 l (lock_received (sl\<lparr>sl_sem := s\<rparr>) (tr i) md 0) i (Entered l)"
  have "?S ?z0 ?z2"
    using sem_goes_on [of i T ?z0 l md sl k s b q tr] i sl s(1) r(2) by simp
  moreover have "?S ?z2 ?z3"
    using record_holder [of i T ?z2 l md "sl\<lparr>sl_sem := s\<rparr>" tr] i(1) by simp
  moreover have "?z3\<lparr>fl_mgr := add_lock (fl_mgr ?z3) (tr i) l, fl_at := (fl_at ?z3)(i := Idle)\<rparr> = between_calls ?z'"
    using s(2,3) by (auto simp: between_calls_def sem_state_def fun_eq_iff)
  then have "?S ?z3 (between_calls ?z')"
    using enlist [of i T ?z3 l tr] i(1) by simp
  ultimately show ?thesis
    by (meson converse_rtranclp_into_rtranclp rtranclp.rtrancl_refl)
qed

text \<open>The sections of one round of \<open>unlockAll\<close>, of the loop, and of the whole.\<close>

lemma sections_of_unlock:
  assumes i: "i \<in> T" "fl_at z i = Releases (l # ls)" and f: "\<forall>j\<in>T. \<not> found (fl_at z j) l" "\<not> fl_raced z"
    and u: "unlock_one (fl_mgr z) (tr i) l = Some (lm', (l, k))" and q: "wake_up k (fl_hold z l) q"
  shows "(lock_section tr T)\<^sup>*\<^sup>* z (z\<lparr>fl_mgr := lm', fl_hold := (fl_hold z)(l := q(i := Outside)), fl_at := (fl_at z)(i := Releases ls)\<rparr>)"
proof -
  let ?S = "lock_section tr T" and ?z' = "z\<lparr>fl_mgr := lm', fl_hold := (fl_hold z)(l := q(i := Outside)), fl_at := (fl_at z)(i := Releases ls)\<rparr>"
  obtain sl where sl: "locks (fl_mgr z) l = Some sl"
    using u by (auto simp: unlock_one_def split: option.splits)
  obtain sl1 d where v: "sl_leave sl (tr i) = (sl1, d)"
    by (cases "sl_leave sl (tr i)")
  obtain s r where s: "rwuj_unlock no_error (sl_sem sl1) = Returns k s r"
    "lm' = (if d then (fl_mgr z)\<lparr>map_of_locks := (map_of_locks (fl_mgr z))(lock_key (phid (sl1\<lparr>sl_sem := s\<rparr>)) := None), locks := (locks (fl_mgr z))(l := None)\<rparr>
      else (fl_mgr z)\<lparr>locks := (locks (fl_mgr z))(l \<mapsto> sl1\<lparr>sl_sem := s\<rparr>)\<rparr>)"
    using u sl v by (cases "rwuj_unlock no_error (sl_sem sl1)") (auto simp: unlock_one_def sl_unlock_def)
  let ?z1 = "lock_state z l sl1 i (Left l d ls)"
  let ?z2 = "sem_state ?z1 l (sl1\<lparr>sl_sem := s\<rparr>) (q(i := Outside)) i (Signalled l d ls)"
  have "(lock_state z l sl1 i (Left l d ls))\<lparr>fl_raced := (fl_raced z \<or> d \<and> (\<exists>j\<in>T. found (fl_at z j) l))\<rparr> = ?z1"
    using f by (simp add: sem_state_def)
  then have "?S z ?z1"
    using leave [of i T z l ls sl tr sl1 d] i sl v by simp
  moreover have "?S ?z1 ?z2"
    using signal [of i T ?z1 l d ls sl1 k s r q tr] i(1) s(1) q by simp
  moreover have "?S ?z2 ?z'"
  proof (cases d)
    case True
    then show ?thesis
      using delete [of i T ?z2 l ls "sl1\<lparr>sl_sem := s\<rparr>" tr] i(1) s(2) by (cases z) (simp add: sem_state_def)
  next
    case False
    then show ?thesis
      using keep [of i T ?z2 l ls tr] i(1) s(2) by (cases z) (simp add: sem_state_def)
  qed
  ultimately show ?thesis
    by (meson converse_rtranclp_into_rtranclp rtranclp.rtrancl_refl)
qed

lemma sections_of_unlocks:
  assumes "i \<in> T" "fl_at z i = Releases ls" "\<forall>j\<in>T. \<forall>l. \<not> found (fl_at z j) l" "\<not> fl_raced z"
    and "unlock_each (fl_mgr z) (tr i) ls = Some (lm', ks)" "wake_each ks i (fl_hold z) h'"
  shows "(lock_section tr T)\<^sup>*\<^sup>* z (z\<lparr>fl_mgr := lm', fl_hold := h', fl_at := (fl_at z)(i := Releases [])\<rparr>)"
  using assms(2-)
proof (induction ls arbitrary: z ks)
  case Nil
  then have "ks = []" "lm' = fl_mgr z"
    by auto
  with Nil.prems(5) have "h' = fl_hold z"
    by (auto elim: wake_each.cases)
  with Nil.prems(1) \<open>lm' = fl_mgr z\<close> show ?case
    by (simp add: fun_upd_idem)
next
  case (Cons l ls)
  obtain lm1 k1 ks1 where u: "unlock_one (fl_mgr z) (tr i) l = Some (lm1, k1)" "unlock_each lm1 (tr i) ls = Some (lm', ks1)" "ks = k1 # ks1"
    using Cons.prems(4) by (auto split: option.splits)
  then obtain k where k: "k1 = (l, k)"
    by (auto simp: unlock_one_def split: option.splits outcome.splits)
  obtain q where q: "wake_up k (fl_hold z l) q" "wake_each ks1 i ((fl_hold z)(l := q(i := Outside))) h'"
    using Cons.prems(5) u(3) k by (auto elim: wake_each.cases)
  let ?z1 = "z\<lparr>fl_mgr := lm1, fl_hold := (fl_hold z)(l := q(i := Outside)), fl_at := (fl_at z)(i := Releases ls)\<rparr>"
  have "(lock_section tr T)\<^sup>*\<^sup>* z ?z1"
    using sections_of_unlock [where tr = tr, OF assms(1) Cons.prems(1)] Cons.prems(2,3) u(1) k q(1) by simp
  moreover have nf: "\<forall>j\<in>T. \<forall>l. \<not> found (((fl_at z)(i := Releases ls)) j) l"
    using Cons.prems(2) by simp
  have "(lock_section tr T)\<^sup>*\<^sup>* ?z1 (?z1\<lparr>fl_mgr := lm', fl_hold := h', fl_at := (fl_at ?z1)(i := Releases [])\<rparr>)"
    by (rule Cons.IH) (use Cons.prems(2,3) u(2) q(2) nf in \<open>simp_all del: fun_upd_apply add: fun_upd_same\<close>)
  ultimately show ?case
    by (simp del: fun_upd_apply)
qed

lemma sections_of_release:
  assumes ok: "transactions_ok tr T" and i: "i \<in> T" "pend z i = None"
    and u: "unlockAll (lmgr z) (tr i) = Some (lm', ks)" "wake_each ks i (hold z) h'"
  shows "(lock_section tr T)\<^sup>*\<^sup>* (between_calls z) (between_calls (z\<lparr>lmgr := lm', hold := h', doomed := doomed z - {i}\<rparr>))"
proof -
  let ?z0 = "between_calls z" and ?z' = "z\<lparr>lmgr := lm', hold := h', doomed := doomed z - {i}\<rparr>"
  let ?z1 = "?z0\<lparr>fl_at := (fl_at ?z0)(i := Releases (lock_list (lmgr z) i)), fl_owner := Some i\<rparr>"
  have t: "tid_id (tr i) = i"
    using ok i(1) by (simp add: transactions_ok_def)
  obtain lm1 where 1: "unlock_each (lmgr z) (tr i) (lock_list (lmgr z) i) = Some (lm1, ks)"
    "lm' = lm1\<lparr>transaction_locks := (transaction_locks lm1)(i := None)\<rparr>"
  proof (cases "transaction_locks (lmgr z) i")
    case None
    then show ?thesis
      using that [of "lmgr z"] u(1) t by (auto simp: unlockAll_def lock_list_def fun_upd_idem)
  next
    case (Some x)
    then show ?thesis
      using that u(1) t by (auto simp: unlockAll_def lock_list_def split: option.splits)
  qed
  let ?z2 = "?z1\<lparr>fl_mgr := lm1, fl_hold := h', fl_at := (fl_at ?z1)(i := Releases [])\<rparr>"
  have nf: "\<not> found (fl_at ?z1 j) l" for j l
    by (auto split: option.splits)
  have "lock_section tr T ?z0 ?z1"
    using release [of i T ?z0 tr] i by simp
  moreover have "(lock_section tr T)\<^sup>*\<^sup>* ?z1 ?z2"
    by (rule sections_of_unlocks [OF i(1)]) (use nf 1(1) u(2) in simp_all)
  moreover have "lock_section tr T ?z2 (between_calls ?z')"
    using finish [of i T ?z2 tr] i 1(2) by (simp add: between_calls_def idle_at)
  ultimately show ?thesis
    by (meson converse_rtranclp_into_rtranclp rtranclp.rtrancl_into_rtrancl rtranclp_trans)
qed

lemma uninterrupted_step:
  assumes ok: "transactions_ok tr T" and inv: "lock_inv (prio_of tr) T z" and step: "lock_step no_upgrade tr T z z'"
  shows "(lock_section tr T)\<^sup>*\<^sup>* (between_calls z) (between_calls z')"
proof -
  have f: "\<not> lock_failed z'"
    using lock_step_inv [OF ok inv step] by (simp add: lock_inv_def)
  show ?thesis
    using step
  proof cases
    case (new_lock i p md k lm' e)
    then have "lock_section tr T (between_calls z) (between_calls z')"
      using create [of i T "between_calls z" p tr md k lm' e] by (simp add: between_calls_def)
    then show ?thesis
      by blast
  next
    case (lock_returns i p l sl req md k lm' e q)
    then show ?thesis
      using sections_of_return [where tr = tr and md = md, OF lock_returns(2-6)] by simp
  next
    case (lock_waits i p l sl req md k lm' c q)
    then show ?thesis
      using sections_of_wait [where tr = tr and md = md, OF lock_waits(2-6)] by simp
  next
    case (lock_goes_on i l md k lm' e q)
    have "locks_ok (prio_of tr) T (lmgr z) (hold z) (pend z)"
      using inv by (simp add: lock_inv_def)
    moreover from this obtain sl where "locks (lmgr z) l = Some sl"
      using locks_okD(4) lock_goes_on(2,3) by blast
    ultimately have "at_pend (pend z i) l (hold z l i)"
      using locks_okD(3) lock_goes_on(2) by blast
    then have "hold z l i = WokenRead \<or> hold z l i = WokenWrite"
      using lock_goes_on(3,4) by (auto simp: at_pend_simps split: if_splits)
    then show ?thesis
      using sections_of_going_on [where tr = tr, OF lock_goes_on(2,3)] lock_goes_on by simp
  next
    case (release_all i lm' ks h')
    then show ?thesis
      using sections_of_release [OF ok release_all(2,3)] by simp
  qed (use f in simp_all)
qed

lemma uninterrupted_reachable:
  assumes "transactions_ok tr T" "lock_reachable no_upgrade tr T z"
  shows "sections_reachable tr T (between_calls z)"
  using assms(2)
proof induction
  case base
  show ?case
    by (simp add: between_calls_def lock_start_def sections_start_def)
next
  case (step y z)
  then show ?case
    using uninterrupted_step [OF assms(1) lock_reachable_inv [OF assms(1) step.hyps(1)] step.hyps(2)] by simp
qed

end
