(* ===== verification/EntrySieves.thy ===== *)
theory EntrySieves
  imports IndexVisibility NamedItems
begin

text \<open>
  The sieve of a lookup in an index (\<^verbatim>\<open>Indexes/EntrySieve.cpp\<close>). A lookup hands the entries that it finds to the sieve, one object
  after the other; the sieve skips the entries that the transaction does not see and keeps an object if its newest change is
  an addition. The fields \<open>currentLid\<close> and \<open>removed\<close> are not initialised by the constructor.
\<close>

section \<open>The sieve\<close>

record EntrySieve =
  es_result :: "lid list"
  es_started :: bool
  es_currentLid :: "int option"
  es_latestTimestamp :: int
  es_removed :: "bool option"

definition EntrySieve_new :: "int \<Rightarrow> EntrySieve" where
  "EntrySieve_new garbage = \<lparr>es_result = [], es_started = False, es_currentLid = None, es_latestTimestamp = garbage, es_removed = None\<rparr>"

definition stateReset :: "RootEntry \<Rightarrow> EntrySieve \<Rightarrow> EntrySieve" where
  "stateReset e s = s\<lparr>es_currentLid := Some (re_logicalID e), es_latestTimestamp := 0\<rparr>"

definition indexVisible :: "VisibilityResolver \<Rightarrow> TransactionID \<Rightarrow> int \<Rightarrow> RootEntry \<Rightarrow> bool" where
  "indexVisible v t index e = isVisible v (re_modyfierTransactionId e) (s32 (tid_timeStamp t)) index"

text \<open>The test of the time of removal compares the boolean \<open>!delTime\<close> with -1, which is never true.\<close>

definition isEntryVisible :: "VisibilityResolver \<Rightarrow> TransactionID \<Rightarrow> int \<Rightarrow> RootEntry \<Rightarrow> bool" where
  "isEntryVisible v t index e =
     (if re_modyfierTransactionId e = ROLLED_BACK then False
      else if re_modyfierTransactionId e = tid_id t then True
      else if \<not> re_addTime e \<le> s32 (tid_timeStamp t) then False
      else if of_bool (re_delTime e = 0) = (-1 :: int) then False
      else if re_modyfierTransactionId e = -1 then True
      else indexVisible v t index e)"

definition pushLatest :: "EntrySieve \<Rightarrow> fault + EntrySieve" where
  "pushLatest s =
     (case (es_removed s, es_currentLid s) of
        (None, _) \<Rightarrow> Inl IndeterminateRead
      | (Some True, _) \<Rightarrow> Inr s
      | (Some False, None) \<Rightarrow> Inl IndeterminateRead
      | (Some False, Some l) \<Rightarrow> Inr (s\<lparr>es_result := es_result s @ [lid_new l]\<rparr>))"

definition sieve_times :: "RootEntry \<Rightarrow> EntrySieve \<Rightarrow> EntrySieve" where
  "sieve_times e s =
     (let s = (if re_addTime e > es_latestTimestamp s then s\<lparr>es_latestTimestamp := re_addTime e, es_removed := Some False\<rparr> else s)
      in if re_delTime e > es_latestTimestamp s then s\<lparr>es_latestTimestamp := re_delTime e, es_removed := Some True\<rparr> else s)"

definition sieve_add :: "VisibilityResolver \<Rightarrow> TransactionID \<Rightarrow> int \<Rightarrow> RootEntry \<Rightarrow> EntrySieve \<Rightarrow> fault + EntrySieve" where
  "sieve_add v t index e s =
     (if isEntryVisible v t index e then
        let s = (if es_started s then s else stateReset e (s\<lparr>es_started := True\<rparr>))
        in fbind (if es_currentLid s \<noteq> Some (re_logicalID e) then fbind (pushLatest s) (\<lambda>s. Inr (stateReset e s)) else Inr s)
             (\<lambda>s. Inr (sieve_times e s))
      else Inr s)"

definition sieve_getResult :: "EntrySieve \<Rightarrow> fault + lid list" where
  "sieve_getResult s = (if es_started s then fbind (pushLatest s) (\<lambda>s. Inr (es_result s)) else Inr (es_result s))"

text \<open>A lookup: all entries in order.\<close>

fun sieve_all :: "VisibilityResolver \<Rightarrow> TransactionID \<Rightarrow> int \<Rightarrow> RootEntry list \<Rightarrow> EntrySieve \<Rightarrow> fault + EntrySieve" where
  "sieve_all v t index [] s = Inr s"
| "sieve_all v t index (e # es) s = fbind (sieve_add v t index e s) (sieve_all v t index es)"

definition sieve :: "VisibilityResolver \<Rightarrow> TransactionID \<Rightarrow> int \<Rightarrow> int \<Rightarrow> RootEntry list \<Rightarrow> fault + lid list" where
  "sieve v t index garbage es = fbind (sieve_all v t index es (EntrySieve_new garbage)) sieve_getResult"

section \<open>What the sieve computes\<close>

text \<open>The entries of one object after the other, the newest time of a kind of change, and the objects whose newest
  change is an addition.\<close>

function runs :: "RootEntry list \<Rightarrow> RootEntry list list" where
  "runs [] = []"
| "runs (e # es) = (e # takeWhile (\<lambda>x. re_logicalID x = re_logicalID e) es) # runs (dropWhile (\<lambda>x. re_logicalID x = re_logicalID e) es)"
  by pat_completeness auto
termination
  by (relation "measure length") (auto simp: length_dropWhile_le le_imp_less_Suc)

fun newest :: "(RootEntry \<Rightarrow> int) \<Rightarrow> RootEntry list \<Rightarrow> int" where
  "newest f [] = 0"
| "newest f (e # es) = max (f e) (newest f es)"

definition present :: "RootEntry list \<Rightarrow> bool" where
  "present es \<longleftrightarrow> newest re_delTime es < newest re_addTime es"

definition sieve_spec :: "RootEntry list \<Rightarrow> lid list" where
  "sieve_spec es = map (\<lambda>r. lid_new (re_logicalID (hd r))) (filter present (runs es))"

text \<open>Every object has a change at a positive time, and never an addition and a removal at the same time.\<close>

definition times_ok :: "RootEntry list \<Rightarrow> bool" where
  "times_ok es \<longleftrightarrow> (\<forall>r\<in>set (runs es). newest re_addTime r > 0 \<or> newest re_delTime r > 0)
     \<and> (\<forall>e\<in>set es. \<forall>e'\<in>set es. re_addTime e > 0 \<longrightarrow> re_logicalID e = re_logicalID e' \<longrightarrow> re_addTime e \<noteq> re_delTime e')"

lemma newest_append [simp]: "newest f (xs @ ys) = max (newest f xs) (newest f ys)"
proof -
  have "0 \<le> newest f zs" for zs
    by (induction zs) auto
  then show ?thesis
    by (induction xs) (auto simp: max.assoc max_absorb2)
qed

lemma newest_nonneg: "0 \<le> newest f es"
  by (induction es) auto

lemma newest_attained: "newest f es > 0 \<Longrightarrow> \<exists>e\<in>set es. f e = newest f es"
  by (induction es) (auto simp: max_def split: if_splits)

text \<open>The times of the entries of one object.\<close>

definition seen :: "int \<Rightarrow> int \<Rightarrow> EntrySieve \<Rightarrow> EntrySieve" where
  "seen A D s = s\<lparr>es_latestTimestamp := max A D, es_removed := (if A = 0 \<and> D = 0 then es_removed s else Some (A \<le> D))\<rparr>"

lemma sieve_times_seen:
  assumes "0 \<le> A" "0 \<le> D" "A > 0 \<Longrightarrow> A \<noteq> D" "re_addTime e > 0 \<Longrightarrow> re_addTime e \<noteq> D" "A > 0 \<Longrightarrow> A \<noteq> re_delTime e"
    "re_addTime e > 0 \<Longrightarrow> re_addTime e \<noteq> re_delTime e"
  shows "sieve_times e (seen A D s) = seen (max A (re_addTime e)) (max D (re_delTime e)) s"
  using assms by (cases s) (auto simp: sieve_times_def seen_def Let_def max_def)

lemma sieve_times_fold:
  assumes "es_latestTimestamp s = 0"
    and "\<forall>e\<in>set es. \<forall>e'\<in>set es. re_addTime e > 0 \<longrightarrow> re_addTime e \<noteq> re_delTime e'"
  shows "fold sieve_times es s = seen (newest re_addTime es) (newest re_delTime es) s"
  using assms(2)
proof (induction es rule: rev_induct)
  case Nil
  then show ?case
    using assms(1) by (cases s) (simp add: seen_def)
next
  case (snoc e es)
  let ?A = "newest re_addTime es" and ?D = "newest re_delTime es"
  have "?A > 0 \<Longrightarrow> ?A \<noteq> ?D" "re_addTime e > 0 \<Longrightarrow> re_addTime e \<noteq> ?D" "?A > 0 \<Longrightarrow> ?A \<noteq> re_delTime e"
    "re_addTime e > 0 \<Longrightarrow> re_addTime e \<noteq> re_delTime e"
    using snoc.prems newest_attained [of re_addTime es] newest_attained [of re_delTime es] by fastforce+
  moreover have nn: "0 \<le> ?A" "0 \<le> ?D"
    by (rule newest_nonneg)+
  ultimately have "sieve_times e (seen ?A ?D s) = seen (max ?A (re_addTime e)) (max ?D (re_delTime e)) s"
    by (intro sieve_times_seen)
  moreover have "newest re_addTime (es @ [e]) = max ?A (re_addTime e)" "newest re_delTime (es @ [e]) = max ?D (re_delTime e)"
    using nn by (auto simp: max_def)
  ultimately show ?case
    using snoc by simp
qed

lemma sieve_times_keeps [simp]:
  "es_started (sieve_times e s) = es_started s" "es_currentLid (sieve_times e s) = es_currentLid s"
  "es_result (sieve_times e s) = es_result s"
  by (simp_all add: sieve_times_def Let_def)

lemma sieve_all_append: "sieve_all v t ix (xs @ ys) s = fbind (sieve_all v t ix xs s) (sieve_all v t ix ys)"
  by (induction xs arbitrary: s) (auto simp: fbind_def split: sum.splits)

lemma sieve_all_filter: "sieve_all v t ix (filter (isEntryVisible v t ix) es) = sieve_all v t ix es"
proof (induction es)
  case (Cons e es)
  then show ?case
    by (intro ext) (simp add: sieve_add_def)
qed (simp add: fun_eq_iff)

lemma sieve_all_run:
  assumes "\<forall>e\<in>set es. isEntryVisible v t ix e \<and> re_logicalID e = l" "es_started s" "es_currentLid s = Some l"
  shows "sieve_all v t ix es s = Inr (fold sieve_times es s)"
  using assms by (induction es arbitrary: s) (auto simp: sieve_add_def)

lemma sieve_all_new_object:
  assumes "isEntryVisible v t ix e" "es_started s" "es_currentLid s = Some l" "re_logicalID e \<noteq> l"
  shows "sieve_all v t ix (e # es) s = fbind (pushLatest s) (\<lambda>s. sieve_all v t ix (e # es) (stateReset e s))"
proof -
  have "es_started s'" if "pushLatest s = Inr s'" for s'
    using that assms(2) by (auto simp: pushLatest_def split: option.splits bool.splits)
  then show ?thesis
    using assms by (cases "pushLatest s") (auto simp: sieve_add_def stateReset_def)
qed

lemma times_ok_split:
  assumes "times_ok (e # es)"
  defines "r \<equiv> e # takeWhile (\<lambda>x. re_logicalID x = re_logicalID e) es"
    and "rest \<equiv> dropWhile (\<lambda>x. re_logicalID x = re_logicalID e) es"
  shows "e # es = r @ rest" "times_ok rest" "\<forall>x\<in>set r. re_logicalID x = re_logicalID e"
    "\<forall>x\<in>set r. \<forall>y\<in>set r. re_addTime x > 0 \<longrightarrow> re_addTime x \<noteq> re_delTime y"
    "newest re_addTime r \<noteq> 0 \<or> newest re_delTime r \<noteq> 0"
proof -
  show 1: "e # es = r @ rest" and 2: "\<forall>x\<in>set r. re_logicalID x = re_logicalID e"
    by (auto simp: r_def rest_def dest: set_takeWhileD)
  have sub: "set r \<subseteq> set (e # es)" "set rest \<subseteq> set (e # es)"
    unfolding 1 by auto
  have tie: "re_addTime x \<noteq> re_delTime y"
    if "x \<in> set (e # es)" "y \<in> set (e # es)" "re_addTime x > 0" "re_logicalID x = re_logicalID y" for x y
    using assms(1) that unfolding times_ok_def by blast
  show "\<forall>x\<in>set r. \<forall>y\<in>set r. re_addTime x > 0 \<longrightarrow> re_addTime x \<noteq> re_delTime y"
  proof (intro ballI impI)
    fix x y assume "x \<in> set r" "y \<in> set r" "re_addTime x > 0"
    then show "re_addTime x \<noteq> re_delTime y"
      using 2 by (intro tie subsetD [OF sub(1)]) simp_all
  qed
  have "set (runs rest) \<subseteq> set (runs (e # es))"
    by (auto simp: rest_def)
  then show "times_ok rest"
    using assms(1) tie sub(2) unfolding times_ok_def by blast
  show "newest re_addTime r \<noteq> 0 \<or> newest re_delTime r \<noteq> 0"
    using assms(1) unfolding times_ok_def by (auto simp: r_def)
qed

lemma sieve_from_reset:
  assumes "\<And>s l b. es_started s \<Longrightarrow> es_currentLid s = Some l \<Longrightarrow> es_removed s = Some b
      \<Longrightarrow> (rest \<noteq> [] \<Longrightarrow> re_logicalID (hd rest) \<noteq> l)
      \<Longrightarrow> fbind (sieve_all v t ix rest s) sieve_getResult = Inr (es_result s @ (if b then [] else [lid_new l]) @ sieve_spec rest)"
    and "times_ok (e # es)" "\<forall>x\<in>set (e # es). isEntryVisible v t ix x" "es_started s"
    and rest: "rest = dropWhile (\<lambda>x. re_logicalID x = re_logicalID e) es"
  shows "fbind (sieve_all v t ix (e # es) (stateReset e s)) sieve_getResult = Inr (es_result s @ sieve_spec (e # es))"
proof -
  let ?r = "e # takeWhile (\<lambda>x. re_logicalID x = re_logicalID e) es"
  note S = times_ok_split [OF assms(2), folded rest]
  let ?s = "seen (newest re_addTime ?r) (newest re_delTime ?r) (stateReset e s)"
  have "\<forall>x\<in>set ?r. isEntryVisible v t ix x \<and> re_logicalID x = re_logicalID e"
    using assms(3) S(3) by (metis S(1) Un_iff set_append)
  then have "sieve_all v t ix ?r (stateReset e s) = Inr (fold sieve_times ?r (stateReset e s))"
    by (rule sieve_all_run) (use assms(4) in \<open>simp_all add: stateReset_def\<close>)
  also have "fold sieve_times ?r (stateReset e s) = ?s"
    by (rule sieve_times_fold [OF _ S(4)]) (simp add: stateReset_def)
  finally have run: "sieve_all v t ix ?r (stateReset e s) = Inr ?s" .
  have "fbind (sieve_all v t ix (e # es) (stateReset e s)) sieve_getResult = fbind (sieve_all v t ix rest ?s) sieve_getResult"
    unfolding S(1) sieve_all_append run by simp
  also have "\<dots> = Inr (es_result ?s @ (if \<not> present ?r then [] else [lid_new (re_logicalID e)]) @ sieve_spec rest)"
    using assms(4) S(5) hd_dropWhile [of "\<lambda>x. re_logicalID x = re_logicalID e" es]
    by (intro assms(1)) (auto simp: seen_def stateReset_def present_def rest)
  finally show ?thesis
    by (simp add: seen_def stateReset_def sieve_spec_def rest)
qed

lemma sieve_later:
  assumes "times_ok es" "\<forall>x\<in>set es. isEntryVisible v t ix x" "es_started s" "es_currentLid s = Some l" "es_removed s = Some b"
    "es \<noteq> [] \<Longrightarrow> re_logicalID (hd es) \<noteq> l"
  shows "fbind (sieve_all v t ix es s) sieve_getResult = Inr (es_result s @ (if b then [] else [lid_new l]) @ sieve_spec es)"
  using assms
proof (induction es arbitrary: s l b rule: runs.induct)
  case 1
  then show ?case
    by (auto simp: sieve_getResult_def pushLatest_def sieve_spec_def)
next
  case (2 e es)
  let ?rest = "dropWhile (\<lambda>x. re_logicalID x = re_logicalID e) es"
  have vis: "\<forall>x\<in>set ?rest. isEntryVisible v t ix x"
    using 2(3) by (auto dest: set_dropWhileD)
  have r: "fbind (sieve_all v t ix (e # es) (stateReset e s)) sieve_getResult = Inr (es_result s @ sieve_spec (e # es))"
    if "es_started s" for s
  proof (rule sieve_from_reset [OF _ 2(2,3) that refl])
    show "fbind (sieve_all v t ix ?rest s) sieve_getResult = Inr (es_result s @ (if b then [] else [lid_new l]) @ sieve_spec ?rest)"
      if s: "es_started s" "es_currentLid s = Some l" "es_removed s = Some b" "?rest \<noteq> [] \<Longrightarrow> re_logicalID (hd ?rest) \<noteq> l" for s l b
      by (rule "2.IH" [OF times_ok_split(2) [OF 2(2)] vis s])
  qed
  have "pushLatest s = Inr (s\<lparr>es_result := es_result s @ (if b then [] else [lid_new l])\<rparr>)"
    using 2(4-6) by (cases s) (auto simp: pushLatest_def)
  then show ?case
    using 2 r [of "s\<lparr>es_result := es_result s @ (if b then [] else [lid_new l])\<rparr>"]
    by (subst sieve_all_new_object) auto
qed

text \<open>(C34) The sieve computes the objects whose newest visible change is an addition, each once, in the order of the entries. It
  reads nothing that was not written.\<close>

theorem sieve_correct:
  assumes "times_ok (filter (isEntryVisible v t ix) es)"
  shows "sieve v t ix garbage es = Inr (sieve_spec (filter (isEntryVisible v t ix) es))"
proof -
  let ?es = "filter (isEntryVisible v t ix) es"
  have "fbind (sieve_all v t ix ?es (EntrySieve_new garbage)) sieve_getResult = Inr (sieve_spec ?es)"
  proof (cases ?es)
    case Nil
    then show ?thesis
      by (simp add: EntrySieve_new_def sieve_getResult_def sieve_spec_def)
  next
    case (Cons e xs)
    have vis: "\<forall>x\<in>set (e # xs). isEntryVisible v t ix x"
      unfolding Cons [symmetric] by simp
    have "sieve_all v t ix (e # xs) (EntrySieve_new garbage)
        = sieve_all v t ix (e # xs) (stateReset e (EntrySieve_new garbage\<lparr>es_started := True\<rparr>))"
      using vis by (simp add: sieve_add_def EntrySieve_new_def stateReset_def)
    also have "fbind \<dots> sieve_getResult = Inr (es_result (EntrySieve_new garbage\<lparr>es_started := True\<rparr>) @ sieve_spec (e # xs))"
    proof (rule sieve_from_reset [OF _ assms [unfolded Cons] vis _ refl])
      let ?rest = "dropWhile (\<lambda>x. re_logicalID x = re_logicalID e) xs"
      have r: "\<forall>x\<in>set ?rest. isEntryVisible v t ix x"
        using vis by (auto dest: set_dropWhileD)
      show "fbind (sieve_all v t ix ?rest s) sieve_getResult = Inr (es_result s @ (if b then [] else [lid_new l]) @ sieve_spec ?rest)"
        if s: "es_started s" "es_currentLid s = Some l" "es_removed s = Some b" "?rest \<noteq> [] \<Longrightarrow> re_logicalID (hd ?rest) \<noteq> l" for s l b
        by (rule sieve_later [OF times_ok_split(2) [OF assms [unfolded Cons]] r s])
    qed simp_all
    finally show ?thesis
      by (simp add: Cons EntrySieve_new_def)
  qed
  then show ?thesis
    by (simp add: sieve_def sieve_all_filter)
qed

theorem sieve_correct_witness:
  "sieve VisibilityResolver_new \<lparr>tid_id = 5, tid_priority = 5, tid_sessionId = 0, tid_timeStamp = 9\<rparr> 7 0
     [\<lparr>re_addTime = 3, re_delTime = -1, re_modyfierTransactionId = -1, re_logicalID = 40\<rparr>,
      \<lparr>re_addTime = -1, re_delTime = 8, re_modyfierTransactionId = 6, re_logicalID = 40\<rparr>,
      \<lparr>re_addTime = 4, re_delTime = -1, re_modyfierTransactionId = -1, re_logicalID = 41\<rparr>,
      \<lparr>re_addTime = -1, re_delTime = 9, re_modyfierTransactionId = 5, re_logicalID = 41\<rparr>]
   = Inr [lid_new 40]"
  using sieve_correct [of VisibilityResolver_new "\<lparr>tid_id = 5, tid_priority = 5, tid_sessionId = 0, tid_timeStamp = 9\<rparr>" 7
     "[\<lparr>re_addTime = 3, re_delTime = -1, re_modyfierTransactionId = -1, re_logicalID = 40\<rparr>,
      \<lparr>re_addTime = -1, re_delTime = 8, re_modyfierTransactionId = 6, re_logicalID = 40\<rparr>,
      \<lparr>re_addTime = 4, re_delTime = -1, re_modyfierTransactionId = -1, re_logicalID = 41\<rparr>,
      \<lparr>re_addTime = -1, re_delTime = 9, re_modyfierTransactionId = 5, re_logicalID = 41\<rparr>]" 0]
  by (simp add: isEntryVisible_def indexVisible_def isVisible_def isRolledBack_def isBeyondHorizon_def VisibilityResolver_new_def
      ROLLED_BACK_def BEYOND_HORIZON_def s32_def times_ok_def sieve_spec_def present_def)

end
