(* ===== verification/Spec2Isabelle.thy ===== *)
theory Spec2Isabelle
  imports TransactionProperties CommitWindow LockSteps EntrySieves
begin

text \<open>
  Verification of the storage core of LoXiM, an object database server written in C++ (under
  \<^verbatim>\<open>src/src\<close>).

  \<^bold>\<open>The program.\<close> A server process evaluates queries. The query executor works through transactions
  (\<^verbatim>\<open>TransactionManager\<close>), which take locks (\<^verbatim>\<open>Lock\<close>), write a log (\<^verbatim>\<open>Log\<close>) and call the store
  (\<^verbatim>\<open>Store\<close>). The store keeps objects under logical identifiers. An object is serialised and put into a slot of
  a page of the default file; a second file maps logical identifiers to page and slot; five more files hold the
  registries of roots, views, classes, interfaces and schemas, whose entries carry the transaction that
  changed them. All files are read and written through one buffer pool.

  \<^bold>\<open>The theories\<close>, in the order in which each uses the ones before it:

  \<^item> \<^verbatim>\<open>Prelude\<close>: machine integers (\<open>u8\<close>, \<open>u16\<close>, \<open>u32\<close>, \<open>s32\<close> on \<^typ>\<open>int\<close>, with the wrap-around
    written out), little-endian fields of a byte memory, collections of simplification rules.
  \<^item> \<^verbatim>\<open>StoreTypes\<close>, \<^verbatim>\<open>LogicalIDs\<close>: constants of \<^verbatim>\<open>Store/Struct.h\<close>, physical and logical identifiers, the byte
    buffer \<^verbatim>\<open>Serialized\<close> of \<^verbatim>\<open>Store/Misc.cpp\<close>, sets of identifiers.
  \<^item> \<^verbatim>\<open>DataValues\<close>, \<^verbatim>\<open>ObjectPointers\<close>: \<^verbatim>\<open>Store/DBDataValue.cpp\<close> and \<^verbatim>\<open>Store/DBObjectPointer.cpp\<close>. Serialising and
    reading back is the identity and consumes exactly the bytes written; class marks behave as sets.
  \<^item> \<^verbatim>\<open>SlottedPages\<close>: the pages of objects (\<^verbatim>\<open>Store/PageManager.cpp\<close>, the page part of \<^verbatim>\<open>deleteObject\<close>), on the
    bytes of the page. A page is related to the list of its slots; insertion, deletion and reading refine the
    operations on that list.
  \<^item> \<^verbatim>\<open>BufferPool\<close>: \<^verbatim>\<open>Store/File.cpp\<close>, \<^verbatim>\<open>Store/Buffer.cpp\<close>, \<^verbatim>\<open>Store/PagePointer.cpp\<close>. The state is the record
    \<open>bufpool\<close> (cache, lock counts, dirty flags, disk). The abstract view of a pool is the contents of every page
    of every file; the lemmas show what each operation does to this view and when a change is on the disk.
  \<^item> \<^verbatim>\<open>IdMap\<close>: \<^verbatim>\<open>Store/Map.cpp\<close>, the map from logical to physical identifiers.
  \<^item> \<^verbatim>\<open>ObjectStore\<close>: \<^verbatim>\<open>createObject\<close>, \<^verbatim>\<open>getObject\<close>, \<^verbatim>\<open>deleteObject\<close> and \<^verbatim>\<open>modifyObject\<close> of \<^verbatim>\<open>Store/DBStoreManager.cpp\<close>
    with the free map of \<^verbatim>\<open>Store/PageManager.cpp\<close>. They refine the operations on a finite map from identifiers to
    objects (\<open>store_rep\<close>), on every branch, errors included; \<^verbatim>\<open>getObject\<close> with the index marker that it sets.
  \<^item> \<^verbatim>\<open>NamedItems\<close>: the definitions of \<^verbatim>\<open>Store/NamedItems.cpp\<close>, \<^verbatim>\<open>Classes.cpp\<close>, \<^verbatim>\<open>Interfaces.cpp\<close>, \<^verbatim>\<open>Views.cpp\<close> on the
    bytes of the pages. \<^verbatim>\<open>EntryPages\<close> relates a page to a list of entries, \<^verbatim>\<open>Registries\<close> a file to the list of
    the entries of all its pages, and the locale \<open>page_scan\<close> proves the loop over the pages once for all the scans.
  \<^item> \<^verbatim>\<open>RegistryContract\<close>: what a registry promises to a transaction, as the locale \<open>registry_laws\<close>, interpreted for
    roots, schemas, classes and views.
  \<^item> \<^verbatim>\<open>StoreRegistries\<close>: the operations of \<^verbatim>\<open>Store/DBStoreManager.cpp\<close> on the registries, start and stop of the store.
  \<^item> \<^verbatim>\<open>RegistryProperties\<close>: the theorems on the registries and on their composition with the objects.
  \<^item> \<^verbatim>\<open>Semaphores\<close>: the two monitors \<^verbatim>\<open>RWSemaphore\<close> and \<^verbatim>\<open>RWUJSemaphore\<close> of \<^verbatim>\<open>Util/Concurrency.cpp\<close>, each operation as a
    function to an \<open>outcome\<close> (assertion failed, exception, return, wait). \<^verbatim>\<open>SemaphoreSystem\<close>: threads that use a semaphore,
    as a step relation. \<^verbatim>\<open>SemaphoreProperties\<close>: the locale \<open>monitor\<close>, interpreted for both semaphores, shows that no assertion
    fails, that writers exclude everyone else, that the 16-bit counters count the threads, and that every waiting thread gets in.
  \<^item> \<^verbatim>\<open>LockManager\<close>: \<^verbatim>\<open>Lock/Lock.cpp\<close>, \<^verbatim>\<open>Lock/SingleLock.cpp\<close>, \<^verbatim>\<open>Lock/Comparator.cpp\<close>. \<^verbatim>\<open>LockSystem\<close>: transactions that take
    and release locks, as a step relation. \<^verbatim>\<open>LockScenarios\<close>: runs in which upgrades break exclusion and in which a deadlock
    arises. \<^verbatim>\<open>LockProperties\<close>: the invariant of calls that are not interrupted, without upgrades. \<^verbatim>\<open>LockSteps\<close>: the calls split
    into the sections that the code protects with the mutexes of the manager and of the lock, and the semaphore calls between
    them, with any other thread running in between. Locks are exclusive and no deleted lock is used, until a release decides
    to delete a lock that another transaction has found and not yet counted itself in; a run shows that this can happen. The
    uninterrupted calls are runs of their sections (\<open>uninterrupted_reachable\<close>).

  \<^item> \<^verbatim>\<open>LogRecords\<close>: the records of the log (\<^verbatim>\<open>Log/LogRecord.cpp\<close>) and their bytes (\<^verbatim>\<open>Log/LogIO.cpp\<close>). The locale
    \<open>stream_codec\<close> states that a reader undoes a writer; it is interpreted for integers, strings, identifiers and values.
  \<^item> \<^verbatim>\<open>TransactionLog\<close>: the log manager with the queue of its thread (\<^verbatim>\<open>Log/Logs.cpp\<close>, \<^verbatim>\<open>Log/LogThread.cpp\<close>) and undo and
    redo of every record. \<^verbatim>\<open>Rollback\<close>: undoing a transaction restores the objects it has written. \<^verbatim>\<open>CrashRecovery\<close>: the phases
    of \<^verbatim>\<open>Log/CrashRecovery.cpp\<close>; recovery undoes the transactions without a commit record after the checkpoint and repeats the others.
  \<^item> \<^verbatim>\<open>IndexVisibility\<close>: \<^verbatim>\<open>Indexes/VisibilityResolver.cpp\<close> and the ring of \<^verbatim>\<open>Indexes/TransactionImpact.cpp\<close> in a heap.
    \<^verbatim>\<open>VisibilityProperties\<close>: transactions that use it, as a step relation; what a transaction sees was committed before it began,
    and runs in which the horizon moves back or too far. \<^verbatim>\<open>EntrySieves\<close>: the selection of the objects of a lookup
    (\<^verbatim>\<open>Indexes/EntrySieve.cpp\<close>) against a specification on lists. \<^verbatim>\<open>IndexMetadata\<close>: the file of
    \<^verbatim>\<open>Indexes/NonloggedDataSerializer.cpp\<close>.
  \<^item> \<^verbatim>\<open>StoreCalls\<close>: the type \<open>call\<close> of calls that may wait, and the state \<open>tmanager\<close> that brings log, store, locks, semaphores
    and resolver together. \<^verbatim>\<open>IndexUpdates\<close>: how indexes follow the changes of objects (\<^verbatim>\<open>Indexes/Metadata.cpp\<close>).
    \<^verbatim>\<open>TransactionManager\<close>: all of \<^verbatim>\<open>TransactionManager/Transaction.cpp\<close>. \<^verbatim>\<open>TransactionCalls\<close>: its operations as one interface of
    requests. \<^verbatim>\<open>CallFrames\<close>: the locale \<open>call_frame\<close>, interpreted for the semaphores and for what belongs to other
    transactions. \<^verbatim>\<open>TransactionEnd\<close>: commit and abort through all components. \<^verbatim>\<open>CommitWindow\<close>: a commit, a
    checkpoint of the cache writer inside it, and the recovery that undoes it. \<^verbatim>\<open>CreateDeadlock\<close>: a deadlock between
    the store semaphore and a lock. \<^verbatim>\<open>TransactionProperties\<close>: what holds for every request.

  \<^bold>\<open>Modelling.\<close> Stateful code passes the record \<open>storage\<close> explicitly. A dereference of a null pointer or a use
  of uninitialised memory is a value of the type \<open>fault\<close> on the left of a sum. Integers keep their width. The loops
  over the pages of a registry have no bound in the code; they are \<open>partial_function (option)\<close>, where a loop that does
  not end is \<^term>\<open>None\<close>, and the theorems state that they end.

  \<^bold>\<open>Bounds.\<close> A store holds at most 10000000 identifiers in the theorems (a bound in \<open>store_at\<close>). It keeps the pages of the map of
  identifiers far from number 65536, where two pages share one entry of the cache (\<open>page_alias\<close>), and below \<open>MAP_LIMIT\<close>, the last
  identifier whose page has a number below 65536. Objects have to fit on a page
  (\<open>has_room\<close>), since \<^verbatim>\<open>createObject\<close> ignores the failure to insert.

  The theorems on semaphores and locks are for up to 65535 threads or transactions (the counters have 16 bits) with different
  priorities; without that bound an assertion of the code fails or a counter wraps (\<open>writers_wrap\<close>). The counters of a lock are \<^typ>\<open>int\<close> without
  wrap-around: an overflow would need two billion requests. A condition variable wakes only threads that were signalled.
  In \<open>LockSystem\<close>, on which the theorems about commit and abort rest, a call of the lock manager is interleaved with other calls only
  where it waits; \<open>LockSteps\<close> has all interleavings of its sections, each of them atomic.

  Undoing or repeating a record needs one empty page of the default file in the theorems on rollback and recovery, and recovery
  starts from the objects at the last completed checkpoint. The loops over the log
  are \<open>partial_function (option)\<close> too; the theorems state that they end.

  \<^bold>\<open>Not modelled.\<close> System views and the round-robin statistics (reflection over counters and an external
  database) are a parameter of \<open>getObject\<close>. The log file can always be opened, written and positioned; backups are left out. Mutexes around the operations of the buffer are left out: the
  operations are the critical sections. The trees of the indexes are a parameter of
  their maintenance (\<open>tree_addEntry\<close>), and so is the reading of the data model at the beginning of a transaction (\<open>dml_init\<close>, from
  \<^verbatim>\<open>TypeCheck/DMLControl.cpp\<close>). The mutex of the list of transactions is left out: its critical sections do not
  wait. The query executor, the type checker and the optimiser of queries work on trees of the
  generated parser and are not modelled. The query parser is generated; sockets, clients, configuration and
  statistics are input and output.
\<close>

end
